(* ===== verification/Prelude.thy ===== *)
theory Prelude
  imports Main "HOL-Library.Word" "HOL-Library.List_Lexorder" "HOL-Library.Char_ord"
begin

text \<open>
  Shared vocabulary of the development: bytes and little-endian integers, the C locale's
  character classes, the parts of \<open>std::string\<close> and \<open><cstdlib>\<close> that the sources call
  (\<open>find\<close>, \<open>substr\<close>, \<open>getline\<close>, \<open>strtol\<close>, \<open>strtoul\<close>, \<open>atoi\<close>, \<open>to_string\<close>), and the
  generic list lemmas the component theories rely on. A C++ \<open>std::string\<close> and a C string are
  a \<^typ>\<open>string\<close>; a raw byte of a file is a \<open>byte\<close>.
\<close>

named_theorems str_simps \<open>rewriting of the string searches to list operations\<close>
named_theorems byte_simps \<open>sizes and decoding of little-endian byte runs\<close>

section \<open>Bytes and little-endian integers\<close>

type_synonym byte = "8 word"
type_synonym u16 = "16 word"
type_synonym u32 = "32 word"

primrec le_bytes :: "nat \<Rightarrow> nat \<Rightarrow> byte list" where
  "le_bytes 0 v = []"
| "le_bytes (Suc n) v = word_of_nat v # le_bytes n (v div 256)"

primrec le_nat :: "byte list \<Rightarrow> nat" where
  "le_nat [] = 0"
| "le_nat (b # bs) = unat b + 256 * le_nat bs"

lemma length_le_bytes [simp, byte_simps]: "length (le_bytes n v) = n"
  by (induction n arbitrary: v) auto

lemma unat_byte_of_nat [byte_simps]: "unat (word_of_nat v :: byte) = v mod 256"
  by (simp add: unat_of_nat)

lemma le_nat_le_bytes [byte_simps]: "le_nat (le_bytes n v) = v mod 256 ^ n"
proof (induction n arbitrary: v)
  case 0
  then show ?case by simp
next
  case (Suc n)
  have "v mod (256 * 256 ^ n) = 256 * (v div 256 mod 256 ^ n) + v mod 256"
    by (rule mod_mult2_eq)
  with Suc show ?case by (simp add: unat_of_nat)
qed

lemma le_nat_bound: "le_nat bs < 256 ^ length bs"
proof (induction bs)
  case Nil
  then show ?case by simp
next
  case (Cons b bs)
  have "unat b < 256" using unsigned_less [of b, where ?'a = nat] by simp
  with Cons show ?case by simp
qed

lemma le_nat_append [byte_simps]: "le_nat (xs @ ys) = le_nat xs + 256 ^ length xs * le_nat ys"
  by (induction xs) (auto simp: algebra_simps)

lemma le_bytes_le_nat [byte_simps]: "le_bytes (length bs) (le_nat bs) = bs"
proof (induction bs)
  case Nil
  then show ?case by simp
next
  case (Cons b bs)
  have u: "unat b < 256" using unsigned_less [of b, where ?'a = nat] by simp
  have "word_of_nat (unat b + 256 * le_nat bs) = b"
  proof (rule word_unat_eq_iff [THEN iffD2])
    show "unat (word_of_nat (unat b + 256 * le_nat bs) :: byte) = unat b"
      using u by (simp only: unat_of_nat) simp
  qed
  moreover have "(unat b + 256 * le_nat bs) div 256 = le_nat bs"
    using u by simp
  ultimately show ?case using Cons by simp
qed

definition bytes_of_string :: "string \<Rightarrow> byte list" where
  "bytes_of_string s = map (\<lambda>c. word_of_nat (of_char c)) s"

definition string_of_bytes :: "byte list \<Rightarrow> string" where
  "string_of_bytes bs = map (\<lambda>b. char_of (unat b)) bs"

lemma length_bytes_of_string [simp, byte_simps]: "length (bytes_of_string s) = length s"
  by (simp add: bytes_of_string_def)

lemma length_string_of_bytes [simp, byte_simps]: "length (string_of_bytes s) = length s"
  by (simp add: string_of_bytes_def)

lemma char_of_byte: "char_of (unat (word_of_nat (of_char c) :: byte)) = c"
  using nat_of_char_less_256 [of c] by (simp add: unat_of_nat)

lemma byte_of_char_of: "word_of_nat (of_char (char_of (unat b) :: char)) = (b :: byte)"
proof -
  have "unat b < 256" using unsigned_less [of b, where ?'a = nat] by simp
  then show ?thesis by simp
qed

lemma string_of_bytes_of_string [simp, byte_simps]: "string_of_bytes (bytes_of_string s) = s"
  by (induction s) (simp_all add: string_of_bytes_def bytes_of_string_def char_of_byte)

lemma bytes_of_string_of_bytes [simp, byte_simps]: "bytes_of_string (string_of_bytes s) = s"
  by (induction s) (simp_all add: string_of_bytes_def bytes_of_string_def byte_of_char_of
      del: unat_of_nat of_char_of)

section \<open>The C locale's character classes\<close>

definition char_code :: "char \<Rightarrow> nat" where
  "char_code c = of_char c"

definition isspace :: "char \<Rightarrow> bool" where
  "isspace c \<longleftrightarrow> char_code c = 32 \<or> 9 \<le> char_code c \<and> char_code c \<le> 13"

definition isdigit :: "char \<Rightarrow> bool" where
  "isdigit c \<longleftrightarrow> 48 \<le> char_code c \<and> char_code c \<le> 57"

definition isupper :: "char \<Rightarrow> bool" where
  "isupper c \<longleftrightarrow> 65 \<le> char_code c \<and> char_code c \<le> 90"

definition islower :: "char \<Rightarrow> bool" where
  "islower c \<longleftrightarrow> 97 \<le> char_code c \<and> char_code c \<le> 122"

definition isalnum :: "char \<Rightarrow> bool" where
  "isalnum c \<longleftrightarrow> isdigit c \<or> isupper c \<or> islower c"

definition tolower :: "char \<Rightarrow> char" where
  "tolower c = (if isupper c then char_of (char_code c + 32) else c)"

lemmas ctype_defs = char_code_def isspace_def isdigit_def isupper_def islower_def isalnum_def

lemma char_code_char_of [simp]: "n < 256 \<Longrightarrow> char_code (char_of n) = n"
  by (simp add: char_code_def)

lemma char_code_less [simp]: "char_code c < 256"
  by (simp add: char_code_def)

lemma char_code_inject [simp]: "char_code c = char_code d \<longleftrightarrow> c = d"
  by (simp add: char_code_def)

lemma char_code_tolower: "char_code (tolower c) = (if isupper c then char_code c + 32 else char_code c)"
  by (simp add: tolower_def isupper_def)

lemma tolower_tolower [simp]: "tolower (tolower c) = tolower c"
proof (cases "isupper c")
  case True
  then have "\<not> isupper (tolower c)"
    by (simp add: isupper_def char_code_tolower)
  then show ?thesis by (simp add: tolower_def [of "tolower c"])
next
  case False
  then show ?thesis by (simp add: tolower_def)
qed

lemma isalnum_tolower [simp]: "isalnum (tolower c) = isalnum c"
  by (auto simp: isalnum_def isdigit_def isupper_def islower_def char_code_tolower)

lemma isdigit_not_space: "isdigit c \<Longrightarrow> \<not> isspace c"
  by (auto simp: ctype_defs)

section \<open>Searching and cutting strings\<close>

text \<open>\<open>std::string::find\<close>; \<^term>\<open>None\<close> is \<open>npos\<close>.\<close>

primrec find_char :: "char \<Rightarrow> string \<Rightarrow> nat option" where
  "find_char c [] = None"
| "find_char c (x # xs) = (if x = c then Some 0 else map_option Suc (find_char c xs))"

primrec find_sub :: "string \<Rightarrow> string \<Rightarrow> nat option" where
  "find_sub p [] = (if p = [] then Some 0 else None)"
| "find_sub p (x # xs) =
     (if take (length p) (x # xs) = p then Some 0 else map_option Suc (find_sub p xs))"

lemma find_char_None [str_simps]: "find_char c s = None \<longleftrightarrow> c \<notin> set s"
  by (induction s) auto

lemma find_char_Some_iff:
  "find_char c s = Some i \<longleftrightarrow> i < length s \<and> s ! i = c \<and> c \<notin> set (take i s)"
proof (induction s arbitrary: i)
  case Nil
  then show ?case by simp
next
  case (Cons x xs)
  then show ?case by (cases i) auto
qed

lemma find_char_append [str_simps]: "c \<notin> set xs \<Longrightarrow> find_char c (xs @ c # ys) = Some (length xs)"
  by (induction xs) auto

lemma find_char_notin [str_simps]: "c \<notin> set s \<Longrightarrow> find_char c s = None"
  by (simp add: find_char_None)

lemma find_char_split:
  assumes "find_char c s = Some i"
  shows "s = take i s @ c # drop (Suc i) s" and "c \<notin> set (take i s)"
  using assms by (auto simp: find_char_Some_iff id_take_nth_drop [symmetric])

lemma find_sub_Some:
  "find_sub p s = Some i \<Longrightarrow> take (length p) (drop i s) = p \<and> i \<le> length s"
proof (induction s arbitrary: i)
  case Nil
  then show ?case by (auto split: if_splits)
next
  case (Cons x xs)
  then show ?case by (cases i) (auto split: if_splits)
qed

lemma find_sub_None:
  "find_sub p s = None \<longleftrightarrow> (\<forall>xs ys. s \<noteq> xs @ p @ ys)"
proof (induction s)
  case Nil
  then show ?case by simp
next
  case (Cons x s)
  show ?case
  proof (cases "take (length p) (x # s) = p")
    case True
    then have "x # s = [] @ p @ drop (length p) (x # s)"
      by (metis append_Nil append_take_drop_id)
    with True show ?thesis by (metis find_sub.simps(2) option.distinct(1))
  next
    case False
    have "x # s = xs @ p @ ys \<longleftrightarrow> (\<exists>xs'. xs = x # xs' \<and> s = xs' @ p @ ys)" for xs ys
      using False by (cases xs) auto
    with False Cons show ?thesis by auto
  qed
qed

text \<open>
  Repeated \<open>std::getline(stream, piece, d)\<close> until it fails: the pieces between delimiters; a
  last piece with no delimiter after it counts only when it is not empty.
\<close>

function getlines :: "char \<Rightarrow> string \<Rightarrow> string list" where
  "getlines d [] = []"
| "getlines d (x # xs) =
     takeWhile (\<lambda>c. c \<noteq> d) (x # xs) # getlines d (tl (dropWhile (\<lambda>c. c \<noteq> d) (x # xs)))"
  by pat_completeness auto
termination
proof (relation "measure (\<lambda>(d, s). length s)")
  fix d :: char and x xs
  have "length (dropWhile (\<lambda>c. c \<noteq> d) (x # xs)) \<le> Suc (length xs)"
    using length_dropWhile_le [of "\<lambda>c. c \<noteq> d" "x # xs"] by simp
  then show "((d, tl (dropWhile (\<lambda>c. c \<noteq> d) (x # xs))), (d, x # xs)) \<in> measure (\<lambda>(d, s). length s)"
    by simp
qed simp

lemma dropWhile_neq_notin [simp]: "d \<notin> set l \<Longrightarrow> dropWhile (\<lambda>c. c \<noteq> d) l = []"
  by (induction l) auto

lemma dropWhile_neq_append [simp]:
  "d \<notin> set l \<Longrightarrow> dropWhile (\<lambda>c. c \<noteq> d) (l @ d # r) = d # r"
  by (induction l) auto

lemma takeWhile_neq_append [simp]: "d \<notin> set l \<Longrightarrow> takeWhile (\<lambda>c. c \<noteq> d) (l @ d # r) = l"
  by (induction l) auto

lemma takeWhile_neq_notin [simp]: "d \<notin> set l \<Longrightarrow> takeWhile (\<lambda>c. c \<noteq> d) l = l"
  by (induction l) auto

lemma getlines_append [str_simps]:
  "d \<notin> set l \<Longrightarrow> getlines d (l @ d # rest) = l # getlines d rest"
proof (cases l)
  case Nil
  then show ?thesis by simp
next
  case (Cons x xs)
  moreover assume "d \<notin> set l"
  ultimately show ?thesis by auto
qed

lemma getlines_unterminated [str_simps]: "d \<notin> set l \<Longrightarrow> l \<noteq> [] \<Longrightarrow> getlines d l = [l]"
  by (cases l) auto

lemma getlines_concat:
  "\<forall>l \<in> set ls. d \<notin> set l \<Longrightarrow> getlines d (concat (map (\<lambda>l. l @ [d]) ls) @ rest) = ls @ getlines d rest"
  by (induction ls) (auto simp: str_simps)

lemma getlines_no_delim: "l \<in> set (getlines d s) \<Longrightarrow> d \<notin> set l"
  by (induction d s rule: getlines.induct) (auto dest: set_takeWhileD split: if_splits)

lemma cut_at: "x \<notin> set a \<Longrightarrow> x \<notin> set a' \<Longrightarrow> a @ x # b = a' @ x # b' \<Longrightarrow> a = a' \<and> b = b'"
proof (induction a arbitrary: a')
  case Nil
  then show ?case by (cases a') auto
next
  case (Cons y a)
  then show ?case by (cases a') auto
qed

section \<open>Decimal numbers\<close>

definition digit_val :: "char \<Rightarrow> nat" where
  "digit_val c = char_code c - 48"

definition digit_char :: "nat \<Rightarrow> char" where
  "digit_char d = char_of (48 + d)"

definition dec_nat :: "string \<Rightarrow> nat" where
  "dec_nat s = foldl (\<lambda>n c. 10 * n + digit_val c) 0 s"

text \<open>\<open>std::to_string\<close> of an unsigned value.\<close>

fun show_nat :: "nat \<Rightarrow> string" where
  "show_nat n = (if n < 10 then [digit_char n] else show_nat (n div 10) @ [digit_char (n mod 10)])"

declare show_nat.simps [simp del]

definition show_int :: "int \<Rightarrow> string" where
  "show_int i = (if i < 0 then CHR ''-'' # show_nat (nat (- i)) else show_nat (nat i))"

text \<open>
  \<open>strtol\<close> and \<open>strtoul\<close> in base 10: leading white space, an optional sign, the longest run of
  digits (0 when there is none), clamped to the 64-bit range; \<open>atoi\<close> is glibc's
  \<open>(int) strtol(s, NULL, 10)\<close>.
\<close>

definition scan_sign :: "string \<Rightarrow> bool \<times> string" where
  "scan_sign s = (case s of
       [] \<Rightarrow> (False, [])
     | c # r \<Rightarrow> if c = CHR ''-'' then (True, r) else if c = CHR ''+'' then (False, r) else (False, s))"

definition scan_dec :: "string \<Rightarrow> bool \<times> nat" where
  "scan_dec s = (let (neg, r) = scan_sign (dropWhile isspace s) in (neg, dec_nat (takeWhile isdigit r)))"

definition strtol :: "string \<Rightarrow> int" where
  "strtol s = (let (neg, n) = scan_dec s
     in if neg then max (- (2 ^ 63)) (- int n) else min (2 ^ 63 - 1) (int n))"

definition strtoul :: "string \<Rightarrow> nat" where
  "strtoul s = (let (neg, n) = scan_dec s
     in if 2 ^ 64 \<le> n then 2 ^ 64 - 1 else if neg then (2 ^ 64 - n) mod 2 ^ 64 else n)"

definition atoi :: "string \<Rightarrow> int" where
  "atoi s = signed_take_bit 31 (strtol s)"

text \<open>\<open>std::stol\<close>; \<^term>\<open>None\<close> is an exception.\<close>

definition stol :: "string \<Rightarrow> int option" where
  "stol s = (let (neg, r) = scan_sign (dropWhile isspace s); ds = takeWhile isdigit r;
       v = (if neg then - int (dec_nat ds) else int (dec_nat ds))
     in if ds = [] \<or> v < - (2 ^ 63) \<or> v \<ge> 2 ^ 63 then None else Some v)"

text \<open>\<open>std::stoul\<close>.\<close>

definition stoul :: "string \<Rightarrow> nat option" where
  "stoul s = (let (neg, r) = scan_sign (dropWhile isspace s); ds = takeWhile isdigit r
     in if ds = [] \<or> 2 ^ 64 \<le> dec_nat ds then None else Some (strtoul s))"

lemma char_code_digit_char [simp]: "d < 10 \<Longrightarrow> char_code (digit_char d) = 48 + d"
  by (simp add: digit_char_def)

lemma digit_val_digit_char [simp]: "d < 10 \<Longrightarrow> digit_val (digit_char d) = d"
  by (simp add: digit_val_def)

lemma isdigit_digit_char [simp]: "d < 10 \<Longrightarrow> isdigit (digit_char d)"
  by (simp add: isdigit_def)

lemma dec_nat_Nil [simp]: "dec_nat [] = 0"
  by (simp add: dec_nat_def)

lemma dec_nat_snoc [simp]: "dec_nat (s @ [c]) = 10 * dec_nat s + digit_val c"
  by (simp add: dec_nat_def)

lemma dec_nat_show_nat [simp]: "dec_nat (show_nat n) = n"
proof (induction n rule: show_nat.induct)
  case (1 n)
  show ?case
  proof (cases "n < 10")
    case True
    then show ?thesis
      using dec_nat_snoc [of "[]"] by (simp add: show_nat.simps [of n])
  next
    case False
    with "1" show ?thesis by (simp add: show_nat.simps [of n])
  qed
qed

lemma show_nat_digits: "c \<in> set (show_nat n) \<Longrightarrow> isdigit c"
proof (induction n rule: show_nat.induct)
  case (1 n)
  then show ?case by (cases "n < 10") (auto simp: show_nat.simps [of n])
qed

lemma show_nat_nonempty [simp]: "show_nat n \<noteq> []"
  by (simp add: show_nat.simps [of n])

lemma show_int_chars: "c \<in> set (show_int v) \<Longrightarrow> c = CHR ''-'' \<or> isdigit c"
  by (auto simp: show_int_def show_nat_digits split: if_splits)

lemma show_int_nonempty: "show_int v \<noteq> []"
  by (simp add: show_int_def)

lemma takeWhile_digits_show_nat:
  assumes "\<And>c. c \<in> set (take 1 r) \<Longrightarrow> \<not> isdigit c"
  shows "takeWhile isdigit (show_nat n @ r) = show_nat n"
proof -
  have "takeWhile isdigit r = []" using assms by (cases r) auto
  then show ?thesis by (simp add: takeWhile_append2 show_nat_digits)
qed

lemma scan_dec_show_nat:
  assumes "\<And>c. c \<in> set (take 1 r) \<Longrightarrow> \<not> isdigit c"
  shows "scan_dec (show_nat n @ r) = (False, n)"
proof -
  obtain c cs where s: "show_nat n = c # cs" by (cases "show_nat n") auto
  then have d: "isdigit c" using show_nat_digits [of c n] by simp
  then have "\<not> isspace c" and "c \<noteq> CHR ''-''" and "c \<noteq> CHR ''+''"
    by (auto simp: isdigit_not_space) (auto simp: isdigit_def char_code_def)
  then show ?thesis
    using takeWhile_digits_show_nat [of r n, OF assms] dec_nat_show_nat [of n] s d
    by (simp add: scan_dec_def scan_sign_def)
qed

lemma strtoul_show_nat: "n < 2 ^ 64 \<Longrightarrow> strtoul (show_nat n) = n"
  using scan_dec_show_nat [of "[]" n] by (simp add: strtoul_def)

lemma atoi_show_nat:
  assumes "n < 2 ^ 31" and "\<And>c :: char. c \<in> set (take 1 r) \<Longrightarrow> \<not> isdigit c"
  shows "atoi (show_nat n @ r) = int n"
  using assms(1) scan_dec_show_nat [of r n, OF assms(2)]
  by (simp add: atoi_def strtol_def signed_take_bit_int_eq_self)

section \<open>Lists changed in one place\<close>

lemma sum_map_update:
  fixes f :: "'b \<Rightarrow> 'a::comm_monoid_add"
  shows "i < length xs \<Longrightarrow> sum_list (map f (xs[i := x])) + f (xs ! i) = sum_list (map f xs) + f x"
proof (induction xs arbitrary: i)
  case (Cons y ys)
  then show ?case by (cases i) (auto simp: add_ac)
qed simp

lemma length_filter_update:
  "i < length xs \<Longrightarrow> length (filter P (xs[i := x])) + of_bool (P (xs ! i)) = length (filter P xs) + of_bool (P x)"
proof (induction xs arbitrary: i)
  case (Cons y ys)
  then show ?case by (cases i) auto
qed simp

lemma map_update_same: "i < length xs \<Longrightarrow> f x = f (xs ! i) \<Longrightarrow> map f (xs[i := x]) = map f xs"
  by (metis list_update_id map_update nth_map)

lemma filter_map_update_same:
  "i < length xs \<Longrightarrow> P x = P (xs ! i) \<Longrightarrow> f x = f (xs ! i) \<Longrightarrow> map f (filter P (xs[i := x])) = map f (filter P xs)"
proof (induction xs arbitrary: i)
  case (Cons y ys)
  then show ?case by (cases i) auto
qed simp

lemma filter_inj_nth:
  "distinct (map f (filter P xs)) \<Longrightarrow> i < length xs \<Longrightarrow> j < length xs \<Longrightarrow> P (xs ! i) \<Longrightarrow> P (xs ! j) \<Longrightarrow>
    f (xs ! i) = f (xs ! j) \<Longrightarrow> i = j"
proof (induction xs arbitrary: i j)
  case (Cons y ys)
  have tail: "distinct (map f (filter P ys))" using Cons.prems(1) by (simp split: if_splits)
  have head: "f (ys ! m) \<noteq> f y" if "P y" "m < length ys" "P (ys ! m)" for m
    using Cons.prems(1) that by (auto simp: image_iff)
  show ?case
  proof (cases i)
    case 0
    with Cons.prems head [of "j - 1"] show ?thesis by (cases j) auto
  next
    case (Suc m)
    with Cons.prems head [of m] Cons.IH [OF tail, of m "j - 1"] show ?thesis by (cases j) auto
  qed
qed simp

section \<open>Runs of bounded length\<close>

text \<open>Each step of \<open>R\<close> lowers the weight under which the invariant holds.\<close>

lemma runs_bounded:
  fixes w :: nat
  assumes "(R ^^ k) s s'" and "I w s" and "\<And>s s' w. R s s' \<Longrightarrow> I w s \<Longrightarrow> \<exists>w' < w. I w' s'"
  shows "\<exists>w'. I w' s' \<and> w' + k \<le> w"
  using assms(1)
proof (induction k arbitrary: s')
  case 0
  then show ?case using assms(2) by auto
next
  case (Suc k)
  then obtain t where t: "(R ^^ k) s t" "R t s'" by auto
  then obtain w1 where w1: "I w1 t" "w1 + k \<le> w" using Suc.IH by blast
  then obtain w2 where "w2 < w1" "I w2 s'" using assms(3) [OF t(2)] by blast
  with w1(2) show ?case by (intro exI [of _ w2]) simp
qed

end
