(* ===== verification/V6_Disk.thy ===== *)
theory V6_Disk
  imports Prelude "HOL-Library.Monad_Syntax"
begin

text \<open>
  The block layer of the Unix v6 reader (\<open>unix-v6-filesystem/diskimg.c\<close>): reading and writing
  one 512-byte sector of an image file through \<open>lseek\<close>, \<open>read\<close> and \<open>write\<close>. The kernel's part is
  a script per sector: the \<open>read\<close> or \<open>write\<close> calls on it may first be interrupted, fail or move
  fewer bytes than asked; once the script is used up every call moves all it can. The interface
  \<open>block_device\<close> states what the file system layers above rely on.
\<close>

section \<open>The image file and the kernel's behaviour\<close>

datatype io_event =
    Interrupted          \<comment> \<open>the call returns -1 with \<open>EINTR\<close>\<close>
  | Io_error             \<comment> \<open>the call returns -1 with another \<open>errno\<close>\<close>
  | Partial nat          \<comment> \<open>the call moves at most this number of bytes plus one\<close>

record disk =
  image :: "byte list"
  reads :: "int \<Rightarrow> io_event list"
  writes :: "int \<Rightarrow> io_event list"

abbreviation sector_size :: nat where
  "sector_size \<equiv> 512"

section \<open>Reading a sector\<close>

text \<open>
  The loop of \<open>diskimg_readsector\<close>: \<open>rest\<close> is the image from the file position on, \<open>p\<close> the bytes
  already in the buffer (\<open>total\<close> is its length). A read of 0 bytes is the end of the image: the
  remainder of the buffer is zeroed.
\<close>

definition zero_fill :: "byte list \<Rightarrow> byte list" where
  "zero_fill p = p @ replicate (sector_size - length p) 0"

definition moved :: "nat \<Rightarrow> nat \<Rightarrow> nat \<Rightarrow> nat" where
  "moved k wanted available = min (min (Suc k) wanted) available"

lemma moved_none [simp]: "moved k w 0 = 0"
  by (simp add: moved_def)

fun read_loop :: "io_event list \<Rightarrow> byte list \<Rightarrow> byte list \<Rightarrow> byte list option" where
  "read_loop [] rest p = Some (zero_fill (p @ take (sector_size - length p) rest))"
| "read_loop (e # es) rest p =
     (if sector_size \<le> length p then Some p
      else case e of
        Interrupted \<Rightarrow> read_loop es rest p
      | Io_error \<Rightarrow> None
      | Partial k \<Rightarrow>
          if moved k (sector_size - length p) (length rest) = 0 then Some (zero_fill p)
          else read_loop es (drop (moved k (sector_size - length p) (length rest)) rest)
                 (p @ take (moved k (sector_size - length p) (length rest)) rest))"

definition diskimg_readsector :: "disk \<Rightarrow> int \<Rightarrow> byte list option" where
  "diskimg_readsector d sectorNum =
     (let off = sectorNum * int sector_size
      in if off < 0 then None
         else read_loop (reads d sectorNum) (drop (nat off) (image d)) [])"

text \<open>The sector the reader is meant to return: the image's bytes, zeros past its end.\<close>

definition sector_of :: "byte list \<Rightarrow> nat \<Rightarrow> byte list" where
  "sector_of img n = zero_fill (take sector_size (drop (sector_size * n) img))"

lemma length_zero_fill [simp]: "length p \<le> sector_size \<Longrightarrow> length (zero_fill p) = sector_size"
  by (simp add: zero_fill_def)

lemma length_sector_of [simp]: "length (sector_of img n) = sector_size"
  by (simp add: sector_of_def)

lemma zero_fill_replicate:
  "length p + j \<le> sector_size \<Longrightarrow> zero_fill (p @ replicate j 0) = zero_fill p"
  by (simp add: zero_fill_def flip: replicate_add)

lemma read_loop_step:
  assumes "length p < sector_size" and "moved k (sector_size - length p) (length rest) = n"
  shows "p @ take (sector_size - length p) rest
    = (p @ take n rest) @ take (sector_size - length (p @ take n rest)) (drop n rest)"
proof -
  have n: "n \<le> sector_size - length p" "n \<le> length rest"
    using assms(2) by (auto simp: moved_def)
  then have "sector_size - length p = n + (sector_size - length (p @ take n rest))" by simp
  then have "take (sector_size - length p) rest
      = take n rest @ take (sector_size - length (p @ take n rest)) (drop n rest)"
    by (metis take_add)
  then show ?thesis by simp
qed

lemma read_loop_result:
  "length p \<le> sector_size \<Longrightarrow>
   read_loop es rest p = Some b \<Longrightarrow> b = zero_fill (p @ take (sector_size - length p) rest)"
proof (induction es arbitrary: rest p)
  case Nil
  then show ?case by simp
next
  case (Cons e es)
  show ?case
  proof (cases "sector_size \<le> length p")
    case True
    with Cons.prems show ?thesis by (simp add: zero_fill_def)
  next
    case False
    show ?thesis
    proof (cases e)
      case (Partial k)
      define n where "n = moved k (sector_size - length p) (length rest)"
      show ?thesis
      proof (cases "n = 0")
        case True
        with False have "rest = []" by (auto simp: n_def moved_def min_def split: if_splits)
        with Cons.prems False Partial show ?thesis by simp
      next
        case n: False
        have "read_loop es (drop n rest) (p @ take n rest) = Some b"
          using Cons.prems(2) False Partial n by (simp add: n_def [symmetric])
        moreover have "length (p @ take n rest) \<le> sector_size"
          using False by (simp add: n_def moved_def)
        ultimately have "b = zero_fill ((p @ take n rest)
            @ take (sector_size - length (p @ take n rest)) (drop n rest))"
          by (intro Cons.IH)
        with False show ?thesis using read_loop_step [of p k rest n] by (simp only: n_def)
      qed
    next
      case Interrupted
      with Cons.prems False have "read_loop es rest p = Some b" by simp
      with Cons.prems(1) show ?thesis by (rule Cons.IH)
    qed (use Cons.prems False in simp)
  qed
qed

lemma read_loop_returns: "Io_error \<notin> set es \<Longrightarrow> read_loop es rest p \<noteq> None"
  by (induction es arbitrary: rest p) (auto split: io_event.split)

lemma diskimg_readsector_Some:
  assumes "diskimg_readsector d n = Some b"
  shows "0 \<le> n" and "b = sector_of (image d) (nat n)"
proof -
  show n: "0 \<le> n" using assms by (simp add: diskimg_readsector_def Let_def split: if_splits)
  have "read_loop (reads d n) (drop (nat (n * 512)) (image d)) [] = Some b"
    using assms by (simp add: diskimg_readsector_def Let_def split: if_splits)
  from read_loop_result [OF _ this] n show "b = sector_of (image d) (nat n)"
    by (simp add: sector_of_def nat_mult_distrib mult.commute)
qed

lemma diskimg_readsector_ok:
  assumes "0 \<le> n" and "Io_error \<notin> set (reads d n)"
  shows "diskimg_readsector d n = Some (sector_of (image d) (nat n))"
proof -
  have "diskimg_readsector d n \<noteq> None"
    using assms by (simp add: diskimg_readsector_def read_loop_returns)
  then show ?thesis using diskimg_readsector_Some(2) by blast
qed

lemma diskimg_readsector_negative [simp]: "n < 0 \<Longrightarrow> diskimg_readsector d n = None"
  by (simp add: diskimg_readsector_def)

lemma diskimg_readsector_length: "diskimg_readsector d n = Some b \<Longrightarrow> length b = sector_size"
  by (drule diskimg_readsector_Some(2)) simp

section \<open>Writing a sector\<close>

text \<open>\<open>write(2)\<close> at a file position: the file grows, with zeros in a gap, when it is too short.\<close>

definition write_at :: "byte list \<Rightarrow> nat \<Rightarrow> byte list \<Rightarrow> byte list" where
  "write_at img off bs =
     take off (img @ replicate (off - length img) 0) @ bs @ drop (off + length bs) img"

fun write_loop :: "io_event list \<Rightarrow> byte list \<Rightarrow> nat \<Rightarrow> byte list \<Rightarrow> byte list option" where
  "write_loop [] img off bs = Some (if bs = [] then img else write_at img off bs)"
| "write_loop (e # es) img off bs =
     (if bs = [] then Some img
      else case e of
        Interrupted \<Rightarrow> write_loop es img off bs
      | Io_error \<Rightarrow> None
      | Partial k \<Rightarrow>
          write_loop es (write_at img off (take (moved k (length bs) (length bs)) bs))
            (off + moved k (length bs) (length bs)) (drop (moved k (length bs) (length bs)) bs))"

definition diskimg_writesector :: "disk \<Rightarrow> int \<Rightarrow> byte list \<Rightarrow> disk option" where
  "diskimg_writesector d sectorNum buf =
     (let off = sectorNum * int sector_size
      in if off < 0 then None
         else map_option (\<lambda>img. d\<lparr>image := img\<rparr>)
           (write_loop (writes d sectorNum) (image d) (nat off) (take sector_size buf)))"

lemma write_at_append:
  "xs \<noteq> [] \<Longrightarrow> write_at (write_at img off xs) (off + length xs) ys = write_at img off (xs @ ys)"
proof -
  define a where "a = take off (img @ replicate (off - length img) 0) @ xs"
  define k where "k = off + length xs"
  have k: "length a = k" by (simp add: a_def k_def)
  have w: "write_at img off xs = a @ drop k img"
    by (simp add: write_at_def a_def k_def)
  have "write_at (a @ drop k img) k ys = a @ ys @ drop (k + length ys) img"
    by (simp add: write_at_def k add.commute)
  then have "write_at (write_at img off xs) k ys = a @ ys @ drop (k + length ys) img"
    by (simp only: w)
  moreover have "write_at img off (xs @ ys) = a @ ys @ drop (k + length ys) img"
    by (simp add: write_at_def a_def k_def add.assoc)
  ultimately show ?thesis by (simp add: k_def)
qed

lemma write_loop_result:
  "write_loop es img off bs = Some img' \<Longrightarrow> img' = (if bs = [] then img else write_at img off bs)"
proof (induction es arbitrary: img off bs)
  case Nil
  then show ?case by simp
next
  case (Cons e es)
  show ?case
  proof (cases "bs = []")
    case True
    with Cons.prems show ?thesis by simp
  next
    case False
    show ?thesis
    proof (cases e)
      case (Partial k)
      define n where "n = moved k (length bs) (length bs)"
      have n: "take n bs \<noteq> []" "n = length (take n bs)"
        using False by (auto simp: n_def moved_def)
      have "img' = (if drop n bs = [] then write_at img off (take n bs)
          else write_at (write_at img off (take n bs)) (off + n) (drop n bs))"
        using Cons.IH [of "write_at img off (take n bs)" "off + n" "drop n bs"] Cons.prems False Partial
        by (simp add: n_def [symmetric])
      then have "img' = write_at img off (take n bs @ drop n bs)"
        using write_at_append [OF n(1)] n(2) by (metis append_Nil2)
      with False show ?thesis by simp
    next
      case Interrupted
      with Cons.prems False have "write_loop es img off bs = Some img'" by simp
      then show ?thesis by (rule Cons.IH)
    qed (use Cons.prems False in simp)
  qed
qed

lemma write_loop_returns: "Io_error \<notin> set es \<Longrightarrow> write_loop es img off bs \<noteq> None"
  by (induction es arbitrary: img off bs) (auto split: io_event.split)

lemma sector_of_write_at_same:
  "length bs = sector_size \<Longrightarrow> sector_of (write_at img (sector_size * n) bs) n = bs"
  by (simp add: sector_of_def write_at_def zero_fill_def)

lemma take_drop_padded:
  "zero_fill (take sector_size (drop k (xs @ replicate m 0))) = zero_fill (take sector_size (drop k xs))"
proof -
  have "take sector_size (drop k (xs @ replicate m 0)) = take sector_size (drop k xs)
      @ replicate (min (sector_size - (length xs - k)) (m - (k - length xs))) 0"
    by simp
  then obtain j where j: "take sector_size (drop k (xs @ replicate m 0))
      = take sector_size (drop k xs) @ replicate j 0"
    by blast
  have "length (take sector_size (drop k (xs @ replicate m 0))) \<le> sector_size" by simp
  then have "length (take sector_size (drop k xs)) + j \<le> sector_size"
    by (simp only: j length_append length_replicate)
  then show ?thesis by (simp only: j zero_fill_replicate)
qed

lemma write_at_before:
  assumes "a + s \<le> off"
  shows "take s (drop a (write_at img off bs)) = take s (drop a (img @ replicate (off - length img) 0))"
proof -
  let ?pad = "img @ replicate (off - length img) 0"
  have len: "length (take off ?pad) = off" by simp
  have "take s (drop a (write_at img off bs)) = take s (drop a (take off ?pad))"
    using assms len unfolding write_at_def by (simp only: drop_append take_append) simp
  also have "\<dots> = take (min s (off - a)) (drop a ?pad)"
    by (simp only: drop_take take_take)
  also have "min s (off - a) = s" using assms by simp
  finally show ?thesis .
qed

lemma write_at_after:
  assumes "off + length bs \<le> a"
  shows "drop a (write_at img off bs) = drop a img"
proof -
  have len: "length (take off (img @ replicate (off - length img) 0)) = off" by simp
  obtain j where a: "a = (off + length bs) + j" using assms le_Suc_ex by blast
  have "drop (off + length bs) (write_at img off bs) = drop (off + length bs) img"
    unfolding write_at_def by (simp only: drop_append len) simp
  then show ?thesis unfolding a by (metis add.commute drop_drop)
qed

lemma sector_of_write_at_other:
  assumes "length bs = sector_size" and "m \<noteq> n"
  shows "sector_of (write_at img (sector_size * n) bs) m = sector_of img m"
proof -
  consider "m < n" | "n < m" using assms(2) by linarith
  then show ?thesis
  proof cases
    case 1
    then have "sector_size * m + sector_size \<le> sector_size * n" by simp
    from write_at_before [OF this] show ?thesis by (simp only: sector_of_def take_drop_padded)
  next
    case 2
    then have "sector_size * n + length bs \<le> sector_size * m" using assms(1) by simp
    from write_at_after [OF this] show ?thesis by (simp only: sector_of_def)
  qed
qed

section \<open>The block-device interface\<close>

text \<open>
  What the layers above need of the device: on a device whose kernel scripts hold no I/O error,
  reads and writes of a sector succeed, a read returns the last block written to that sector and
  a write changes no other sector.
\<close>

locale block_device =
  fixes rd :: "'d \<Rightarrow> int \<Rightarrow> byte list option"
    and wr :: "'d \<Rightarrow> int \<Rightarrow> byte list \<Rightarrow> 'd option"
    and sound :: "'d \<Rightarrow> bool"
  assumes rd_total: "sound d \<Longrightarrow> 0 \<le> n \<Longrightarrow> \<exists>b. rd d n = Some b \<and> length b = sector_size"
    and wr_total: "sound d \<Longrightarrow> 0 \<le> n \<Longrightarrow> length b = sector_size \<Longrightarrow> \<exists>d'. wr d n b = Some d'"
    and wr_sound: "sound d \<Longrightarrow> wr d n b = Some d' \<Longrightarrow> sound d'"
    and rd_wr_same: "sound d \<Longrightarrow> length b = sector_size \<Longrightarrow> wr d n b = Some d' \<Longrightarrow> rd d' n = Some b"
    and rd_wr_other: "sound d \<Longrightarrow> length b = sector_size \<Longrightarrow> wr d n b = Some d' \<Longrightarrow> 0 \<le> m \<Longrightarrow> m \<noteq> n \<Longrightarrow>
      rd d' m = rd d m"
begin

lemma rd_wr:
  "sound d \<Longrightarrow> length b = sector_size \<Longrightarrow> wr d n b = Some d' \<Longrightarrow> 0 \<le> m \<Longrightarrow>
    rd d' m = (if m = n then Some b else rd d m)"
  by (auto simp: rd_wr_same rd_wr_other)

lemma wr_obtains:
  assumes "sound d" and "0 \<le> n" and "length b = sector_size"
  obtains d' where "wr d n b = Some d'" and "sound d'"
    and "\<And>m. 0 \<le> m \<Longrightarrow> rd d' m = (if m = n then Some b else rd d m)"
  using assms wr_total [of d n b] wr_sound rd_wr by metis

end

definition healthy :: "disk \<Rightarrow> bool" where
  "healthy d \<longleftrightarrow> (\<forall>n. Io_error \<notin> set (reads d n) \<and> Io_error \<notin> set (writes d n))"

lemma diskimg_writesector_Some:
  assumes "diskimg_writesector d n b = Some d'"
  shows "0 \<le> n" and "reads d' = reads d" and "writes d' = writes d"
    and "length b = sector_size \<Longrightarrow> image d' = write_at (image d) (sector_size * nat n) b"
proof -
  show n: "0 \<le> n" using assms by (simp add: diskimg_writesector_def Let_def split: if_splits)
  obtain img where w: "write_loop (writes d n) (image d) (nat (n * 512)) (take 512 b) = Some img"
    and d': "d' = d\<lparr>image := img\<rparr>"
    using assms n by (auto simp: diskimg_writesector_def Let_def split: if_splits)
  show "reads d' = reads d" and "writes d' = writes d" by (simp_all add: d')
  assume len: "length b = sector_size"
  then have "b \<noteq> []" by auto
  with write_loop_result [OF w] len n show "image d' = write_at (image d) (sector_size * nat n) b"
    by (simp add: d' nat_mult_distrib mult.commute)
qed

interpretation dev: block_device diskimg_readsector diskimg_writesector healthy
proof unfold_locales
  show "\<exists>b. diskimg_readsector d n = Some b \<and> length b = sector_size"
    if "healthy d" "0 \<le> n" for d n
    using that by (simp add: healthy_def diskimg_readsector_ok)
  show "\<exists>d'. diskimg_writesector d n b = Some d'"
    if "healthy d" "0 \<le> n" "length b = sector_size" for d n and b :: "byte list"
    using that write_loop_returns [of "writes d n" "image d" "nat (n * 512)" b]
    by (auto simp: healthy_def diskimg_writesector_def)
  show "healthy d'" if "healthy d" "diskimg_writesector d n b = Some d'" for d n b d'
    using that by (simp add: healthy_def diskimg_writesector_Some(2,3))
  show "diskimg_readsector d' n = Some b"
    if "healthy d" "length b = sector_size" "diskimg_writesector d n b = Some d'" for d n b d'
    using that diskimg_writesector_Some [OF that(3)]
    by (simp add: healthy_def diskimg_readsector_ok sector_of_write_at_same)
  show "diskimg_readsector d' m = diskimg_readsector d m"
    if "healthy d" "length b = sector_size" "diskimg_writesector d n b = Some d'" "0 \<le> m" "m \<noteq> n"
    for d n b d' m
  proof -
    note w = diskimg_writesector_Some [OF that(3)]
    have "nat m \<noteq> nat n" using that(4,5) w(1) by (simp add: nat_eq_iff)
    from sector_of_write_at_other [OF that(2) this] show ?thesis
      using that w by (simp add: healthy_def diskimg_readsector_ok)
  qed
qed

end
