(* ===== verification/V6_Inode.thy ===== *)
theory V6_Inode
  imports V6_Disk
begin

text \<open>
  The inode and file layers of the Unix v6 reader (\<open>inode.c\<close>, \<open>file.c\<close>) over the on-disk
  structures of \<open>unixfilesystem.h\<close>. An error return of -1 without an out parameter is
  \<^term>\<open>None\<close>; \<open>inode_indexlookup\<close> keeps its \<open>int\<close> result, since 0 (a hole) and -1 differ.
\<close>

unbundle bit_operations_syntax

section \<open>On-disk structures\<close>

record inode =
  i_mode :: u16
  i_nlink :: byte
  i_uid :: byte
  i_gid :: byte
  i_size0 :: byte
  i_size1 :: u16
  i_addr :: "u16 list"
  i_atime :: "u16 list"
  i_mtime :: "u16 list"

definition ROOTINO :: int where "ROOTINO = 1"
definition INODE_SIZE :: nat where "INODE_SIZE = 32"
definition INODES_PER_BLOCK :: nat where "INODES_PER_BLOCK = sector_size div INODE_SIZE"
definition INODE_START_SECTOR :: int where "INODE_START_SECTOR = 2"

definition IALLOC :: u16 where "IALLOC = 0x8000"
definition IFMT :: u16 where "IFMT = 0x6000"
definition IFDIR :: u16 where "IFDIR = 0x4000"
definition ILARG :: u16 where "ILARG = 0x1000"

definition PTRS_PER_BLOCK :: nat where "PTRS_PER_BLOCK = sector_size div 2"

text \<open>The packed layout of the 32 bytes: little-endian fields at their offsets.\<close>

definition u16_at :: "byte list \<Rightarrow> nat \<Rightarrow> u16" where
  "u16_at bs off = word_of_nat (le_nat (take 2 (drop off bs)))"

definition put_u16 :: "u16 \<Rightarrow> byte list" where
  "put_u16 w = le_bytes 2 (unat w)"

definition u16s_at :: "byte list \<Rightarrow> nat \<Rightarrow> nat \<Rightarrow> u16 list" where
  "u16s_at bs off n = map (\<lambda>i. u16_at bs (off + 2 * i)) [0..<n]"

definition decode_inode :: "byte list \<Rightarrow> inode" where
  "decode_inode bs =
     \<lparr>i_mode = u16_at bs 0, i_nlink = bs ! 2, i_uid = bs ! 3, i_gid = bs ! 4,
      i_size0 = bs ! 5, i_size1 = u16_at bs 6, i_addr = u16s_at bs 8 8,
      i_atime = u16s_at bs 24 2, i_mtime = u16s_at bs 28 2\<rparr>"

definition encode_inode :: "inode \<Rightarrow> byte list" where
  "encode_inode inp =
     put_u16 (i_mode inp) @ [i_nlink inp, i_uid inp, i_gid inp, i_size0 inp] @
     put_u16 (i_size1 inp) @ concat (map put_u16 (i_addr inp)) @
     concat (map put_u16 (i_atime inp)) @ concat (map put_u16 (i_mtime inp))"

text \<open>The C type fixes the array lengths.\<close>

definition inode_ok :: "inode \<Rightarrow> bool" where
  "inode_ok inp \<longleftrightarrow> length (i_addr inp) = 8 \<and> length (i_atime inp) = 2 \<and> length (i_mtime inp) = 2"

lemma length_put_u16 [simp]: "length (put_u16 w) = 2"
  by (simp add: put_u16_def)

lemma u16_at_put_u16 [simp]: "u16_at (put_u16 w @ rest) 0 = w"
  using unsigned_less [of w, where ?'a = nat]
  by (simp add: u16_at_def put_u16_def le_nat_le_bytes)

lemma u16_at_append: "length xs \<le> off \<Longrightarrow> u16_at (xs @ ys) off = u16_at ys (off - length xs)"
  by (simp add: u16_at_def)

lemma length_concat_put_u16 [simp]: "length (concat (map put_u16 ws)) = 2 * length ws"
  by (induction ws) auto

lemma u16_at_concat:
  "i < length ws \<Longrightarrow> u16_at (concat (map put_u16 ws) @ rest) (2 * i) = ws ! i"
proof (induction ws arbitrary: i)
  case Nil
  then show ?case by simp
next
  case (Cons w ws)
  show ?case
  proof (cases i)
    case 0
    then show ?thesis by simp
  next
    case (Suc j)
    with Cons show ?thesis by (simp add: u16_at_append)
  qed
qed

lemma u16s_at_concat:
  "u16s_at (xs @ concat (map put_u16 ws) @ rest) (length xs) (length ws) = ws"
  by (rule nth_equalityI) (simp_all add: u16s_at_def u16_at_append u16_at_concat)

lemma length_encode_inode: "inode_ok inp \<Longrightarrow> length (encode_inode inp) = INODE_SIZE"
  by (simp add: encode_inode_def inode_ok_def INODE_SIZE_def)

lemma inode_ok_decode [simp]: "inode_ok (decode_inode bs)"
  by (simp add: inode_ok_def decode_inode_def u16s_at_def)

lemma decode_encode_inode:
  assumes "inode_ok inp"
  shows "decode_inode (encode_inode inp @ rest) = inp"
proof -
  let ?h = "put_u16 (i_mode inp) @ [i_nlink inp, i_uid inp, i_gid inp, i_size0 inp]"
  let ?a = "concat (map put_u16 (i_addr inp))"
  let ?t = "concat (map put_u16 (i_atime inp))"
  let ?m = "concat (map put_u16 (i_mtime inp))"
  let ?b = "encode_inode inp @ rest"
  have len: "length (i_addr inp) = 8" "length (i_atime inp) = 2" "length (i_mtime inp) = 2"
    using assms by (simp_all add: inode_ok_def)
  have b1: "?b = put_u16 (i_mode inp) @ [i_nlink inp, i_uid inp, i_gid inp, i_size0 inp] @
      put_u16 (i_size1 inp) @ ?a @ ?t @ ?m @ rest"
    by (simp add: encode_inode_def)
  have "u16_at ?b 0 = i_mode inp" by (simp only: b1 u16_at_put_u16)
  moreover have "?b ! 2 = i_nlink inp" "?b ! 3 = i_uid inp" "?b ! 4 = i_gid inp" "?b ! 5 = i_size0 inp"
    by (simp_all add: b1 nth_append)
  moreover have "u16_at ?b 6 = i_size1 inp"
    using u16_at_append [of ?h 6 "put_u16 (i_size1 inp) @ ?a @ ?t @ ?m @ rest"] by (simp add: b1)
  moreover have "u16s_at ?b 8 8 = i_addr inp"
    using u16s_at_concat [of "?h @ put_u16 (i_size1 inp)" "i_addr inp" "?t @ ?m @ rest"] len
    by (simp add: b1)
  moreover have "u16s_at ?b 24 2 = i_atime inp"
    using u16s_at_concat [of "?h @ put_u16 (i_size1 inp) @ ?a" "i_atime inp" "?m @ rest"] len
    by (simp add: b1)
  moreover have "u16s_at ?b 28 2 = i_mtime inp"
    using u16s_at_concat [of "?h @ put_u16 (i_size1 inp) @ ?a @ ?t" "i_mtime inp" "rest"] len
    by (simp add: b1)
  ultimately show ?thesis by (simp add: decode_inode_def)
qed

section \<open>inode.c\<close>

definition inode_iget :: "disk \<Rightarrow> int \<Rightarrow> inode option" where
  "inode_iget fs inumber =
     (if inumber < 1 then None
      else
        let index = inumber - 1;
            sector = INODE_START_SECTOR + index div int INODES_PER_BLOCK;
            within = nat (index mod int INODES_PER_BLOCK)
        in case diskimg_readsector fs sector of
             None \<Rightarrow> None
           | Some block \<Rightarrow> Some (decode_inode (take INODE_SIZE (drop (INODE_SIZE * within) block))))"

definition inode_getsize :: "inode \<Rightarrow> int" where
  "inode_getsize inp = (push_bit 16 (uint (i_size0 inp))) OR uint (i_size1 inp)"

definition inode_indexlookup :: "disk \<Rightarrow> inode \<Rightarrow> int \<Rightarrow> int" where
  "inode_indexlookup fs inp blockNum =
     (if blockNum < 0 then -1
      else if i_mode inp AND ILARG = 0 then
        (if blockNum \<ge> 8 then -1 else uint (i_addr inp ! nat blockNum))
      else if blockNum < 7 * int PTRS_PER_BLOCK then
        let idx = nat (blockNum div int PTRS_PER_BLOCK);
            off = nat (blockNum mod int PTRS_PER_BLOCK)
        in if i_addr inp ! idx = 0 then -1
           else case diskimg_readsector fs (uint (i_addr inp ! idx)) of
                  None \<Rightarrow> -1
                | Some indirect \<Rightarrow> uint (u16_at indirect (2 * off))
      else
        let d = blockNum - 7 * int PTRS_PER_BLOCK;
            firstIdx = d div int PTRS_PER_BLOCK;
            secondIdx = d mod int PTRS_PER_BLOCK
        in if firstIdx \<ge> int PTRS_PER_BLOCK then -1
           else if i_addr inp ! 7 = 0 then -1
           else case diskimg_readsector fs (uint (i_addr inp ! 7)) of
                  None \<Rightarrow> -1
                | Some indirect \<Rightarrow>
                    let l1 = u16_at indirect (2 * nat firstIdx)
                    in if l1 = 0 then -1
                       else case diskimg_readsector fs (uint l1) of
                              None \<Rightarrow> -1
                            | Some indirect' \<Rightarrow> uint (u16_at indirect' (2 * nat secondIdx)))"

section \<open>file.c\<close>

text \<open>On success: the number of valid bytes and the block that was read into the buffer.\<close>

definition file_getblock :: "disk \<Rightarrow> int \<Rightarrow> int \<Rightarrow> (nat \<times> byte list) option" where
  "file_getblock fs inumber blockNum =
     (case inode_iget fs inumber of
        None \<Rightarrow> None
      | Some inp \<Rightarrow>
          let sector = inode_indexlookup fs inp blockNum
          in if sector \<le> 0 then None
             else case diskimg_readsector fs sector of
                    None \<Rightarrow> None
                  | Some buf \<Rightarrow>
                      let size = inode_getsize inp;
                          fullBlocks = size div int sector_size;
                          tail = size mod int sector_size
                      in if blockNum < fullBlocks then Some (sector_size, buf)
                         else Some (if tail = 0 then sector_size else nat tail, buf))"

section \<open>Facts about inodes\<close>

lemma inode_getsize_value: "inode_getsize inp = 65536 * uint (i_size0 inp) + uint (i_size1 inp)"
proof -
  let ?hi = "uint (i_size0 inp)" and ?lo = "uint (i_size1 inp)"
  have lo: "take_bit 16 ?lo = ?lo"
    using unsigned_less [of "i_size1 inp", where ?'a = int] by (simp add: take_bit_int_eq_self)
  have "push_bit 16 ?hi OR ?lo = concat_bit 16 ?lo ?hi"
    by (simp add: concat_bit_def lo or.commute)
  also have "\<dots> = ?lo + push_bit 16 ?hi"
    by (simp add: concat_bit_eq lo)
  finally show ?thesis by (simp add: inode_getsize_def push_bit_eq_mult)
qed

lemma uint_byte_bounds: "0 \<le> uint (w :: byte)" "uint (w :: byte) < 256"
  using unsigned_less [of w, where ?'a = int] by simp_all

lemma uint_u16_bounds: "0 \<le> uint (w :: u16)" "uint (w :: u16) < 65536"
  using unsigned_less [of w, where ?'a = int] by simp_all

lemma inode_getsize_bounds: "0 \<le> inode_getsize inp" "inode_getsize inp < 2 ^ 24"
  using uint_byte_bounds [of "i_size0 inp"] uint_u16_bounds [of "i_size1 inp"]
  by (simp_all add: inode_getsize_value)

lemmas v6_consts = ROOTINO_def INODE_SIZE_def INODES_PER_BLOCK_def INODE_START_SECTOR_def PTRS_PER_BLOCK_def

lemma inode_indexlookup_range:
  "-1 \<le> inode_indexlookup fs inp b \<and> inode_indexlookup fs inp b < 65536"
proof -
  have w: "-1 \<le> uint (x :: u16)" for x using uint_u16_bounds(1) [of x] by linarith
  note bounds = w uint_u16_bounds(2)
  consider "b < 0" | "0 \<le> b" "i_mode inp AND ILARG = 0"
    | "0 \<le> b" "i_mode inp AND ILARG \<noteq> 0" "b < 7 * int PTRS_PER_BLOCK"
    | "0 \<le> b" "i_mode inp AND ILARG \<noteq> 0" "\<not> b < 7 * int PTRS_PER_BLOCK"
    by linarith
  then show ?thesis
  proof cases
    case 1
    then show ?thesis by (simp add: inode_indexlookup_def)
  next
    case 2
    then show ?thesis by (simp add: inode_indexlookup_def bounds)
  next
    case 3
    then show ?thesis
      by (simp add: inode_indexlookup_def Let_def bounds split: option.split)
  next
    case 4
    then show ?thesis
      by (simp add: inode_indexlookup_def Let_def bounds split: option.split)
  qed
qed

section \<open>Facts about file blocks\<close>

text \<open>Number of blocks of a file of the given size, as the callers compute it.\<close>

definition num_blocks :: "int \<Rightarrow> int" where
  "num_blocks sz = (sz + int sector_size - 1) div int sector_size"

lemma num_blocks_iff: "b < num_blocks sz \<longleftrightarrow> 512 * b < sz"
proof -
  define q where "q = (sz + 511) div 512"
  have "sz + 511 = 512 * q + (sz + 511) mod 512" by (simp add: q_def)
  moreover have "0 \<le> (sz + 511) mod 512" "(sz + 511) mod 512 < 512" by simp_all
  moreover have "num_blocks sz = q" by (simp add: num_blocks_def q_def)
  ultimately show ?thesis by linarith
qed

lemma file_getblock_cases:
  assumes "file_getblock fs inumber b = Some (valid, buf)"
  obtains inp sector where "inode_iget fs inumber = Some inp"
    and "sector = inode_indexlookup fs inp b" and "0 < sector"
    and "diskimg_readsector fs sector = Some buf"
    and "valid = (if b < inode_getsize inp div 512 then 512
      else if inode_getsize inp mod 512 = 0 then 512 else nat (inode_getsize inp mod 512))"
  using assms
  by (auto simp: file_getblock_def Let_def split: option.splits if_splits)

lemma block_valid_bytes:
  fixes sz :: int
  assumes "0 \<le> b" and "512 * b < sz"
  shows "(if b < sz div 512 then 512 else if sz mod 512 = 0 then 512 else nat (sz mod 512))
    = nat (min 512 (sz - 512 * b))"
proof -
  have dm: "sz = 512 * (sz div 512) + sz mod 512" by simp
  have m: "0 \<le> sz mod 512" "sz mod 512 < 512" by simp_all
  show ?thesis
  proof (cases "b < sz div 512")
    case True
    with dm m have "512 * b + 512 \<le> sz" by linarith
    with True show ?thesis by simp
  next
    case False
    with assms dm m have "b = sz div 512" by linarith
    with dm have "sz - 512 * b = sz mod 512" by linarith
    with False assms(2) m show ?thesis by simp
  qed
qed

lemma file_getblock_valid:
  assumes "file_getblock fs inumber b = Some (valid, buf)"
    and "inode_iget fs inumber = Some inp" and "0 \<le> b" and "b < num_blocks (inode_getsize inp)"
  shows "valid = nat (min 512 (inode_getsize inp - 512 * b)) \<and> length buf = 512"
proof -
  have lt: "512 * b < inode_getsize inp" using assms(3,4) by (simp add: num_blocks_iff)
  from assms(1) show ?thesis
  proof (rule file_getblock_cases)
    fix inp' sector
    assume "inode_iget fs inumber = Some inp'" and buf: "diskimg_readsector fs sector = Some buf"
      and v: "valid = (if b < inode_getsize inp' div 512 then 512
        else if inode_getsize inp' mod 512 = 0 then 512 else nat (inode_getsize inp' mod 512))"
    then have "inp' = inp" using assms(2) by simp
    with v have "valid = nat (min 512 (inode_getsize inp - 512 * b))"
      by (simp only: block_valid_bytes [OF assms(3) lt])
    then show ?thesis using diskimg_readsector_length [OF buf] by simp
  qed
qed

end
