(* ===== verification/V6_Directory.thy ===== *)
theory V6_Directory
  imports V6_Inode
begin

text \<open>
  The directory and pathname layers of the Unix v6 reader (\<open>directory.c\<close>, \<open>pathname.c\<close>). A C
  string argument is the \<^typ>\<open>string\<close> before its terminating NUL; \<open>d_name\<close> is the raw 14-byte
  field.
\<close>

definition MAX_COMPONENT_LENGTH :: nat where "MAX_COMPONENT_LENGTH = 14"
definition DIRENT_SIZE :: nat where "DIRENT_SIZE = 16"

record direntv6 =
  d_inumber :: u16
  d_name :: string

definition decode_dirent :: "byte list \<Rightarrow> direntv6" where
  "decode_dirent bs =
     \<lparr>d_inumber = u16_at bs 0, d_name = string_of_bytes (take MAX_COMPONENT_LENGTH (drop 2 bs))\<rparr>"

definition encode_dirent :: "direntv6 \<Rightarrow> byte list" where
  "encode_dirent e = put_u16 (d_inumber e) @ bytes_of_string (d_name e)"

definition dirents :: "nat \<Rightarrow> byte list \<Rightarrow> direntv6 list" where
  "dirents n buf = map (\<lambda>i. decode_dirent (take DIRENT_SIZE (drop (DIRENT_SIZE * i) buf))) [0..<n]"

section \<open>strncmp and strncpy\<close>

abbreviation NUL :: char where "NUL \<equiv> CHR 0x00"

text \<open>The character at the head of a C string; past its end is the terminator.\<close>

definition c_head :: "string \<Rightarrow> char" where
  "c_head s = (case s of [] \<Rightarrow> NUL | c # _ \<Rightarrow> c)"

primrec strncmp_eq :: "nat \<Rightarrow> string \<Rightarrow> string \<Rightarrow> bool" where
  "strncmp_eq 0 a b = True"
| "strncmp_eq (Suc n) a b =
     (if c_head a \<noteq> c_head b then False
      else if c_head a = NUL then True
      else strncmp_eq n (tl a) (tl b))"

definition c_string :: "string \<Rightarrow> string" where
  "c_string s = takeWhile (\<lambda>c. c \<noteq> NUL) s"

definition strncpy14 :: "string \<Rightarrow> string" where
  "strncpy14 s = take MAX_COMPONENT_LENGTH (c_string s) @
     replicate (MAX_COMPONENT_LENGTH - length (c_string s)) NUL"

lemma strncmp_eq_iff: "strncmp_eq n a b \<longleftrightarrow> take n (c_string a) = take n (c_string b)"
proof (induction n arbitrary: a b)
  case 0
  then show ?case by simp
next
  case (Suc n)
  then show ?case
    by (cases a; cases b) (auto simp: c_head_def c_string_def split: if_splits)
qed

lemma length_strncpy14 [simp]: "length (strncpy14 s) = MAX_COMPONENT_LENGTH"
  by (simp add: strncpy14_def)

lemma c_string_no_NUL: "NUL \<notin> set s \<Longrightarrow> c_string s = s"
  by (simp add: c_string_def)

lemma c_string_replicate [simp]: "c_string (replicate n NUL) = []"
  by (cases n) (simp_all add: c_string_def)

lemma c_string_append_NULs: "NUL \<notin> set s \<Longrightarrow> c_string (s @ replicate n NUL) = s"
  by (cases n) (simp_all add: c_string_def takeWhile_append2 c_string_no_NUL [unfolded c_string_def])

lemma NUL_not_in_c_string: "NUL \<notin> set (c_string s)"
  by (auto simp: c_string_def dest: set_takeWhileD)

lemma c_string_strncpy14: "c_string (strncpy14 s) = take MAX_COMPONENT_LENGTH (c_string s)"
  unfolding strncpy14_def using NUL_not_in_c_string [of s]
  by (intro c_string_append_NULs) (auto dest: in_set_takeD)

section \<open>directory.c\<close>

text \<open>The inner loop: the first entry in use whose name matches.\<close>

fun match_entry :: "string \<Rightarrow> direntv6 list \<Rightarrow> direntv6 option" where
  "match_entry name [] = None"
| "match_entry name (e # es) =
     (if d_inumber e = 0 then match_entry name es
      else if strncmp_eq MAX_COMPONENT_LENGTH (d_name e) name then Some e
      else match_entry name es)"

text \<open>The outer loop over the directory's blocks.\<close>

fun scan_blocks :: "disk \<Rightarrow> string \<Rightarrow> int \<Rightarrow> nat list \<Rightarrow> direntv6 option" where
  "scan_blocks fs name dirinumber [] = None"
| "scan_blocks fs name dirinumber (b # bs) =
     (case file_getblock fs dirinumber (int b) of
        None \<Rightarrow> None
      | Some (valid, buf) \<Rightarrow>
          (case match_entry name (dirents (valid div DIRENT_SIZE) buf) of
             Some e \<Rightarrow> Some e
           | None \<Rightarrow> scan_blocks fs name dirinumber bs))"

definition directory_findname :: "disk \<Rightarrow> string \<Rightarrow> int \<Rightarrow> direntv6 option" where
  "directory_findname fs name dirinumber =
     (case inode_iget fs dirinumber of
        None \<Rightarrow> None
      | Some inp \<Rightarrow>
          if i_mode inp AND IFMT \<noteq> IFDIR then None
          else scan_blocks fs name dirinumber [0..<nat (num_blocks (inode_getsize inp))])"

section \<open>pathname.c\<close>

function path_walk :: "disk \<Rightarrow> int \<Rightarrow> string \<Rightarrow> int" where
  "path_walk fs cur p =
     (case dropWhile (\<lambda>c. c = CHR ''/'') p of
        [] \<Rightarrow> cur
      | c # q \<Rightarrow>
          (case directory_findname fs
                  (take MAX_COMPONENT_LENGTH (takeWhile (\<lambda>c. c \<noteq> CHR ''/'') (c # q))) cur of
             None \<Rightarrow> -1
           | Some ent \<Rightarrow> path_walk fs (uint (d_inumber ent)) (dropWhile (\<lambda>c. c \<noteq> CHR ''/'') (c # q))))"
  by pat_completeness auto
termination
proof (relation "measure (\<lambda>(fs, cur, p). length p)")
  fix fs :: disk and cur p c q and ent :: direntv6
  assume h: "dropWhile (\<lambda>c. c = CHR ''/'') p = c # q"
  then have "c \<noteq> CHR ''/''" by (simp add: dropWhile_eq_Cons_conv)
  then have "length (dropWhile (\<lambda>c. c \<noteq> CHR ''/'') (c # q)) \<le> length q"
    by (simp add: length_dropWhile_le)
  also have "length q < length p"
    using length_dropWhile_le [of "\<lambda>c. c = CHR ''/''" p] h by simp
  finally show "((fs, uint (d_inumber ent), dropWhile (\<lambda>c. c \<noteq> CHR ''/'') (c # q)), (fs, cur, p))
      \<in> measure (\<lambda>(fs, cur, p). length p)"
    by simp
qed simp

declare path_walk.simps [simp del]

definition pathname_lookup :: "disk \<Rightarrow> string option \<Rightarrow> int" where
  "pathname_lookup fs pathname =
     (case pathname of
        None \<Rightarrow> -1
      | Some p \<Rightarrow> if c_head p \<noteq> CHR ''/'' then -1 else path_walk fs ROOTINO p)"

section \<open>Facts about directories\<close>

text \<open>Names that the on-disk field tells apart.\<close>

definition same_name :: "string \<Rightarrow> string \<Rightarrow> bool" where
  "same_name a b \<longleftrightarrow> take MAX_COMPONENT_LENGTH (c_string a) = take MAX_COMPONENT_LENGTH (c_string b)"

lemma match_entry_find:
  "match_entry name es = List.find (\<lambda>e. d_inumber e \<noteq> 0 \<and> same_name (d_name e) name) es"
  by (induction es) (auto simp: strncmp_eq_iff same_name_def)

lemma find_append: "List.find P (xs @ ys) = (case List.find P xs of Some x \<Rightarrow> Some x | None \<Rightarrow> List.find P ys)"
  by (induction xs) auto

text \<open>The entries of a whole directory, block by block; \<^term>\<open>None\<close> when a block cannot be read.\<close>

fun dir_entries :: "disk \<Rightarrow> int \<Rightarrow> nat list \<Rightarrow> direntv6 list option" where
  "dir_entries fs dirinumber [] = Some []"
| "dir_entries fs dirinumber (b # bs) =
     (case file_getblock fs dirinumber (int b) of
        None \<Rightarrow> None
      | Some (valid, buf) \<Rightarrow>
          map_option (\<lambda>es. dirents (valid div DIRENT_SIZE) buf @ es) (dir_entries fs dirinumber bs))"

lemma scan_blocks_entries:
  "dir_entries fs d bs = Some es \<Longrightarrow> scan_blocks fs name d bs = match_entry name es"
  by (induction bs arbitrary: es)
    (auto simp: match_entry_find find_append split: option.splits)

section \<open>Facts about pathnames\<close>

lemma path_walk_Nil [simp]: "path_walk fs cur [] = cur"
  by (simp add: path_walk.simps)

lemma path_walk_slash [simp]: "path_walk fs cur (CHR ''/'' # p) = path_walk fs cur p"
  by (simp add: path_walk.simps [of fs cur "CHR ''/'' # p"] path_walk.simps [of fs cur p])

lemma path_walk_component:
  assumes "nm \<noteq> []" and "CHR ''/'' \<notin> set nm" and "p = [] \<or> hd p = CHR ''/''"
  shows "path_walk fs cur (nm @ p) =
    (case directory_findname fs (take MAX_COMPONENT_LENGTH nm) cur of
       None \<Rightarrow> -1 | Some ent \<Rightarrow> path_walk fs (uint (d_inumber ent)) p)"
proof -
  obtain c q where nm: "nm = c # q" and c: "c \<noteq> CHR ''/''"
    using assms(1,2) by (cases nm) auto
  have 1: "dropWhile (\<lambda>c. c = CHR ''/'') (nm @ p) = c # (q @ p)"
    using c by (simp add: nm)
  have 2: "takeWhile (\<lambda>c. c \<noteq> CHR ''/'') (c # (q @ p)) = nm"
    and 3: "dropWhile (\<lambda>c. c \<noteq> CHR ''/'') (c # (q @ p)) = p"
    using assms(2,3) by (cases p; auto simp: nm)+
  show ?thesis
    by (simp only: path_walk.simps [of fs cur "nm @ p"] 1 list.case 2 3)
qed

text \<open>One turn of the walk, in terms of the i-number found only.\<close>

lemma path_walk_turn: "path_walk fs cur p =
    (case dropWhile (\<lambda>c. c = CHR ''/'') p of
       [] \<Rightarrow> cur
     | c # q \<Rightarrow>
         (case map_option d_inumber (directory_findname fs
                 (take MAX_COMPONENT_LENGTH (takeWhile (\<lambda>c. c \<noteq> CHR ''/'') (c # q))) cur) of
            None \<Rightarrow> -1
          | Some i \<Rightarrow> path_walk fs (uint i) (dropWhile (\<lambda>c. c \<noteq> CHR ''/'') (c # q))))"
  unfolding path_walk.simps [of fs cur p] case_map_option comp_def by (rule refl)

lemma directory_findname_bad_inode: "cur < 1 \<Longrightarrow> directory_findname fs name cur = None"
  by (simp add: directory_findname_def inode_iget_def)

end
