(* ===== verification/V6_Mkfs.thy ===== *)
theory V6_Mkfs
  imports V6_Directory
begin

text \<open>
  The image builder \<open>mkfs_v6.c\<close>: its bump allocators, the routines that write inodes, files and
  directories, and what the reader sees of them. The program's globals are the record
  \<open>mkfs\<close>; \<open>exit(1)\<close> after a failed write is \<^term>\<open>None\<close>.
\<close>

section \<open>State and allocators\<close>

record mkfs =
  g_disk :: disk
  g_nextData :: int
  g_nextInode :: int
  g_maxBlock :: int

definition NUM_INODE_BLOCKS :: int where "NUM_INODE_BLOCKS = 4"
definition DATA_START :: int where "DATA_START = INODE_START_SECTOR + NUM_INODE_BLOCKS"

definition mkfs_init :: "disk \<Rightarrow> mkfs" where
  "mkfs_init d = \<lparr>g_disk = d, g_nextData = DATA_START, g_nextInode = 1, g_maxBlock = 0\<rparr>"

definition wsector :: "mkfs \<Rightarrow> int \<Rightarrow> byte list \<Rightarrow> mkfs option" where
  "wsector st sec buf =
     (case diskimg_writesector (g_disk st) sec buf of
        None \<Rightarrow> None
      | Some d \<Rightarrow> Some (st\<lparr>g_disk := d, g_maxBlock := (if sec > g_maxBlock st then sec else g_maxBlock st)\<rparr>))"

definition alloc_data :: "mkfs \<Rightarrow> int \<times> mkfs" where
  "alloc_data st = (g_nextData st, st\<lparr>g_nextData := g_nextData st + 1\<rparr>)"

definition alloc_inode :: "mkfs \<Rightarrow> int \<times> mkfs" where
  "alloc_inode st = (g_nextInode st + 1, st\<lparr>g_nextInode := g_nextInode st + 1\<rparr>)"

section \<open>Inodes\<close>

definition zero_inode :: inode where
  "zero_inode = \<lparr>i_mode = 0, i_nlink = 0, i_uid = 0, i_gid = 0, i_size0 = 0, i_size1 = 0,
     i_addr = replicate 8 0, i_atime = replicate 2 0, i_mtime = replicate 2 0\<rparr>"

definition set_size :: "inode \<Rightarrow> int \<Rightarrow> inode" where
  "set_size inp sz =
     inp\<lparr>i_size0 := word_of_int (drop_bit 16 sz AND 0xff), i_size1 := word_of_int (sz AND 0xffff)\<rparr>"

definition put_inode :: "mkfs \<Rightarrow> int \<Rightarrow> inode \<Rightarrow> mkfs option" where
  "put_inode st inumber inp =
     (let index = inumber - 1;
          sector = INODE_START_SECTOR + index div int INODES_PER_BLOCK;
          within = nat (index mod int INODES_PER_BLOCK);
          raw = (case diskimg_readsector (g_disk st) sector of
                   None \<Rightarrow> replicate sector_size 0 | Some r \<Rightarrow> r);
          block = take (INODE_SIZE * within) raw @ encode_inode inp
                  @ drop (INODE_SIZE * within + INODE_SIZE) raw
      in wsector st sector block)"

section \<open>Files\<close>

text \<open>The buffer of one data block: zeroed, then the block's share of the data copied in.\<close>

definition file_chunk :: "byte list \<Rightarrow> nat \<Rightarrow> nat \<Rightarrow> byte list" where
  "file_chunk data sz b = zero_fill (take (min sector_size (sz - b * sector_size)) (drop (b * sector_size) data))"

fun small_loop :: "mkfs \<Rightarrow> byte list \<Rightarrow> nat \<Rightarrow> nat list \<Rightarrow> inode \<Rightarrow> (inode \<times> mkfs) option" where
  "small_loop st data sz [] inp = Some (inp, st)"
| "small_loop st data sz (b # bs) inp =
     do {
       let (d, st1) = alloc_data st;
       st2 \<leftarrow> wsector st1 d (file_chunk data sz b);
       small_loop st2 data sz bs (inp\<lparr>i_addr := (i_addr inp)[b := word_of_int d]\<rparr>)
     }"

text \<open>The inner loop of the large case: \<open>j\<close> runs over the slots of one indirect block.\<close>

fun ptr_loop :: "mkfs \<Rightarrow> byte list \<Rightarrow> nat \<Rightarrow> nat list \<Rightarrow> u16 list \<Rightarrow> nat \<Rightarrow> (u16 list \<times> nat \<times> mkfs) option" where
  "ptr_loop st data sz [] ptrs written = Some (ptrs, written, st)"
| "ptr_loop st data sz (j # js) ptrs written =
     do {
       let (d, st1) = alloc_data st;
       st2 \<leftarrow> wsector st1 d (file_chunk data sz written);
       ptr_loop st2 data sz js (ptrs[j := word_of_int d]) (Suc written)
     }"

fun ind_loop :: "mkfs \<Rightarrow> byte list \<Rightarrow> nat \<Rightarrow> nat list \<Rightarrow> nat \<Rightarrow> nat \<Rightarrow> inode \<Rightarrow> (inode \<times> mkfs) option" where
  "ind_loop st data sz [] remaining written inp = Some (inp, st)"
| "ind_loop st data sz (idx # idxs) remaining written inp =
     (if remaining = 0 then Some (inp, st)
      else do {
        let here = min remaining PTRS_PER_BLOCK;
        (ptrs, written', st1) \<leftarrow> ptr_loop st data sz [0..<here] (replicate PTRS_PER_BLOCK 0) written;
        let (indblk, st2) = alloc_data st1;
        st3 \<leftarrow> wsector st2 indblk (concat (map put_u16 ptrs));
        ind_loop st3 data sz idxs (remaining - here) written'
          (inp\<lparr>i_addr := (i_addr inp)[idx := word_of_int indblk]\<rparr>)
      })"

definition make_file :: "mkfs \<Rightarrow> int \<Rightarrow> byte list \<Rightarrow> nat \<Rightarrow> (int \<times> mkfs) option" where
  "make_file st inumber data sz =
     (let inp = set_size (zero_inode\<lparr>i_mode := IALLOC, i_nlink := 1\<rparr>) (int sz);
          nblocks = nat (num_blocks (int sz))
      in do {
        (inp', st') \<leftarrow>
          (if nblocks \<le> 8 then small_loop st data sz [0..<nblocks] inp
           else ind_loop st data sz [0..<7] nblocks 0 (inp\<lparr>i_mode := i_mode inp OR ILARG\<rparr>));
        st'' \<leftarrow> put_inode st' inumber inp';
        Some (inumber, st'')
      })"

section \<open>Directories\<close>

definition mkent :: "int \<Rightarrow> string \<Rightarrow> direntv6" where
  "mkent inumber nm = \<lparr>d_inumber = word_of_int inumber, d_name = strncpy14 nm\<rparr>"

text \<open>
  \<open>make_dir\<close> fills one 512-byte buffer: more than 30 entries overrun it, which the model gives as
  \<^term>\<open>None\<close> (undefined behaviour of the program).
\<close>

definition make_dir :: "mkfs \<Rightarrow> int \<Rightarrow> int \<Rightarrow> direntv6 list \<Rightarrow> (int \<times> mkfs) option" where
  "make_dir st inumber parentInumber entries =
     (let total = length entries + 2;
          sz = total * DIRENT_SIZE;
          out = mkent inumber ''.'' # mkent parentInumber ''..'' # entries
      in if sz > sector_size then None
         else do {
           let (d, st1) = alloc_data st;
           st2 \<leftarrow> wsector st1 d (zero_fill (concat (map encode_dirent out)));
           let inp = set_size (zero_inode\<lparr>i_mode := IALLOC OR IFDIR, i_nlink := 2\<rparr>) (int sz);
           st3 \<leftarrow> put_inode st2 inumber (inp\<lparr>i_addr := (i_addr inp)[0 := word_of_int d]\<rparr>);
           Some (inumber, st3)
         })"

section \<open>Sizes\<close>

lemma inode_getsize_set_size: "inode_getsize (set_size inp sz) = sz mod 2 ^ 24"
proof -
  have hi: "uint (word_of_int (drop_bit 16 sz AND 0xff) :: byte) = sz div 65536 mod 256"
  proof -
    have "drop_bit 16 sz AND 0xff = take_bit 8 (drop_bit 16 sz)"
      by (simp add: take_bit_eq_mask mask_numeral)
    then show ?thesis by (simp add: unsigned_of_int take_bit_eq_mod drop_bit_eq_div)
  qed
  have lo: "uint (word_of_int (sz AND 0xffff) :: u16) = sz mod 65536"
  proof -
    have "sz AND 0xffff = take_bit 16 sz"
      by (simp add: take_bit_eq_mask mask_numeral)
    then show ?thesis by (simp add: unsigned_of_int take_bit_eq_mod)
  qed
  have "sz mod (65536 * 256) = 65536 * (sz div 65536 mod 256) + sz mod 65536"
    by (rule zmod_zmult2_eq) simp
  then show ?thesis by (simp add: inode_getsize_value set_size_def hi lo)
qed

lemma inode_ok_set_size [simp]: "inode_ok (set_size inp sz) = inode_ok inp"
  by (simp add: inode_ok_def set_size_def)

lemma inode_ok_zero [simp]: "inode_ok zero_inode"
  by (simp add: inode_ok_def zero_inode_def)

lemma length_file_chunk [simp]: "length (file_chunk data sz b) = sector_size"
  by (simp add: file_chunk_def)

section \<open>Sector writes\<close>

text \<open>The reader's view of the disk under construction.\<close>

abbreviation sec :: "mkfs \<Rightarrow> int \<Rightarrow> byte list option" where
  "sec st n \<equiv> diskimg_readsector (g_disk st) n"

abbreviation sound :: "mkfs \<Rightarrow> bool" where
  "sound st \<equiv> healthy (g_disk st)"

lemma wsector_obtains:
  assumes "sound st" and "0 \<le> n" and "length b = sector_size"
  obtains st' where "wsector st n b = Some st'" and "sound st'"
    and "g_nextData st' = g_nextData st" and "g_nextInode st' = g_nextInode st"
    and "\<And>m. 0 \<le> m \<Longrightarrow> sec st' m = (if m = n then Some b else sec st m)"
proof -
  obtain d' where d': "diskimg_writesector (g_disk st) n b = Some d'" "healthy d'"
    "\<And>m. 0 \<le> m \<Longrightarrow> diskimg_readsector d' m = (if m = n then Some b else diskimg_readsector (g_disk st) m)"
    using dev.wr_obtains [OF assms] by blast
  show thesis
    by (rule that [of "st\<lparr>g_disk := d', g_maxBlock := (if n > g_maxBlock st then n else g_maxBlock st)\<rparr>"])
      (simp_all add: wsector_def d')
qed

lemma inode_sector_range:
  assumes "1 \<le> i" and "i \<le> 64"
  shows "2 \<le> INODE_START_SECTOR + (i - 1) div int INODES_PER_BLOCK"
    and "INODE_START_SECTOR + (i - 1) div int INODES_PER_BLOCK < DATA_START"
proof -
  have "0 \<le> (i - 1) div 16" using assms(1) by (simp add: pos_imp_zdiv_nonneg_iff)
  moreover have "(i - 1) div 16 < 4" using assms(2) by (simp add: div_less_iff_less_mult)
  ultimately show "2 \<le> INODE_START_SECTOR + (i - 1) div int INODES_PER_BLOCK"
    and "INODE_START_SECTOR + (i - 1) div int INODES_PER_BLOCK < DATA_START"
    by (simp_all add: v6_consts DATA_START_def NUM_INODE_BLOCKS_def)
qed

lemma take_drop_slot:
  assumes "length raw = 512" and "length e = 32" and "w < 16" and "v < 16"
  shows "take 32 (drop (32 * v) (take (32 * w) raw @ e @ drop (32 * w + 32) raw))
    = (if v = w then e else take 32 (drop (32 * v) raw))"
proof -
  consider "v < w" | "v = w" | "w < v" by linarith
  then show ?thesis
  proof cases
    case 1
    then have le: "32 * v + 32 \<le> 32 * w" by simp
    have "take 32 (drop (32 * v) (take (32 * w) raw @ e @ drop (32 * w + 32) raw))
        = take 32 (drop (32 * v) (take (32 * w) raw))"
      using le assms(1,3) by simp
    also have "\<dots> = take 32 (drop (32 * v) raw)"
      using le by (simp add: drop_take min_def)
    finally show ?thesis using 1 by simp
  next
    case 2
    then show ?thesis using assms by simp
  next
    case 3
    define k where "k = 32 * (v - w - 1)"
    have k: "32 * v = (32 * w + 32) + k" using 3 by (simp add: k_def algebra_simps)
    have "drop (32 * w + 32) (take (32 * w) raw @ e @ drop (32 * w + 32) raw) = drop (32 * w + 32) raw"
      using assms by simp
    then have "drop (32 * v) (take (32 * w) raw @ e @ drop (32 * w + 32) raw) = drop (32 * v) raw"
      unfolding k by (metis add.commute drop_drop)
    then show ?thesis using 3 by simp
  qed
qed

lemma put_inode_obtains:
  assumes "sound st" and "1 \<le> i" and "i \<le> 64" and "inode_ok inp"
  obtains st' where "put_inode st i inp = Some st'" and "sound st'"
    and "g_nextData st' = g_nextData st" and "g_nextInode st' = g_nextInode st"
    and "inode_iget (g_disk st') i = Some inp"
    and "\<And>j. j \<noteq> i \<Longrightarrow> inode_iget (g_disk st') j = inode_iget (g_disk st) j"
    and "\<And>m. DATA_START \<le> m \<Longrightarrow> sec st' m = sec st m"
proof -
  define s where "s = INODE_START_SECTOR + (i - 1) div int INODES_PER_BLOCK"
  define w where "w = nat ((i - 1) mod int INODES_PER_BLOCK)"
  have s: "2 \<le> s" "s < DATA_START" using inode_sector_range [OF assms(2,3)] by (simp_all add: s_def)
  have w: "w < 16" by (simp add: w_def v6_consts nat_less_iff)
  obtain raw where raw: "sec st s = Some raw" "length raw = 512"
    using dev.rd_total [OF assms(1), of s] s by auto
  define block where "block = take (32 * w) raw @ encode_inode inp @ drop (32 * w + 32) raw"
  have e: "length (encode_inode inp) = 32" using length_encode_inode [OF assms(4)] by (simp add: INODE_SIZE_def)
  have len: "length block = sector_size" using raw(2) w e by (simp add: block_def)
  obtain st' where st': "wsector st s block = Some st'" "sound st'" "g_nextData st' = g_nextData st"
      "g_nextInode st' = g_nextInode st" "\<And>m. 0 \<le> m \<Longrightarrow> sec st' m = (if m = s then Some block else sec st m)"
    using wsector_obtains [OF assms(1) _ len, of s] s by auto
  have put: "put_inode st i inp = Some st'"
    using st'(1) raw(1) by (simp add: put_inode_def Let_def s_def w_def block_def INODE_SIZE_def)
  have slot: "take 32 (drop (32 * v) block) = (if v = w then encode_inode inp else take 32 (drop (32 * v) raw))"
    if "v < 16" for v
    unfolding block_def by (rule take_drop_slot [OF raw(2) e w that])
  have iget: "inode_iget (g_disk st') i = Some inp"
    using st'(5) [of s] s assms(2) slot [OF w] decode_encode_inode [OF assms(4), of "[]"]
    by (simp add: inode_iget_def Let_def s_def [symmetric] w_def [symmetric] INODE_SIZE_def)
  have other: "inode_iget (g_disk st') j = inode_iget (g_disk st) j" if "j \<noteq> i" for j
  proof (cases "j < 1")
    case True
    then show ?thesis by (simp add: inode_iget_def)
  next
    case False
    define t where "t = INODE_START_SECTOR + (j - 1) div int INODES_PER_BLOCK"
    define v where "v = nat ((j - 1) mod int INODES_PER_BLOCK)"
    have t: "0 \<le> t" using False by (simp add: t_def v6_consts pos_imp_zdiv_nonneg_iff)
    have v: "v < 16" by (simp add: v_def v6_consts nat_less_iff)
    have ne: "v \<noteq> w" if "t = s"
    proof
      assume "v = w"
      then have "(j - 1) mod 16 = (i - 1) mod 16" by (simp add: v_def w_def v6_consts eq_nat_nat_iff)
      moreover have "(j - 1) div 16 = (i - 1) div 16" using that by (simp add: t_def s_def v6_consts)
      ultimately have "j - 1 = i - 1" by (metis mult_div_mod_eq)
      with \<open>j \<noteq> i\<close> show False by simp
    qed
    show ?thesis
      using False st'(5) [OF t] raw(1) slot [OF v] ne
      by (simp add: inode_iget_def Let_def t_def [symmetric] v_def [symmetric] INODE_SIZE_def)
  qed
  show thesis
    by (rule that [OF put st'(2,3,4) iget other]) (use st'(5) s in auto)
qed

end
