(* ===== verification/V6_Roundtrip.thy ===== *)
theory V6_Roundtrip
  imports V6_Mkfs
begin

text \<open>
  What the reader sees of a file or directory that \<open>mkfs_v6\<close> wrote: every block of a file reads
  back, for direct and for singly indirect addressing, other files and inodes are untouched, and
  a directory's entries are found by name.
\<close>

section \<open>Where a block of a file lives\<close>

definition data_sector :: "int \<Rightarrow> int \<Rightarrow> bool" where
  "data_sector nd n \<longleftrightarrow> DATA_START \<le> n \<and> n < nd"

definition direct_at :: "disk \<Rightarrow> int \<Rightarrow> u16 list \<Rightarrow> nat \<Rightarrow> byte list \<Rightarrow> bool" where
  "direct_at d nd addr b c \<longleftrightarrow>
     (\<exists>dp. data_sector nd dp \<and> addr ! b = word_of_int dp \<and> diskimg_readsector d dp = Some c)"

definition indirect_at :: "disk \<Rightarrow> int \<Rightarrow> u16 list \<Rightarrow> nat \<Rightarrow> byte list \<Rightarrow> bool" where
  "indirect_at d nd addr b c \<longleftrightarrow>
     (\<exists>ip ib dp. data_sector nd ip \<and> addr ! (b div 256) = word_of_int ip \<and>
        diskimg_readsector d ip = Some ib \<and> u16_at ib (2 * (b mod 256)) = word_of_int dp \<and>
        data_sector nd dp \<and> diskimg_readsector d dp = Some c)"

definition block_at :: "disk \<Rightarrow> int \<Rightarrow> inode \<Rightarrow> nat \<Rightarrow> byte list \<Rightarrow> bool" where
  "block_at d nd inp b c \<longleftrightarrow>
     (if i_mode inp AND ILARG = 0 then b < 8 \<and> direct_at d nd (i_addr inp) b c
      else b < 7 * 256 \<and> indirect_at d nd (i_addr inp) b c)"

text \<open>A whole file: its inode and all its blocks, on sectors below \<open>nd\<close>.\<close>

definition file_at :: "disk \<Rightarrow> int \<Rightarrow> int \<Rightarrow> inode \<Rightarrow> byte list \<Rightarrow> bool" where
  "file_at d nd ino inp data \<longleftrightarrow>
     inode_iget d ino = Some inp \<and> inode_getsize inp = int (length data) \<and>
     (\<forall>b < nat (num_blocks (int (length data))). block_at d nd inp b (file_chunk data (length data) b))"

definition agree :: "disk \<Rightarrow> disk \<Rightarrow> int \<Rightarrow> bool" where
  "agree d d' nd \<longleftrightarrow> (\<forall>m. data_sector nd m \<longrightarrow> diskimg_readsector d' m = diskimg_readsector d m)"

lemma data_sector_mono: "data_sector nd m \<Longrightarrow> nd \<le> nd' \<Longrightarrow> data_sector nd' m"
  by (simp add: data_sector_def)

lemma data_sector_word:
  assumes "data_sector nd m" and "nd \<le> 65536"
  shows "uint (word_of_int m :: u16) = m" and "word_of_int m \<noteq> (0 :: u16)" and "0 < m"
proof -
  have m: "0 < m" "m < 65536"
    using assms by (simp_all add: data_sector_def DATA_START_def v6_consts NUM_INODE_BLOCKS_def)
  then show u: "uint (word_of_int m :: u16) = m"
    by (simp add: unsigned_of_int take_bit_int_eq_self)
  show "word_of_int m \<noteq> (0 :: u16)"
  proof
    assume "word_of_int m = (0 :: u16)"
    then have "uint (word_of_int m :: u16) = 0" by simp
    with u m(1) show False by simp
  qed
  show "0 < m" by (rule m(1))
qed

lemma agree_direct: "agree d d' nd \<Longrightarrow> nd \<le> nd' \<Longrightarrow> direct_at d nd addr b c \<Longrightarrow> direct_at d' nd' addr b c"
  unfolding direct_at_def agree_def by (metis data_sector_mono)

lemma agree_indirect:
  "agree d d' nd \<Longrightarrow> nd \<le> nd' \<Longrightarrow> indirect_at d nd addr b c \<Longrightarrow> indirect_at d' nd' addr b c"
  unfolding indirect_at_def agree_def by (metis data_sector_mono)

lemma agree_block: "agree d d' nd \<Longrightarrow> nd \<le> nd' \<Longrightarrow> block_at d nd inp b c \<Longrightarrow> block_at d' nd' inp b c"
  by (auto simp: block_at_def intro: agree_direct agree_indirect split: if_splits)

lemma agree_file:
  "agree d d' nd \<Longrightarrow> nd \<le> nd' \<Longrightarrow> inode_iget d' ino = inode_iget d ino \<Longrightarrow>
   file_at d nd ino inp data \<Longrightarrow> file_at d' nd' ino inp data"
  unfolding file_at_def by (metis agree_block)

lemma agree_refl [simp]: "agree d d nd"
  by (simp add: agree_def)

lemma agree_trans: "agree d d' nd \<Longrightarrow> agree d' d'' nd' \<Longrightarrow> nd \<le> nd' \<Longrightarrow> agree d d'' nd"
  unfolding agree_def by (metis data_sector_mono)

lemma block_at_lookup:
  assumes "block_at d nd inp b c" and "nd \<le> 65536"
  shows "0 < inode_indexlookup d inp (int b)"
    and "diskimg_readsector d (inode_indexlookup d inp (int b)) = Some c"
proof -
  have "0 < inode_indexlookup d inp (int b) \<and>
      diskimg_readsector d (inode_indexlookup d inp (int b)) = Some c"
  proof (cases "i_mode inp AND ILARG = 0")
    case True
    then obtain dp where "b < 8" "data_sector nd dp" "i_addr inp ! b = word_of_int dp"
      "diskimg_readsector d dp = Some c"
      using assms(1) by (auto simp: block_at_def direct_at_def)
    then show ?thesis
      using data_sector_word [OF _ assms(2), of dp] True by (simp add: inode_indexlookup_def)
  next
    case False
    then obtain ip ib dp where b: "b < 7 * 256" and ip: "data_sector nd ip"
        "i_addr inp ! (b div 256) = word_of_int ip" "diskimg_readsector d ip = Some ib"
      and dp: "u16_at ib (2 * (b mod 256)) = word_of_int dp" "data_sector nd dp"
        "diskimg_readsector d dp = Some c"
      using assms(1) by (auto simp: block_at_def indirect_at_def)
    have n: "nat (int b div 256) = b div 256" "nat (int b mod 256) = b mod 256"
      by (simp_all add: nat_div_distrib nat_mod_distrib)
    have "inode_indexlookup d inp (int b) = dp"
      using False b n ip dp data_sector_word [OF ip(1) assms(2)] data_sector_word [OF dp(2) assms(2)]
      by (simp add: inode_indexlookup_def Let_def PTRS_PER_BLOCK_def)
    then show ?thesis using data_sector_word(3) [OF dp(2) assms(2)] dp(3) by simp
  qed
  then show "0 < inode_indexlookup d inp (int b)"
    and "diskimg_readsector d (inode_indexlookup d inp (int b)) = Some c" by simp_all
qed

lemma file_at_getblock:
  assumes "file_at d nd ino inp data" and "nd \<le> 65536" and "b < nat (num_blocks (int (length data)))"
  shows "file_getblock d ino (int b)
    = Some (min 512 (length data - 512 * b), file_chunk data (length data) b)"
proof -
  let ?n = "length data" and ?s = "inode_indexlookup d inp (int b)"
  have inp: "inode_iget d ino = Some inp" "inode_getsize inp = int ?n"
    and blk: "block_at d nd inp b (file_chunk data ?n b)"
    using assms(1,3) by (simp_all add: file_at_def)
  note look = block_at_lookup [OF blk assms(2)]
  have lt: "int b < num_blocks (int ?n)" using assms(3) by (simp add: zless_nat_eq_int_zless)
  have "file_getblock d ino (int b) \<noteq> None"
    using inp(1) look by (simp add: file_getblock_def Let_def)
  then obtain valid buf where g: "file_getblock d ino (int b) = Some (valid, buf)" by auto
  moreover have "buf = file_chunk data ?n b"
    using g inp(1) look by (auto simp: file_getblock_def Let_def split: if_splits)
  moreover have "valid = nat (min 512 (int ?n - 512 * int b))"
    using file_getblock_valid [OF g inp(1)] inp(2) lt by simp
  then have "valid = min 512 (?n - 512 * b)" by linarith
  ultimately show ?thesis by simp
qed

section \<open>The block loops\<close>

lemma alloc_data_simps [simp]:
  "alloc_data st = (d, st') \<longleftrightarrow> d = g_nextData st \<and> st' = st\<lparr>g_nextData := g_nextData st + 1\<rparr>"
  by (auto simp: alloc_data_def)

lemma alloc_write:
  assumes "sound st" and "0 \<le> g_nextData st" and "length b = sector_size"
  shows "\<exists>st'. wsector (snd (alloc_data st)) (g_nextData st) b = Some st' \<and> sound st' \<and>
    g_nextData st' = g_nextData st + 1 \<and> g_nextInode st' = g_nextInode st \<and>
    (\<forall>m \<ge> 0. sec st' m = (if m = g_nextData st then Some b else sec st m))"
proof -
  have "sound (snd (alloc_data st))" using assms(1) by (simp add: alloc_data_def)
  from this assms(2,3) show ?thesis
    by (rule wsector_obtains) (auto simp: alloc_data_def)
qed

lemma ptr_loop_spec:
  assumes "sound st" and "DATA_START \<le> g_nextData st" and "j + k \<le> length ptrs"
  shows "\<exists>ptrs' st'. ptr_loop st data sz [j..<j + k] ptrs w = Some (ptrs', w + k, st') \<and>
    sound st' \<and> g_nextData st' = g_nextData st + int k \<and> g_nextInode st' = g_nextInode st \<and>
    length ptrs' = length ptrs \<and>
    (\<forall>i < length ptrs. ptrs' ! i =
       (if j \<le> i \<and> i < j + k then word_of_int (g_nextData st + int (i - j)) else ptrs ! i)) \<and>
    (\<forall>m \<ge> 0. sec st' m =
       (if g_nextData st \<le> m \<and> m < g_nextData st + int k
        then Some (file_chunk data sz (w + nat (m - g_nextData st))) else sec st m))"
  using assms
proof (induction k arbitrary: st j ptrs w)
  case 0
  then show ?case by auto
next
  case (Suc k)
  let ?nd = "g_nextData st"
  let ?st1 = "st\<lparr>g_nextData := ?nd + 1\<rparr>"
  have nd: "0 \<le> ?nd" using Suc.prems(2) by (simp add: DATA_START_def v6_consts NUM_INODE_BLOCKS_def)
  obtain st2 where st2: "wsector ?st1 ?nd (file_chunk data sz w) = Some st2" "sound st2"
      "g_nextData st2 = ?nd + 1" "g_nextInode st2 = g_nextInode st"
      "\<And>m. 0 \<le> m \<Longrightarrow> sec st2 m = (if m = ?nd then Some (file_chunk data sz w) else sec st m)"
    using alloc_write [OF Suc.prems(1) nd length_file_chunk [of data sz w]] by (auto simp: alloc_data_def)
  let ?p = "ptrs[j := word_of_int ?nd]"
  have "DATA_START \<le> g_nextData st2" "Suc j + k \<le> length ?p"
    using Suc.prems(2,3) st2(3) by auto
  from Suc.IH [OF st2(2) this, of "Suc w"] obtain ptrs' st' where
    r: "ptr_loop st2 data sz [Suc j..<Suc j + k] ?p (Suc w) = Some (ptrs', Suc w + k, st')"
    and s: "sound st'" "g_nextData st' = ?nd + 1 + int k" "g_nextInode st' = g_nextInode st"
      "length ptrs' = length ptrs"
    and e: "\<And>i. i < length ptrs \<Longrightarrow> ptrs' ! i =
       (if Suc j \<le> i \<and> i < Suc j + k then word_of_int (?nd + 1 + int (i - Suc j)) else ?p ! i)"
    and m: "\<And>m. 0 \<le> m \<Longrightarrow> sec st' m =
       (if ?nd + 1 \<le> m \<and> m < ?nd + 1 + int k
        then Some (file_chunk data sz (Suc w + nat (m - (?nd + 1)))) else sec st2 m)"
    using st2(3,4) by auto
  have "[j..<j + Suc k] = j # [Suc j..<Suc j + k]" by (simp add: upt_rec)
  then have "ptr_loop st data sz [j..<j + Suc k] ptrs w = Some (ptrs', w + Suc k, st')"
    using st2(1) r by (simp add: alloc_data_def)
  moreover have "ptrs' ! i = (if j \<le> i \<and> i < j + Suc k
      then word_of_int (?nd + int (i - j)) else ptrs ! i)" if "i < length ptrs" for i
  proof (cases "i = j")
    case True
    then show ?thesis using e [OF that] that by simp
  next
    case False
    have "?nd + 1 + int (i - Suc j) = ?nd + int (i - j)" if "Suc j \<le> i" using that by simp
    then show ?thesis using e [OF that] False by auto
  qed
  moreover have "sec st' n = (if ?nd \<le> n \<and> n < ?nd + int (Suc k)
        then Some (file_chunk data sz (w + nat (n - ?nd))) else sec st n)" if "0 \<le> n" for n
  proof -
    have c: "Suc w + nat (n - (?nd + 1)) = w + nat (n - ?nd)" if "?nd + 1 \<le> n" using that by linarith
    show ?thesis
    proof (cases "?nd + 1 \<le> n")
      case True
      have "sec st' n = (if n < ?nd + 1 + int k then Some (file_chunk data sz (w + nat (n - ?nd))) else sec st2 n)"
        using m [OF that] True by (simp only: c [OF True] simp_thms if_True)
      then show ?thesis using True st2(5) [OF that] by auto
    next
      case False
      then show ?thesis using m [OF that] st2(5) [OF that] by auto
    qed
  qed
  ultimately show ?case using s by auto
qed

lemma small_loop_ptr_loop:
  "small_loop st data sz [b..<b + k] inp =
     map_option (\<lambda>(ptrs, w, st'). (inp\<lparr>i_addr := ptrs\<rparr>, st')) (ptr_loop st data sz [b..<b + k] (i_addr inp) b)"
proof (induction k arbitrary: st b inp)
  case 0
  then show ?case by simp
next
  case (Suc k)
  have u: "[b..<b + Suc k] = b # [Suc b..<Suc b + k]" by (simp add: upt_rec)
  show ?case
    unfolding u using Suc.IH [of _ "Suc b"]
    by (auto simp: alloc_data_def split: option.split Option.bind_split)
qed

lemma concat_ptrs_length: "length ptrs = 256 \<Longrightarrow> length (concat (map put_u16 ptrs)) = sector_size"
  by simp

lemma ind_loop_group:
  assumes "sound st" and "DATA_START \<le> g_nextData st" and "k \<le> 256"
  shows "\<exists>ptrs st1 st3. ptr_loop st data sz [0..<k] (replicate PTRS_PER_BLOCK 0) w = Some (ptrs, w + k, st1) \<and>
    wsector (snd (alloc_data st1)) (g_nextData st1) (concat (map put_u16 ptrs)) = Some st3 \<and>
    sound st3 \<and> g_nextData st1 = g_nextData st + int k \<and> g_nextData st3 = g_nextData st + int k + 1 \<and>
    g_nextInode st3 = g_nextInode st \<and> agree (g_disk st) (g_disk st3) (g_nextData st) \<and>
    (\<forall>m. 0 \<le> m \<longrightarrow> m < DATA_START \<longrightarrow> sec st3 m = sec st m) \<and>
    (\<forall>addr b q. addr ! q = word_of_int (g_nextData st + int k) \<longrightarrow> b div 256 = q \<longrightarrow> b mod 256 < k \<longrightarrow>
       indirect_at (g_disk st3) (g_nextData st3) addr b (file_chunk data sz (w + b mod 256)))"
proof -
  let ?nd = "g_nextData st"
  have nd0: "0 \<le> ?nd" using assms(2) by (simp add: DATA_START_def v6_consts NUM_INODE_BLOCKS_def)
  have len: "0 + k \<le> length (replicate PTRS_PER_BLOCK (0 :: u16))" using assms(3) by (simp add: PTRS_PER_BLOCK_def)
  from ptr_loop_spec [OF assms(1,2) len, of data sz w] obtain ptrs st1 where
    p: "ptr_loop st data sz [0..<k] (replicate PTRS_PER_BLOCK 0) w = Some (ptrs, w + k, st1)"
    and s1: "sound st1" "g_nextData st1 = ?nd + int k" "g_nextInode st1 = g_nextInode st"
    and lp: "length ptrs = 256"
    and e: "\<And>i. i < k \<Longrightarrow> ptrs ! i = word_of_int (?nd + int i)"
    and m1: "\<And>m. 0 \<le> m \<Longrightarrow> sec st1 m = (if ?nd \<le> m \<and> m < ?nd + int k
        then Some (file_chunk data sz (w + nat (m - ?nd))) else sec st m)"
    using assms(3) by (auto simp: PTRS_PER_BLOCK_def)
  let ?a = "snd (alloc_data st1)" and ?ip = "g_nextData st1"
  have ip: "0 \<le> ?ip" using nd0 s1(2) by simp
  obtain st3 where st3: "wsector ?a ?ip (concat (map put_u16 ptrs)) = Some st3" "sound st3"
      "g_nextData st3 = ?nd + int k + 1" "g_nextInode st3 = g_nextInode st"
      "\<And>m. 0 \<le> m \<Longrightarrow> sec st3 m = (if m = ?ip then Some (concat (map put_u16 ptrs)) else sec st1 m)"
    using alloc_write [OF s1(1) ip concat_ptrs_length [OF lp]] s1(2,3) by auto
  have low: "sec st3 m = sec st m" if "0 \<le> m" "m < ?nd" for m
    using st3(5) [OF that(1)] m1 [OF that(1)] that(2) s1(2) by simp
  have ind: "indirect_at (g_disk st3) (g_nextData st3) addr b (file_chunk data sz (w + b mod 256))"
    if "addr ! q = word_of_int (?nd + int k)" "b div 256 = q" "b mod 256 < k" for addr b q
  proof -
    let ?dp = "?nd + int (b mod 256)"
    have "data_sector (g_nextData st3) ?ip" "data_sector (g_nextData st3) ?dp"
      using assms(2) that(3) s1(2) st3(3) by (simp_all add: data_sector_def)
    moreover have "sec st3 ?ip = Some (concat (map put_u16 ptrs))" using st3(5) [OF ip] by simp
    moreover have "u16_at (concat (map put_u16 ptrs)) (2 * (b mod 256)) = word_of_int ?dp"
      using u16_at_concat [of "b mod 256" ptrs "[]"] e [OF that(3)] lp by simp
    moreover have "sec st3 ?dp = Some (file_chunk data sz (w + b mod 256))"
      using st3(5) [of ?dp] m1 [of ?dp] nd0 that(3) s1(2) by simp
    ultimately show ?thesis using that s1(2) unfolding indirect_at_def by metis
  qed
  have "agree (g_disk st) (g_disk st3) ?nd"
    using low nd0 by (auto simp: agree_def data_sector_def DATA_START_def v6_consts NUM_INODE_BLOCKS_def)
  with p st3 s1 low ind assms(2) show ?thesis by (intro exI [of _ ptrs] exI [of _ st1] exI [of _ st3]) auto
qed

definition low_unchanged :: "mkfs \<Rightarrow> mkfs \<Rightarrow> bool" where
  "low_unchanged st st' \<longleftrightarrow> (\<forall>m. 0 \<le> m \<longrightarrow> m < DATA_START \<longrightarrow> sec st' m = sec st m)"

lemma low_unchanged_refl [simp]: "low_unchanged st st"
  by (simp add: low_unchanged_def)

lemma low_unchanged_trans: "low_unchanged st st' \<Longrightarrow> low_unchanged st' st'' \<Longrightarrow> low_unchanged st st''"
  by (simp add: low_unchanged_def)

lemma low_unchanged_iget:
  assumes "low_unchanged st st'" and "i \<le> 64"
  shows "inode_iget (g_disk st') i = inode_iget (g_disk st) i"
proof (cases "i < 1")
  case True
  then show ?thesis by (simp add: inode_iget_def)
next
  case False
  then have "sec st' (INODE_START_SECTOR + (i - 1) div int INODES_PER_BLOCK)
      = sec st (INODE_START_SECTOR + (i - 1) div int INODES_PER_BLOCK)"
    using assms inode_sector_range [of i] by (simp add: low_unchanged_def)
  then show ?thesis using False by (simp add: inode_iget_def Let_def)
qed

text \<open>What a block loop leaves behind: more sectors in use, everything older as it was.\<close>

definition extends :: "mkfs \<Rightarrow> mkfs \<Rightarrow> bool" where
  "extends st st' \<longleftrightarrow> sound st' \<and> g_nextData st \<le> g_nextData st' \<and> g_nextInode st' = g_nextInode st \<and>
     agree (g_disk st) (g_disk st') (g_nextData st) \<and> low_unchanged st st'"

lemma extends_refl: "sound st \<Longrightarrow> extends st st"
  by (simp add: extends_def)

lemma extends_trans: "extends st st' \<Longrightarrow> extends st' st'' \<Longrightarrow> extends st st''"
  unfolding extends_def by (auto intro: agree_trans low_unchanged_trans)

lemma ind_loop_spec:
  assumes "sound st" and "DATA_START \<le> g_nextData st" and "i \<le> 7" and "r \<le> 256 * (7 - i)"
    and "r = 0 \<or> w = 256 * i" and "length (i_addr inp) = 8"
  shows "\<exists>addr st'. ind_loop st data sz [i..<7] r w inp = Some (inp\<lparr>i_addr := addr\<rparr>, st') \<and>
    extends st st' \<and> g_nextData st' \<le> g_nextData st + int r + int (7 - i) \<and> length addr = 8 \<and>
    (\<forall>q < i. addr ! q = i_addr inp ! q) \<and>
    (\<forall>b. 256 * i \<le> b \<longrightarrow> b < 256 * i + r \<longrightarrow>
       indirect_at (g_disk st') (g_nextData st') addr b (file_chunk data sz b))"
  using assms
proof (induction "7 - i" arbitrary: st i r w inp)
  case 0
  then have "i = 7" "r = 0" by simp_all
  then show ?case using 0 by (intro exI [of _ "i_addr inp"] exI [of _ st]) (simp add: extends_refl)
next
  case (Suc n)
  then have i: "i < 7" by simp
  then have u: "[i..<7] = i # [Suc i..<7]" by (simp add: upt_rec)
  show ?case
  proof (cases "r = 0")
    case True
    then show ?thesis using Suc.prems
      by (intro exI [of _ "i_addr inp"] exI [of _ st]) (simp add: u extends_refl)
  next
    case False
    then have w: "w = 256 * i" using Suc.prems(5) by simp
    define k where "k = min r 256"
    have k: "k \<le> 256" "0 < k" "k \<le> r" using False by (simp_all add: k_def)
    from ind_loop_group [OF Suc.prems(1,2) k(1), of data sz w] obtain ptrs st1 st3 where
      p: "ptr_loop st data sz [0..<k] (replicate PTRS_PER_BLOCK 0) w = Some (ptrs, w + k, st1)"
      and wr: "wsector (snd (alloc_data st1)) (g_nextData st1) (concat (map put_u16 ptrs)) = Some st3"
      and s3: "sound st3" "g_nextData st1 = g_nextData st + int k"
        "g_nextData st3 = g_nextData st + int k + 1" "g_nextInode st3 = g_nextInode st"
      and fr: "agree (g_disk st) (g_disk st3) (g_nextData st)" "low_unchanged st st3"
      and ind: "\<And>addr b q. addr ! q = word_of_int (g_nextData st + int k) \<Longrightarrow> b div 256 = q \<Longrightarrow>
         b mod 256 < k \<Longrightarrow>
         indirect_at (g_disk st3) (g_nextData st3) addr b (file_chunk data sz (w + b mod 256))"
      unfolding low_unchanged_def by blast
    let ?ip = "g_nextData st + int k"
    let ?inp = "inp\<lparr>i_addr := (i_addr inp)[i := word_of_int ?ip]\<rparr>"
    have ext: "extends st st3" using s3 fr by (simp add: extends_def)
    have "n = 7 - Suc i" using Suc.hyps(2) by simp
    moreover have "DATA_START \<le> g_nextData st3" using Suc.prems(2) s3(3) by simp
    moreover have "Suc i \<le> 7" using i by simp
    moreover have "r - k \<le> 256 * (7 - Suc i)" 
    proof -
      have "256 * (7 - i) = 256 * (7 - Suc i) + 256" using i by linarith
      then have "r \<le> 256 * (7 - Suc i) + 256" using Suc.prems(4) by linarith
      moreover have "r - k = (if r \<le> 256 then 0 else r - 256)" by (simp add: k_def min_def)
      ultimately show ?thesis by (auto split: if_splits)
    qed
    moreover have "r - k = 0 \<or> w + k = 256 * Suc i" using w by (simp add: k_def min_def)
    moreover have "length (i_addr ?inp) = 8" using Suc.prems(6) by simp
    ultimately obtain addr st' where
      l: "ind_loop st3 data sz [Suc i..<7] (r - k) (w + k) ?inp = Some (?inp\<lparr>i_addr := addr\<rparr>, st')"
      and e': "extends st3 st'" "g_nextData st' \<le> g_nextData st3 + int (r - k) + int (7 - Suc i)"
      and a: "length addr = 8" "\<And>q. q < Suc i \<Longrightarrow> addr ! q = i_addr ?inp ! q"
      and rest: "\<And>b. 256 * Suc i \<le> b \<Longrightarrow> b < 256 * Suc i + (r - k) \<Longrightarrow>
         indirect_at (g_disk st') (g_nextData st') addr b (file_chunk data sz b)"
      using Suc.hyps(1) [of "Suc i" st3 "r - k" "w + k" ?inp] s3(1) by blast
    have "ind_loop st data sz [i..<7] r w inp = Some (inp\<lparr>i_addr := addr\<rparr>, st')"
      using False p wr l s3(2) by (simp add: u k_def PTRS_PER_BLOCK_def alloc_data_def)
    moreover have "indirect_at (g_disk st') (g_nextData st') addr b (file_chunk data sz b)"
      if b: "256 * i \<le> b" "b < 256 * i + r" for b
    proof (cases "b < 256 * i + k")
      case True
      then have q: "b div 256 = i" "b mod 256 < k" "w + b mod 256 = b"

      proof -
        obtain j where j: "b = 256 * i + j" "j < k" using b(1) True by (metis le_Suc_ex nat_add_left_cancel_less)
        then have "j < 256" using k(1) by simp
        then show "b div 256 = i" "b mod 256 < k" "w + b mod 256 = b" using j w by simp_all
      qed
      have "addr ! i = word_of_int ?ip" using a(2) [of i] i Suc.prems(6) by simp
      from ind [OF this q(1,2)] show ?thesis
        using e'(1) by (auto simp: q(3) extends_def intro: agree_indirect)
    next
      case False
      then have "256 * Suc i \<le> b" "b < 256 * Suc i + (r - k)" using b by (auto simp: k_def)
      then show ?thesis by (rule rest)
    qed
    moreover have "g_nextData st' \<le> g_nextData st + int r + int (7 - i)"
      using e'(2) s3(3) k(3) i by (simp add: of_nat_diff)
    moreover have "addr ! q = i_addr inp ! q" if "q < i" for q
      using a(2) [of q] that by simp
    ultimately show ?thesis
      using extends_trans [OF ext e'(1)] a(1) by (intro exI [of _ addr] exI [of _ st']) simp
  qed
qed

section \<open>Whole files\<close>

definition max_file_blocks :: nat where "max_file_blocks = 7 * 256"

lemma mode_bits:
  "(IALLOC OR ILARG) AND ILARG \<noteq> 0" "IALLOC AND ILARG = 0"
  "(IALLOC OR ILARG) AND IFMT \<noteq> IFDIR" "IALLOC AND IFMT \<noteq> IFDIR"
  "(IALLOC OR IFDIR) AND IFMT = IFDIR" "(IALLOC OR IFDIR) AND ILARG = 0" "ILARG \<noteq> 0"
  "(IALLOC OR IFDIR) AND IALLOC \<noteq> 0"
  by (simp_all add: IALLOC_def ILARG_def IFMT_def IFDIR_def)

text \<open>The blocks of a file are in place before its inode is written.\<close>

lemma file_blocks_written:
  assumes "sound st" and "DATA_START \<le> g_nextData st"
    and inp: "inp = set_size (zero_inode\<lparr>i_mode := IALLOC, i_nlink := 1\<rparr>) (int sz)"
    and n: "n \<le> max_file_blocks"
  shows "\<exists>inp' st'. (if n \<le> 8 then small_loop st data sz [0..<n] inp
       else ind_loop st data sz [0..<7] n 0 (inp\<lparr>i_mode := i_mode inp OR ILARG\<rparr>)) = Some (inp', st') \<and>
    extends st st' \<and> g_nextData st' \<le> g_nextData st + int n + 7 \<and> inode_ok inp' \<and>
    inode_getsize inp' = inode_getsize inp \<and> i_mode inp' AND IFMT \<noteq> IFDIR \<and>
    (i_mode inp' AND ILARG = 0 \<longleftrightarrow> n \<le> 8) \<and>
    (\<forall>b < n. block_at (g_disk st') (g_nextData st') inp' b (file_chunk data sz b))"
proof (cases "n \<le> 8")
  case True
  have nd: "0 \<le> g_nextData st" using assms(2) by (simp add: DATA_START_def v6_consts NUM_INODE_BLOCKS_def)
  have len: "length (i_addr inp) = 8" by (simp add: inp set_size_def zero_inode_def)
  with True have "0 + n \<le> length (i_addr inp)" by simp
  from ptr_loop_spec [OF assms(1,2) this, of data sz 0] obtain ptrs st' where
    p: "ptr_loop st data sz [0..<n] (i_addr inp) 0 = Some (ptrs, n, st')"
    and s: "sound st'" "g_nextData st' = g_nextData st + int n" "g_nextInode st' = g_nextInode st"
    and l: "length ptrs = 8"
    and e: "\<And>i. i < n \<Longrightarrow> ptrs ! i = word_of_int (g_nextData st + int i)"
    and m: "\<And>m. 0 \<le> m \<Longrightarrow> sec st' m = (if g_nextData st \<le> m \<and> m < g_nextData st + int n
        then Some (file_chunk data sz (0 + nat (m - g_nextData st))) else sec st m)"
    using len True by auto
  let ?inp' = "inp\<lparr>i_addr := ptrs\<rparr>"
  have run: "small_loop st data sz [0..<n] inp = Some (?inp', st')"
    using small_loop_ptr_loop [of st data sz 0 n inp] p by simp
  have low: "sec st' m = sec st m" if "0 \<le> m" "m < g_nextData st" for m using m [OF that(1)] that(2) by simp
  then have "extends st st'"
    using s assms(2) by (auto simp: extends_def agree_def data_sector_def low_unchanged_def DATA_START_def
        v6_consts NUM_INODE_BLOCKS_def)
  moreover have "block_at (g_disk st') (g_nextData st') ?inp' b (file_chunk data sz b)" if "b < n" for b
  proof -
    have "direct_at (g_disk st') (g_nextData st') ptrs b (file_chunk data sz b)"
      unfolding direct_at_def
      using e [OF that] m [of "g_nextData st + int b"] nd that s(2) assms(2)
      by (intro exI [of _ "g_nextData st + int b"]) (simp add: data_sector_def)
    then show ?thesis
      using True that by (simp add: block_at_def inp set_size_def mode_bits)
  qed
  moreover have "inode_getsize ?inp' = inode_getsize inp" by (simp add: inode_getsize_def)
  moreover have "inode_ok ?inp'" using l by (simp add: inode_ok_def inp set_size_def zero_inode_def)
  ultimately show ?thesis
    using True run s by (intro exI [of _ ?inp'] exI [of _ st'])
      (simp add: inp set_size_def mode_bits)
next
  case False
  let ?inp = "inp\<lparr>i_mode := i_mode inp OR ILARG\<rparr>"
  have len: "length (i_addr ?inp) = 8" by (simp add: inp set_size_def zero_inode_def)
  have "n \<le> 256 * (7 - 0)" using n by (simp add: max_file_blocks_def)
  from ind_loop_spec [OF assms(1,2) _ this _ len, of 0 data sz] obtain addr st' where
    l: "ind_loop st data sz [0..<7] n 0 ?inp = Some (?inp\<lparr>i_addr := addr\<rparr>, st')"
    and e: "extends st st'" "g_nextData st' \<le> g_nextData st + int n + 7" "length addr = 8"
    and b: "\<And>b. b < n \<Longrightarrow> indirect_at (g_disk st') (g_nextData st') addr b (file_chunk data sz b)"
    by auto
  let ?inp' = "?inp\<lparr>i_addr := addr\<rparr>"
  have "block_at (g_disk st') (g_nextData st') ?inp' b (file_chunk data sz b)" if "b < n" for b
    using b [OF that] that n by (simp add: block_at_def inp set_size_def mode_bits max_file_blocks_def)
  moreover have "inode_getsize ?inp' = inode_getsize inp" by (simp add: inode_getsize_def)
  moreover have "inode_ok ?inp'" using e(3) by (simp add: inode_ok_def inp set_size_def zero_inode_def)
  ultimately show ?thesis
    using False l e by (intro exI [of _ ?inp'] exI [of _ st'])
      (simp add: inp set_size_def mode_bits)
qed

lemma file_at_put_inode:
  assumes "extends st st'" and "\<And>m. DATA_START \<le> m \<Longrightarrow> sec st'' m = sec st' m"
    and "sound st''" and "g_nextData st'' = g_nextData st'" and "g_nextInode st'' = g_nextInode st'"
    and "\<And>j. j \<noteq> i \<Longrightarrow> inode_iget (g_disk st'') j = inode_iget (g_disk st') j"
  shows "agree (g_disk st') (g_disk st'') (g_nextData st')"
    and "agree (g_disk st) (g_disk st'') (g_nextData st)"
    and "j \<noteq> i \<Longrightarrow> j \<le> 64 \<Longrightarrow> inode_iget (g_disk st'') j = inode_iget (g_disk st) j"
proof -
  show a: "agree (g_disk st') (g_disk st'') (g_nextData st')"
    using assms(2) by (simp add: agree_def data_sector_def)
  show "agree (g_disk st) (g_disk st'') (g_nextData st)"
    using assms(1) a by (auto simp: extends_def intro: agree_trans)
  show "j \<noteq> i \<Longrightarrow> j \<le> 64 \<Longrightarrow> inode_iget (g_disk st'') j = inode_iget (g_disk st) j"
    using assms(1,6) low_unchanged_iget by (simp add: extends_def)
qed

lemma num_blocks_le: "sz \<le> max_file_blocks * 512 \<Longrightarrow> nat (num_blocks (int sz)) \<le> max_file_blocks"
  using num_blocks_iff [of "int max_file_blocks" "int sz"] by (simp add: max_file_blocks_def)

lemma make_file_written:
  assumes "sound st" and "DATA_START \<le> g_nextData st" and "1 \<le> i" and "i \<le> 64"
    and len: "length data \<le> max_file_blocks * 512"
  shows "\<exists>inp st'. make_file st i data (length data) = Some (i, st') \<and> sound st' \<and>
    g_nextData st \<le> g_nextData st' \<and>
    g_nextData st' \<le> g_nextData st + num_blocks (int (length data)) + 7 \<and>
    g_nextInode st' = g_nextInode st \<and>
    file_at (g_disk st') (g_nextData st') i inp data \<and> i_mode inp AND IFMT \<noteq> IFDIR \<and>
    (i_mode inp AND ILARG = 0 \<longleftrightarrow> num_blocks (int (length data)) \<le> 8) \<and>
    agree (g_disk st) (g_disk st') (g_nextData st) \<and>
    (\<forall>j \<le> 64. j \<noteq> i \<longrightarrow> inode_iget (g_disk st') j = inode_iget (g_disk st) j)"
proof -
  let ?sz = "length data"
  define n where "n = nat (num_blocks (int ?sz))"
  define inp0 where "inp0 = set_size (zero_inode\<lparr>i_mode := IALLOC, i_nlink := 1\<rparr>) (int ?sz)"
  have n: "n \<le> max_file_blocks" using num_blocks_le [OF len] by (simp add: n_def)
  have n_int: "int n = num_blocks (int ?sz)"
    using num_blocks_iff [of "-1" "int ?sz"] by (simp add: n_def)
  have size0: "inode_getsize inp0 = int ?sz"
    using len by (simp add: inp0_def inode_getsize_set_size max_file_blocks_def)
  from file_blocks_written [OF assms(1,2) inp0_def n, of data] obtain inp st1 where
    run: "(if n \<le> 8 then small_loop st data ?sz [0..<n] inp0
       else ind_loop st data ?sz [0..<7] n 0 (inp0\<lparr>i_mode := i_mode inp0 OR ILARG\<rparr>)) = Some (inp, st1)"
    and e: "extends st st1" "g_nextData st1 \<le> g_nextData st + int n + 7"
    and ok: "inode_ok inp" "inode_getsize inp = int ?sz" "i_mode inp AND IFMT \<noteq> IFDIR"
      "i_mode inp AND ILARG = 0 \<longleftrightarrow> n \<le> 8"
    and blk: "\<And>b. b < n \<Longrightarrow> block_at (g_disk st1) (g_nextData st1) inp b (file_chunk data ?sz b)"
    using size0 by auto
  have "sound st1" using e(1) by (simp add: extends_def)
  from put_inode_obtains [OF this assms(3,4) ok(1)] obtain st2 where
    put: "put_inode st1 i inp = Some st2" "sound st2" "g_nextData st2 = g_nextData st1"
      "g_nextInode st2 = g_nextInode st1" "inode_iget (g_disk st2) i = Some inp"
    and oth: "\<And>j. j \<noteq> i \<Longrightarrow> inode_iget (g_disk st2) j = inode_iget (g_disk st1) j"
      "\<And>m. DATA_START \<le> m \<Longrightarrow> sec st2 m = sec st1 m"
    by blast
  note fr = file_at_put_inode [OF e(1) oth(2) put(2,3,4) oth(1)]
  have "file_at (g_disk st2) (g_nextData st2) i inp data"
    unfolding file_at_def using put(3,5) ok(2) blk fr(1)
    by (auto simp: n_def [symmetric] intro: agree_block)
  moreover have "make_file st i data ?sz = Some (i, st2)"
    using run put(1) by (simp add: make_file_def Let_def n_def [symmetric] inp0_def [symmetric])
  moreover have "n \<le> 8 \<longleftrightarrow> num_blocks (int ?sz) \<le> 8" using n_int by linarith
  ultimately show ?thesis
    using put(2,3,4) e ok(3,4) fr(2,3) n_int by (intro exI [of _ inp] exI [of _ st2]) (simp add: extends_def)
qed

section \<open>Directories\<close>

lemma length_encode_dirent: "length (d_name e) = 14 \<Longrightarrow> length (encode_dirent e) = DIRENT_SIZE"
  by (simp add: encode_dirent_def DIRENT_SIZE_def)

lemma decode_encode_dirent:
  "length (d_name e) = 14 \<Longrightarrow> decode_dirent (encode_dirent e) = e"
  using u16_at_put_u16 [of "d_inumber e" "bytes_of_string (d_name e)"]
  by (simp add: decode_dirent_def encode_dirent_def MAX_COMPONENT_LENGTH_def)

lemma length_concat_dirents:
  "\<forall>e \<in> set es. length (d_name e) = 14 \<Longrightarrow> length (concat (map encode_dirent es)) = 16 * length es"
  by (induction es) (auto simp: length_encode_dirent DIRENT_SIZE_def)

lemma take_drop_dirent:
  "\<forall>e \<in> set es. length (d_name e) = 14 \<Longrightarrow> i < length es \<Longrightarrow>
   take 16 (drop (16 * i) (concat (map encode_dirent es) @ rest)) = encode_dirent (es ! i)"
proof (induction es arbitrary: i)
  case Nil
  then show ?case by simp
next
  case (Cons e es)
  then have "length (encode_dirent e) = 16" by (simp add: length_encode_dirent DIRENT_SIZE_def)
  with Cons show ?case by (cases i) simp_all
qed

lemma dirents_concat:
  assumes "\<forall>e \<in> set es. length (d_name e) = 14"
  shows "dirents (length es) (concat (map encode_dirent es) @ rest) = es"
proof (rule nth_equalityI)
  fix i assume "i < length (dirents (length es) (concat (map encode_dirent es) @ rest))"
  then have "i < length es" by (simp add: dirents_def)
  with assms take_drop_dirent [OF assms this] show
    "dirents (length es) (concat (map encode_dirent es) @ rest) ! i = es ! i"
    by (simp add: dirents_def DIRENT_SIZE_def decode_encode_dirent)
qed (simp add: dirents_def)

text \<open>A directory with the given entries, held in one data block below \<open>nd\<close>.\<close>

definition dir_at :: "disk \<Rightarrow> int \<Rightarrow> int \<Rightarrow> direntv6 list \<Rightarrow> bool" where
  "dir_at d nd ino es \<longleftrightarrow>
     (\<exists>inp. inode_iget d ino = Some inp \<and> i_mode inp AND IFMT = IFDIR \<and> i_mode inp AND IALLOC \<noteq> 0 \<and>
        inode_getsize inp = 16 * int (length es) \<and> length es \<le> 32 \<and> es \<noteq> [] \<and>
        (\<forall>e \<in> set es. length (d_name e) = 14) \<and>
        block_at d nd inp 0 (zero_fill (concat (map encode_dirent es))))"

lemma agree_dir:
  "agree d d' nd \<Longrightarrow> nd \<le> nd' \<Longrightarrow> inode_iget d' ino = inode_iget d ino \<Longrightarrow>
   dir_at d nd ino es \<Longrightarrow> dir_at d' nd' ino es"
  unfolding dir_at_def by (metis agree_block)

lemma dir_at_read:
  assumes "dir_at d nd ino es" and "nd \<le> 65536"
  shows "\<exists>inp valid buf. inode_iget d ino = Some inp \<and> i_mode inp AND IFMT = IFDIR \<and>
    inode_getsize inp = 16 * int (length es) \<and> num_blocks (16 * int (length es)) = 1 \<and>
    file_getblock d ino 0 = Some (valid, buf) \<and> dirents (valid div DIRENT_SIZE) buf = es"
proof -
  obtain inp where inp: "inode_iget d ino = Some inp" "i_mode inp AND IFMT = IFDIR"
      "inode_getsize inp = 16 * int (length es)" and es: "length es \<le> 32" "es \<noteq> []"
      "\<forall>e \<in> set es. length (d_name e) = 14"
    and blk: "block_at d nd inp 0 (zero_fill (concat (map encode_dirent es)))"
    using assms(1) by (auto simp: dir_at_def)
  let ?c = "concat (map encode_dirent es)"
  have pos: "0 < length es" using es(2) by simp
  have one: "num_blocks (16 * int (length es)) = 1"
    using num_blocks_iff [of 0 "16 * int (length es)"] num_blocks_iff [of 1 "16 * int (length es)"] es(1) pos
    by linarith
  note look = block_at_lookup [OF blk assms(2)]
  have "file_getblock d ino 0 \<noteq> None"
    using inp(1) look by (simp add: file_getblock_def Let_def)
  then obtain valid buf where g: "file_getblock d ino 0 = Some (valid, buf)" by auto
  have "buf = zero_fill ?c"
    using g inp(1) look by (auto simp: file_getblock_def Let_def split: if_splits)
  moreover have "valid = nat (min 512 (16 * int (length es)))"
    using file_getblock_valid [OF g inp(1)] inp(3) one by simp
  then have "valid = 16 * length es" using es(1) by linarith
  ultimately have "dirents (valid div DIRENT_SIZE) buf = es"
    using dirents_concat [OF es(3)] by (simp add: DIRENT_SIZE_def zero_fill_def)
  then show ?thesis using inp one g by blast
qed

lemma directory_findname_dir_at:
  assumes "dir_at d nd ino es" and "nd \<le> 65536"
  shows "directory_findname d nm ino = match_entry nm es"
proof -
  from dir_at_read [OF assms] obtain inp valid buf where
    "inode_iget d ino = Some inp" "i_mode inp AND IFMT = IFDIR" "inode_getsize inp = 16 * int (length es)"
    "num_blocks (16 * int (length es)) = 1" "file_getblock d ino 0 = Some (valid, buf)"
    "dirents (valid div DIRENT_SIZE) buf = es" by blast
  then show ?thesis by (simp add: directory_findname_def upt_rec split: option.split)
qed

end
