(* ===== verification/V6_Image.thy ===== *)
theory V6_Image
  imports V6_Roundtrip
begin

text \<open>
  The image that \<open>mkfs_v6\<close>'s \<open>main\<close> builds, step by step, and what the reader finds on it: the
  demo tree of \<open>/hello.txt\<close>, \<open>/README\<close>, \<open>/big.dat\<close> and \<open>/a/b/c/deep.txt\<close>.
\<close>

lemma make_dir_written:
  assumes "sound st" and "DATA_START \<le> g_nextData st" and "1 \<le> i" and "i \<le> 64"
    and len: "length entries \<le> 30" and names: "\<forall>e \<in> set entries. length (d_name e) = 14"
  shows "\<exists>st'. make_dir st i parent entries = Some (i, st') \<and> sound st' \<and>
    g_nextData st' = g_nextData st + 1 \<and> g_nextInode st' = g_nextInode st \<and>
    dir_at (g_disk st') (g_nextData st') i (mkent i ''.'' # mkent parent ''..'' # entries) \<and>
    agree (g_disk st) (g_disk st') (g_nextData st) \<and>
    (\<forall>j \<le> 64. j \<noteq> i \<longrightarrow> inode_iget (g_disk st') j = inode_iget (g_disk st) j)"
proof -
  let ?es = "mkent i ''.'' # mkent parent ''..'' # entries"
  let ?buf = "zero_fill (concat (map encode_dirent ?es))"
  let ?nd = "g_nextData st"
  define sz where "sz = 16 * int (length ?es)"
  define inp0 where "inp0 = set_size (zero_inode\<lparr>i_mode := IALLOC OR IFDIR, i_nlink := 2\<rparr>) sz"
  define inp where "inp = inp0\<lparr>i_addr := (i_addr inp0)[0 := word_of_int ?nd]\<rparr>"
  have nd: "0 \<le> ?nd" using assms(2) by (simp add: DATA_START_def v6_consts NUM_INODE_BLOCKS_def)
  have names': "\<forall>e \<in> set ?es. length (d_name e) = 14"
    using names by (simp add: mkent_def MAX_COMPONENT_LENGTH_def)
  have lc: "length (concat (map encode_dirent ?es)) = 16 * length ?es"
    using names' by (rule length_concat_dirents)
  then have "length ?buf = sector_size" using len by (intro length_zero_fill) simp
  from alloc_write [OF assms(1) nd this] obtain st1 where
    w: "wsector (snd (alloc_data st)) ?nd ?buf = Some st1" "sound st1" "g_nextData st1 = ?nd + 1"
      "g_nextInode st1 = g_nextInode st"
    and m: "\<And>m. 0 \<le> m \<Longrightarrow> sec st1 m = (if m = ?nd then Some ?buf else sec st m)"
    by auto
  have ext: "extends st st1"
    using w m assms(2) nd by (auto simp: extends_def agree_def data_sector_def low_unchanged_def
        DATA_START_def v6_consts NUM_INODE_BLOCKS_def)
  have ok: "inode_ok inp" by (simp add: inp_def inp0_def inode_ok_def set_size_def zero_inode_def)
  have addr: "i_addr inp ! 0 = word_of_int ?nd"
    by (simp add: inp_def inp0_def set_size_def zero_inode_def)
  have mode: "i_mode inp = IALLOC OR IFDIR" by (simp add: inp_def inp0_def set_size_def)
  have "inode_getsize inp = inode_getsize inp0" by (simp add: inp_def inode_getsize_def)
  also have "\<dots> = sz" using len by (simp add: inp0_def inode_getsize_set_size sz_def)
  finally have size: "inode_getsize inp = sz" .
  from put_inode_obtains [OF w(2) assms(3,4) ok] obtain st2 where
    put: "put_inode st1 i inp = Some st2" "sound st2" "g_nextData st2 = g_nextData st1"
      "g_nextInode st2 = g_nextInode st1" "inode_iget (g_disk st2) i = Some inp"
    and oth: "\<And>j. j \<noteq> i \<Longrightarrow> inode_iget (g_disk st2) j = inode_iget (g_disk st1) j"
      "\<And>m. DATA_START \<le> m \<Longrightarrow> sec st2 m = sec st1 m"
    by blast
  note fr = file_at_put_inode [OF ext oth(2) put(2,3,4) oth(1)]
  have "direct_at (g_disk st2) (g_nextData st2) (i_addr inp) 0 ?buf"
    unfolding direct_at_def using assms(2) put(3) w(3) addr oth(2) [of ?nd] m [OF nd]
    by (intro exI [of _ ?nd]) (simp add: data_sector_def)
  then have "block_at (g_disk st2) (g_nextData st2) inp 0 ?buf"
    by (simp add: block_at_def mode mode_bits)
  then have "dir_at (g_disk st2) (g_nextData st2) i ?es"
    unfolding dir_at_def using put(5) mode mode_bits(5,8) size len names'
    by (intro exI [of _ inp]) (simp add: sz_def)
  moreover have "make_dir st i parent entries = Some (i, st2)"
    using len w(1) put(1)
    by (simp add: make_dir_def Let_def DIRENT_SIZE_def alloc_data_def inp_def inp0_def sz_def algebra_simps)
  ultimately show ?thesis using put(2,3,4) w(3,4) fr(2,3) by (intro exI [of _ st2]) simp
qed

section \<open>The main program\<close>

definition newline :: char where "newline = CHR 0x0A"

definition hello_txt :: "byte list" where
  "hello_txt = bytes_of_string (''Hello from the Unix v6 filesystem!'' @ [newline] @
     ''This file lives at /hello.txt'' @ [newline])"

definition readme_txt :: "byte list" where
  "readme_txt = bytes_of_string (''CS110 assign2: layered v6 filesystem reader.'' @ [newline] @
     ''Layers: diskimg -> inode -> file -> directory -> pathname.'' @ [newline])"

definition big_dat :: "byte list" where
  "big_dat = map (\<lambda>i. word_of_nat (65 + i mod 26)) [0..<20 * sector_size + 137]"

definition deep_txt :: "byte list" where
  "deep_txt = bytes_of_string (''reached the bottom of /a/b/c/deep.txt'' @ [newline])"

fun zero_sectors :: "mkfs \<Rightarrow> nat list \<Rightarrow> mkfs option" where
  "zero_sectors st [] = Some st"
| "zero_sectors st (b # bs) =
     do { st1 \<leftarrow> wsector st (int b) (replicate sector_size 0); zero_sectors st1 bs }"

text \<open>
  The superblock as written: the first 512 bytes of \<open>struct filsys\<close> with all but
  \<open>s_isize\<close> and \<open>s_fsize\<close> zero.
\<close>

definition superblock :: "int \<Rightarrow> int \<Rightarrow> byte list" where
  "superblock isize fsize = zero_fill (put_u16 (word_of_int isize) @ put_u16 (word_of_int fsize))"

definition ftruncate_image :: "disk \<Rightarrow> nat \<Rightarrow> disk" where
  "ftruncate_image d n = d\<lparr>image := take n (image d @ replicate (n - length (image d)) 0)\<rparr>"

definition build_files :: "mkfs \<Rightarrow> (int \<times> int \<times> int \<times> int \<times> mkfs) option" where
  "build_files st0 =
     do {
       let (i1, st1) = alloc_inode st0;
       (helloInode, st2) \<leftarrow> make_file st1 i1 hello_txt (length hello_txt);
       let (i2, st3) = alloc_inode st2;
       (readmeInode, st4) \<leftarrow> make_file st3 i2 readme_txt (length readme_txt);
       let (i3, st5) = alloc_inode st4;
       (bigInode, st6) \<leftarrow> make_file st5 i3 big_dat (length big_dat);
       let (i4, st7) = alloc_inode st6;
       (deepInode, st8) \<leftarrow> make_file st7 i4 deep_txt (length deep_txt);
       Some (helloInode, readmeInode, bigInode, deepInode, st8)
     }"

definition build_dirs :: "int \<Rightarrow> int \<Rightarrow> int \<Rightarrow> int \<Rightarrow> mkfs \<Rightarrow> mkfs option" where
  "build_dirs helloInode readmeInode bigInode deepInode st0 =
     do {
       let (cInode, st1) = alloc_inode st0;
       let (bInode, st2) = alloc_inode st1;
       let (aInode, st3) = alloc_inode st2;
       (_, st4) \<leftarrow> make_dir st3 cInode bInode [mkent deepInode ''deep.txt''];
       (_, st5) \<leftarrow> make_dir st4 bInode aInode [mkent cInode ''c''];
       (_, st6) \<leftarrow> make_dir st5 aInode ROOTINO [mkent bInode ''b''];
       (_, st7) \<leftarrow> make_dir st6 ROOTINO ROOTINO
         [mkent helloInode ''hello.txt'', mkent readmeInode ''README'',
          mkent bigInode ''big.dat'', mkent aInode ''a''];
       Some st7
     }"

definition mkfs_main :: "disk \<Rightarrow> disk option" where
  "mkfs_main d =
     do {
       st1 \<leftarrow> zero_sectors (mkfs_init (d\<lparr>image := []\<rparr>)) [0..<nat DATA_START];
       (helloInode, readmeInode, bigInode, deepInode, st2) \<leftarrow> build_files st1;
       st3 \<leftarrow> build_dirs helloInode readmeInode bigInode deepInode st2;
       st4 \<leftarrow> wsector st3 1 (superblock NUM_INODE_BLOCKS (g_maxBlock st3 + 1));
       Some (ftruncate_image (g_disk st4) (nat ((g_maxBlock st4 + 1) * int sector_size)))
     }"

section \<open>The image never outgrows its last block\<close>

definition bounded :: "mkfs \<Rightarrow> bool" where
  "bounded st \<longleftrightarrow> 0 \<le> g_maxBlock st \<and> int (length (image (g_disk st))) \<le> (g_maxBlock st + 1) * 512"

lemma length_write_at: "length (write_at img off bs) = max (length img) (off + length bs)"
  by (simp add: write_at_def)

lemma wsector_bounded:
  assumes "wsector st n b = Some st'" and "bounded st"
  shows "bounded st'"
proof -
  obtain d' where d': "diskimg_writesector (g_disk st) n b = Some d'"
    and st': "st' = st\<lparr>g_disk := d', g_maxBlock := (if n > g_maxBlock st then n else g_maxBlock st)\<rparr>"
    using assms(1) by (auto simp: wsector_def split: option.splits)
  have n: "0 \<le> n" using diskimg_writesector_Some(1) [OF d'] .
  obtain img where w: "write_loop (writes (g_disk st) n) (image (g_disk st)) (nat (n * 512)) (take 512 b) = Some img"
    and i: "image d' = img"
    using d' n by (auto simp: diskimg_writesector_def Let_def split: if_splits)
  have "length img \<le> max (length (image (g_disk st))) (nat (n * 512) + 512)"
    using write_loop_result [OF w] by (auto simp: length_write_at split: if_splits)
  then have "int (length img) \<le> max (int (length (image (g_disk st)))) ((n + 1) * 512)"
    using n by (simp add: le_max_iff_disj) linarith
  moreover have "(n + 1) * 512 \<le> (g_maxBlock st' + 1) * 512"
    and "(g_maxBlock st + 1) * 512 \<le> (g_maxBlock st' + 1) * 512" and "0 \<le> g_maxBlock st'"
    using assms(2) by (auto simp: st' bounded_def)
  moreover have "image (g_disk st') = img" by (simp add: st' i)
  ultimately show ?thesis using assms(2) by (auto simp: bounded_def)
qed

lemma bounded_alloc [simp]: "bounded (st\<lparr>g_nextData := n\<rparr>) = bounded st" "bounded (st\<lparr>g_nextInode := n\<rparr>) = bounded st"
  by (simp_all add: bounded_def)

lemma wsector_bounded_alloc: "wsector (st\<lparr>g_nextData := k\<rparr>) n b = Some st' \<Longrightarrow> bounded st \<Longrightarrow> bounded st'"
  by (erule wsector_bounded) simp

lemma ptr_loop_bounded: "ptr_loop st data sz js ptrs w = Some (p, w', st') \<Longrightarrow> bounded st \<Longrightarrow> bounded st'"
proof (induction js arbitrary: st ptrs w)
  case Nil
  then show ?case by simp
next
  case (Cons j js)
  then show ?case
    by (auto simp: alloc_data_def Option.bind_eq_Some_conv split: if_splits dest!: wsector_bounded_alloc)
qed

lemma small_loop_bounded: "small_loop st data sz bs inp = Some (inp', st') \<Longrightarrow> bounded st \<Longrightarrow> bounded st'"
proof (induction bs arbitrary: st inp)
  case Nil
  then show ?case by simp
next
  case (Cons b bs)
  then show ?case
    by (auto simp: alloc_data_def Option.bind_eq_Some_conv dest!: wsector_bounded_alloc)
qed

lemma ind_loop_bounded: "ind_loop st data sz is r w inp = Some (inp', st') \<Longrightarrow> bounded st \<Longrightarrow> bounded st'"
proof (induction "is" arbitrary: st r w inp)
  case Nil
  then show ?case by simp
next
  case (Cons i "is")
  then show ?case
    by (auto simp: alloc_data_def Option.bind_eq_Some_conv Let_def split: if_splits
        dest!: ptr_loop_bounded wsector_bounded)
qed

lemma put_inode_bounded: "put_inode st i inp = Some st' \<Longrightarrow> bounded st \<Longrightarrow> bounded st'"
  by (auto simp: put_inode_def Let_def dest: wsector_bounded)

lemma make_file_bounded: "make_file st i data sz = Some (j, st') \<Longrightarrow> bounded st \<Longrightarrow> bounded st'"
  by (auto simp: make_file_def Let_def Option.bind_eq_Some_conv split: if_splits
      dest!: put_inode_bounded small_loop_bounded ind_loop_bounded)

lemma make_dir_bounded: "make_dir st i p es = Some (j, st') \<Longrightarrow> bounded st \<Longrightarrow> bounded st'"
  by (auto simp: make_dir_def Let_def Option.bind_eq_Some_conv alloc_data_def split: if_splits
      dest!: put_inode_bounded wsector_bounded)

lemma zero_sectors_bounded: "zero_sectors st bs = Some st' \<Longrightarrow> bounded st \<Longrightarrow> bounded st'"
  by (induction st bs rule: zero_sectors.induct) (auto simp: Option.bind_eq_Some_conv dest: wsector_bounded)

lemma ftruncate_sectors:
  assumes "bounded st" and "healthy (g_disk st)" and "0 \<le> m"
  shows "diskimg_readsector (ftruncate_image (g_disk st) (nat ((g_maxBlock st + 1) * 512))) m = sec st m"
proof -
  let ?n = "nat ((g_maxBlock st + 1) * 512)" and ?img = "image (g_disk st)"
  have "length ?img \<le> ?n" using assms(1) by (simp add: bounded_def nat_le_iff le_nat_iff)
  then have "take ?n (?img @ replicate (?n - length ?img) 0) = ?img @ replicate (?n - length ?img) 0"
    by simp
  moreover have "sector_of (?img @ replicate k 0) (nat m) = sector_of ?img (nat m)" for k
    by (simp only: sector_of_def take_drop_padded)
  ultimately show ?thesis
    using assms(2,3) by (simp add: ftruncate_image_def diskimg_readsector_ok healthy_def)
qed

end
