(* ===== verification/V6_Tree.thy ===== *)
theory V6_Tree
  imports V6_Image
begin

text \<open>
  Reading a whole tree back: the program \<open>diskimageaccess.c\<close> (its recursive \<open>walk\<close> with the running
  checksum), the tester's \<open>read_whole\<close>, and the end-to-end facts about the image of
  \<open>mkfs_v6\<close>. The walk follows directory entries wherever they lead, so it takes fuel:
  \<^term>\<open>None\<close> is a descent deeper than the fuel.
\<close>

section \<open>Reading a file\<close>

fun read_blocks :: "disk \<Rightarrow> int \<Rightarrow> nat list \<Rightarrow> byte list option" where
  "read_blocks fs inumber [] = Some []"
| "read_blocks fs inumber (b # bs) =
     do {
       (valid, blk) \<leftarrow> file_getblock fs inumber (int b);
       rest \<leftarrow> read_blocks fs inumber bs;
       Some (take valid blk @ rest)
     }"

definition read_whole :: "disk \<Rightarrow> int \<Rightarrow> byte list option" where
  "read_whole fs inumber =
     do {
       inp \<leftarrow> inode_iget fs inumber;
       read_blocks fs inumber [0..<nat (num_blocks (inode_getsize inp))]
     }"

section \<open>diskimageaccess.c\<close>

type_synonym u64 = "64 word"

datatype walk_line =
    Bad_inode int
  | Dir_line string int int
  | Read_error nat
  | File_line string int int nat u64

definition djb2_step :: "u64 \<Rightarrow> byte \<Rightarrow> u64" where
  "djb2_step h c = (push_bit 5 h + h) + ucast c"

definition checksum :: "byte list \<Rightarrow> u64" where
  "checksum p = foldl djb2_step 5381 p"

text \<open>The loop over a file's blocks; its three results are what was printed, the hash and the count.\<close>

fun sum_blocks :: "disk \<Rightarrow> int \<Rightarrow> nat list \<Rightarrow> u64 \<Rightarrow> nat \<Rightarrow> walk_line list \<times> u64 \<times> nat" where
  "sum_blocks fs inumber [] h totalRead = ([], h, totalRead)"
| "sum_blocks fs inumber (b # bs) h totalRead =
     (case file_getblock fs inumber (int b) of
        None \<Rightarrow> ([Read_error b], h, totalRead)
      | Some (valid, buf) \<Rightarrow>
          sum_blocks fs inumber bs (foldl djb2_step h (take valid buf)) (totalRead + valid))"

definition child_path :: "string \<Rightarrow> string \<Rightarrow> string" where
  "child_path path name = take 511 (path @ (if path = ''/'' then '''' else ''/'') @ name)"

text \<open>The entries of one directory block that the walk descends into.\<close>

definition block_children :: "string \<Rightarrow> direntv6 list \<Rightarrow> (int \<times> string) list" where
  "block_children path es =
     map (\<lambda>e. (uint (d_inumber e), child_path path (c_string (d_name e))))
       (filter (\<lambda>e. d_inumber e \<noteq> 0 \<and> c_string (d_name e) \<noteq> ''.'' \<and> c_string (d_name e) \<noteq> ''..'') es)"

definition dir_children :: "disk \<Rightarrow> int \<Rightarrow> string \<Rightarrow> nat list \<Rightarrow> (int \<times> string) list" where
  "dir_children fs inumber path bs =
     concat (map (\<lambda>b. case file_getblock fs inumber (int b) of
         None \<Rightarrow> []
       | Some (valid, buf) \<Rightarrow> block_children path (dirents (valid div DIRENT_SIZE) buf)) bs)"

fun walk :: "nat \<Rightarrow> disk \<Rightarrow> int \<Rightarrow> string \<Rightarrow> walk_line list option" where
  "walk 0 fs inumber path = None"
| "walk (Suc fuel) fs inumber path =
     (case inode_iget fs inumber of
        None \<Rightarrow> Some [Bad_inode inumber]
      | Some inp \<Rightarrow>
          if i_mode inp AND IFMT = IFDIR then
            map_option (\<lambda>ls. Dir_line path inumber (inode_getsize inp) # concat ls)
              (those (map (\<lambda>(i, p). walk fuel fs i p)
                (dir_children fs inumber path [0..<nat (num_blocks (inode_getsize inp))])))
          else
            (case sum_blocks fs inumber [0..<nat (num_blocks (inode_getsize inp))] 5381 0 of
               (errs, h, totalRead) \<Rightarrow>
                 Some (errs @ [File_line path inumber (inode_getsize inp) totalRead h])))"

section \<open>Files read back\<close>

lemma concat_chunks:
  fixes data :: "'a list"
  shows "length data \<le> s * n \<Longrightarrow> concat (map (\<lambda>b. take s (drop (s * b) data)) [0..<n]) = data"
proof (induction n arbitrary: data)
  case 0
  then show ?case by simp
next
  case (Suc n)
  have "concat (map (\<lambda>b. take s (drop (s * b) (drop s data))) [0..<n]) = drop s data"
    using Suc.prems by (intro Suc.IH) simp
  moreover have "map (\<lambda>b. take s (drop (s * b) data)) [0..<Suc n]
      = take s data # map (\<lambda>b. take s (drop (s * b) (drop s data))) [0..<n]"
    by (simp add: upt_conv_Cons map_Suc_upt [symmetric] add.commute del: upt_Suc)
  ultimately show ?case by simp
qed

lemma take_file_chunk:
  "take (min 512 (length data - 512 * b)) (file_chunk data (length data) b) = take 512 (drop (512 * b) data)"
  by (simp add: file_chunk_def zero_fill_def mult.commute min_def)

lemma file_at_blocks:
  assumes "file_at d nd ino inp data" and "nd \<le> 65536"
  shows "set bs \<subseteq> {0..<nat (num_blocks (int (length data)))} \<Longrightarrow>
    read_blocks d ino bs = Some (concat (map (\<lambda>b. take 512 (drop (512 * b) data)) bs))"
    and "set bs \<subseteq> {0..<nat (num_blocks (int (length data)))} \<Longrightarrow>
    sum_blocks d ino bs h t = ([], foldl djb2_step h (concat (map (\<lambda>b. take 512 (drop (512 * b) data)) bs)),
      t + length (concat (map (\<lambda>b. take 512 (drop (512 * b) data)) bs)))"
  by (induction bs arbitrary: h t)
    (auto simp: file_at_getblock [OF assms] take_file_chunk min.commute)

lemma blocks_cover: "concat (map (\<lambda>b. take 512 (drop (512 * b) data)) [0..<nat (num_blocks (int (length data)))]) = data"
proof (rule concat_chunks)
  have "\<not> num_blocks (int (length data)) < num_blocks (int (length data))" by simp
  then have "int (length data) \<le> 512 * num_blocks (int (length data))"
    unfolding num_blocks_iff by simp
  then show "length data \<le> 512 * nat (num_blocks (int (length data)))" by linarith
qed

lemma read_whole_file_at:
  assumes "file_at d nd ino inp data" and "nd \<le> 65536"
  shows "read_whole d ino = Some data"
  using assms(1) file_at_blocks(1) [OF assms, of "[0..<nat (num_blocks (int (length data)))]"] blocks_cover [of data]
  by (simp add: read_whole_def file_at_def)

lemma walk_file:
  assumes "file_at d nd ino inp data" and "nd \<le> 65536" and "i_mode inp AND IFMT \<noteq> IFDIR"
  shows "walk (Suc fuel) d ino path = Some [File_line path ino (int (length data)) (length data) (checksum data)]"
  using assms(1,3) blocks_cover [of data]
    file_at_blocks(2) [OF assms(1,2), of "[0..<nat (num_blocks (int (length data)))]" 5381 0]
  by (simp add: file_at_def checksum_def)

lemma walk_dir:
  assumes "dir_at d nd ino es" and "nd \<le> 65536"
  shows "walk (Suc fuel) d ino path =
    map_option (\<lambda>ls. Dir_line path ino (16 * int (length es)) # concat ls)
      (those (map (\<lambda>(i, p). walk fuel d i p) (block_children path es)))"
proof -
  from dir_at_read [OF assms] obtain inp valid buf where
    "inode_iget d ino = Some inp" "i_mode inp AND IFMT = IFDIR" "inode_getsize inp = 16 * int (length es)"
    "num_blocks (16 * int (length es)) = 1" "file_getblock d ino 0 = Some (valid, buf)"
    "dirents (valid div DIRENT_SIZE) buf = es" by blast
  then show ?thesis by (simp add: dir_children_def upt_rec)
qed


section \<open>The demo image\<close>

text \<open>Files and directories of an image under construction, by inode number.\<close>

definition holds :: "mkfs \<Rightarrow> (int \<times> byte list) list \<Rightarrow> (int \<times> direntv6 list) list \<Rightarrow> bool" where
  "holds st F D \<longleftrightarrow> sound st \<and> bounded st \<and> DATA_START \<le> g_nextData st \<and>
     (\<forall>(i, data) \<in> set F. i \<le> 64 \<and>
        (\<exists>inp. file_at (g_disk st) (g_nextData st) i inp data \<and> i_mode inp AND IFMT \<noteq> IFDIR)) \<and>
     (\<forall>(i, es) \<in> set D. i \<le> 64 \<and> dir_at (g_disk st) (g_nextData st) i es)"

lemma holds_make_file:
  assumes "holds st F D" and "1 \<le> i" and "i \<le> 64" and "i \<notin> fst ` set F \<union> fst ` set D"
    and "length data \<le> max_file_blocks * 512"
  shows "\<exists>st'. make_file st i data (length data) = Some (i, st') \<and> holds st' ((i, data) # F) D \<and>
    g_nextInode st' = g_nextInode st \<and>
    g_nextData st' \<le> g_nextData st + num_blocks (int (length data)) + 7"
proof -
  have s: "sound st" "DATA_START \<le> g_nextData st" using assms(1) by (auto simp: holds_def)
  from make_file_written [OF s assms(2,3,5)] obtain inp st' where
    m: "make_file st i data (length data) = Some (i, st')" and st': "sound st'" "g_nextData st \<le> g_nextData st'"
      "g_nextData st' \<le> g_nextData st + num_blocks (int (length data)) + 7" "g_nextInode st' = g_nextInode st"
    and f: "file_at (g_disk st') (g_nextData st') i inp data" "i_mode inp AND IFMT \<noteq> IFDIR"
    and a: "agree (g_disk st) (g_disk st') (g_nextData st)"
    and ig: "\<And>j. j \<le> 64 \<Longrightarrow> j \<noteq> i \<Longrightarrow> inode_iget (g_disk st') j = inode_iget (g_disk st) j"
    by auto
  have b: "bounded st'" using make_file_bounded [OF m] assms(1) by (simp add: holds_def)
  have "holds st' ((i, data) # F) D"
    unfolding holds_def
  proof (intro conjI ballI)
    show "sound st'" "bounded st'" "DATA_START \<le> g_nextData st'" using st' s b by auto
  next
    fix x assume x: "x \<in> set ((i, data) # F)"
    obtain j q where [simp]: "x = (j, q)" by (cases x)
    show "case x of (j, q) \<Rightarrow> j \<le> 64 \<and>
        (\<exists>inp. file_at (g_disk st') (g_nextData st') j inp q \<and> i_mode inp AND IFMT \<noteq> IFDIR)"
    proof (cases "x = (i, data)")
      case True
      with f assms(3) show ?thesis by auto
    next
      case False
      then have "(j, q) \<in> set F" using x by auto
      moreover from this have "j \<noteq> i" using assms(4) by force
      ultimately show ?thesis
        using assms(1) ig [of j] agree_file [OF a st'(2)] by (fastforce simp: holds_def)
    qed
  next
    fix x assume "x \<in> set D"
    moreover obtain j es where [simp]: "x = (j, es)" by (cases x)
    ultimately have "(j, es) \<in> set D" by simp
    moreover from this have "j \<noteq> i" using assms(4) by force
    ultimately show "case x of (j, es) \<Rightarrow> j \<le> 64 \<and> dir_at (g_disk st') (g_nextData st') j es"
      using assms(1) ig [of j] agree_dir [OF a st'(2)] by (fastforce simp: holds_def)
  qed
  with m st' show ?thesis by blast
qed

lemma holds_make_dir:
  assumes "holds st F D" and "1 \<le> i" and "i \<le> 64" and "i \<notin> fst ` set F \<union> fst ` set D"
    and "length entries \<le> 30" and "\<forall>e \<in> set entries. length (d_name e) = 14"
  shows "\<exists>st'. make_dir st i parent entries = Some (i, st') \<and>
    holds st' F ((i, mkent i ''.'' # mkent parent ''..'' # entries) # D) \<and>
    g_nextInode st' = g_nextInode st \<and> g_nextData st' = g_nextData st + 1"
proof -
  let ?es = "mkent i ''.'' # mkent parent ''..'' # entries"
  have s: "sound st" "DATA_START \<le> g_nextData st" using assms(1) by (auto simp: holds_def)
  from make_dir_written [OF s assms(2,3,5,6), of parent] obtain st' where
    m: "make_dir st i parent entries = Some (i, st')" and st': "sound st'" "g_nextData st' = g_nextData st + 1"
      "g_nextInode st' = g_nextInode st"
    and f: "dir_at (g_disk st') (g_nextData st') i ?es"
    and a: "agree (g_disk st) (g_disk st') (g_nextData st)"
    and ig: "\<And>j. j \<le> 64 \<Longrightarrow> j \<noteq> i \<Longrightarrow> inode_iget (g_disk st') j = inode_iget (g_disk st) j"
    by auto
  have b: "bounded st'" using make_dir_bounded [OF m] assms(1) by (simp add: holds_def)
  have le: "g_nextData st \<le> g_nextData st'" using st' by simp
  have "holds st' F ((i, ?es) # D)"
    unfolding holds_def
  proof (intro conjI ballI)
    show "sound st'" "bounded st'" "DATA_START \<le> g_nextData st'" using st' s b by auto
  next
    fix x assume x: "x \<in> set ((i, ?es) # D)"
    obtain j q where [simp]: "x = (j, q)" by (cases x)
    show "case x of (j, q) \<Rightarrow> j \<le> 64 \<and> dir_at (g_disk st') (g_nextData st') j q"
    proof (cases "x = (i, ?es)")
      case True
      with f assms(3) show ?thesis by auto
    next
      case False
      then have "(j, q) \<in> set D" using x by auto
      moreover from this have "j \<noteq> i" using assms(4) by force
      ultimately show ?thesis
        using assms(1) ig [of j] agree_dir [OF a le] by (fastforce simp: holds_def)
    qed
  next
    fix x assume "x \<in> set F"
    moreover obtain j q where [simp]: "x = (j, q)" by (cases x)
    ultimately have "(j, q) \<in> set F" by simp
    moreover from this have "j \<noteq> i" using assms(4) by force
    ultimately show "case x of (j, q) \<Rightarrow> j \<le> 64 \<and>
        (\<exists>inp. file_at (g_disk st') (g_nextData st') j inp q \<and> i_mode inp AND IFMT \<noteq> IFDIR)"
      using assms(1) ig [of j] agree_file [OF a le] by (fastforce simp: holds_def)
  qed
  with m st' show ?thesis by blast
qed

lemma holds_alloc_inode [simp]: "holds (st\<lparr>g_nextInode := k\<rparr>) F D = holds st F D"
  by (simp add: holds_def)


lemma demo_lengths:
  "length hello_txt = 65" "length readme_txt = 104" "length big_dat = 10377" "length deep_txt = 38"
  by (simp_all add: hello_txt_def readme_txt_def big_dat_def deep_txt_def)

lemma demo_blocks: "num_blocks 65 = 1" "num_blocks 104 = 1" "num_blocks 10377 = 21" "num_blocks 38 = 1"
  by (simp_all add: num_blocks_def)

lemma zero_sectors_ok:
  "sound st \<Longrightarrow> bounded st \<Longrightarrow> \<exists>st'. zero_sectors st bs = Some st' \<and> sound st' \<and> bounded st' \<and>
     g_nextData st' = g_nextData st \<and> g_nextInode st' = g_nextInode st"
proof (induction bs arbitrary: st)
  case Nil
  then show ?case by simp
next
  case (Cons b bs)
  obtain st1 where 1: "wsector st (int b) (replicate sector_size 0) = Some st1" "sound st1"
      "g_nextData st1 = g_nextData st" "g_nextInode st1 = g_nextInode st"
    using wsector_obtains [OF Cons.prems(1), of "int b" "replicate sector_size 0"] by auto
  moreover have "bounded st1" using wsector_bounded [OF 1(1) Cons.prems(2)] .
  ultimately show ?case using Cons.IH [of st1] by auto
qed

lemma build_files_holds:
  assumes "holds st0 [] []" and "g_nextInode st0 = 1" and "g_nextData st0 = DATA_START"
  shows "\<exists>st. build_files st0 = Some (2, 3, 4, 5, st) \<and>
    holds st [(5, deep_txt), (4, big_dat), (3, readme_txt), (2, hello_txt)] [] \<and>
    g_nextInode st = 5 \<and> g_nextData st \<le> 100"
proof -
  note lens = demo_lengths max_file_blocks_def
  let ?a = "\<lambda>st :: mkfs. st\<lparr>g_nextInode := g_nextInode st + 1\<rparr>"
  obtain s1 where 1: "make_file (?a st0) 2 hello_txt (length hello_txt) = Some (2, s1)"
      "holds s1 [(2, hello_txt)] []" "g_nextInode s1 = 2" "g_nextData s1 \<le> 14"
    using holds_make_file [of "?a st0" "[]" "[]" 2 hello_txt] assms
    by (auto simp: lens demo_blocks DATA_START_def v6_consts NUM_INODE_BLOCKS_def)
  obtain s2 where 2: "make_file (?a s1) 3 readme_txt (length readme_txt) = Some (3, s2)"
      "holds s2 [(3, readme_txt), (2, hello_txt)] []" "g_nextInode s2 = 3" "g_nextData s2 \<le> 22"
    using holds_make_file [of "?a s1" "[(2, hello_txt)]" "[]" 3 readme_txt] 1
    by (auto simp: lens demo_blocks)
  obtain s3 where 3: "make_file (?a s2) 4 big_dat (length big_dat) = Some (4, s3)"
      "holds s3 [(4, big_dat), (3, readme_txt), (2, hello_txt)] []" "g_nextInode s3 = 4" "g_nextData s3 \<le> 50"
    using holds_make_file [of "?a s2" "[(3, readme_txt), (2, hello_txt)]" "[]" 4 big_dat] 2
    by (auto simp: lens demo_blocks)
  obtain s4 where 4: "make_file (?a s3) 5 deep_txt (length deep_txt) = Some (5, s4)"
      "holds s4 [(5, deep_txt), (4, big_dat), (3, readme_txt), (2, hello_txt)] []" "g_nextInode s4 = 5"
      "g_nextData s4 \<le> 58"
    using holds_make_file [of "?a s3" "[(4, big_dat), (3, readme_txt), (2, hello_txt)]" "[]" 5 deep_txt] 3
    by (auto simp: lens demo_blocks)
  have "build_files st0 = Some (2, 3, 4, 5, s4)"
    using 1(1,3) 2(1,3) 3(1,3) 4(1) assms(2) by (simp add: build_files_def alloc_inode_def Let_def)
  with 4 show ?thesis by auto
qed

abbreviation demo_files :: "(int \<times> byte list) list" where
  "demo_files \<equiv> [(5, deep_txt), (4, big_dat), (3, readme_txt), (2, hello_txt)]"

definition demo_dirs :: "(int \<times> direntv6 list) list" where
  "demo_dirs =
     [(1, [mkent 1 ''.'', mkent 1 ''..'', mkent 2 ''hello.txt'', mkent 3 ''README'', mkent 4 ''big.dat'',
           mkent 8 ''a'']),
      (8, [mkent 8 ''.'', mkent 1 ''..'', mkent 7 ''b'']),
      (7, [mkent 7 ''.'', mkent 8 ''..'', mkent 6 ''c'']),
      (6, [mkent 6 ''.'', mkent 7 ''..'', mkent 5 ''deep.txt''])]"

lemma length_mkent [simp]: "length (d_name (mkent i nm)) = 14"
  by (simp add: mkent_def MAX_COMPONENT_LENGTH_def)

lemma build_dirs_holds:
  assumes "holds st0 demo_files []" and "g_nextInode st0 = 5" and "g_nextData st0 \<le> 100"
  shows "\<exists>st. build_dirs 2 3 4 5 st0 = Some st \<and> holds st demo_files demo_dirs \<and> g_nextData st \<le> 104"
proof -
  let ?a = "\<lambda>st :: mkfs. st\<lparr>g_nextInode := g_nextInode st + 1\<rparr>"
  let ?e6 = "[mkent 6 ''.'', mkent 7 ''..'', mkent 5 ''deep.txt'']"
  let ?e7 = "[mkent 7 ''.'', mkent 8 ''..'', mkent 6 ''c'']"
  let ?e8 = "[mkent 8 ''.'', mkent 1 ''..'', mkent 7 ''b'']"
  let ?es = "[mkent 2 ''hello.txt'', mkent 3 ''README'', mkent 4 ''big.dat'', mkent 8 ''a'']"
  let ?s = "?a (?a (?a st0))"
  have 0: "holds ?s demo_files []" using assms(1) by simp
  obtain s1 where 1: "make_dir ?s 6 7 [mkent 5 ''deep.txt''] = Some (6, s1)"
      "holds s1 demo_files [(6, ?e6)]" "g_nextData s1 \<le> 101"
    using holds_make_dir [OF 0, of 6 "[mkent 5 ''deep.txt'']" 7] assms by auto
  obtain s2 where 2: "make_dir s1 7 8 [mkent 6 ''c''] = Some (7, s2)"
      "holds s2 demo_files [(7, ?e7), (6, ?e6)]" "g_nextData s2 \<le> 102"
    using holds_make_dir [OF 1(2), of 7 "[mkent 6 ''c'']" 8] 1 by auto
  obtain s3 where 3: "make_dir s2 8 1 [mkent 7 ''b''] = Some (8, s3)"
      "holds s3 demo_files [(8, ?e8), (7, ?e7), (6, ?e6)]" "g_nextData s3 \<le> 103"
    using holds_make_dir [OF 2(2), of 8 "[mkent 7 ''b'']" 1] 2 by auto
  obtain s4 where 4: "make_dir s3 1 1 ?es = Some (1, s4)"
      "holds s4 demo_files demo_dirs" "g_nextData s4 \<le> 104"
    using holds_make_dir [OF 3(2), of 1 ?es 1] 3 by (auto simp: demo_dirs_def)
  have "build_dirs 2 3 4 5 st0 = Some s4"
    using 1(1) 2(1) 3(1) 4(1) assms(2) by (simp add: build_dirs_def alloc_inode_def Let_def ROOTINO_def)
  with 4 show ?thesis by auto
qed


text \<open>Files and directories survive any change outside the inode and data sectors.\<close>

lemma iget_cong: "(\<And>m. 2 \<le> m \<Longrightarrow> diskimg_readsector d' m = diskimg_readsector d m) \<Longrightarrow>
    inode_iget d' j = inode_iget d j"
proof (cases "j < 1")
  case False
  then have "2 \<le> 2 + (j - 1) div 16" by (simp add: pos_imp_zdiv_nonneg_iff)
  moreover assume "\<And>m. 2 \<le> m \<Longrightarrow> diskimg_readsector d' m = diskimg_readsector d m"
  ultimately have "diskimg_readsector d' (2 + (j - 1) div 16) = diskimg_readsector d (2 + (j - 1) div 16)" by blast
  then show ?thesis by (simp add: inode_iget_def Let_def v6_consts)
qed (simp add: inode_iget_def)

text \<open>The tree that a reader finds on a disk.\<close>

definition tree_on :: "disk \<Rightarrow> (int \<times> byte list) list \<Rightarrow> (int \<times> direntv6 list) list \<Rightarrow> bool" where
  "tree_on d F D \<longleftrightarrow> (\<exists>nd \<le> 65536.
     (\<forall>(i, data) \<in> set F. \<exists>inp. file_at d nd i inp data \<and> i_mode inp AND IFMT \<noteq> IFDIR) \<and>
     (\<forall>(i, es) \<in> set D. dir_at d nd i es))"

lemma holds_tree_on:
  assumes "holds st F D" and "g_nextData st \<le> 65536"
    and "\<And>m. 2 \<le> m \<Longrightarrow> diskimg_readsector d' m = sec st m"
  shows "tree_on d' F D"
proof -
  have a: "agree (g_disk st) d' (g_nextData st)"
    using assms(3) by (auto simp: agree_def data_sector_def DATA_START_def v6_consts NUM_INODE_BLOCKS_def)
  have i: "inode_iget d' j = inode_iget (g_disk st) j" for j
    using assms(3) by (rule iget_cong)
  show ?thesis
    unfolding tree_on_def using assms(1,2) agree_file [OF a order_refl i] agree_dir [OF a order_refl i]
    by (intro exI [of _ "g_nextData st"]) (fastforce simp: holds_def)
qed

lemma mkfs_main_tree:
  assumes "healthy d"
  shows "\<exists>d' n. mkfs_main d = Some d' \<and> tree_on d' demo_files demo_dirs \<and>
    diskimg_readsector d' 1 = Some (superblock NUM_INODE_BLOCKS n)"
proof -
  let ?st0 = "mkfs_init (d\<lparr>image := []\<rparr>)"
  have "sound ?st0" "bounded ?st0" using assms by (simp_all add: healthy_def mkfs_init_def bounded_def)
  from zero_sectors_ok [OF this] obtain st1 where
    1: "zero_sectors ?st0 [0..<nat DATA_START] = Some st1" "sound st1" "bounded st1"
      "g_nextData st1 = DATA_START" "g_nextInode st1 = 1"
    by (fastforce simp: mkfs_init_def)
  then have h: "holds st1 [] []" by (simp add: holds_def)
  from build_files_holds [OF this 1(5,4)] obtain st2 where
    2: "build_files st1 = Some (2, 3, 4, 5, st2)" "holds st2 demo_files []"
      "g_nextInode st2 = 5" "g_nextData st2 \<le> 100"
    by auto
  from build_dirs_holds [OF 2(2,3,4)] obtain st3 where
    3: "build_dirs 2 3 4 5 st2 = Some st3" "holds st3 demo_files demo_dirs" "g_nextData st3 \<le> 104"
    by auto
  let ?sb = "superblock NUM_INODE_BLOCKS (g_maxBlock st3 + 1)"
  have s3: "sound st3" "bounded st3" using 3(2) by (simp_all add: holds_def)
  have len: "length ?sb = sector_size"
    unfolding superblock_def by (rule length_zero_fill) simp
  obtain st4 where 4: "wsector st3 1 ?sb = Some st4" "sound st4"
      "\<And>m. 0 \<le> m \<Longrightarrow> sec st4 m = (if m = 1 then Some ?sb else sec st3 m)"
    using wsector_obtains [OF s3(1) _ len, of 1] by auto
  have b4: "bounded st4" using wsector_bounded [OF 4(1) s3(2)] .
  let ?d = "ftruncate_image (g_disk st4) (nat ((g_maxBlock st4 + 1) * int sector_size))"
  have rd: "diskimg_readsector ?d m = sec st4 m" if "0 \<le> m" for m
    using ftruncate_sectors [OF b4 4(2) that] by simp
  have "diskimg_readsector ?d m = sec st3 m" if "2 \<le> m" for m
    using rd [of m] 4(3) [of m] that by simp
  with 3 have "tree_on ?d demo_files demo_dirs" by (intro holds_tree_on) auto
  moreover have "mkfs_main d = Some ?d"
    using 1(1) 2(1) 3(1) 4(1) by (simp add: mkfs_main_def)
  moreover have "diskimg_readsector ?d 1 = Some ?sb" using rd [of 1] 4(3) [of 1] by simp
  ultimately show ?thesis by blast
qed

lemma tree_on_find:
  assumes "tree_on d F D" and "(i, es) \<in> set D"
  shows "directory_findname d nm i = match_entry nm es"
proof -
  obtain nd where "nd \<le> 65536" "dir_at d nd i es" using assms by (fastforce simp: tree_on_def)
  then show ?thesis using directory_findname_dir_at by blast
qed

lemma tree_on_read_whole: "tree_on d F D \<Longrightarrow> (i, data) \<in> set F \<Longrightarrow> read_whole d i = Some data"
  unfolding tree_on_def using read_whole_file_at by fastforce

lemma tree_on_walk_file:
  "tree_on d F D \<Longrightarrow> (i, data) \<in> set F \<Longrightarrow>
   walk (Suc fuel) d i path = Some [File_line path i (int (length data)) (length data) (checksum data)]"
  unfolding tree_on_def using walk_file by fastforce

lemma tree_on_walk_dir:
  assumes "tree_on d F D" and "(i, es) \<in> set D"
  shows "walk (Suc fuel) d i path =
    map_option (\<lambda>ls. Dir_line path i (16 * int (length es)) # concat ls)
      (those (map (\<lambda>(i, p). walk fuel d i p) (block_children path es)))"
proof -
  obtain nd where "nd \<le> 65536" "dir_at d nd i es" using assms by (fastforce simp: tree_on_def)
  then show ?thesis using walk_dir by blast
qed

lemma demo_match:
  assumes "tree_on d demo_files demo_dirs"
  shows "map_option d_inumber (directory_findname d nm 1) =
      (if same_name ''.'' nm then Some 1 else if same_name ''..'' nm then Some 1
       else if same_name ''hello.txt'' nm then Some 2 else if same_name ''README'' nm then Some 3
       else if same_name ''big.dat'' nm then Some 4 else if same_name ''a'' nm then Some 8 else None)"
    and "map_option d_inumber (directory_findname d nm 8) =
      (if same_name ''.'' nm then Some 8 else if same_name ''..'' nm then Some 1
       else if same_name ''b'' nm then Some 7 else None)"
    and "map_option d_inumber (directory_findname d nm 7) =
      (if same_name ''.'' nm then Some 7 else if same_name ''..'' nm then Some 8
       else if same_name ''c'' nm then Some 6 else None)"
    and "map_option d_inumber (directory_findname d nm 6) =
      (if same_name ''.'' nm then Some 6 else if same_name ''..'' nm then Some 7
       else if same_name ''deep.txt'' nm then Some 5 else None)"
  by (simp_all add: tree_on_find [OF assms] demo_dirs_def mkent_def strncmp_eq_iff
      c_string_strncpy14 same_name_def)


text \<open>The paths of the demo tree, and where they lead.\<close>

lemma same_name_literal: "NUL \<notin> set a \<Longrightarrow> NUL \<notin> set b \<Longrightarrow> same_name a b = (take 14 a = take 14 b)"
  by (simp add: same_name_def c_string_no_NUL MAX_COMPONENT_LENGTH_def)

lemma c_string_mkent: "NUL \<notin> set nm \<Longrightarrow> c_string (d_name (mkent i nm)) = take 14 nm"
  by (simp add: mkent_def c_string_strncpy14 MAX_COMPONENT_LENGTH_def c_string_no_NUL)

lemma d_inumber_mkent: "d_inumber (mkent i nm) = word_of_int i"
  by (simp add: mkent_def)

lemma lookup_absolute: "pathname_lookup fs (Some (CHR ''/'' # p)) = path_walk fs 1 (CHR ''/'' # p)"
  by (simp add: pathname_lookup_def c_head_def ROOTINO_def)

lemma lookup_relative: "pathname_lookup fs (Some ''relative'') = -1"
  by (simp add: pathname_lookup_def c_head_def)

lemma demo_read:
  assumes "tree_on fs demo_files demo_dirs"
  shows "read_whole fs 2 = Some hello_txt" and "read_whole fs 3 = Some readme_txt"
    and "read_whole fs 4 = Some big_dat" and "read_whole fs 5 = Some deep_txt"
  by (rule tree_on_read_whole [OF assms], simp)+

lemma demo_walk:
  assumes "tree_on fs demo_files demo_dirs"
  shows "walk (Suc n) fs 2 p = Some [File_line p 2 65 65 (checksum hello_txt)]"
    and "walk (Suc n) fs 3 p = Some [File_line p 3 104 104 (checksum readme_txt)]"
    and "walk (Suc n) fs 4 p = Some [File_line p 4 10377 10377 (checksum big_dat)]"
    and "walk (Suc n) fs 5 p = Some [File_line p 5 38 38 (checksum deep_txt)]"
  using tree_on_walk_file [OF assms, of 2 hello_txt n p] tree_on_walk_file [OF assms, of 3 readme_txt n p]
    tree_on_walk_file [OF assms, of 4 big_dat n p] tree_on_walk_file [OF assms, of 5 deep_txt n p]
  by (simp_all add: demo_lengths del: walk.simps)

lemmas demo_children = block_children_def c_string_mkent d_inumber_mkent child_path_def

lemma demo_lookups:
  assumes "tree_on fs demo_files demo_dirs"
  shows "map (\<lambda>p. pathname_lookup fs (Some p))
      [''/'', ''/hello.txt'', ''/README'', ''/big.dat'', ''/a'', ''/a/b'', ''//a//b/c/'', ''/a/b/c/deep.txt'',
       ''/a/../a/./b'', ''/nope'', ''/a/x/y'', ''relative'']
      = [1, 2, 3, 4, 8, 7, 6, 5, 7, -1, -1, -1]"
    and "pathname_lookup fs (Some ''/a/b/c'') = 6"
  by (simp_all add: lookup_absolute lookup_relative path_walk_turn demo_match [OF assms] same_name_literal
      MAX_COMPONENT_LENGTH_def)

lemma demo_walks:
  assumes "tree_on fs demo_files demo_dirs"
  shows "walk 5 fs ROOTINO ''/'' = Some
      [Dir_line ''/'' 1 96,
       File_line ''/hello.txt'' 2 65 65 (checksum hello_txt),
       File_line ''/README'' 3 104 104 (checksum readme_txt),
       File_line ''/big.dat'' 4 10377 10377 (checksum big_dat),
       Dir_line ''/a'' 8 48, Dir_line ''/a/b'' 7 48, Dir_line ''/a/b/c'' 6 48,
       File_line ''/a/b/c/deep.txt'' 5 38 38 (checksum deep_txt)]"
proof -
  have dirs: "(1, [mkent 1 ''.'', mkent 1 ''..'', mkent 2 ''hello.txt'', mkent 3 ''README'', mkent 4 ''big.dat'',
           mkent 8 ''a'']) \<in> set demo_dirs"
      "(8, [mkent 8 ''.'', mkent 1 ''..'', mkent 7 ''b'']) \<in> set demo_dirs"
      "(7, [mkent 7 ''.'', mkent 8 ''..'', mkent 6 ''c'']) \<in> set demo_dirs"
      "(6, [mkent 6 ''.'', mkent 7 ''..'', mkent 5 ''deep.txt'']) \<in> set demo_dirs"
    by (simp_all add: demo_dirs_def)
  note f = demo_walk [OF assms]
  have six: "walk (Suc (Suc n)) fs 6 ''/a/b/c'' = Some
      [Dir_line ''/a/b/c'' 6 48, File_line ''/a/b/c/deep.txt'' 5 38 38 (checksum deep_txt)]" for n
    by (simp add: tree_on_walk_dir [OF assms dirs(4)] demo_children f del: walk.simps)
  have seven: "walk (Suc (Suc (Suc n))) fs 7 ''/a/b'' = Some
      [Dir_line ''/a/b'' 7 48, Dir_line ''/a/b/c'' 6 48,
       File_line ''/a/b/c/deep.txt'' 5 38 38 (checksum deep_txt)]" for n
    by (simp add: tree_on_walk_dir [OF assms dirs(3)] demo_children six del: walk.simps)
  have eight: "walk (Suc (Suc (Suc (Suc n)))) fs 8 ''/a'' = Some
      [Dir_line ''/a'' 8 48, Dir_line ''/a/b'' 7 48, Dir_line ''/a/b/c'' 6 48,
       File_line ''/a/b/c/deep.txt'' 5 38 38 (checksum deep_txt)]" for n
    by (simp add: tree_on_walk_dir [OF assms dirs(2)] demo_children seven del: walk.simps)
  have "walk (Suc (Suc (Suc (Suc (Suc 0))))) fs 1 ''/'' = Some
      [Dir_line ''/'' 1 96,
       File_line ''/hello.txt'' 2 65 65 (checksum hello_txt),
       File_line ''/README'' 3 104 104 (checksum readme_txt),
       File_line ''/big.dat'' 4 10377 10377 (checksum big_dat),
       Dir_line ''/a'' 8 48, Dir_line ''/a/b'' 7 48, Dir_line ''/a/b/c'' 6 48,
       File_line ''/a/b/c/deep.txt'' 5 38 38 (checksum deep_txt)]"
    by (simp add: tree_on_walk_dir [OF assms dirs(1)] demo_children f eight del: walk.simps)
  then show ?thesis by (simp add: ROOTINO_def numeral_eq_Suc del: walk.simps)
qed

section \<open>Properties\<close>

definition blank_disk :: disk where
  "blank_disk = \<lparr>image = [], reads = \<lambda>_. [Interrupted, Partial 3], writes = \<lambda>_. [Partial 0, Interrupted]\<rparr>"

lemma healthy_blank: "healthy blank_disk"
  by (simp add: healthy_def blank_disk_def)

text \<open>
  C1: a file that \<open>make_file\<close> of \<open>mkfs_v6.c\<close> writes, of any content up to the seven indirect blocks
  it fills, is read back byte for byte through \<open>inode_iget\<close>, \<open>inode_indexlookup\<close> and
  \<open>file_getblock\<close>, whatever interruptions and short transfers the kernel makes; every other inode
  is unchanged, and so is the indirect flag exactly on files of more than eight blocks.
\<close>
theorem make_file_read_whole:
  assumes "healthy (g_disk st)" and "DATA_START \<le> g_nextData st" and "1 \<le> i" and "i \<le> 64"
    and "length data \<le> max_file_blocks * 512"
    and "g_nextData st + num_blocks (int (length data)) + 7 \<le> 65536"
  shows "\<exists>st' inp. make_file st i data (length data) = Some (i, st') \<and>
    read_whole (g_disk st') i = Some data \<and> inode_iget (g_disk st') i = Some inp \<and>
    (i_mode inp AND ILARG = 0 \<longleftrightarrow> num_blocks (int (length data)) \<le> 8) \<and>
    (\<forall>j \<le> 64. j \<noteq> i \<longrightarrow> inode_iget (g_disk st') j = inode_iget (g_disk st) j)"
proof -
  from make_file_written [OF assms(1-5)] obtain inp st' where
    m: "make_file st i data (length data) = Some (i, st')" "file_at (g_disk st') (g_nextData st') i inp data"
      "g_nextData st' \<le> g_nextData st + num_blocks (int (length data)) + 7"
      "i_mode inp AND ILARG = 0 \<longleftrightarrow> num_blocks (int (length data)) \<le> 8"
      "\<forall>j \<le> 64. j \<noteq> i \<longrightarrow> inode_iget (g_disk st') j = inode_iget (g_disk st) j"
    by blast
  moreover have "read_whole (g_disk st') i = Some data"
    using m(2,3) assms(6) by (intro read_whole_file_at) auto
  moreover have "inode_iget (g_disk st') i = Some inp" using m(2) by (simp add: file_at_def)
  ultimately show ?thesis by blast
qed

lemma make_file_read_whole_witness:
  "\<exists>st' inp. make_file (mkfs_init blank_disk) 2 big_dat (length big_dat) = Some (2, st') \<and>
    read_whole (g_disk st') 2 = Some big_dat \<and> inode_iget (g_disk st') 2 = Some inp \<and>
    (i_mode inp AND ILARG = 0 \<longleftrightarrow> num_blocks (int (length big_dat)) \<le> 8) \<and>
    (\<forall>j \<le> 64. j \<noteq> 2 \<longrightarrow> inode_iget (g_disk st') j = inode_iget (g_disk (mkfs_init blank_disk)) j)"
  by (rule make_file_read_whole)
    (simp_all add: mkfs_init_def healthy_blank demo_lengths demo_blocks max_file_blocks_def
      DATA_START_def v6_consts NUM_INODE_BLOCKS_def)

text \<open>
  C2: on a device whose kernel reports no I/O error, \<open>mkfs_v6\<close> completes, and on the image it leaves
  \<open>pathname_lookup\<close> resolves every path of the demo tree to its inode, refuses missing and relative
  paths, and the contents read back are the ones written.
\<close>
theorem mkfs_image_readable:
  assumes "healthy d"
  shows "\<exists>fs. mkfs_main d = Some fs \<and>
    map (\<lambda>p. pathname_lookup fs (Some p))
      [''/'', ''/hello.txt'', ''/README'', ''/big.dat'', ''/a'', ''/a/b'', ''//a//b/c/'', ''/a/b/c/deep.txt'',
       ''/a/../a/./b'', ''/nope'', ''/a/x/y'', ''relative'']
      = [1, 2, 3, 4, 8, 7, 6, 5, 7, -1, -1, -1] \<and>
    map (read_whole fs) [2, 3, 4, 5] = map Some [hello_txt, readme_txt, big_dat, deep_txt]"
proof -
  from mkfs_main_tree [OF assms] obtain fs where m: "mkfs_main d = Some fs" "tree_on fs demo_files demo_dirs"
    by blast
  have "map (read_whole fs) [2, 3, 4, 5] = map Some [hello_txt, readme_txt, big_dat, deep_txt]"
    using demo_read [OF m(2)] by simp
  with demo_lookups(1) [OF m(2)] show ?thesis by (intro exI [of _ fs] conjI m(1))
qed

lemma mkfs_image_readable_witness:
  "\<exists>fs. mkfs_main blank_disk = Some fs \<and>
    map (\<lambda>p. pathname_lookup fs (Some p))
      [''/'', ''/hello.txt'', ''/README'', ''/big.dat'', ''/a'', ''/a/b'', ''//a//b/c/'', ''/a/b/c/deep.txt'',
       ''/a/../a/./b'', ''/nope'', ''/a/x/y'', ''relative'']
      = [1, 2, 3, 4, 8, 7, 6, 5, 7, -1, -1, -1] \<and>
    map (read_whole fs) [2, 3, 4, 5] = map Some [hello_txt, readme_txt, big_dat, deep_txt]"
  by (rule mkfs_image_readable) (rule healthy_blank)

text \<open>
  C3: the walk of \<open>diskimageaccess\<close> over the image of \<open>mkfs_v6\<close> ends within a descent of five levels
  and prints each directory and each file of the demo tree once, with its size, the bytes read and
  the djb2 checksum of its contents; \<open>.\<close> and \<open>..\<close> are not followed.
\<close>
theorem walk_of_mkfs_image:
  assumes "healthy d"
  shows "\<exists>fs. mkfs_main d = Some fs \<and>
    walk 5 fs ROOTINO ''/'' = Some
      [Dir_line ''/'' 1 96,
       File_line ''/hello.txt'' 2 65 65 (checksum hello_txt),
       File_line ''/README'' 3 104 104 (checksum readme_txt),
       File_line ''/big.dat'' 4 10377 10377 (checksum big_dat),
       Dir_line ''/a'' 8 48, Dir_line ''/a/b'' 7 48, Dir_line ''/a/b/c'' 6 48,
       File_line ''/a/b/c/deep.txt'' 5 38 38 (checksum deep_txt)]"
  using mkfs_main_tree [OF assms] demo_walks by blast

lemma walk_of_mkfs_image_witness:
  "\<exists>fs. mkfs_main blank_disk = Some fs \<and>
    walk 5 fs ROOTINO ''/'' = Some
      [Dir_line ''/'' 1 96,
       File_line ''/hello.txt'' 2 65 65 (checksum hello_txt),
       File_line ''/README'' 3 104 104 (checksum readme_txt),
       File_line ''/big.dat'' 4 10377 10377 (checksum big_dat),
       Dir_line ''/a'' 8 48, Dir_line ''/a/b'' 7 48, Dir_line ''/a/b/c'' 6 48,
       File_line ''/a/b/c/deep.txt'' 5 38 38 (checksum deep_txt)]"
  by (rule walk_of_mkfs_image) (rule healthy_blank)

text \<open>
  C5: the retry loops of \<open>diskimg.c\<close> are transparent: on scripts of interruptions and short transfers
  that hold no I/O error, a sector written is the sector read, and every other sector still reads
  as before.
\<close>
theorem sector_write_read:
  assumes "healthy d" and "0 \<le> n" and "length b = 512"
  shows "\<exists>d'. diskimg_writesector d n b = Some d' \<and>
    (\<forall>m \<ge> 0. diskimg_readsector d' m = Some (if m = n then b else sector_of (image d) (nat m)))"
proof -
  obtain d' where "diskimg_writesector d n b = Some d'"
    "\<And>m. 0 \<le> m \<Longrightarrow> diskimg_readsector d' m = (if m = n then Some b else diskimg_readsector d m)"
    using dev.wr_obtains [OF assms] by blast
  then show ?thesis using assms(1) by (auto simp: diskimg_readsector_ok healthy_def)
qed

lemma sector_write_read_witness:
  "\<exists>d'. diskimg_writesector blank_disk 3 (replicate 512 7) = Some d' \<and>
    (\<forall>m \<ge> 0. diskimg_readsector d' m = Some (if m = 3 then replicate 512 7 else sector_of (image blank_disk) (nat m)))"
  by (rule sector_write_read) (simp_all add: healthy_blank)

end
