(* ===== verification/V6_Path.thy ===== *)
theory V6_Path
  imports V6_Tree
begin

text \<open>
  Path resolution against an abstract tree. A tree maps i-numbers to files and to directories, a directory
  being a list of names and i-numbers. A disk holds the tree when each file is there block by
  block, and each directory is, block by block, the file of its encoded entries, in as many blocks as they
  take. \<open>pathname_lookup\<close> then follows the names of the path through the tree.
\<close>

section \<open>Directories of any number of blocks\<close>

definition dir_bytes :: "direntv6 list \<Rightarrow> byte list" where
  "dir_bytes es = concat (map encode_dirent es)"

definition fields_full :: "direntv6 list \<Rightarrow> bool" where
  "fields_full es \<longleftrightarrow> (\<forall>e \<in> set es. length (d_name e) = MAX_COMPONENT_LENGTH)"

lemma length_dir_bytes: "fields_full es \<Longrightarrow> length (dir_bytes es) = 16 * length es"
  by (simp add: dir_bytes_def fields_full_def MAX_COMPONENT_LENGTH_def length_concat_dirents)

lemma drop_dir_bytes: "fields_full es \<Longrightarrow> drop (16 * k) (dir_bytes es) = dir_bytes (drop k es)"
proof (induction es arbitrary: k)
  case (Cons e es)
  then have "length (encode_dirent e) = 16" "fields_full es"
    by (simp_all add: fields_full_def length_encode_dirent DIRENT_SIZE_def MAX_COMPONENT_LENGTH_def)
  with Cons.IH show ?case by (cases k) (simp_all add: dir_bytes_def)
qed (simp add: dir_bytes_def)

lemma take_dir_bytes: "fields_full es \<Longrightarrow> take (16 * k) (dir_bytes es) = dir_bytes (take k es)"
proof (induction es arbitrary: k)
  case (Cons e es)
  then have "length (encode_dirent e) = 16" "fields_full es"
    by (simp_all add: fields_full_def length_encode_dirent DIRENT_SIZE_def MAX_COMPONENT_LENGTH_def)
  with Cons.IH show ?case by (cases k) (simp_all add: dir_bytes_def)
qed (simp add: dir_bytes_def)

text \<open>Block \<open>b\<close> of a directory holds its entries from \<open>32 * b\<close> on.\<close>

lemma dirents_of_block:
  assumes "fields_full es"
  shows "dirents (min 512 (16 * length es - 512 * b) div DIRENT_SIZE) (file_chunk (dir_bytes es) (16 * length es) b) =
    take 32 (drop (32 * b) es)"
proof -
  let ?es = "take 32 (drop (32 * b) es)"
  have f: "\<forall>e \<in> set ?es. length (d_name e) = 14"
    using assms by (auto simp: fields_full_def MAX_COMPONENT_LENGTH_def dest!: in_set_takeD in_set_dropD)
  have "take (min sector_size (16 * length es - b * sector_size)) (drop (b * sector_size) (dir_bytes es)) = dir_bytes ?es"
  proof -
    have "drop (b * sector_size) (dir_bytes es) = dir_bytes (drop (32 * b) es)"
      using drop_dir_bytes [OF assms, of "32 * b"] by (simp add: mult.commute)
    moreover have "fields_full (drop (32 * b) es)" using assms by (auto simp: fields_full_def dest: in_set_dropD)
    moreover from this have "length (dir_bytes (drop (32 * b) es)) = 16 * length es - b * sector_size"
      by (simp add: length_dir_bytes algebra_simps)
    ultimately show ?thesis using take_dir_bytes [of "drop (32 * b) es" 32] by (simp add: min_def)
  qed
  then have c: "file_chunk (dir_bytes es) (16 * length es) b =
      concat (map encode_dirent ?es) @ replicate (sector_size - length (dir_bytes ?es)) 0"
    by (simp add: file_chunk_def zero_fill_def dir_bytes_def)
  have "16 * length es - 512 * b = 16 * (length es - 32 * b)" by simp
  then have "min 512 (16 * length es - 512 * b) = 16 * length ?es" by (simp add: min_def)
  then have "min 512 (16 * length es - 512 * b) div DIRENT_SIZE = length ?es" by (simp add: DIRENT_SIZE_def)
  then show ?thesis using dirents_concat [OF f] by (simp only: c)
qed

definition directory_at :: "disk \<Rightarrow> int \<Rightarrow> direntv6 list \<Rightarrow> bool" where
  "directory_at d ino es \<longleftrightarrow> fields_full es \<and>
     (\<exists>nd inp. nd \<le> 65536 \<and> file_at d nd ino inp (dir_bytes es) \<and> i_mode inp AND IFMT = IFDIR)"

lemma directory_at_entries:
  assumes "fields_full es" and "file_at d nd ino inp (dir_bytes es)" and "nd \<le> 65536"
    and "set bs \<subseteq> {0..<nat (num_blocks (int (16 * length es)))}"
  shows "dir_entries d ino bs = Some (concat (map (\<lambda>b. take 32 (drop (32 * b) es)) bs))"
  using assms(4) file_at_getblock [OF assms(2,3)] dirents_of_block [OF assms(1)]
  by (induction bs) (auto simp: length_dir_bytes [OF assms(1)] min.commute)

lemma directory_findname_directory_at:
  assumes "directory_at d ino es"
  shows "directory_findname d nm ino = match_entry nm es"
proof -
  obtain nd inp where nd: "nd \<le> 65536" and f: "fields_full es" and at: "file_at d nd ino inp (dir_bytes es)"
    and m: "i_mode inp AND IFMT = IFDIR"
    using assms by (auto simp: directory_at_def)
  let ?n = "nat (num_blocks (int (16 * length es)))"
  have "\<not> num_blocks (int (16 * length es)) < num_blocks (int (16 * length es))" by simp
  then have "int (16 * length es) \<le> 512 * num_blocks (int (16 * length es))" unfolding num_blocks_iff by simp
  then have "length es \<le> 32 * ?n" by linarith
  then have "dir_entries d ino [0..<?n] = Some es"
    using directory_at_entries [OF f at nd, of "[0..<?n]"] concat_chunks [of es 32 ?n] by simp
  moreover have "inode_iget d ino = Some inp" "inode_getsize inp = int (16 * length es)"
    using at length_dir_bytes [OF f] by (simp_all add: file_at_def)
  ultimately show ?thesis using m by (simp add: directory_findname_def scan_blocks_entries)
qed

section \<open>Abstract trees\<close>

datatype node = File_node "byte list" | Dir_node "(string \<times> int) list"

type_synonym tree = "int \<Rightarrow> node option"

text \<open>Names are cut to fourteen characters; a file has no children.\<close>

fun follow :: "tree \<Rightarrow> int \<Rightarrow> string list \<Rightarrow> int option" where
  "follow T i [] = Some i"
| "follow T i (n # ns) = (case T i of
       Some (Dir_node xs) \<Rightarrow> (case map_of xs (take MAX_COMPONENT_LENGTH n) of None \<Rightarrow> None | Some j \<Rightarrow> follow T j ns)
     | _ \<Rightarrow> None)"

definition names_of :: "direntv6 list \<Rightarrow> (string \<times> int) list" where
  "names_of es = map (\<lambda>e. (c_string (d_name e), uint (d_inumber e))) (filter (\<lambda>e. d_inumber e \<noteq> 0) es)"

definition node_on :: "disk \<Rightarrow> int \<Rightarrow> node \<Rightarrow> bool" where
  "node_on d i x \<longleftrightarrow> (case x of
       File_node data \<Rightarrow> \<exists>nd inp. nd \<le> 65536 \<and> file_at d nd i inp data \<and> i_mode inp AND IFMT \<noteq> IFDIR
     | Dir_node xs \<Rightarrow> \<exists>es. directory_at d i es \<and> xs = names_of es)"

definition closed_tree :: "tree \<Rightarrow> bool" where
  "closed_tree T \<longleftrightarrow> T ROOTINO \<noteq> None \<and> (\<forall>i xs. T i = Some (Dir_node xs) \<longrightarrow> (\<forall>(n, j) \<in> set xs. T j \<noteq> None))"

definition tree_image :: "tree \<Rightarrow> disk \<Rightarrow> bool" where
  "tree_image T d \<longleftrightarrow> closed_tree T \<and> (\<forall>i x. T i = Some x \<longrightarrow> node_on d i x)"

lemma match_entry_names:
  "fields_full es \<Longrightarrow> NUL \<notin> set nm \<Longrightarrow>
   map_option (\<lambda>e. uint (d_inumber e)) (match_entry nm es) = map_of (names_of es) (take MAX_COMPONENT_LENGTH nm)"
proof (induction es)
  case (Cons e es)
  then have "length (c_string (d_name e)) \<le> MAX_COMPONENT_LENGTH"
    by (metis c_string_def fields_full_def length_takeWhile_le list.set_intros(1))
  then show ?case
    using Cons by (auto simp: names_of_def fields_full_def strncmp_eq_iff c_string_no_NUL)
qed (simp add: names_of_def)

lemma findname_tree:
  assumes "tree_image T d" and "T i = Some x" and "NUL \<notin> set nm"
  shows "map_option (\<lambda>e. uint (d_inumber e)) (directory_findname d nm i) = (case x of
      File_node data \<Rightarrow> None | Dir_node xs \<Rightarrow> map_of xs (take MAX_COMPONENT_LENGTH nm))"
proof -
  have n: "node_on d i x" using assms(1,2) by (simp add: tree_image_def)
  show ?thesis
  proof (cases x)
    case (File_node data)
    then show ?thesis using n by (auto simp: node_on_def directory_findname_def file_at_def)
  next
    case (Dir_node xs)
    then obtain es where es: "directory_at d i es" "xs = names_of es" using n by (auto simp: node_on_def)
    then have "fields_full es" by (simp add: directory_at_def)
    with match_entry_names [OF this assms(3)] es Dir_node show ?thesis by (simp add: directory_findname_directory_at)
  qed
qed

section \<open>Paths\<close>

text \<open>The names of a path with \<open>g + 1\<close> slashes before each and \<open>t\<close> slashes behind the last.\<close>

definition name_ok :: "string \<Rightarrow> bool" where
  "name_ok n \<longleftrightarrow> n \<noteq> [] \<and> CHR ''/'' \<notin> set n \<and> NUL \<notin> set n"

fun path_of :: "(nat \<times> string) list \<Rightarrow> nat \<Rightarrow> string" where
  "path_of [] t = replicate t (CHR ''/'')"
| "path_of ((g, n) # gns) t = replicate (Suc g) (CHR ''/'') @ n @ path_of gns t"

lemma path_walk_slashes [simp]: "path_walk fs cur (replicate k (CHR ''/'') @ p) = path_walk fs cur p"
  by (induction k) simp_all

lemma path_of_head: "path_of gns t = [] \<or> hd (path_of gns t) = CHR ''/''"
  by (cases gns; cases t) auto

lemma follow_closed: "closed_tree T \<Longrightarrow> T i = Some (Dir_node xs) \<Longrightarrow> map_of xs n = Some j \<Longrightarrow> \<exists>y. T j = Some y"
  unfolding closed_tree_def by (metis (mono_tags, lifting) case_prodD map_of_SomeD not_None_eq)

lemma path_walk_tree:
  assumes "tree_image T fs" and "T cur = Some x" and "list_all (\<lambda>(g, n). name_ok n) gns"
  shows "path_walk fs cur (path_of gns t) = (case follow T cur (map snd gns) of None \<Rightarrow> -1 | Some i \<Rightarrow> i)"
  using assms(2,3)
proof (induction gns arbitrary: cur x)
  case Nil
  then show ?case using path_walk_slashes [of fs cur t "[]"] by simp
next
  case (Cons gn gns)
  obtain g n where gn: "gn = (g, n)" by (cases gn)
  then have n: "n \<noteq> []" "CHR ''/'' \<notin> set n" "NUL \<notin> set (take MAX_COMPONENT_LENGTH n)"
    using Cons.prems(2) by (auto simp: name_ok_def dest: in_set_takeD)
  have "path_walk fs cur (path_of (gn # gns) t) = path_walk fs cur (n @ path_of gns t)" by (simp add: gn)
  also have "\<dots> = (case map_option (\<lambda>e. uint (d_inumber e)) (directory_findname fs (take MAX_COMPONENT_LENGTH n) cur) of
      None \<Rightarrow> -1 | Some j \<Rightarrow> path_walk fs j (path_of gns t))"
    unfolding path_walk_component [OF n(1,2) path_of_head] by (simp split: option.split)
  also have "\<dots> = (case follow T cur (map snd (gn # gns)) of None \<Rightarrow> -1 | Some i \<Rightarrow> i)"
  proof (cases x)
    case (File_node data)
    then show ?thesis using findname_tree [OF assms(1) Cons.prems(1) n(3)] Cons.prems(1) by (simp add: gn)
  next
    case (Dir_node xs)
    show ?thesis
    proof (cases "map_of xs (take MAX_COMPONENT_LENGTH n)")
      case None
      then show ?thesis using findname_tree [OF assms(1) Cons.prems(1) n(3)] Cons.prems(1) Dir_node by (simp add: gn)
    next
      case (Some j)
      have "closed_tree T" using assms(1) by (simp add: tree_image_def)
      then obtain y where "T j = Some y" using follow_closed Some Cons.prems(1) Dir_node by blast
      from Cons.IH [OF this] Cons.prems(2)
      have "path_walk fs j (path_of gns t) = (case follow T j (map snd gns) of None \<Rightarrow> -1 | Some i \<Rightarrow> i)" by simp
      moreover have "map_option (\<lambda>e. uint (d_inumber e)) (directory_findname fs (take MAX_COMPONENT_LENGTH n) cur) = Some j"
        using findname_tree [OF assms(1) Cons.prems(1) n(3)] Dir_node Some by simp
      ultimately show ?thesis using Cons.prems(1) Dir_node Some by (auto simp: gn)
    qed
  qed
  finally show ?case .
qed

text \<open>Every absolute path is of that form.\<close>

lemma slashes_first:
  obtains k r where "p = replicate k (CHR ''/'') @ r" and "r = [] \<or> hd r \<noteq> CHR ''/''"
proof (rule that)
  let ?s = "takeWhile (\<lambda>c. c = CHR ''/'') p"
  have "?s = replicate (length ?s) (CHR ''/'')"
    by (rule replicate_length_same [symmetric]) (auto dest: set_takeWhileD)
  then show "p = replicate (length ?s) (CHR ''/'') @ dropWhile (\<lambda>c. c = CHR ''/'') p"
    by (metis takeWhile_dropWhile_id)
  show "dropWhile (\<lambda>c. c = CHR ''/'') p = [] \<or> hd (dropWhile (\<lambda>c. c = CHR ''/'') p) \<noteq> CHR ''/''"
    using hd_dropWhile by blast
qed

lemma name_first:
  obtains n q where "r = n @ q" and "CHR ''/'' \<notin> set n" and "q = [] \<or> hd q = CHR ''/''"
proof (rule that)
  show "r = takeWhile (\<lambda>c. c \<noteq> CHR ''/'') r @ dropWhile (\<lambda>c. c \<noteq> CHR ''/'') r" by simp
  show "CHR ''/'' \<notin> set (takeWhile (\<lambda>c. c \<noteq> CHR ''/'') r)" by (auto dest: set_takeWhileD)
  show "dropWhile (\<lambda>c. c \<noteq> CHR ''/'') r = [] \<or> hd (dropWhile (\<lambda>c. c \<noteq> CHR ''/'') r) = CHR ''/''"
    using hd_dropWhile by blast
qed

lemma every_path: "NUL \<notin> set p \<Longrightarrow> p \<noteq> [] \<Longrightarrow> hd p = CHR ''/'' \<Longrightarrow>
    \<exists>gns t. p = path_of gns t \<and> list_all (\<lambda>(g, n). name_ok n) gns \<and> (gns \<noteq> [] \<or> 0 < t)"
proof (induction "length p" arbitrary: p rule: less_induct)
  case less
  obtain k r where p: "p = replicate k (CHR ''/'') @ r" and r: "r = [] \<or> hd r \<noteq> CHR ''/''" by (rule slashes_first)
  obtain g where k: "k = Suc g" using less.prems(2,3) p r by (cases k) auto
  obtain n q where nq: "r = n @ q" and n: "CHR ''/'' \<notin> set n" and q: "q = [] \<or> hd q = CHR ''/''" by (rule name_first)
  show ?case
  proof (cases "r = []")
    case True
    then have "p = path_of [] k" using p by simp
    then show ?thesis using k by (intro exI [of _ "[]"] exI [of _ k]) simp
  next
    case False
    then have "n \<noteq> []" using r q nq by auto
    then have ok: "name_ok n" using n less.prems(1) p nq by (simp add: name_ok_def)
    show ?thesis
    proof (cases "q = []")
      case True
      then have "p = path_of [(g, n)] 0" using p nq k by simp
      then show ?thesis using ok by (intro exI [of _ "[(g, n)]"] exI [of _ 0]) simp
    next
      case f: False
      have "length q < length p" and "NUL \<notin> set q" using p nq k less.prems(1) by simp_all
      then obtain gns t where "q = path_of gns t" "list_all (\<lambda>(g, n). name_ok n) gns"
        using less.hyps [of q] f q by blast
      then show ?thesis using p nq k ok by (intro exI [of _ "(g, n) # gns"] exI [of _ t]) simp
    qed
  qed
qed

section \<open>The tree of mkfs\<close>

lemma dir_at_directory:
  assumes "dir_at d nd i es" and "nd \<le> 65536"
  shows "directory_at d i es"
proof -
  obtain inp where inp: "inode_iget d i = Some inp" "i_mode inp AND IFMT = IFDIR" "inode_getsize inp = 16 * int (length es)"
    and es: "length es \<le> 32" "\<forall>e \<in> set es. length (d_name e) = 14"
    and blk: "block_at d nd inp 0 (zero_fill (concat (map encode_dirent es)))"
    using assms(1) by (auto simp: dir_at_def)
  have f: "fields_full es" using es(2) by (simp add: fields_full_def MAX_COMPONENT_LENGTH_def)
  have "int (16 * length es) \<le> 512 * 1" using es(1) by simp
  then have "num_blocks (int (16 * length es)) \<le> 1" using num_blocks_iff [of 1 "int (16 * length es)"] by linarith
  then have "b < nat (num_blocks (int (16 * length es))) \<Longrightarrow> b = 0" for b by linarith
  moreover have "file_chunk (dir_bytes es) (16 * length es) 0 = zero_fill (concat (map encode_dirent es))"
    using es(1) length_dir_bytes [OF f] by (simp add: file_chunk_def dir_bytes_def)
  ultimately have "file_at d nd i inp (dir_bytes es)"
    using inp blk length_dir_bytes [OF f] unfolding file_at_def by fastforce
  then show ?thesis using f assms(2) inp(2) by (auto simp: directory_at_def)
qed

definition demo_tree :: tree where
  "demo_tree = map_of (map (\<lambda>(i, data). (i, File_node data)) demo_files @ map (\<lambda>(i, es). (i, Dir_node (names_of es))) demo_dirs)"

lemma demo_nodes:
  "demo_tree 1 = Some (Dir_node [(''.'', 1), (''..'', 1), (''hello.txt'', 2), (''README'', 3), (''big.dat'', 4), (''a'', 8)])"
  "demo_tree 8 = Some (Dir_node [(''.'', 8), (''..'', 1), (''b'', 7)])"
  "demo_tree 7 = Some (Dir_node [(''.'', 7), (''..'', 8), (''c'', 6)])"
  "demo_tree 6 = Some (Dir_node [(''.'', 6), (''..'', 7), (''deep.txt'', 5)])"
  "demo_tree 2 = Some (File_node hello_txt)" "demo_tree 3 = Some (File_node readme_txt)"
  "demo_tree 4 = Some (File_node big_dat)" "demo_tree 5 = Some (File_node deep_txt)"
  by (simp_all add: demo_tree_def demo_dirs_def names_of_def c_string_mkent d_inumber_mkent)

lemma map_of_both:
  assumes "map_of (map (\<lambda>(i, a). (i, f a)) xs @ map (\<lambda>(i, b). (i, g b)) ys) i = Some x"
  shows "(\<exists>a. x = f a \<and> (i, a) \<in> set xs) \<or> (\<exists>b. x = g b \<and> (i, b) \<in> set ys)"
  using map_of_SomeD [OF assms] by auto

lemma demo_tree_image:
  assumes "tree_on d demo_files demo_dirs"
  shows "tree_image demo_tree d"
proof -
  have some: "demo_tree i = Some x \<Longrightarrow> (\<exists>data. x = File_node data \<and> (i, data) \<in> set demo_files) \<or>
      (\<exists>es. x = Dir_node (names_of es) \<and> (i, es) \<in> set demo_dirs)" for i x
    unfolding demo_tree_def by (rule map_of_both)
  then have "node_on d i x" if "demo_tree i = Some x" for i x
    using that assms dir_at_directory by (fastforce simp: node_on_def tree_on_def)
  moreover have "demo_tree j \<noteq> None" if d: "demo_tree i = Some (Dir_node xs)" "(n, j) \<in> set xs" for i xs n j
  proof -
    have "i \<in> {1, 8, 7, 6}" using some [OF d(1)] by (auto simp: demo_dirs_def)
    then show ?thesis using d by (auto simp: demo_nodes)
  qed
  ultimately show ?thesis by (auto simp: tree_image_def closed_tree_def demo_nodes ROOTINO_def)
qed

section \<open>Property\<close>

text \<open>
  C4: on a disk that holds a tree, with directories of any number of blocks, looking up an
  absolute path follows its names through the tree from the root: the answer is the i-number the names lead to,
  and -1 when a name (cut to its first fourteen characters) is not in its directory or a file is
  used as a directory. Repeated and trailing slashes change nothing. A path that does not start with a
  slash is refused.
\<close>

theorem lookup_follows_tree:
  assumes "tree_image T fs" and "list_all (\<lambda>(g, n). name_ok n) gns" and "gns \<noteq> [] \<or> 0 < t"
  shows "pathname_lookup fs (Some (path_of gns t)) = (case follow T ROOTINO (map snd gns) of None \<Rightarrow> -1 | Some i \<Rightarrow> i) \<and>
    (\<forall>p. (p = [] \<or> hd p \<noteq> CHR ''/'') \<longrightarrow> pathname_lookup fs (Some p) = -1)"
proof -
  obtain x where "T ROOTINO = Some x" using assms(1) by (auto simp: tree_image_def closed_tree_def)
  note walk = path_walk_tree [OF assms(1) this assms(2), of t]
  have "c_head (path_of gns t) = CHR ''/''" using assms(3) by (cases gns; cases t) (auto simp: c_head_def)
  then have "pathname_lookup fs (Some (path_of gns t)) = (case follow T ROOTINO (map snd gns) of None \<Rightarrow> -1 | Some i \<Rightarrow> i)"
    using walk by (simp add: pathname_lookup_def)
  moreover have "pathname_lookup fs (Some p) = -1" if "p = [] \<or> hd p \<noteq> CHR ''/''" for p
    using that by (cases p) (auto simp: pathname_lookup_def c_head_def)
  ultimately show ?thesis by blast
qed

text \<open>On the image of \<open>mkfs_v6\<close>: a path with spare slashes, a file used as a directory.\<close>

lemma lookup_follows_tree_witness:
  "\<exists>fs. mkfs_main blank_disk = Some fs \<and> pathname_lookup fs (Some ''//a/b///c/deep.txt/'') = 5 \<and>
    pathname_lookup fs (Some ''/hello.txt/x'') = -1"
proof -
  obtain fs where m: "mkfs_main blank_disk = Some fs" "tree_on fs demo_files demo_dirs"
    using mkfs_main_tree [OF healthy_blank] by blast
  note l = lookup_follows_tree [OF demo_tree_image [OF m(2)]]
  show ?thesis
    using m(1) l [of "[(1, ''a''), (0, ''b''), (2, ''c''), (0, ''deep.txt'')]" 1] l [of "[(0, ''hello.txt''), (0, ''x'')]" 0]
    by (simp add: name_ok_def ROOTINO_def demo_nodes MAX_COMPONENT_LENGTH_def numeral_2_eq_2)
qed

end
