(* ===== verification/V6_Tests.thy ===== *)
theory V6_Tests
  imports V6_Tree
begin

text \<open>
  The two programs that read an image as a whole: the tester \<open>runtests.c\<close> and \<open>diskimageaccess.c\<close>'s \<open>main\<close>.
  A use of memory that was never written (an inode that could not be read, bytes beyond a short file) is
  \<^term>\<open>None\<close>; opening the image is left out. The property runs the tester on what \<open>mkfs_v6\<close> built.
\<close>

section \<open>\<open>runtests.c\<close>\<close>

type_synonym checks = "(bool \<times> string) list"

definition inode_checks :: "disk \<Rightarrow> checks option" where
  "inode_checks fs = do {
     root \<leftarrow> inode_iget fs ROOTINO;
     Some [(True, ''inode_iget(root) succeeds''),
       (i_mode root AND IALLOC \<noteq> 0, ''root inode is allocated''),
       (i_mode root AND IFMT = IFDIR, ''root inode is a directory'')]
   }"

definition pathname_checks :: "disk \<Rightarrow> checks" where
  "pathname_checks fs = (let look = (\<lambda>p. pathname_lookup fs (Some p)) in
     [(look ''/hello.txt'' > 0, ''lookup /hello.txt resolves''),
      (look ''/README'' > 0, ''lookup /README resolves''),
      (look ''/a/b/c/deep.txt'' > 0, ''lookup /a/b/c/deep.txt resolves (nested)''),
      (look ''/a/b/c'' > 0, ''lookup /a/b/c (dir) resolves''),
      (look ''/nope'' < 0, ''lookup /nope fails as expected''),
      (look ''/a/x/y'' < 0, ''lookup missing nested path fails''),
      (look ''relative'' < 0, ''non-absolute path rejected''),
      (look ''/'' = ROOTINO, ''lookup / is root'')])"

definition expectHello :: "byte list" where
  "expectHello = bytes_of_string ''Hello from the Unix v6 filesystem!''"

definition content_checks :: "disk \<Rightarrow> checks option" where
  "content_checks fs =
     (case read_whole fs (pathname_lookup fs (Some ''/hello.txt'')) of
        None \<Rightarrow> Some [(False, ''/hello.txt content matches'')]
      | Some bytes \<Rightarrow>
          if 0 < length bytes \<and> length bytes < length expectHello then None
          else Some [(bytes \<noteq> [] \<and> take (length expectHello) bytes = expectHello, ''/hello.txt content matches'')])"

definition directory_checks :: "disk \<Rightarrow> checks" where
  "directory_checks fs =
     [((case directory_findname fs ''hello.txt'' ROOTINO of
          None \<Rightarrow> False
        | Some ent \<Rightarrow> uint (d_inumber ent) = pathname_lookup fs (Some ''/hello.txt'')), ''directory_findname finds hello.txt''),
      (directory_findname fs ''ghost'' ROOTINO = None, ''directory_findname returns -1 for missing name'')]"

definition large_checks :: "disk \<Rightarrow> checks option" where
  "large_checks fs = (let big = pathname_lookup fs (Some ''/big.dat'') in do {
     inp \<leftarrow> inode_iget fs big;
     let bigSize = inode_getsize inp;
     let bytes = read_whole fs big;
     let n = (case bytes of None \<Rightarrow> -1 | Some b \<Rightarrow> int (length b));
     let intact = (n = bigSize \<and> (case bytes of None \<Rightarrow> True
        | Some b \<Rightarrow> list_all (\<lambda>i. b ! i = word_of_nat (65 + i mod 26)) [0..<length b]));
     let lastValid = (case file_getblock fs big 20 of None \<Rightarrow> -1 | Some (valid, blk) \<Rightarrow> int valid);
     Some [(big > 0, ''lookup /big.dat resolves''),
       (i_mode inp AND ILARG \<noteq> 0, ''big.dat uses ILARG (indirect) addressing''),
       (bigSize = 20 * int sector_size + 137, ''big.dat size is 20.x blocks''),
       (n = bigSize, ''big.dat fully read via indirect blocks''),
       (intact, ''big.dat byte pattern intact across indirect blocks''),
       (lastValid = 137, ''file_getblock returns partial last-block size (137)'')]
   })"

text \<open>All checks in order, and the exit status.\<close>

definition run_checks :: "disk \<Rightarrow> checks option" where
  "run_checks fs = do {
     inodes \<leftarrow> inode_checks fs;
     contents \<leftarrow> content_checks fs;
     large \<leftarrow> large_checks fs;
     Some (inodes @ pathname_checks fs @ contents @ directory_checks fs @ large)
   }"

definition runtests :: "disk \<Rightarrow> int option" where
  "runtests fs = map_option (\<lambda>cs. if length (filter (\<lambda>c. \<not> fst c) cs) = 0 then 0 else 1) (run_checks fs)"

section \<open>\<open>diskimageaccess.c\<close>\<close>

text \<open>The superblock line and the walk, within the given depth; exit status 1 when the superblock cannot be read.\<close>

datatype access_end = No_superblock | Walked int int "walk_line list"

definition access_main :: "nat \<Rightarrow> disk \<Rightarrow> access_end option" where
  "access_main depth fs =
     (case diskimg_readsector fs 1 of
        None \<Rightarrow> Some No_superblock
      | Some sb \<Rightarrow> map_option (Walked (int (le_nat (take 2 sb))) (int (le_nat (take 2 (drop 2 sb))))) (walk depth fs ROOTINO ''/''))"

section \<open>The demo image\<close>

lemma demo_root: "tree_on fs demo_files demo_dirs \<Longrightarrow>
    \<exists>inp. inode_iget fs 1 = Some inp \<and> i_mode inp AND IFMT = IFDIR \<and> i_mode inp AND IALLOC \<noteq> 0"
proof -
  assume t: "tree_on fs demo_files demo_dirs"
  obtain es where "(1, es) \<in> set demo_dirs" by (simp add: demo_dirs_def)
  with t obtain nd where "dir_at fs nd 1 es" by (fastforce simp: tree_on_def)
  then show ?thesis by (auto simp: dir_at_def)
qed

lemma demo_big:
  assumes "tree_on fs demo_files demo_dirs"
  shows "\<exists>inp buf. inode_iget fs 4 = Some inp \<and> i_mode inp AND ILARG \<noteq> 0 \<and> inode_getsize inp = 10377 \<and>
    file_getblock fs 4 20 = Some (137, buf)"
proof -
  have "(4, big_dat) \<in> set demo_files" by simp
  with assms obtain nd inp where f: "nd \<le> 65536" "file_at fs nd 4 inp big_dat" by (fastforce simp: tree_on_def)
  have 20: "20 < nat (num_blocks (int (length big_dat)))" by (simp add: demo_lengths demo_blocks)
  then have "block_at fs nd inp 20 (file_chunk big_dat (length big_dat) 20)" using f(2) unfolding file_at_def by blast
  then have "i_mode inp AND ILARG \<noteq> 0" by (auto simp: block_at_def split: if_splits)
  then show ?thesis using f file_at_getblock [OF f(2,1) 20] by (auto simp: file_at_def demo_lengths)
qed

lemma demo_hello_entry:
  assumes "tree_on fs demo_files demo_dirs"
  shows "\<exists>ent. directory_findname fs ''hello.txt'' 1 = Some ent \<and> d_inumber ent = 2" "directory_findname fs ''ghost'' 1 = None"
proof -
  have "map_option d_inumber (directory_findname fs ''hello.txt'' 1) = Some 2"
    "map_option d_inumber (directory_findname fs ''ghost'' 1) = None"
    by (simp_all add: demo_match(1) [OF assms] same_name_literal)
  then show "\<exists>ent. directory_findname fs ''hello.txt'' 1 = Some ent \<and> d_inumber ent = 2" "directory_findname fs ''ghost'' 1 = None"
    by auto
qed

lemma big_pattern: "list_all (\<lambda>i. big_dat ! i = word_of_nat (65 + i mod 26)) [0..<length big_dat]"
  by (simp add: list_all_iff big_dat_def)

lemma demo_checks:
  assumes t: "tree_on fs demo_files demo_dirs"
  shows "\<exists>cs. run_checks fs = Some cs \<and> length cs = 20 \<and> list_all fst cs"
proof -
  note look = demo_lookups(1) [OF t, simplified] demo_lookups(2) [OF t]
  obtain root where root: "inode_iget fs 1 = Some root" "i_mode root AND IFMT = IFDIR" "i_mode root AND IALLOC \<noteq> 0"
    using demo_root [OF t] by blast
  have "inode_checks fs = Some [(True, ''inode_iget(root) succeeds''), (True, ''root inode is allocated''), (True, ''root inode is a directory'')]"
    using root by (simp add: inode_checks_def ROOTINO_def)
  moreover have "content_checks fs = Some [(True, ''/hello.txt content matches'')]"
  proof -
    have "take (length expectHello) hello_txt = expectHello" "length expectHello = 34" "length hello_txt = 65" "hello_txt \<noteq> []"
      by (simp_all add: hello_txt_def expectHello_def bytes_of_string_def demo_lengths)
    then show ?thesis using look demo_read(1) [OF t] by (simp add: content_checks_def)
  qed
  moreover have "list_all fst (directory_checks fs)" "length (directory_checks fs) = 2"
    using look demo_hello_entry [OF t] by (auto simp: directory_checks_def ROOTINO_def)
  moreover have "list_all fst (pathname_checks fs)" "length (pathname_checks fs) = 8"
    using look by (simp_all add: pathname_checks_def ROOTINO_def)
  moreover have "\<exists>cs. large_checks fs = Some cs \<and> length cs = 6 \<and> list_all fst cs"
  proof -
    obtain inp buf where b: "inode_iget fs 4 = Some inp" "i_mode inp AND ILARG \<noteq> 0" "inode_getsize inp = 10377"
      "file_getblock fs 4 20 = Some (137, buf)" using demo_big [OF t] by blast
    then show ?thesis using look demo_read(3) [OF t] big_pattern
      by (simp add: large_checks_def Let_def demo_lengths del: upt_Suc)
  qed
  ultimately show ?thesis by (auto simp: run_checks_def)
qed

text \<open>
  C37: the repository's tester accepts the repository's image. On a device whose kernel reports no I/O error
  \<open>mkfs_v6\<close> completes; on what it leaves, \<open>runtests\<close> performs its twenty checks of the inode, pathname, file,
  directory and indirect-block layers without touching memory that was not written, all of them hold, and
  its exit status is 0; and \<open>diskimageaccess\<close> reads the superblock with the number of inode blocks that
  \<open>mkfs_v6\<close> chose.
\<close>

theorem tester_passes:
  assumes "healthy d"
  shows "\<exists>fs cs. mkfs_main d = Some fs \<and> run_checks fs = Some cs \<and> length cs = 20 \<and> list_all fst cs \<and> runtests fs = Some 0 \<and>
    (\<exists>fsize ls. access_main 5 fs = Some (Walked NUM_INODE_BLOCKS fsize ls))"
proof -
  from mkfs_main_tree [OF assms] obtain fs n where m: "mkfs_main d = Some fs" "tree_on fs demo_files demo_dirs"
    "diskimg_readsector fs 1 = Some (superblock NUM_INODE_BLOCKS n)" by blast
  obtain cs where cs: "run_checks fs = Some cs" "length cs = 20" "list_all fst cs" using demo_checks [OF m(2)] by blast
  then have "filter (\<lambda>c. \<not> fst c) cs = []" by (simp add: filter_empty_conv list_all_iff)
  then have "runtests fs = Some 0" using cs(1) by (simp add: runtests_def)
  moreover obtain ls where "walk 5 fs ROOTINO ''/'' = Some ls" using demo_walks [OF m(2)] by blast
  moreover have "le_nat (take 2 (superblock NUM_INODE_BLOCKS n)) = nat NUM_INODE_BLOCKS"
    by (simp add: superblock_def zero_fill_def NUM_INODE_BLOCKS_def put_u16_def le_nat_le_bytes)
  ultimately show ?thesis using m cs by (auto simp: access_main_def NUM_INODE_BLOCKS_def)
qed

lemma tester_passes_witness:
  "\<exists>fs cs. mkfs_main blank_disk = Some fs \<and> run_checks fs = Some cs \<and> length cs = 20 \<and> list_all fst cs \<and> runtests fs = Some 0 \<and>
    (\<exists>fsize ls. access_main 5 fs = Some (Walked NUM_INODE_BLOCKS fsize ls))"
  by (rule tester_passes) (rule healthy_blank)

end
