(* ===== verification/Sorting.thy ===== *)
theory Sorting
  imports Prelude "HOL-Library.Multiset"
begin

text \<open>
  What the search programs rely on of the standard library's containers: the contract of \<open>std::sort\<close>
  for a comparator the standard accepts, an insertion sort that meets it, and \<open>m[k] += n\<close> on a
  \<open>std::map\<close> from keys to counts.
\<close>

section \<open>\<open>std::sort\<close>\<close>

definition strict_weak :: "('a \<Rightarrow> 'a \<Rightarrow> bool) \<Rightarrow> bool" where
  "strict_weak cmp \<longleftrightarrow> (\<forall>x. \<not> cmp x x) \<and> (\<forall>x y z. cmp x y \<longrightarrow> cmp y z \<longrightarrow> cmp x z) \<and>
     (\<forall>x y z. \<not> cmp x y \<longrightarrow> \<not> cmp y z \<longrightarrow> \<not> cmp x z)"

definition sorts :: "(('a \<Rightarrow> 'a \<Rightarrow> bool) \<Rightarrow> 'a list \<Rightarrow> 'a list) \<Rightarrow> bool" where
  "sorts std_sort \<longleftrightarrow> (\<forall>cmp xs. strict_weak cmp \<longrightarrow>
     mset (std_sort cmp xs) = mset xs \<and> sorted_wrt (\<lambda>x y. \<not> cmp y x) (std_sort cmp xs))"

lemma strict_weak_flip: "strict_weak cmp \<Longrightarrow> strict_weak (\<lambda>x y. cmp y x)"
  unfolding strict_weak_def by blast

lemma strict_weak_key: "strict_weak (\<lambda>x y. f x < (f y :: 'b::linorder))"
  unfolding strict_weak_def by auto

text \<open>Insertion sort meets the contract of \<open>std::sort\<close>.\<close>

fun insert_by :: "('a \<Rightarrow> 'a \<Rightarrow> bool) \<Rightarrow> 'a \<Rightarrow> 'a list \<Rightarrow> 'a list" where
  "insert_by cmp x [] = [x]"
| "insert_by cmp x (y # ys) = (if cmp y x then y # insert_by cmp x ys else x # y # ys)"

definition insertion_sort :: "('a \<Rightarrow> 'a \<Rightarrow> bool) \<Rightarrow> 'a list \<Rightarrow> 'a list" where
  "insertion_sort cmp xs = foldr (insert_by cmp) xs []"

lemma insert_by_mset: "mset (insert_by cmp x xs) = add_mset x (mset xs)"
  by (induction cmp x xs rule: insert_by.induct) simp_all

lemma insert_by_sorted:
  assumes "strict_weak cmp" and "sorted_wrt (\<lambda>x y. \<not> cmp y x) xs"
  shows "sorted_wrt (\<lambda>x y. \<not> cmp y x) (insert_by cmp x xs)"
  using assms(2)
proof (induction xs)
  case (Cons y ys)
  have s: "set (insert_by cmp x ys) = insert x (set ys)"
    using insert_by_mset [of cmp x ys] by (metis set_mset_add_mset_insert set_mset_mset)
  show ?case
  proof (cases "cmp y x")
    case True
    then have "\<not> cmp x y" using assms(1) unfolding strict_weak_def by blast
    with True Cons show ?thesis by (simp add: s)
  next
    case False
    have "\<not> cmp z x" if "z \<in> set ys" for z
      using that False Cons.prems assms(1) unfolding strict_weak_def by (metis sorted_wrt.simps(2))
    with False Cons.prems show ?thesis by simp
  qed
qed simp

lemma insertion_sort_sorts: "sorts insertion_sort"
proof -
  have "mset (insertion_sort cmp xs) = mset xs" for cmp :: "'a \<Rightarrow> 'a \<Rightarrow> bool" and xs
    by (induction xs) (simp_all add: insertion_sort_def insert_by_mset)
  moreover have "strict_weak cmp \<Longrightarrow> sorted_wrt (\<lambda>x y. \<not> cmp y x) (insertion_sort cmp xs)" for cmp :: "'a \<Rightarrow> 'a \<Rightarrow> bool" and xs
    by (induction xs) (simp_all add: insertion_sort_def insert_by_sorted)
  ultimately show ?thesis by (simp add: sorts_def)
qed

section \<open>Counts by key\<close>

fun bump :: "'k::linorder \<Rightarrow> nat \<Rightarrow> ('k \<times> nat) list \<Rightarrow> ('k \<times> nat) list" where
  "bump k n [] = [(k, n)]"
| "bump k n ((k', m) # r) =
     (if k < k' then (k, n) # (k', m) # r else if k = k' then (k', m + n) # r else (k', m) # bump k n r)"

definition count_at :: "('k \<times> nat) list \<Rightarrow> 'k \<Rightarrow> nat" where
  "count_at m k = (case map_of m k of None \<Rightarrow> 0 | Some n \<Rightarrow> n)"

definition counts_ok :: "('k::linorder \<times> nat) list \<Rightarrow> bool" where
  "counts_ok m \<longleftrightarrow> sorted_wrt (<) (map fst m) \<and> (\<forall>(k, n) \<in> set m. 0 < n)"

lemma bump_keys: "set (map fst (bump k n m)) = insert k (set (map fst m))"
  by (induction k n m rule: bump.induct) auto

lemma bump_ok: "counts_ok m \<Longrightarrow> 0 < n \<Longrightarrow> counts_ok (bump k n m)"
proof (induction k n m rule: bump.induct)
  case (2 k n k' m r)
  have "\<forall>x \<in> set (map fst (bump k n r)). k' < x" if "k' < k"
    using that "2.prems" by (subst bump_keys) (auto simp: counts_ok_def)
  moreover have "counts_ok r" using "2.prems" by (simp add: counts_ok_def)
  ultimately show ?case using 2 by (auto simp: counts_ok_def dest: order.strict_trans not_less_iff_gr_or_eq [THEN iffD1])
qed (simp add: counts_ok_def)

lemma count_at_Nil [simp]: "count_at [] k = 0"
  by (simp add: count_at_def)

lemma counts_ok_Nil [simp]: "counts_ok []"
  by (simp add: counts_ok_def)

lemma count_at_bump: "counts_ok m \<Longrightarrow> count_at (bump k n m) j = count_at m j + (if j = k then n else 0)"
proof (induction k n m rule: bump.induct)
  case (2 k n k' m r)
  have "map_of r k = None" if "k < k'"
    using that "2.prems" by (auto simp: counts_ok_def map_of_eq_None_iff dest: order.strict_trans)
  moreover have "counts_ok r" using "2.prems" by (simp add: counts_ok_def)
  ultimately show ?case using 2 by (auto simp: count_at_def)
qed (simp add: count_at_def)

lemma counts_member: "counts_ok m \<Longrightarrow> (k, n) \<in> set m \<longleftrightarrow> n = count_at m k \<and> 0 < n"
proof -
  assume ok: "counts_ok m"
  then have "distinct (map fst m)" by (simp add: counts_ok_def strict_sorted_iff)
  then have "map_of m k = Some n \<longleftrightarrow> (k, n) \<in> set m" by (rule map_of_eq_Some_iff)
  moreover have "(k, n) \<in> set m \<Longrightarrow> 0 < n" using ok by (auto simp: counts_ok_def)
  ultimately show ?thesis by (auto simp: count_at_def split: option.splits)
qed

text \<open>What counting relies on: adding at one key is seen at that key only.\<close>

locale tally =
  fixes ok :: "'m \<Rightarrow> bool" and at :: "'m \<Rightarrow> 'k \<Rightarrow> nat" and add :: "'k \<Rightarrow> nat \<Rightarrow> 'm \<Rightarrow> 'm" and none :: 'm
  assumes none_ok: "ok none" and none_at: "at none k = 0"
    and add_ok: "ok m \<Longrightarrow> 0 < n \<Longrightarrow> ok (add k n m)"
    and add_at: "ok m \<Longrightarrow> at (add k n m) j = at m j + (if j = k then n else 0)"
begin

lemma count_all: "ok m \<Longrightarrow> ok (fold (\<lambda>k. add k 1) ks m) \<and> at (fold (\<lambda>k. add k 1) ks m) j = at m j + count_list ks j"
proof (induction ks arbitrary: m)
  case (Cons k ks)
  then have "ok (add k 1 m)" by (simp add: add_ok)
  with Cons.IH [OF this] Cons.prems show ?case by (simp add: add_at)
qed simp

lemma count_from_none: "ok (fold (\<lambda>k. add k 1) ks none)" "at (fold (\<lambda>k. add k 1) ks none) j = count_list ks j"
  using count_all [OF none_ok] by (simp_all add: none_at)

end

interpretation bumped: tally counts_ok count_at bump "[]"
  by unfold_locales (simp_all add: bump_ok count_at_bump)

end
