(* ===== verification/Tokens.thy ===== *)
theory Tokens
  imports Prelude
begin

text \<open>
  Lower-cased alphanumeric words of a text: the loop that \<open>mkamazondb.cc\<close>, \<open>amazon.cc\<close>, \<open>mapper.cc\<close> and
  \<open>xml-utils.cc\<close> each contain. \<open>cur\<close> is the word being collected. The lemmas say what a word is, that
  words are their own words, and how texts split at a separator.
\<close>

primrec words_loop :: "string \<Rightarrow> string \<Rightarrow> string list" where
  "words_loop cur [] = (if cur = [] then [] else [cur])"
| "words_loop cur (c # cs) =
     (if isalnum c then words_loop (cur @ [tolower c]) cs
      else (if cur = [] then [] else [cur]) @ words_loop [] cs)"

definition text_words :: "string \<Rightarrow> string list" where
  "text_words s = words_loop [] s"

definition word_char :: "char \<Rightarrow> bool" where
  "word_char c \<longleftrightarrow> isalnum c \<and> tolower c = c"

definition is_token :: "string \<Rightarrow> bool" where
  "is_token w \<longleftrightarrow> w \<noteq> [] \<and> (\<forall>c \<in> set w. word_char c)"

lemma word_char_tolower: "isalnum c \<Longrightarrow> word_char (tolower c)"
  by (simp add: word_char_def)

lemma words_loop_tokens:
  "\<forall>c \<in> set cur. word_char c \<Longrightarrow> w \<in> set (words_loop cur s) \<Longrightarrow> is_token w"
proof (induction s arbitrary: cur)
  case (Cons c s)
  show ?case
  proof (cases "isalnum c")
    case True
    with Cons.prems show ?thesis using Cons.IH [of "cur @ [tolower c]"] by (auto simp: word_char_tolower)
  next
    case False
    with Cons.prems Cons.IH [of "[]"] show ?thesis by (auto simp: is_token_def split: if_splits)
  qed
qed (auto simp: is_token_def split: if_splits)

lemma text_words_tokens: "w \<in> set (text_words s) \<Longrightarrow> is_token w"
  unfolding text_words_def by (rule words_loop_tokens [of "[]"]) simp_all

lemma words_loop_token:
  "\<forall>c \<in> set w. word_char c \<Longrightarrow> words_loop cur (w @ s) = words_loop (cur @ w) s"
  by (induction w arbitrary: cur) (simp_all add: word_char_def)

lemma text_words_token: "is_token w \<Longrightarrow> text_words w = [w]"
  using words_loop_token [of w "[]" "[]"] by (simp add: text_words_def is_token_def)

lemma words_loop_sep: "\<not> isalnum d \<Longrightarrow> words_loop cur (s @ d # t) = words_loop cur s @ words_loop [] t"
  by (induction s arbitrary: cur) auto

lemma text_words_sep: "\<not> isalnum d \<Longrightarrow> text_words (s @ d # t) = text_words s @ text_words t"
  by (simp add: text_words_def words_loop_sep)

lemma text_words_no_alnum: "\<forall>c \<in> set s. \<not> isalnum c \<Longrightarrow> text_words s = []"
  by (induction s) (simp_all add: text_words_def)

lemma words_loop_length: "length (words_loop cur s) \<le> length cur + length s"
proof (induction s arbitrary: cur)
  case (Cons c s)
  show ?case using Cons [of "cur @ [tolower c]"] Cons [of "[]"] by (cases cur) auto
qed (simp add: Suc_le_eq)

lemma text_words_length: "length (text_words s) \<le> length s"
  using words_loop_length [of "[]" s] by (simp add: text_words_def)

lemma word_char_codes: "word_char c \<Longrightarrow> 48 \<le> char_code c \<and> char_code c \<le> 122"
  by (auto simp: word_char_def isalnum_def isdigit_def isupper_def islower_def char_code_tolower)

lemma word_char_not_space: "word_char c \<Longrightarrow> \<not> isspace c"
  using word_char_codes [of c] by (auto simp: isspace_def)

lemma token_char_notin: "is_token w \<Longrightarrow> char_code d < 48 \<Longrightarrow> d \<notin> set w"
  using word_char_codes by (force simp: is_token_def)

end
