(* ===== verification/Amazon_Build.thy ===== *)
theory Amazon_Build
  imports Tokens "HOL-Library.Product_Lexorder" "HOL-Library.Monad_Syntax"
begin

unbundle bit_operations_syntax

text \<open>
  \<open>mkamazondb.cc\<close>: the TSV reader and the two files it writes, byte by byte. A file is a
  \<^typ>\<open>byte list\<close>; \<open>cur\<close> is the file position of the record being laid out, as in the source. \<open>std::stoi\<close>
  throws when there is no number or it does not fit an \<open>int\<close>; the exception is not caught, so the whole
  build is then \<^term>\<open>None\<close>.
\<close>

section \<open>Records and the TSV input\<close>

record rec =
  r_title :: string
  r_category :: string
  r_rating :: int
  r_headline :: string
  r_body :: string
  r_year :: int
  r_month :: int
  r_day :: int

definition mk_splitWords :: "string \<Rightarrow> string list" where
  "mk_splitWords s = words_loop [] s"

definition stoi :: "string \<Rightarrow> int option" where
  "stoi s = (let (neg, r) = scan_sign (dropWhile isspace s); v = strtol s
     in if takeWhile isdigit r = [] \<or> v < - (2 ^ 31) \<or> v \<ge> 2 ^ 31 then None else Some v)"

definition strip_cr :: "string \<Rightarrow> string" where
  "strip_cr line = (if line \<noteq> [] \<and> last line = CHR 0x0D then butlast line else line)"

definition tsv_rec :: "string list \<Rightarrow> rec option" where
  "tsv_rec f = do {
     rating \<leftarrow> stoi (f ! 2);
     year \<leftarrow> stoi (f ! 5);
     month \<leftarrow> stoi (f ! 6);
     day \<leftarrow> stoi (f ! 7);
     Some \<lparr>r_title = f ! 0, r_category = f ! 1, r_rating = rating, r_headline = f ! 3, r_body = f ! 4,
       r_year = year, r_month = month, r_day = day\<rparr>
   }"

text \<open>The records and the number of \<open>skipping malformed line\<close> messages.\<close>

fun tsv_lines :: "string list \<Rightarrow> (rec list \<times> nat) option" where
  "tsv_lines [] = Some ([], 0)"
| "tsv_lines (l # ls) =
     (let line = strip_cr l; f = getlines CHR 0x09 line
      in if line = [] then tsv_lines ls
         else if length f < 8 then map_option (map_prod id Suc) (tsv_lines ls)
         else do { r \<leftarrow> tsv_rec f; (rs, bad) \<leftarrow> tsv_lines ls; Some (r # rs, bad) })"

definition read_tsv :: "string \<Rightarrow> (rec list \<times> nat) option" where
  "read_tsv text = tsv_lines (getlines CHR 0x0A text)"

section \<open>The database file\<close>

definition appendU32 :: "nat \<Rightarrow> byte list" where
  "appendU32 v = le_bytes 4 v"

definition appendU16 :: "int \<Rightarrow> byte list" where
  "appendU16 v = le_bytes 2 (nat (v mod 2 ^ 16))"

definition cstr :: "string \<Rightarrow> byte list" where
  "cstr s = bytes_of_string s @ [0]"

definition pad_even :: "nat \<Rightarrow> byte list" where
  "pad_even pos = (if pos mod 2 \<noteq> 0 then [0] else [])"

definition rec_bytes :: "nat \<Rightarrow> rec \<Rightarrow> byte list" where
  "rec_bytes cur r =
     (let b = cstr (r_title r) @ cstr (r_category r) @ [word_of_int (r_rating r)] @ cstr (r_headline r) @ cstr (r_body r)
      in b @ pad_even (cur + length b) @ appendU16 (r_year r) @ [word_of_int (r_month r), word_of_int (r_day r)])"

text \<open>The offsets and the blob, from file position \<open>cur\<close> on.\<close>

fun db_loop :: "nat \<Rightarrow> rec list \<Rightarrow> nat list \<times> byte list" where
  "db_loop cur [] = ([], [])"
| "db_loop cur (r # rs) =
     (let b = rec_bytes cur r; (offsets, blob) = db_loop (cur + length b) rs in (cur # offsets, b @ blob))"

definition build_db :: "rec list \<Rightarrow> byte list" where
  "build_db recs =
     (let (offsets, blob) = db_loop (4 + 4 * length recs) recs
      in appendU32 (length recs) @ concat (map appendU32 offsets) @ blob)"

section \<open>The keyword index file\<close>

definition field_text :: "rec \<Rightarrow> nat \<Rightarrow> string" where
  "field_text r f = [r_title r, r_category r, r_headline r, r_body r] ! f"

definition location :: "nat \<Rightarrow> nat \<Rightarrow> nat" where
  "location field off = push_bit 24 field OR (off AND 0x00FFFFFF)"

lemma location_arith: "location field off = field * 2 ^ 24 + off mod 2 ^ 24"
proof -
  have o: "off AND 0x00FFFFFF = take_bit 24 off"
    by (simp add: take_bit_eq_mask mask_eq_exp_minus_1)
  have "push_bit 24 field AND take_bit 24 off = 0"
    by (rule bit_eqI) (auto simp: bit_simps)
  then have "location field off = push_bit 24 field + take_bit 24 off"
    by (simp add: location_def o disjunctive_add_eq_or)
  then show ?thesis by (simp add: push_bit_eq_mult take_bit_eq_mod)
qed

text \<open>\<open>kw[word].push_back(o)\<close> on the ordered map, as the list of its entries in key order.\<close>

type_synonym kw_map = "(string \<times> (nat \<times> nat) list) list"

fun kw_push :: "string \<Rightarrow> nat \<times> nat \<Rightarrow> kw_map \<Rightarrow> kw_map" where
  "kw_push w x [] = [(w, [x])]"
| "kw_push w x ((k, v) # kw) =
     (if w < k then (w, [x]) # (k, v) # kw else if w = k then (k, v @ [x]) # kw else (k, v) # kw_push w x kw)"

fun push_words :: "nat \<Rightarrow> nat \<Rightarrow> nat \<Rightarrow> string list \<Rightarrow> kw_map \<Rightarrow> kw_map" where
  "push_words i field off [] kw = kw"
| "push_words i field off (w # ws) kw = push_words i field (Suc off) ws (kw_push w (i, location field off) kw)"

definition push_rec :: "nat \<Rightarrow> rec \<Rightarrow> kw_map \<Rightarrow> kw_map" where
  "push_rec i r kw = fold (\<lambda>field. push_words i field 0 (mk_splitWords (field_text r field))) [0, 1, 2, 3] kw"

fun push_recs :: "nat \<Rightarrow> rec list \<Rightarrow> kw_map \<Rightarrow> kw_map" where
  "push_recs i [] kw = kw"
| "push_recs i (r # rs) kw = push_recs (Suc i) rs (push_rec i r kw)"

definition occ_bytes :: "nat \<times> nat \<Rightarrow> byte list" where
  "occ_bytes x = appendU32 (fst x) @ appendU32 (snd x)"

definition entry_bytes :: "nat \<Rightarrow> string \<times> (nat \<times> nat) list \<Rightarrow> byte list" where
  "entry_bytes cur e =
     (let b = cstr (fst e)
      in b @ pad_even (cur + length b) @ appendU32 (length (snd e)) @ concat (map occ_bytes (sort (snd e))))"

fun kwi_loop :: "nat \<Rightarrow> kw_map \<Rightarrow> nat list \<times> byte list" where
  "kwi_loop cur [] = ([], [])"
| "kwi_loop cur (e # es) =
     (let b = entry_bytes cur e; (offsets, blob) = kwi_loop (cur + length b) es in (cur # offsets, b @ blob))"

definition kwi_file :: "kw_map \<Rightarrow> byte list" where
  "kwi_file kw =
     (let (offsets, blob) = kwi_loop (4 + 4 * length kw) kw
      in appendU32 (length kw) @ concat (map appendU32 offsets) @ blob)"

definition build_kwi :: "rec list \<Rightarrow> byte list" where
  "build_kwi recs = kwi_file (push_recs 0 recs [])"

text \<open>\<open>main\<close>: the files written, or \<^term>\<open>None\<close> when a number could not be converted.\<close>

definition mkamazondb :: "string \<Rightarrow> string \<Rightarrow> string \<Rightarrow> (string \<rightharpoonup> byte list) option" where
  "mkamazondb tsv outDir prefix = map_option (\<lambda>(recs, bad).
     [outDir @ ''/'' @ prefix @ ''.db'' \<mapsto> build_db recs, outDir @ ''/'' @ prefix @ ''.kwi'' \<mapsto> build_kwi recs])
     (read_tsv tsv)"

end
