(* ===== verification/Amazon.thy ===== *)
theory Amazon
  imports Amazon_Build
begin

unbundle bit_operations_syntax

text \<open>
  \<open>amazon.cc\<close> and \<open>amazon_search.cc\<close>: opening the two mapped files, reading a review, finding a keyword
  by binary search, the query parser, the search and the sorted result. A read beyond the end of a
  mapping is \<^term>\<open>None\<close>, so a result \<open>Some x\<close> says that every byte read was inside the file.
  \<open>std::set\<close> is a strictly increasing list; \<open>std::sort\<close> with a comparator is a parameter (\<open>std_sort\<close>).
\<close>

section \<open>Reading bytes\<close>

definition readU32 :: "byte list \<Rightarrow> nat \<Rightarrow> nat option" where
  "readU32 file p = (if p + 4 \<le> length file then Some (le_nat (take 4 (drop p file))) else None)"

definition readU16 :: "byte list \<Rightarrow> nat \<Rightarrow> nat option" where
  "readU16 file p = (if p + 2 \<le> length file then Some (le_nat (take 2 (drop p file))) else None)"

definition read_byte :: "byte list \<Rightarrow> nat \<Rightarrow> nat option" where
  "read_byte file p = (if p < length file then Some (unat (file ! p)) else None)"

definition readCString :: "byte list \<Rightarrow> nat \<Rightarrow> (string \<times> nat) option" where
  "readCString file p =
     (let s = takeWhile (\<lambda>b. b \<noteq> 0) (drop p file)
      in if p + length s < length file then Some (string_of_bytes s, p + length s + 1) else None)"

definition even_up :: "nat \<Rightarrow> nat" where
  "even_up p = (if p mod 2 \<noteq> 0 then p + 1 else p)"

section \<open>Opening\<close>

record review =
  index :: nat
  product_title :: string
  product_category :: string
  star_rating :: nat
  review_headline :: string
  review_body :: string
  review_year :: nat
  review_month :: nat
  review_day :: nat

record amazon =
  databaseFile :: "byte list option"
  keywordIndexFile :: "byte list option"
  numReviews :: nat
  numKeywords :: nat

definition mapFile :: "(string \<rightharpoonup> byte list) \<Rightarrow> string \<Rightarrow> byte list option" where
  "mapFile fs path = (case fs path of None \<Rightarrow> None | Some b \<Rightarrow> if b = [] then None else Some b)"

definition header_count :: "byte list option \<Rightarrow> nat option" where
  "header_count f = (case f of None \<Rightarrow> Some 0 | Some b \<Rightarrow> readU32 b 0)"

definition open_amazon :: "(string \<rightharpoonup> byte list) \<Rightarrow> string \<Rightarrow> string \<Rightarrow> amazon option" where
  "open_amazon fs directory filesPrefix =
     (let base = (if directory = [] then filesPrefix else directory @ ''/'' @ filesPrefix);
          db = mapFile fs (base @ ''.db''); kwi = mapFile fs (base @ ''.kwi'')
      in do {
        n \<leftarrow> header_count db;
        m \<leftarrow> header_count kwi;
        Some \<lparr>databaseFile = db, keywordIndexFile = kwi, numReviews = n, numKeywords = m\<rparr>
      })"

definition good :: "amazon \<Rightarrow> bool" where
  "good a \<longleftrightarrow> databaseFile a \<noteq> None \<and> keywordIndexFile a \<noteq> None"

section \<open>getReview\<close>

text \<open>\<open>4 * index\<close> is computed in 32 bits. \<open>Some None\<close> is \<open>return false\<close>.\<close>

definition review_at :: "byte list \<Rightarrow> nat \<Rightarrow> nat \<Rightarrow> review option" where
  "review_at file i p = do {
     (title, p) \<leftarrow> readCString file p;
     (category, p) \<leftarrow> readCString file p;
     rating \<leftarrow> read_byte file p;
     (headline, p) \<leftarrow> readCString file (p + 1);
     (body, p) \<leftarrow> readCString file p;
     year \<leftarrow> readU16 file (even_up p);
     month \<leftarrow> read_byte file (even_up p + 2);
     day \<leftarrow> read_byte file (even_up p + 3);
     Some \<lparr>index = i, product_title = title, product_category = category, star_rating = rating,
       review_headline = headline, review_body = body, review_year = year, review_month = month, review_day = day\<rparr>
   }"

definition getReview :: "amazon \<Rightarrow> nat \<Rightarrow> review option option" where
  "getReview a i = (case databaseFile a of
       None \<Rightarrow> Some None
     | Some file \<Rightarrow>
         if i \<ge> numReviews a then Some None
         else do {
           offset \<leftarrow> readU32 file (4 + (4 * i) mod 2 ^ 32);
           r \<leftarrow> review_at file i offset;
           Some (Some r)
         })"

fun get_reviews :: "amazon \<Rightarrow> int list \<Rightarrow> review list option" where
  "get_reviews a [] = Some []"
| "get_reviews a (idx # is) = do {
     r \<leftarrow> getReview a (nat (idx mod 2 ^ 32));
     rs \<leftarrow> get_reviews a is;
     Some (case r of None \<Rightarrow> rs | Some r \<Rightarrow> r # rs)
   }"

definition getSortedReviewsFromIndexes ::
  "((review \<Rightarrow> review \<Rightarrow> bool) \<Rightarrow> review list \<Rightarrow> review list) \<Rightarrow> amazon \<Rightarrow> int list \<Rightarrow>
   (review \<Rightarrow> review \<Rightarrow> bool) \<Rightarrow> review list option" where
  "getSortedReviewsFromIndexes std_sort a is cmp = map_option (std_sort cmp) (get_reviews a is)"

section \<open>Keyword look-up\<close>

text \<open>
  \<open>std::lower_bound\<close> on \<open>len\<close> positions from \<open>first\<close> on; \<open>before i\<close> is the comparator on position \<open>i\<close>,
  \<^term>\<open>None\<close> when it reads outside the file.
\<close>

function lower_bound :: "(nat \<Rightarrow> bool option) \<Rightarrow> nat \<Rightarrow> nat \<Rightarrow> nat option" where
  "lower_bound before first len =
     (if len = 0 then Some first
      else
        (let half = len div 2
         in case before (first + half) of
              None \<Rightarrow> None
            | Some True \<Rightarrow> lower_bound before (first + half + 1) (len - half - 1)
            | Some False \<Rightarrow> lower_bound before first half))"
  by pat_completeness auto
termination by (relation "measure (\<lambda>(before, first, len). len)") auto

declare lower_bound.simps [simp del]

record occurrence =
  reviewIndex :: nat
  field :: nat
  wordOffset :: nat

definition decode_occ :: "nat \<Rightarrow> nat \<Rightarrow> occurrence" where
  "decode_occ review loc = \<lparr>reviewIndex = review, field = drop_bit 24 loc mod 256, wordOffset = loc AND 0x00FFFFFF\<rparr>"

fun read_occs :: "byte list \<Rightarrow> nat \<Rightarrow> nat \<Rightarrow> occurrence list option" where
  "read_occs file p 0 = Some []"
| "read_occs file p (Suc n) = do {
     review \<leftarrow> readU32 file p;
     loc \<leftarrow> readU32 file (p + 4);
     os \<leftarrow> read_occs file (p + 8) n;
     Some (decode_occ review loc # os)
   }"

text \<open>The C string of a \<open>std::string\<close> ends at its first NUL; \<open>strcmp\<close> compares unsigned bytes.\<close>

definition c_str :: "string \<Rightarrow> string" where
  "c_str s = takeWhile (\<lambda>c. c \<noteq> CHR 0x00) s"

definition keyword_before :: "byte list \<Rightarrow> string \<Rightarrow> nat \<Rightarrow> bool option" where
  "keyword_before file w i = do {
     off \<leftarrow> readU32 file (4 + 4 * i);
     (k, _) \<leftarrow> readCString file off;
     Some (k < c_str w)
   }"

definition findKeyword :: "amazon \<Rightarrow> string \<Rightarrow> occurrence list option option" where
  "findKeyword a w = (case keywordIndexFile a of
       None \<Rightarrow> Some None
     | Some file \<Rightarrow> do {
         it \<leftarrow> lower_bound (keyword_before file w) 0 (numKeywords a);
         if it = numKeywords a then Some None
         else do {
           off \<leftarrow> readU32 file (4 + 4 * it);
           (k, p) \<leftarrow> readCString file off;
           if k \<noteq> c_str w then Some None
           else do {
             count \<leftarrow> readU32 file (even_up p);
             occ \<leftarrow> read_occs file (even_up p + 4) count;
             Some (Some occ)
           }
         }
       })"

section \<open>Queries\<close>

definition splitWords :: "string \<Rightarrow> string list" where
  "splitWords s = words_loop [] s"

text \<open>The loop of \<open>convertQuery\<close> on the rest of the query; \<open>phrase\<close> cuts at the closing quote.\<close>

definition quote :: char where
  "quote = CHR 0x22"

function query_loop :: "string \<Rightarrow> string list list" where
  "query_loop [] = []"
| "query_loop (c # cs) =
     (if isspace c then query_loop cs
      else if c = quote then
        (let phrase = takeWhile (\<lambda>x. x \<noteq> quote) cs; words = splitWords phrase
         in (if words = [] then [] else [words]) @ query_loop (drop (length phrase + 1) cs))
      else
        (let plain = takeWhile (\<lambda>x. \<not> isspace x \<and> x \<noteq> quote) (c # cs)
         in map (\<lambda>w. [w]) (splitWords plain) @ query_loop (drop (length plain) (c # cs))))"
  by pat_completeness auto
termination by (relation "measure length") auto

definition convertQuery :: "string \<Rightarrow> string list list" where
  "convertQuery query = query_loop query"

section \<open>Search\<close>

definition to_int32 :: "nat \<Rightarrow> int" where
  "to_int32 n = signed_take_bit 31 (int n)"

definition as_set :: "'a::linorder list \<Rightarrow> 'a list" where
  "as_set xs = sort (remdups xs)"

type_synonym pos = "nat \<times> nat \<times> nat"

text \<open>The functions below call \<open>findKeyword\<close> of the object, passed as \<open>look\<close>.\<close>

type_synonym finder = "string \<Rightarrow> occurrence list option option"

definition occ_pos :: "occurrence \<Rightarrow> pos" where
  "occ_pos x = (reviewIndex x, field x, wordOffset x)"

text \<open>The positions of a phrase's words, \<open>Some None\<close> when one of them is not in the index.\<close>

fun phrase_positions :: "finder \<Rightarrow> string list \<Rightarrow> pos list list option option" where
  "phrase_positions look [] = Some (Some [])"
| "phrase_positions look (w # ws) = do {
     r \<leftarrow> look w;
     case r of
       None \<Rightarrow> Some None
     | Some occ \<Rightarrow> do {
         rest \<leftarrow> phrase_positions look ws;
         Some (map_option (\<lambda>ps. as_set (map occ_pos occ) # ps) rest)
       }
   }"

text \<open>\<open>offset + k\<close> is 32-bit.\<close>

definition anchored :: "pos list list \<Rightarrow> pos \<Rightarrow> bool" where
  "anchored positions anchor = (case anchor of (review, fld, off) \<Rightarrow>
     list_all (\<lambda>k. (review, fld, (off + k) mod 2 ^ 32) \<in> set (positions ! k)) [1..<length positions])"

definition term_matches :: "finder \<Rightarrow> string list \<Rightarrow> int list option" where
  "term_matches look term =
     (if length term = 1 then do {
        r \<leftarrow> look (hd term);
        Some (case r of None \<Rightarrow> [] | Some occ \<Rightarrow> as_set (map (\<lambda>x. to_int32 (reviewIndex x)) occ))
      }
      else do {
        r \<leftarrow> phrase_positions look term;
        Some (case r of None \<Rightarrow> []
          | Some positions \<Rightarrow> as_set (map (\<lambda>p. to_int32 (fst p)) (filter (anchored positions) (hd positions))))
      })"

text \<open>The loop over the terms; \<^term>\<open>None\<close> in \<open>result\<close> is \<open>first\<close>, before any term.\<close>

fun search_loop :: "finder \<Rightarrow> string list list \<Rightarrow> int list option \<Rightarrow> int list option" where
  "search_loop look [] result = Some (case result of None \<Rightarrow> [] | Some r \<Rightarrow> r)"
| "search_loop look (t # ts) result = do {
     matches \<leftarrow> term_matches look t;
     let r = (case result of None \<Rightarrow> matches | Some old \<Rightarrow> filter (\<lambda>x. x \<in> set matches) old);
     if r = [] then Some [] else search_loop look ts (Some r)
   }"

definition searchKeywordIndex :: "amazon \<Rightarrow> string \<Rightarrow> int list option" where
  "searchKeywordIndex a query =
     (let terms = convertQuery query in if terms = [] then Some [] else search_loop (findKeyword a) terms None)"

section \<open>The search program\<close>

definition date_before :: "review \<Rightarrow> review \<Rightarrow> bool" where
  "date_before x y =
     (if review_year x \<noteq> review_year y then review_year x < review_year y
      else if review_month x \<noteq> review_month y then review_month x < review_month y
      else review_day x < review_day y)"

definition comparator :: "string \<Rightarrow> bool \<Rightarrow> review \<Rightarrow> review \<Rightarrow> bool" where
  "comparator key reversed =
     (let base = (if key = ''stars'' then (\<lambda>x y. star_rating x < star_rating y)
                  else if key = ''bodysize'' then (\<lambda>x y. length (review_body x) < length (review_body y))
                  else if key = ''title'' then (\<lambda>x y. product_title x < product_title y)
                  else date_before)
      in if reversed then (\<lambda>x y. base y x) else base)"

text \<open>The count that is printed and the reviews shown; a negative \<open>limit\<close> shows all.\<close>

definition search_main ::
  "((review \<Rightarrow> review \<Rightarrow> bool) \<Rightarrow> review list \<Rightarrow> review list) \<Rightarrow> amazon \<Rightarrow> string \<Rightarrow> string \<Rightarrow> bool \<Rightarrow> int \<Rightarrow>
   (nat \<times> review list) option" where
  "search_main std_sort a query key reversed limit = do {
     indexes \<leftarrow> searchKeywordIndex a query;
     reviews \<leftarrow> getSortedReviewsFromIndexes std_sort a indexes (comparator key reversed);
     Some (length indexes, if limit \<ge> 0 then take (nat limit) reviews else reviews)
   }"

end
