(* ===== verification/Amazon_Layout.thy ===== *)
theory Amazon_Layout
  imports Amazon
begin

text \<open>
  The byte layout shared by writer and reader. \<open>at file p bs\<close> is a cursor: the bytes \<open>bs\<close> are what is
  left of \<open>file\<close> from position \<open>p\<close> on; each reader consumes what the matching writer appended.
  \<open>layout\<close> is the loop that both files are written with: records behind a table of their offsets.
\<close>

section \<open>Cursors\<close>

named_theorems cursor \<open>a reader at what its writer appended\<close>

definition at :: "byte list \<Rightarrow> nat \<Rightarrow> byte list \<Rightarrow> bool" where
  "at file p bs \<longleftrightarrow> p \<le> length file \<and> drop p file = bs"

definition nul_free :: "string \<Rightarrow> bool" where
  "nul_free s \<longleftrightarrow> CHR 0x00 \<notin> set s"

lemma at_append: "at file p (xs @ ys) \<Longrightarrow> at file (p + length xs) ys"
  by (auto simp: at_def) (metis append_eq_conv_conj drop_drop length_append length_drop le_add_diff_inverse add.commute
      add_le_cancel_right le_add1 add.left_commute, metis append_eq_conv_conj drop_drop add.commute)

lemma at_length: "at file p bs \<Longrightarrow> length file = p + length bs"
  by (auto simp: at_def)

lemma at_start: "at (pre @ bs) (length pre) bs"
  by (simp add: at_def)

lemma at_u32 [cursor]:
  assumes "at file p (appendU32 v @ rest)"
  shows "readU32 file p = Some (v mod 2 ^ 32)" and "at file (p + 4) rest"
proof -
  have "take 4 (drop p file) = le_bytes 4 v" using assms by (simp add: at_def appendU32_def)
  moreover have "p + 4 \<le> length file" using at_length [OF assms] by (simp add: appendU32_def)
  ultimately show "readU32 file p = Some (v mod 2 ^ 32)" by (simp add: readU32_def le_nat_le_bytes)
  show "at file (p + 4) rest" using at_append [OF assms] by (simp add: appendU32_def)
qed

lemma at_u16 [cursor]:
  assumes "at file p (appendU16 v @ rest)"
  shows "readU16 file p = Some (nat (v mod 2 ^ 16))" and "at file (p + 2) rest"
proof -
  have "take 2 (drop p file) = le_bytes 2 (nat (v mod 2 ^ 16))" using assms by (simp add: at_def appendU16_def)
  moreover have "p + 2 \<le> length file" using at_length [OF assms] by (simp add: appendU16_def)
  moreover have "nat (v mod 2 ^ 16) < 256 ^ 2" using pos_mod_bound [of "2 ^ 16 :: int" v] by simp
  ultimately show "readU16 file p = Some (nat (v mod 2 ^ 16))"
    by (simp add: readU16_def le_nat_le_bytes)
  show "at file (p + 2) rest" using at_append [OF assms] by (simp add: appendU16_def)
qed

lemma at_byte [cursor]:
  assumes "at file p (b # rest)"
  shows "read_byte file p = Some (unat b)" and "at file (p + 1) rest"
proof -
  have "p < length file" using at_length [OF assms] by simp
  moreover from this have "file ! p = b" using assms by (metis at_def nth_via_drop)
  ultimately show "read_byte file p = Some (unat b)" by (simp add: read_byte_def)
  show "at file (p + 1) rest" using at_append [of "file" p "[b]" rest] assms by simp
qed

lemma nul_free_bytes: "nul_free s \<Longrightarrow> b \<in> set (bytes_of_string s) \<Longrightarrow> b \<noteq> 0"
proof -
  assume "nul_free s" "b \<in> set (bytes_of_string s)"
  then obtain c where c: "c \<in> set s" "b = word_of_nat (of_char c)" by (auto simp: bytes_of_string_def)
  show "b \<noteq> 0"
  proof
    assume "b = 0"
    then have "char_of (unat b) = CHR 0x00" by (simp add: char_of_def)
    moreover have "char_of (unat b) = c" using c(2) by (simp only: char_of_byte)
    ultimately show False using c(1) \<open>nul_free s\<close> by (simp add: nul_free_def)
  qed
qed

lemma at_cstring [cursor]:
  assumes "at file p (cstr s @ rest)" and "nul_free s"
  shows "readCString file p = Some (s, p + length s + 1)" and "at file (p + length s + 1) rest"
proof -
  have "takeWhile (\<lambda>b. b \<noteq> 0) (drop p file) = bytes_of_string s"
    using assms nul_free_bytes [OF assms(2)] by (simp add: at_def cstr_def takeWhile_append2)
  moreover have "p + length s < length file" using at_length [OF assms(1)] by (simp add: cstr_def)
  ultimately show "readCString file p = Some (s, p + length s + 1)" by (simp add: readCString_def)
  show "at file (p + length s + 1) rest" using at_append [OF assms(1)] by (simp add: cstr_def)
qed

lemma at_pad [cursor]: "at file p (pad_even p @ rest) \<Longrightarrow> at file (even_up p) rest"
  using at_append [of "file" p "pad_even p" rest] by (auto simp: pad_even_def even_up_def split: if_splits)

lemma length_cstr [simp]: "length (cstr s) = length s + 1"
  by (simp add: cstr_def)

lemma length_appendU [simp]: "length (appendU32 v) = 4" "length (appendU16 i) = 2"
  by (simp_all add: appendU32_def appendU16_def)

section \<open>Records behind an offset table\<close>

fun layout :: "(nat \<Rightarrow> 'a \<Rightarrow> byte list) \<Rightarrow> nat \<Rightarrow> 'a list \<Rightarrow> nat list \<times> byte list" where
  "layout f cur [] = ([], [])"
| "layout f cur (x # xs) =
     (let b = f cur x; (offsets, blob) = layout f (cur + length b) xs in (cur # offsets, b @ blob))"

definition table_file :: "(nat \<Rightarrow> 'a \<Rightarrow> byte list) \<Rightarrow> 'a list \<Rightarrow> byte list" where
  "table_file f xs = (let (offsets, blob) = layout f (4 + 4 * length xs) xs
     in appendU32 (length xs) @ concat (map appendU32 offsets) @ blob)"

lemma db_loop_layout: "db_loop cur rs = layout rec_bytes cur rs"
  by (induction rs arbitrary: cur) (simp_all add: Let_def)

lemma kwi_loop_layout: "kwi_loop cur kw = layout entry_bytes cur kw"
  by (induction kw arbitrary: cur) (simp_all add: Let_def)

lemma build_db_table: "build_db recs = table_file rec_bytes recs"
  by (simp add: build_db_def table_file_def db_loop_layout)

lemma kwi_file_table: "kwi_file kw = table_file entry_bytes kw"
  by (simp add: kwi_file_def table_file_def kwi_loop_layout)

lemma layout_length: "length (fst (layout f cur xs)) = length xs"
proof (induction xs arbitrary: cur)
  case (Cons x xs)
  then show ?case using Cons [of "cur + length (f cur x)"]
    by (cases "layout f (cur + length (f cur x)) xs") (simp add: Let_def)
qed simp

lemma layout_nth:
  "i < length xs \<Longrightarrow> \<exists>pre post. snd (layout f cur xs) = pre @ f (fst (layout f cur xs) ! i) (xs ! i) @ post \<and>
     fst (layout f cur xs) ! i = cur + length pre"
proof (induction xs arbitrary: cur i)
  case (Cons x xs)
  obtain offsets blob where l: "layout f (cur + length (f cur x)) xs = (offsets, blob)"
    by (cases "layout f (cur + length (f cur x)) xs")
  show ?case
  proof (cases i)
    case 0
    then show ?thesis using l by (auto simp: Let_def intro!: exI [of _ "[]"])
  next
    case (Suc j)
    obtain pre post where "blob = pre @ f (offsets ! j) (xs ! j) @ post" "offsets ! j = cur + length (f cur x) + length pre"
      using Cons.IH [of j "cur + length (f cur x)"] Cons.prems Suc l by auto
    then show ?thesis using Suc l
      by (intro exI [of _ "f cur x @ pre"] exI [of _ post]) (simp add: Let_def add.assoc)
  qed
qed simp

lemma concat_table_drop: "i < length os \<Longrightarrow>
  concat (map appendU32 os) = concat (map appendU32 (take i os)) @ appendU32 (os ! i) @ concat (map appendU32 (drop (Suc i) os))"
  by (metis append.assoc append_Cons append_Nil concat.simps(2) concat_append id_take_nth_drop list.simps(9) map_append)

lemma length_concat_table: "length (concat (map appendU32 os)) = 4 * length os"
  by (induction os) simp_all

text \<open>Entry \<open>i\<close> of a table file that fits 32-bit offsets: its table slot and the record it points to.\<close>

lemma table_file_entry:
  assumes "i < length xs" and "length (table_file f xs) < 2 ^ 32"
  shows "\<exists>off rest. readU32 (table_file f xs) (4 + 4 * i) = Some off \<and> at (table_file f xs) off (f off (xs ! i) @ rest)"
proof -
  let ?F = "table_file f xs"
  obtain os blob where l: "layout f (4 + 4 * length xs) xs = (os, blob)" by (cases "layout f (4 + 4 * length xs) xs")
  have F: "?F = appendU32 (length xs) @ concat (map appendU32 os) @ blob" by (simp add: table_file_def l)
  have len: "length os = length xs" using layout_length [of f "4 + 4 * length xs" xs] l by simp
  obtain pre post where blob: "blob = pre @ f (os ! i) (xs ! i) @ post" and off: "os ! i = 4 + 4 * length xs + length pre"
    using layout_nth [OF assms(1), of f "4 + 4 * length xs"] l by auto
  let ?pre = "appendU32 (length xs) @ concat (map appendU32 os) @ pre"
  have "length ?pre = os ! i" using off len by (simp add: length_concat_table)
  moreover have "?F = ?pre @ f (os ! i) (xs ! i) @ post" by (simp add: F blob)
  ultimately have rec: "at ?F (os ! i) (f (os ! i) (xs ! i) @ post)" by (metis at_start)
  have "os ! i < 2 ^ 32" using at_length [OF rec] assms(2) by simp
  let ?h = "appendU32 (length xs) @ concat (map appendU32 (take i os))"
  have "?F = ?h @ appendU32 (os ! i) @ concat (map appendU32 (drop (Suc i) os)) @ blob"
    using concat_table_drop [of i os] assms(1) len by (simp add: F)
  moreover have "length ?h = 4 + 4 * i" using assms(1) len by (simp add: length_concat_table)
  ultimately have "at ?F (4 + 4 * i) (appendU32 (os ! i) @ concat (map appendU32 (drop (Suc i) os)) @ blob)"
    by (metis at_start)
  then have "readU32 ?F (4 + 4 * i) = Some (os ! i)" using at_u32(1) \<open>os ! i < 2 ^ 32\<close> by simp
  with rec show ?thesis by blast
qed

lemma table_file_header:
  assumes "length (table_file f xs) < 2 ^ 32"
  shows "readU32 (table_file f xs) 0 = Some (length xs)" and "table_file f xs \<noteq> []"
    and "4 + 4 * length xs \<le> length (table_file f xs)"
proof -
  obtain os blob where l: "layout f (4 + 4 * length xs) xs = (os, blob)" by (cases "layout f (4 + 4 * length xs) xs")
  have F: "table_file f xs = appendU32 (length xs) @ concat (map appendU32 os) @ blob" by (simp add: table_file_def l)
  have "length os = length xs" using layout_length [of f "4 + 4 * length xs" xs] l by simp
  then show big: "4 + 4 * length xs \<le> length (table_file f xs)" by (simp add: F length_concat_table)
  then have "length xs mod 2 ^ 32 = length xs" using assms by simp
  then show "readU32 (table_file f xs) 0 = Some (length xs)"
    using at_u32(1) [of "table_file f xs" 0 "length xs"] by (simp add: F at_def)
  show "table_file f xs \<noteq> []" using big by auto
qed

end
