(* ===== verification/Amazon_Db.thy ===== *)
theory Amazon_Db
  imports Amazon_Layout
begin

text \<open>
  The database file: every record written by \<open>mkamazondb\<close> is read back by \<open>getReview\<close>, and the TSV form
  of a record is read back by the builder.
\<close>

section \<open>Round trip of a review\<close>

definition rec_ok :: "rec \<Rightarrow> bool" where
  "rec_ok r \<longleftrightarrow> nul_free (r_title r) \<and> nul_free (r_category r) \<and> nul_free (r_headline r) \<and> nul_free (r_body r)"

text \<open>What comes back: the numbers as the bytes and the 16-bit year hold them.\<close>

definition review_of :: "nat \<Rightarrow> rec \<Rightarrow> review" where
  "review_of i r = \<lparr>index = i, product_title = r_title r, product_category = r_category r,
     star_rating = nat (r_rating r mod 256), review_headline = r_headline r, review_body = r_body r,
     review_year = nat (r_year r mod 65536), review_month = nat (r_month r mod 256), review_day = nat (r_day r mod 256)\<rparr>"

lemma unat_byte_int: "unat (word_of_int v :: byte) = nat (v mod 256)"
  by (simp add: unat_eq_nat_uint uint_word_of_int)

lemma review_at_rec:
  assumes "at file p (rec_bytes p r @ rest)" and "rec_ok r"
  shows "review_at file i p = Some (review_of i r)"
proof -
  have ok: "nul_free (r_title r)" "nul_free (r_category r)" "nul_free (r_headline r)" "nul_free (r_body r)"
    using assms(2) by (simp_all add: rec_ok_def)
  let ?p1 = "p + length (r_title r) + 1"
  let ?p2 = "?p1 + length (r_category r) + 1"
  let ?p3 = "?p2 + 1 + length (r_headline r) + 1"
  let ?p4 = "?p3 + length (r_body r) + 1"
  let ?t = "appendU16 (r_year r) @ word_of_int (r_month r) # word_of_int (r_day r) # rest"
  let ?b = "cstr (r_title r) @ cstr (r_category r) @ [word_of_int (r_rating r)] @ cstr (r_headline r) @ cstr (r_body r)"
  have len: "p + length ?b = ?p4" by simp
  have 0: "at file p (cstr (r_title r) @ cstr (r_category r) @ word_of_int (r_rating r) #
      cstr (r_headline r) @ cstr (r_body r) @ pad_even ?p4 @ ?t)"
    using assms(1) unfolding rec_bytes_def Let_def len by (simp only: append_assoc append_Cons append_Nil)
  note 1 = at_cstring [OF 0 ok(1)]
  note 2 = at_cstring [OF 1(2) ok(2)]
  note 3 = at_byte [OF 2(2)]
  note 4 = at_cstring [OF 3(2) ok(3)]
  note 5 = at_cstring [OF 4(2) ok(4)]
  note 6 = at_u16 [OF at_pad [OF 5(2)]]
  note 7 = at_byte [OF 6(2)]
  note 8 = at_byte [OF 7(2)]
  show ?thesis
    unfolding review_at_def using 1(1) 2(1) 3(1) 4(1) 5(1) 6(1) 7(1) 8(1)
    by (simp add: review_of_def unat_byte_int eval_nat_numeral)
qed

lemma header_count_table: "length (table_file f xs) < 2 ^ 32 \<Longrightarrow> header_count (Some (table_file f xs)) = Some (length xs)"
  by (simp add: header_count_def table_file_header)

definition opened :: "rec list \<Rightarrow> amazon" where
  "opened recs = \<lparr>databaseFile = Some (build_db recs), keywordIndexFile = Some (build_kwi recs),
     numReviews = length recs, numKeywords = length (push_recs 0 recs [])\<rparr>"

definition fits :: "rec list \<Rightarrow> bool" where
  "fits recs \<longleftrightarrow> length (build_db recs) < 2 ^ 32 \<and> length (build_kwi recs) < 2 ^ 32"

lemma open_built:
  assumes "fits recs" and "mkamazondb tsv dir prefix = Some fs" and "read_tsv tsv = Some (recs, bad)" and "dir \<noteq> []"
  shows "open_amazon fs dir prefix = Some (opened recs)"
proof -
  let ?base = "dir @ ''/'' @ prefix"
  have fs: "fs = [?base @ ''.db'' \<mapsto> build_db recs, ?base @ ''.kwi'' \<mapsto> build_kwi recs]"
    using assms(2,3) by (simp add: mkamazondb_def)
  have ne: "build_db recs \<noteq> []" "build_kwi recs \<noteq> []"
    and h: "header_count (Some (build_db recs)) = Some (length recs)"
      "header_count (Some (build_kwi recs)) = Some (length (push_recs 0 recs []))"
    using assms(1) table_file_header header_count_table
    by (auto simp: fits_def build_db_table build_kwi_def kwi_file_table)
  have "mapFile fs (?base @ ''.db'') = Some (build_db recs)" "mapFile fs (?base @ ''.kwi'') = Some (build_kwi recs)"
    using ne by (simp_all add: fs mapFile_def)
  with h assms(4) show ?thesis by (simp add: open_amazon_def opened_def Let_def)
qed

lemma getReview_opened:
  assumes "fits recs" and "\<forall>r \<in> set recs. rec_ok r"
  shows "getReview (opened recs) i = Some (if i < length recs then Some (review_of i (recs ! i)) else None)"
proof (cases "i < length recs")
  case True
  have len: "length (table_file rec_bytes recs) < 2 ^ 32" using assms(1) by (simp add: fits_def build_db_table)
  then have "(4 * i) mod 2 ^ 32 = 4 * i" using table_file_header(3) [OF len] True by simp
  moreover obtain off rest where "readU32 (build_db recs) (4 + 4 * i) = Some off"
    "at (build_db recs) off (rec_bytes off (recs ! i) @ rest)"
    using table_file_entry [OF True len] by (auto simp: build_db_table)
  ultimately show ?thesis
    using True assms(2) review_at_rec [of "build_db recs" off "recs ! i" rest i]
    by (simp add: getReview_def opened_def)
next
  case False
  then show ?thesis by (simp add: getReview_def opened_def)
qed

section \<open>The TSV form\<close>

definition tsv_line :: "rec \<Rightarrow> string" where
  "tsv_line r = r_title r @ CHR 0x09 # r_category r @ CHR 0x09 # show_int (r_rating r) @ CHR 0x09 # r_headline r @ CHR 0x09 #
     r_body r @ CHR 0x09 # show_int (r_year r) @ CHR 0x09 # show_int (r_month r) @ CHR 0x09 # show_int (r_day r)"

definition tsv_text :: "rec list \<Rightarrow> string" where
  "tsv_text recs = concat (map (\<lambda>r. tsv_line r @ [CHR 0x0A]) recs)"

definition plain_field :: "string \<Rightarrow> bool" where
  "plain_field s \<longleftrightarrow> CHR 0x09 \<notin> set s \<and> CHR 0x0A \<notin> set s"

definition int32 :: "int \<Rightarrow> bool" where
  "int32 v \<longleftrightarrow> - (2 ^ 31) \<le> v \<and> v < 2 ^ 31"

definition tsv_ok :: "rec \<Rightarrow> bool" where
  "tsv_ok r \<longleftrightarrow> plain_field (r_title r) \<and> plain_field (r_category r) \<and> plain_field (r_headline r) \<and> plain_field (r_body r) \<and>
     int32 (r_rating r) \<and> int32 (r_year r) \<and> int32 (r_month r) \<and> int32 (r_day r)"

lemma show_int_plain: "char_code d < 45 \<Longrightarrow> d \<notin> set (show_int v)"
  using show_int_chars [of d v] by (auto simp: isdigit_def char_code_def)

lemma stoi_show_int: "int32 v \<Longrightarrow> stoi (show_int v) = Some v"
proof -
  assume v: "int32 v"
  have tw: "takeWhile isdigit (show_nat n) = show_nat n" for n
    using show_nat_digits by (simp add: takeWhile_eq_all_conv)
  show "stoi (show_int v) = Some v"
  proof (cases "v < 0")
    case True
    have "\<not> isspace CHR ''-''" by (simp add: isspace_def char_code_def)
    with True v show ?thesis
      by (simp add: stoi_def show_int_def strtol_def scan_dec_def scan_sign_def tw int32_def)
  next
    case False
    have "scan_sign (dropWhile isspace (show_nat (nat v))) = (False, show_nat (nat v))"
    proof (cases "show_nat (nat v)")
      case (Cons c cs)
      then have "isdigit c" using show_nat_digits [of c "nat v"] by simp
      then have "\<not> isspace c" and "c \<noteq> CHR ''-''" and "c \<noteq> CHR ''+''"
        by (auto simp: isdigit_not_space) (auto simp: isdigit_def char_code_def)
      with Cons show ?thesis by (simp add: scan_sign_def)
    qed simp
    with False v show ?thesis
      by (simp add: stoi_def show_int_def strtol_def scan_dec_def tw int32_def)
  qed
qed

lemma tsv_line_cells:
  assumes "tsv_ok r"
  shows "getlines CHR 0x09 (tsv_line r) = [r_title r, r_category r, show_int (r_rating r), r_headline r, r_body r,
    show_int (r_year r), show_int (r_month r), show_int (r_day r)]"
proof -
  have "CHR 0x09 \<notin> set (show_int v)" for v by (rule show_int_plain) (simp add: char_code_def)
  with assms show ?thesis
    by (simp add: tsv_line_def tsv_ok_def plain_field_def getlines_append getlines_unterminated show_int_nonempty)
qed

lemma tsv_line_strip: "strip_cr (tsv_line r) = tsv_line r" and tsv_line_nonempty: "tsv_line r \<noteq> []"
proof -
  have "last (tsv_line r) = last (show_int (r_day r))" by (simp add: tsv_line_def show_int_nonempty)
  moreover have "last (show_int (r_day r)) \<noteq> CHR 0x0D"
    using show_int_plain [of "CHR 0x0D" "r_day r"] last_in_set [OF show_int_nonempty, of "r_day r"]
    by (auto simp: char_code_def)
  ultimately show "strip_cr (tsv_line r) = tsv_line r" by (simp add: strip_cr_def)
  show "tsv_line r \<noteq> []" by (simp add: tsv_line_def)
qed

lemma tsv_lines_text: "\<forall>r \<in> set recs. tsv_ok r \<Longrightarrow> tsv_lines (map tsv_line recs) = Some (recs, 0)"
proof (induction recs)
  case (Cons r recs)
  then have "tsv_rec [r_title r, r_category r, show_int (r_rating r), r_headline r, r_body r,
      show_int (r_year r), show_int (r_month r), show_int (r_day r)] = Some r"
    by (simp add: tsv_rec_def tsv_ok_def stoi_show_int)
  with Cons show ?case by (simp add: tsv_line_strip tsv_line_nonempty tsv_line_cells Let_def)
qed simp

lemma tsv_line_no_newline: "tsv_ok r \<Longrightarrow> CHR 0x0A \<notin> set (tsv_line r)"
proof -
  have "CHR 0x0A \<notin> set (show_int v)" for v by (rule show_int_plain) (simp add: char_code_def)
  then show "tsv_ok r \<Longrightarrow> CHR 0x0A \<notin> set (tsv_line r)" by (simp add: tsv_line_def tsv_ok_def plain_field_def)
qed

lemma read_tsv_text:
  assumes "\<forall>r \<in> set recs. tsv_ok r"
  shows "read_tsv (tsv_text recs) = Some (recs, 0)"
proof -
  have "getlines CHR 0x0A (tsv_text recs) = map tsv_line recs"
    using getlines_concat [of "map tsv_line recs" "CHR 0x0A" "[]"] assms
    by (simp add: tsv_text_def tsv_line_no_newline o_def)
  with tsv_lines_text [OF assms] show ?thesis by (simp add: read_tsv_def)
qed

section \<open>Properties\<close>

text \<open>
  C7: the database round trip, from the TSV text to the review: building from the tab-separated form of
  any records and opening the two files gives an object whose \<open>getReview\<close> returns every record's strings
  and numbers under its index, and refuses every index from the number of records on; no read leaves the
  files. (Fields without tab, newline and NUL, numbers that fit their bytes, files below 4 GB.)
\<close>
theorem database_roundtrip:
  assumes "\<forall>r \<in> set recs. tsv_ok r \<and> rec_ok r \<and> r_rating r \<in> {0..255} \<and> r_year r \<in> {0..65535} \<and>
      r_month r \<in> {0..255} \<and> r_day r \<in> {0..255}"
    and "fits recs" and "dir \<noteq> []"
  shows "\<exists>fs a. mkamazondb (tsv_text recs) dir prefix = Some fs \<and> open_amazon fs dir prefix = Some a \<and> good a \<and>
    numReviews a = length recs \<and>
    (\<forall>i. getReview a i = Some (if i < length recs
       then Some \<lparr>index = i, product_title = r_title (recs ! i), product_category = r_category (recs ! i),
         star_rating = nat (r_rating (recs ! i)), review_headline = r_headline (recs ! i), review_body = r_body (recs ! i),
         review_year = nat (r_year (recs ! i)), review_month = nat (r_month (recs ! i)), review_day = nat (r_day (recs ! i))\<rparr>
       else None))"
proof -
  have tsv: "read_tsv (tsv_text recs) = Some (recs, 0)" by (rule read_tsv_text) (use assms(1) in blast)
  then obtain fs where fs: "mkamazondb (tsv_text recs) dir prefix = Some fs" by (simp add: mkamazondb_def)
  note a = open_built [OF assms(2) fs tsv assms(3)]
  have get: "getReview (opened recs) i = Some (if i < length recs then Some (review_of i (recs ! i)) else None)" for i
    by (rule getReview_opened [OF assms(2)]) (use assms(1) in blast)
  have "i < length recs \<Longrightarrow> review_of i (recs ! i) =
      \<lparr>index = i, product_title = r_title (recs ! i), product_category = r_category (recs ! i),
         star_rating = nat (r_rating (recs ! i)), review_headline = r_headline (recs ! i), review_body = r_body (recs ! i),
         review_year = nat (r_year (recs ! i)), review_month = nat (r_month (recs ! i)), review_day = nat (r_day (recs ! i))\<rparr>" for i
  proof -
    assume "i < length recs"
    then have "recs ! i \<in> set recs" by simp
    with assms(1) have "r_rating (recs ! i) \<in> {0..255}" "r_year (recs ! i) \<in> {0..65535}"
      "r_month (recs ! i) \<in> {0..255}" "r_day (recs ! i) \<in> {0..255}" by blast+
    then show ?thesis by (simp add: review_of_def)
  qed
  with fs a get show ?thesis
    by (intro exI [of _ fs] exI [of _ "opened recs"]) (simp add: opened_def good_def)
qed

definition example_recs :: "rec list" where
  "example_recs = [\<lparr>r_title = ''Red Kettle'', r_category = ''Kitchen'', r_rating = 4, r_headline = ''Boils fast'',
       r_body = ''A red kettle that boils very fast.'', r_year = 2014, r_month = 7, r_day = 21\<rparr>,
     \<lparr>r_title = ''Lamp'', r_category = ''Home'', r_rating = 2, r_headline = [], r_body = ''Not red'', r_year = 2015,
       r_month = 1, r_day = 2\<rparr>]"

lemma table_file_bound:
  assumes "\<And>cur x. length (f cur x) \<le> g x"
  shows "length (table_file f xs) \<le> 4 + 4 * length xs + sum_list (map g xs)"
proof -
  have "length (snd (layout f cur xs)) \<le> sum_list (map g xs)" for cur
  proof (induction xs arbitrary: cur)
    case (Cons x xs)
    have "length (snd (layout f cur (x # xs))) = length (f cur x) + length (snd (layout f (cur + length (f cur x)) xs))"
      by (cases "layout f (cur + length (f cur x)) xs") (simp add: Let_def)
    with Cons.IH [of "cur + length (f cur x)"] assms [of cur x] show ?case by simp
  qed simp
  from this [of "4 + 4 * length xs"] show ?thesis
    using layout_length [of f "4 + 4 * length xs" xs]
    by (cases "layout f (4 + 4 * length xs) xs") (simp add: table_file_def length_concat_table)
qed

definition rec_size :: "rec \<Rightarrow> nat" where
  "rec_size r = length (r_title r) + length (r_category r) + length (r_headline r) + length (r_body r) + 10"

definition entry_size :: "string \<times> (nat \<times> nat) list \<Rightarrow> nat" where
  "entry_size e = length (fst e) + 6 + 8 * length (snd e)"

lemma length_occs: "length (concat (map occ_bytes os)) = 8 * length os"
  by (induction os) (simp_all add: occ_bytes_def)

definition kw_size :: "kw_map \<Rightarrow> nat" where
  "kw_size kw = sum_list (map (\<lambda>e. entry_size e + 4) kw)"

lemma kw_push_size: "kw_size (kw_push w x kw) \<le> kw_size kw + length w + 18"
  by (induction kw) (auto simp: kw_size_def entry_size_def)

lemma push_words_size:
  "kw_size (push_words i f off ws kw) \<le> kw_size kw + sum_list (map (\<lambda>w. length w + 18) ws)"
proof (induction ws arbitrary: off kw)
  case (Cons w ws)
  have "kw_size (push_words i f off (w # ws) kw)
      \<le> kw_size (kw_push w (i, location f off) kw) + sum_list (map (\<lambda>w. length w + 18) ws)"
    unfolding push_words.simps by (rule Cons)
  then show ?case using kw_push_size [of w "(i, location f off)" kw] by (simp only: list.map sum_list.Cons)
qed simp

lemma words_loop_size: "sum_list (map (\<lambda>w. length w + 18) (words_loop cur s)) \<le> 19 * (length cur + length s)"
proof (induction s arbitrary: cur)
  case Nil
  then show ?case by (cases cur) simp_all
next
  case (Cons c s)
  then show ?case using Cons [of "cur @ [tolower c]"] Cons [of "[]"] by (cases cur) auto
qed

lemma push_rec_size: "kw_size (push_rec i r kw) \<le> kw_size kw + 19 * rec_size r"
proof -
  let ?p = "\<lambda>f. push_words i f 0 (mk_splitWords (field_text r f))"
  have p: "kw_size (?p f kw) \<le> kw_size kw + 19 * length (field_text r f)" for f kw
    using push_words_size [of i f 0 "mk_splitWords (field_text r f)" kw] words_loop_size [of "[]" "field_text r f"]
    by (simp add: mk_splitWords_def)
  have len: "length (field_text r 0) + length (field_text r 1) + length (field_text r 2) + length (field_text r 3) \<le> rec_size r"
    by (simp add: field_text_def rec_size_def eval_nat_numeral)
  define k0 k1 k2 k3 where k: "k0 = ?p 0 kw" "k1 = ?p 1 k0" "k2 = ?p 2 k1" "k3 = ?p 3 k2"
  have "push_rec i r kw = k3" by (simp add: push_rec_def k)
  moreover have "kw_size k0 \<le> kw_size kw + 19 * length (field_text r 0)" unfolding k by (rule p)
  moreover have "kw_size k1 \<le> kw_size k0 + 19 * length (field_text r 1)" unfolding k(2) by (rule p)
  moreover have "kw_size k2 \<le> kw_size k1 + 19 * length (field_text r 2)" unfolding k(3) by (rule p)
  moreover have "kw_size k3 \<le> kw_size k2 + 19 * length (field_text r 3)" unfolding k(4) by (rule p)
  ultimately show ?thesis using len by simp
qed

lemma push_recs_size: "kw_size (push_recs i recs kw) \<le> kw_size kw + 19 * sum_list (map rec_size recs)"
proof (induction recs arbitrary: i kw)
  case (Cons r recs)
  have "kw_size (push_recs i (r # recs) kw) \<le> kw_size (push_rec i r kw) + 19 * sum_list (map rec_size recs)"
    unfolding push_recs.simps by (rule Cons)
  then show ?case using push_rec_size [of i r kw]
    by (simp only: list.map sum_list.Cons distrib_left)
qed simp

text \<open>A sufficient size: about 220 million characters of review text.\<close>

lemma fitsI:
  assumes "4 + 19 * sum_list (map rec_size recs) < 2 ^ 32"
  shows "fits recs"
proof -
  have "length (rec_bytes cur r) \<le> rec_size r" for cur r
    by (simp add: rec_bytes_def rec_size_def pad_even_def Let_def)
  then have "length (table_file rec_bytes recs) \<le> 4 + 4 * length recs + sum_list (map rec_size recs)"
    by (rule table_file_bound)
  moreover have "4 * length recs \<le> sum_list (map rec_size recs)"
    by (induction recs) (simp_all add: rec_size_def)
  moreover have "length (entry_bytes cur e) \<le> entry_size e" for cur e
    by (simp add: entry_bytes_def entry_size_def pad_even_def Let_def length_occs)
  then have "length (table_file entry_bytes kw) \<le> 4 + 4 * length kw + sum_list (map entry_size kw)" for kw
    by (rule table_file_bound)
  moreover have "4 * length kw + sum_list (map entry_size kw) = kw_size kw" for kw
    by (induction kw) (simp_all add: kw_size_def)
  ultimately have "length (table_file rec_bytes recs) < 2 ^ 32"
    "length (table_file entry_bytes (push_recs 0 recs [])) \<le> 4 + kw_size (push_recs 0 recs [])"
    using assms by (simp, metis add.assoc)
  moreover have "kw_size (push_recs 0 recs []) \<le> 19 * sum_list (map rec_size recs)"
    using push_recs_size [of 0 recs "[]"] by (simp add: kw_size_def)
  ultimately show ?thesis
    using assms unfolding fits_def build_db_table build_kwi_def kwi_file_table by linarith
qed

lemma example_fits: "fits example_recs"
  by (rule fitsI) (simp add: example_recs_def rec_size_def)

lemma example_recs_ok: "\<forall>r \<in> set example_recs. tsv_ok r \<and> rec_ok r \<and> r_rating r \<in> {0..255} \<and> r_year r \<in> {0..65535} \<and>
    r_month r \<in> {0..255} \<and> r_day r \<in> {0..255}"
  by (simp add: example_recs_def tsv_ok_def rec_ok_def plain_field_def nul_free_def int32_def)

lemma database_roundtrip_witness:
  "\<exists>fs a. mkamazondb (tsv_text example_recs) ''data'' ''r'' = Some fs \<and> open_amazon fs ''data'' ''r'' = Some a \<and> good a \<and>
    numReviews a = length example_recs \<and>
    (\<forall>i. getReview a i = Some (if i < length example_recs
       then Some \<lparr>index = i, product_title = r_title (example_recs ! i), product_category = r_category (example_recs ! i),
         star_rating = nat (r_rating (example_recs ! i)), review_headline = r_headline (example_recs ! i),
         review_body = r_body (example_recs ! i), review_year = nat (r_year (example_recs ! i)),
         review_month = nat (r_month (example_recs ! i)), review_day = nat (r_day (example_recs ! i))\<rparr>
       else None))"
  by (rule database_roundtrip [OF example_recs_ok example_fits]) simp

end
