(* ===== verification/Amazon_Kwi.thy ===== *)
theory Amazon_Kwi
  imports Amazon_Db
begin

text \<open>
  The keyword index: the ordered map the builder fills, and \<open>findKeyword\<close>'s binary search over the file
  made of it. \<open>lower_bound\<close> is characterised for any monotone comparator; \<open>find_built\<close> says that looking a
  word up in the file is looking it up in the map.
\<close>

section \<open>The ordered map\<close>

definition kw_sorted :: "kw_map \<Rightarrow> bool" where
  "kw_sorted kw \<longleftrightarrow> sorted_wrt (<) (map fst kw)"

lemma kw_push_keys: "fst ` set (kw_push w x kw) = insert w (fst ` set kw)"
  by (induction w x kw rule: kw_push.induct) (auto split: if_splits)

lemma kw_push_sorted: "kw_sorted kw \<Longrightarrow> kw_sorted (kw_push w x kw)"
proof (induction kw)
  case (Cons e kw)
  obtain k v where e: "e = (k, v)" by (cases e)
  from Cons.prems have k: "\<forall>k' \<in> fst ` set kw. k < k'" and s: "kw_sorted kw" by (auto simp: e kw_sorted_def)
  consider "w < k" | "w = k" | "k < w" by force
  then show ?case
  proof cases
    case 1
    with k Cons.prems show ?thesis by (auto simp: e kw_sorted_def intro: less_trans)
  next
    case 2
    with Cons.prems show ?thesis by (simp add: e kw_sorted_def)
  next
    case 3
    then have "\<not> w < k" "w \<noteq> k" by auto
    with Cons.IH [OF s] k 3 show ?thesis using kw_push_keys [of w x kw] by (simp add: e kw_sorted_def)
  qed
qed (simp add: kw_sorted_def)

definition append_at :: "(string \<rightharpoonup> 'a list) \<Rightarrow> string \<Rightarrow> 'a \<Rightarrow> (string \<rightharpoonup> 'a list)" where
  "append_at m w x = m(w \<mapsto> (case m w of None \<Rightarrow> [x] | Some v \<Rightarrow> v @ [x]))"

lemma map_of_None_iff: "map_of kw w = None \<longleftrightarrow> w \<notin> fst ` set kw"
  by (rule map_of_eq_None_iff)

lemma kw_push_map: "kw_sorted kw \<Longrightarrow> map_of (kw_push w x kw) = append_at (map_of kw) w x"
proof (induction kw)
  case (Cons e kw)
  obtain k v where e: "e = (k, v)" by (cases e)
  from Cons.prems have k: "\<forall>k' \<in> fst ` set kw. k < k'" and s: "kw_sorted kw" by (auto simp: e kw_sorted_def)
  consider "w < k" | "w = k" | "k < w" by force
  then show ?case
  proof cases
    case 1
    with k have "w \<notin> fst ` set kw" by (meson less_asym)
    then have "map_of kw w = None" by (simp add: map_of_None_iff)
    moreover have "w \<noteq> k" using 1 by auto
    ultimately show ?thesis using 1 by (simp add: e append_at_def fun_eq_iff)
  next
    case 2
    then show ?thesis by (simp add: e append_at_def fun_eq_iff)
  next
    case 3
    then have "\<not> w < k" "w \<noteq> k" by auto
    with Cons.IH [OF s] show ?thesis by (auto simp: e append_at_def fun_upd_twist split: option.split)
  qed
qed (simp add: append_at_def)

section \<open>What the builder pushes\<close>

type_synonym push = "string \<times> nat \<times> nat"

definition pushed :: "push list \<Rightarrow> string \<Rightarrow> (nat \<times> nat) list" where
  "pushed ps w = map snd (filter (\<lambda>p. fst p = w) ps)"

definition holds_pushes :: "push list \<Rightarrow> kw_map \<Rightarrow> bool" where
  "holds_pushes ps kw \<longleftrightarrow> kw_sorted kw \<and> map_of kw = (\<lambda>w. if pushed ps w = [] then None else Some (pushed ps w))"

lemma holds_push:
  assumes "holds_pushes ps kw"
  shows "holds_pushes (ps @ [(w, x)]) (kw_push w x kw)"
  using assms by (auto simp: holds_pushes_def kw_push_sorted kw_push_map append_at_def pushed_def fun_eq_iff)

definition field_pushes :: "nat \<Rightarrow> nat \<Rightarrow> nat \<Rightarrow> string list \<Rightarrow> push list" where
  "field_pushes i f off ws = map (\<lambda>(o', w). (w, i, location f o')) (enumerate off ws)"

lemma holds_push_words:
  "holds_pushes ps kw \<Longrightarrow> holds_pushes (ps @ field_pushes i f off ws) (push_words i f off ws kw)"
proof (induction ws arbitrary: off kw ps)
  case (Cons w ws)
  from Cons.IH [OF holds_push [OF Cons.prems, of w "(i, location f off)"], of "Suc off"] show ?case
    by (simp add: field_pushes_def)
qed (simp add: field_pushes_def)

definition rec_pushes :: "nat \<Rightarrow> rec \<Rightarrow> push list" where
  "rec_pushes i r = concat (map (\<lambda>f. field_pushes i f 0 (mk_splitWords (field_text r f))) [0, 1, 2, 3])"

lemma holds_push_rec: "holds_pushes ps kw \<Longrightarrow> holds_pushes (ps @ rec_pushes i r) (push_rec i r kw)"
proof -
  assume h: "holds_pushes ps kw"
  let ?p = "\<lambda>f. field_pushes i f 0 (mk_splitWords (field_text r f))"
  note 0 = holds_push_words [OF h, of i 0 0 "mk_splitWords (field_text r 0)"]
  note 1 = holds_push_words [OF 0, of i 1 0 "mk_splitWords (field_text r 1)"]
  note 2 = holds_push_words [OF 1, of i 2 0 "mk_splitWords (field_text r 2)"]
  note 3 = holds_push_words [OF 2, of i 3 0 "mk_splitWords (field_text r 3)"]
  then show ?thesis by (simp add: rec_pushes_def push_rec_def)
qed

fun recs_pushes :: "nat \<Rightarrow> rec list \<Rightarrow> push list" where
  "recs_pushes i [] = []"
| "recs_pushes i (r # rs) = rec_pushes i r @ recs_pushes (Suc i) rs"

lemma holds_push_recs: "holds_pushes ps kw \<Longrightarrow> holds_pushes (ps @ recs_pushes i rs) (push_recs i rs kw)"
proof (induction rs arbitrary: i kw ps)
  case (Cons r rs)
  from Cons.IH [OF holds_push_rec [OF Cons.prems, of i r], of "Suc i"] show ?case by simp
qed simp

lemma built_map: "holds_pushes (recs_pushes 0 recs) (push_recs 0 recs [])"
  using holds_push_recs [of "[]" "[]" 0 recs] by (simp add: holds_pushes_def kw_sorted_def pushed_def)

text \<open>A word, review, field and position of the texts.\<close>

definition word_in :: "rec list \<Rightarrow> nat \<Rightarrow> nat \<Rightarrow> nat \<Rightarrow> string \<Rightarrow> bool" where
  "word_in recs i f off w \<longleftrightarrow> i < length recs \<and> f < 4 \<and> off < length (mk_splitWords (field_text (recs ! i) f)) \<and>
     mk_splitWords (field_text (recs ! i) f) ! off = w"

lemma field_pushes_iff:
  "(w, x) \<in> set (field_pushes i f off ws) \<longleftrightarrow> (\<exists>k < length ws. ws ! k = w \<and> x = (i, location f (off + k)))"
proof -
  have e: "(o', w) \<in> set (enumerate off ws) \<longleftrightarrow> (\<exists>k < length ws. ws ! k = w \<and> o' = off + k)" for o'
  proof
    assume "(o', w) \<in> set (enumerate off ws)"
    then show "\<exists>k < length ws. ws ! k = w \<and> o' = off + k"
      by (intro exI [of _ "o' - off"]) (auto simp: in_set_enumerate_eq)
  qed (auto simp: in_set_enumerate_eq)
  have "(w, x) \<in> set (field_pushes i f off ws) \<longleftrightarrow> (\<exists>o'. (o', w) \<in> set (enumerate off ws) \<and> x = (i, location f o'))"
    by (force simp: field_pushes_def)
  then show ?thesis by (auto simp: e)
qed

lemma rec_pushes_iff:
  "(w, x) \<in> set (rec_pushes i r) \<longleftrightarrow> (\<exists>f < 4. \<exists>k < length (mk_splitWords (field_text r f)).
     mk_splitWords (field_text r f) ! k = w \<and> x = (i, location f k))"
proof -
  have "f < 4 \<longleftrightarrow> f \<in> set [0, 1, 2, 3 :: nat]" for f by auto
  then show ?thesis unfolding rec_pushes_def by (simp only: set_concat set_map UN_iff) (auto simp: field_pushes_iff)
qed

lemma recs_pushes_iff:
  "(w, x) \<in> set (recs_pushes n recs) \<longleftrightarrow> (\<exists>i f k. word_in recs i f k w \<and> x = (n + i, location f k))"
proof (induction recs arbitrary: n)
  case (Cons r recs)
  have "(\<exists>i f k. word_in (r # recs) i f k w \<and> x = (n + i, location f k)) \<longleftrightarrow>
    (\<exists>f k. word_in (r # recs) 0 f k w \<and> x = (n, location f k)) \<or>
    (\<exists>i f k. word_in (r # recs) (Suc i) f k w \<and> x = (n + Suc i, location f k))"
    by (metis add.right_neutral not0_implies_Suc)
  then show ?case using Cons [of "Suc n"] by (auto simp: rec_pushes_iff word_in_def)
qed (simp add: word_in_def)

lemma pushed_iff: "x \<in> set (pushed ps w) \<longleftrightarrow> (w, x) \<in> set ps"
  by (force simp: pushed_def)

lemma built_entry:
  "map_of (push_recs 0 recs []) w = (if pushed (recs_pushes 0 recs) w = [] then None else Some (pushed (recs_pushes 0 recs) w))"
  using built_map by (simp add: holds_pushes_def)

lemma built_sorted: "kw_sorted (push_recs 0 recs [])"
  using built_map by (simp add: holds_pushes_def)

lemma word_in_token: "word_in recs i f k w \<Longrightarrow> is_token w"
  unfolding word_in_def mk_splitWords_def by (metis nth_mem text_words_def text_words_tokens)

lemma built_key_token:
  assumes "(w, v) \<in> set (push_recs 0 recs [])"
  shows "is_token w"
proof -
  have "w \<in> fst ` set (push_recs 0 recs [])" using image_eqI [OF _ assms, of w fst] by simp
  then have "map_of (push_recs 0 recs []) w \<noteq> None" by (simp only: map_of_None_iff) simp
  then have "pushed (recs_pushes 0 recs) w \<noteq> []" by (simp add: built_entry split: if_splits)
  then obtain x where "x \<in> set (pushed (recs_pushes 0 recs) w)" by (meson list.set_sel(1))
  then show ?thesis using word_in_token by (auto simp: pushed_iff recs_pushes_iff)
qed

section \<open>Binary search\<close>

lemma lower_bound_spec:
  assumes "\<And>i. first \<le> i \<Longrightarrow> i < first + len \<Longrightarrow> before i = Some (Q i)"
    and "\<And>i j. first \<le> i \<Longrightarrow> i \<le> j \<Longrightarrow> j < first + len \<Longrightarrow> Q j \<Longrightarrow> Q i"
  shows "\<exists>m. lower_bound before first len = Some m \<and> first \<le> m \<and> m \<le> first + len \<and>
    (\<forall>i. first \<le> i \<longrightarrow> i < m \<longrightarrow> Q i) \<and> (\<forall>i. m \<le> i \<longrightarrow> i < first + len \<longrightarrow> \<not> Q i)"
  using assms
proof (induction before first len rule: lower_bound.induct)
  case (1 before first len)
  show ?case
  proof (cases "len = 0")
    case True
    then show ?thesis by (intro exI [of _ first]) (simp add: lower_bound.simps)
  next
    case False
    let ?h = "len div 2"
    have h: "first + ?h < first + len" using False by simp
    have b: "before (first + ?h) = Some (Q (first + ?h))" using h by (intro "1.prems") auto
    show ?thesis
    proof (cases "Q (first + ?h)")
      case True
      have "\<exists>m. lower_bound before (first + ?h + 1) (len - ?h - 1) = Some m \<and> first + ?h + 1 \<le> m \<and>
          m \<le> first + ?h + 1 + (len - ?h - 1) \<and> (\<forall>i. first + ?h + 1 \<le> i \<longrightarrow> i < m \<longrightarrow> Q i) \<and>
          (\<forall>i. m \<le> i \<longrightarrow> i < first + ?h + 1 + (len - ?h - 1) \<longrightarrow> \<not> Q i)"
        using False b True h by (intro "1.IH"(1)) (auto intro: "1.prems")
      then obtain m where m: "lower_bound before (first + ?h + 1) (len - ?h - 1) = Some m" "first + ?h + 1 \<le> m"
          "m \<le> first + len" "\<forall>i. first + ?h + 1 \<le> i \<longrightarrow> i < m \<longrightarrow> Q i" "\<forall>i. m \<le> i \<longrightarrow> i < first + len \<longrightarrow> \<not> Q i"
        using h by auto
      have "Q i" if "first \<le> i" "i < m" for i
        using "1.prems"(2) [of i "first + ?h"] that True m(4) h by (cases "i \<le> first + ?h") auto
      with m False b True show ?thesis
        by (intro exI [of _ m]) (simp add: lower_bound.simps [of before first len] Let_def)
    next
      case nQ: False
      have "\<exists>m. lower_bound before first ?h = Some m \<and> first \<le> m \<and> m \<le> first + ?h \<and>
          (\<forall>i. first \<le> i \<longrightarrow> i < m \<longrightarrow> Q i) \<and> (\<forall>i. m \<le> i \<longrightarrow> i < first + ?h \<longrightarrow> \<not> Q i)"
        using False b nQ h by (intro "1.IH"(2)) (auto intro: "1.prems")
      then obtain m where m: "lower_bound before first ?h = Some m" "first \<le> m" "m \<le> first + ?h"
          "\<forall>i. first \<le> i \<longrightarrow> i < m \<longrightarrow> Q i" "\<forall>i. m \<le> i \<longrightarrow> i < first + ?h \<longrightarrow> \<not> Q i" by auto
      have "\<not> Q i" if "m \<le> i" "i < first + len" for i
        using "1.prems"(2) [of "first + ?h" i] that nQ m(5) by (cases "i < first + ?h") auto
      with m False b nQ h show ?thesis
        by (intro exI [of _ m]) (simp add: lower_bound.simps [of before first len] Let_def)
    qed
  qed
qed


section \<open>\<open>findKeyword\<close> on the built file\<close>

lemma token_nul_free: "is_token w \<Longrightarrow> nul_free w"
  unfolding nul_free_def by (rule token_char_notin) (simp_all add: char_code_def)

lemma token_c_str: "is_token w \<Longrightarrow> c_str w = w"
  using token_nul_free [of w] by (simp add: c_str_def nul_free_def takeWhile_eq_all_conv)

lemma at_occs:
  assumes "at file p (concat (map occ_bytes os) @ rest)"
  shows "read_occs file p (length os) = Some (map (\<lambda>x. decode_occ (fst x mod 2 ^ 32) (snd x mod 2 ^ 32)) os)"
  using assms
proof (induction os arbitrary: p)
  case (Cons x os)
  have a: "at file p (appendU32 (fst x) @ appendU32 (snd x) @ concat (map occ_bytes os) @ rest)"
    using Cons.prems by (simp add: occ_bytes_def [of x])
  note 1 = at_u32 [OF a]
  note 2 = at_u32 [OF 1(2)]
  from 2(2) have "at file (p + 8) (concat (map occ_bytes os) @ rest)" by (simp add: add.assoc)
  from Cons.IH [OF this] 1(1) 2(1) show ?case by simp
qed simp

lemma at_entry:
  assumes "at file p (entry_bytes p (k, v) @ rest)" and "nul_free k"
  shows "readCString file p = Some (k, p + length k + 1)"
    and "readU32 file (even_up (p + length k + 1)) = Some (length v mod 2 ^ 32)"
    and "read_occs file (even_up (p + length k + 1) + 4) (length v) =
      Some (map (\<lambda>x. decode_occ (fst x mod 2 ^ 32) (snd x mod 2 ^ 32)) (sort v))"
proof -
  have l: "p + length (cstr k) = p + length k + 1" by simp
  have 0: "at file p (cstr k @ pad_even (p + length k + 1) @ appendU32 (length v) @ concat (map occ_bytes (sort v)) @ rest)"
    using assms(1) unfolding entry_bytes_def Let_def fst_conv snd_conv l by (simp only: append_assoc)
  note 1 = at_cstring [OF 0 assms(2)]
  note 2 = at_u32 [OF at_pad [OF 1(2)]]
  note 3 = at_occs [OF 2(2)]
  show "readCString file p = Some (k, p + length k + 1)" by (rule 1(1))
  show "readU32 file (even_up (p + length k + 1)) = Some (length v mod 2 ^ 32)" by (rule 2(1))
  show "read_occs file (even_up (p + length k + 1) + 4) (length v) =
      Some (map (\<lambda>x. decode_occ (fst x mod 2 ^ 32) (snd x mod 2 ^ 32)) (sort v))" using 3 by simp
qed

lemma kw_sorted_nth: "kw_sorted kw \<Longrightarrow> i < j \<Longrightarrow> j < length kw \<Longrightarrow> fst (kw ! i) < fst (kw ! j)"
  using sorted_wrt_nth_less [of "(<)" "map fst kw" i j] by (simp add: kw_sorted_def)

text \<open>The search position is the only place the key can be at.\<close>

lemma search_position:
  assumes "kw_sorted kw" and "\<forall>i < m. fst (kw ! i) < w" and "\<forall>i. m \<le> i \<longrightarrow> i < length kw \<longrightarrow> \<not> fst (kw ! i) < w"
    and "m \<le> length kw"
  shows "map_of kw w = (if m < length kw \<and> fst (kw ! m) = w then Some (snd (kw ! m)) else None)"
proof (cases "m < length kw \<and> fst (kw ! m) = w")
  case True
  have "distinct (map fst kw)" using assms(1) strict_sorted_iff by (auto simp: kw_sorted_def)
  with True show ?thesis by (metis map_of_is_SomeI nth_mem prod.collapse)
next
  case False
  have "fst (kw ! i) \<noteq> w" if "i < length kw" for i
  proof (cases "i < m")
    case True
    then show ?thesis using assms(2) by auto
  next
    case ge: False
    show ?thesis
    proof (cases "i = m")
      case True
      then show ?thesis using False that by auto
    next
      case ne: False
      then have "fst (kw ! m) < fst (kw ! i)" using kw_sorted_nth [OF assms(1), of m i] ge that by simp
      moreover have "\<not> fst (kw ! m) < w" using assms(3) ge that by auto
      ultimately show ?thesis by auto
    qed
  qed
  then have "\<forall>e \<in> set kw. fst e \<noteq> w" by (simp add: all_set_conv_all_nth)
  then have "w \<notin> fst ` set kw" by auto
  then have "map_of kw w = None" by (simp only: map_of_eq_None_iff) simp
  with False show ?thesis by auto
qed

definition decoded :: "(nat \<times> nat) list \<Rightarrow> occurrence list" where
  "decoded v = map (\<lambda>x. decode_occ (fst x mod 2 ^ 32) (snd x mod 2 ^ 32)) (sort v)"

lemma find_in_file:
  assumes "kw_sorted kw" and "\<forall>e \<in> set kw. nul_free (fst e)" and "length (kwi_file kw) < 2 ^ 32" and "c_str w = w"
    and "keywordIndexFile a = Some (kwi_file kw)" and "numKeywords a = length kw"
  shows "findKeyword a w = Some (map_option decoded (map_of kw w))"
proof -
  let ?F = "kwi_file kw"
  have entry: "\<exists>off rest. readU32 ?F (4 + 4 * i) = Some off \<and> at ?F off (entry_bytes off (kw ! i) @ rest)"
    if "i < length kw" for i
    using table_file_entry [OF that, of entry_bytes] assms(3) by (simp add: kwi_file_table)
  have "keyword_before ?F w i = Some (fst (kw ! i) < w)" if i: "i < length kw" for i
  proof -
    obtain off rest where o: "readU32 ?F (4 + 4 * i) = Some off" "at ?F off (entry_bytes off (fst (kw ! i), snd (kw ! i)) @ rest)"
      using entry [OF i] by auto
    have "nul_free (fst (kw ! i))" using assms(2) i by simp
    from at_entry(1) [OF o(2) this] o(1) show ?thesis by (simp add: keyword_before_def assms(4))
  qed
  moreover have "fst (kw ! j) < w \<Longrightarrow> fst (kw ! i) < w" if "i \<le> j" "j < length kw" for i j
    using kw_sorted_nth [OF assms(1), of i j] that by (cases "i = j") (auto intro: less_trans)
  ultimately obtain m where m: "lower_bound (keyword_before ?F w) 0 (length kw) = Some m" "m \<le> length kw"
      "\<forall>i < m. fst (kw ! i) < w" "\<forall>i. m \<le> i \<longrightarrow> i < length kw \<longrightarrow> \<not> fst (kw ! i) < w"
    using lower_bound_spec [of 0 "length kw" "keyword_before ?F w" "\<lambda>i. fst (kw ! i) < w"] by auto
  note pos = search_position [OF assms(1) m(3,4,2)]
  show ?thesis
  proof (cases "m = length kw")
    case True
    then show ?thesis using m(1) assms(5,6) pos by (simp add: findKeyword_def)
  next
    case False
    then have lt: "m < length kw" using m(2) by simp
    obtain k v where kv: "kw ! m = (k, v)" by (cases "kw ! m")
    obtain off rest where o: "readU32 ?F (4 + 4 * m) = Some off" "at ?F off (entry_bytes off (k, v) @ rest)"
      using entry [OF lt] kv by auto
    have "nul_free k" using assms(2) lt kv by (metis fst_conv nth_mem)
    note e = at_entry [OF o(2) this]
    have "length v < 2 ^ 32"
      using at_length [OF o(2)] assms(3) length_occs [of "sort v"] by (simp add: entry_bytes_def Let_def)
    then have c: "readU32 ?F (even_up (off + length k + 1)) = Some (length v)" using e(2) by simp
    show ?thesis
    proof (cases "k = w")
      case True
      then show ?thesis
        using False m(1) assms(4-6) o(1) e(1,3) c pos lt kv by (simp add: findKeyword_def decoded_def)
    next
      case ne: False
      then show ?thesis
        using False m(1) assms(4-6) o(1) e(1) pos lt kv by (simp add: findKeyword_def)
    qed
  qed
qed

text \<open>On the files the builder makes: a word's occurrences with their review, field and position.\<close>

definition short_fields :: "rec list \<Rightarrow> bool" where
  "short_fields recs \<longleftrightarrow> (\<forall>r \<in> set recs. \<forall>f < 4. length (mk_splitWords (field_text r f)) \<le> 2 ^ 24)"

lemma decode_location:
  assumes "f < 4"
  shows "location f k < 2 ^ 32" and "decode_occ i (location f k) = \<lparr>reviewIndex = i, field = f, wordOffset = k mod 2 ^ 24\<rparr>"
proof -
  have k: "k mod 2 ^ 24 < 2 ^ 24" by simp
  have f: "f * 2 ^ 24 \<le> 3 * 2 ^ 24" using assms by simp
  from k f show "location f k < 2 ^ 32" unfolding location_arith by simp
  have "(f * 2 ^ 24 + k mod 2 ^ 24) div 2 ^ 24 = f" by simp
  then have "drop_bit 24 (location f k) mod 256 = f"
    using assms by (simp add: location_arith drop_bit_eq_div)
  moreover have "location f k AND 0x00FFFFFF = k mod 2 ^ 24"
  proof -
    have "location f k AND 0x00FFFFFF = take_bit 24 (location f k)"
      by (simp add: take_bit_eq_mask mask_eq_exp_minus_1)
    then show ?thesis by (simp add: location_arith take_bit_eq_mod)
  qed
  ultimately show "decode_occ i (location f k) = \<lparr>reviewIndex = i, field = f, wordOffset = k mod 2 ^ 24\<rparr>"
    by (simp add: decode_occ_def)
qed

lemma find_built:
  assumes "fits recs" and "short_fields recs" and "is_token w"
  shows "\<exists>r. findKeyword (opened recs) w = Some r \<and>
    set (case r of None \<Rightarrow> [] | Some occ \<Rightarrow> map occ_pos occ) = {(i, f, k). word_in recs i f k w} \<and>
    (r = None \<longleftrightarrow> {(i, f, k). word_in recs i f k w} = {})"
proof -
  let ?kw = "push_recs 0 recs []" and ?v = "pushed (recs_pushes 0 recs) w"
  have len: "length (kwi_file ?kw) < 2 ^ 32" "length recs < 2 ^ 32"
    using assms(1) table_file_header(3) [of rec_bytes recs] by (auto simp: fits_def build_kwi_def build_db_table)
  have keys: "\<forall>e \<in> set ?kw. nul_free (fst e)" using built_key_token token_nul_free by force
  have f: "findKeyword (opened recs) w = Some (map_option decoded (map_of ?kw w))"
    by (rule find_in_file [OF built_sorted keys len(1) token_c_str [OF assms(3)]])
      (simp_all add: opened_def build_kwi_def)
  have dec: "occ_pos (decode_occ (i mod 2 ^ 32) (location fl k mod 2 ^ 32)) = (i, fl, k)" if "word_in recs i fl k w" for i fl k
  proof -
    have "fl < 4" "i < 2 ^ 32" "k < 2 ^ 24"
      using that assms(2) len(2) by (auto simp: word_in_def short_fields_def) (meson less_le_trans nth_mem)
    then show ?thesis using decode_location(1) [of fl k] decode_location(2) [of fl i k] by (simp add: occ_pos_def)
  qed
  have v: "set ?v = {(i, location fl k) |i fl k. word_in recs i fl k w}"
    by (auto simp: pushed_iff recs_pushes_iff) blast+
  have set_dec: "set (map occ_pos (decoded ?v)) = {(i, fl, k). word_in recs i fl k w}"
  proof -
    have "set (map occ_pos (decoded ?v)) = (\<lambda>x. occ_pos (decode_occ (fst x mod 2 ^ 32) (snd x mod 2 ^ 32))) ` set ?v"
      by (simp add: decoded_def image_image)
    also have "\<dots> = {(i, fl, k). word_in recs i fl k w}" unfolding v using dec by force
    finally show ?thesis .
  qed
  moreover have "?v = [] \<longleftrightarrow> {(i, fl, k). word_in recs i fl k w} = {}"
    unfolding set_empty [symmetric] v by auto
  ultimately show ?thesis using f by (auto simp: built_entry)
qed

end
