(* ===== verification/Amazon_Search.thy ===== *)
theory Amazon_Search
  imports Amazon_Kwi "HOL-Library.Multiset"
begin

text \<open>
  Query parsing and search. The locale \<open>keyword_index\<close> is what the search relies on: a look-up returns
  exactly the places where a word occurs. Its interpretation is the file that \<open>mkamazondb\<close> builds. The
  properties: the terms of a query, the exact answer of a search over the texts of the reviews, and the
  sorted, limited list that \<open>amazon_search\<close> prints.
\<close>

section \<open>Queries\<close>

lemma query_tokens: "t \<in> set (convertQuery q) \<Longrightarrow> t \<noteq> [] \<and> (\<forall>w \<in> set t. is_token w)"
  unfolding convertQuery_def
proof (induction q rule: query_loop.induct)
  case (2 c cs)
  consider "isspace c" | "\<not> isspace c" "c = quote" | "\<not> isspace c" "c \<noteq> quote" by blast
  then show ?case
  proof cases
    case 1
    then show ?thesis using "2.IH"(1) "2.prems" by simp
  next
    case 2
    then show ?thesis
      using "2.IH"(2) [OF 2 refl refl] "2.prems" text_words_tokens
      by (auto simp: Let_def splitWords_def simp flip: text_words_def split: if_splits)
  next
    case 3
    then show ?thesis
      using "2.IH"(3) [OF 3 refl] "2.prems" text_words_tokens
      by (auto simp: Let_def splitWords_def simp flip: text_words_def)
  qed
qed simp

lemma query_term_length: "t \<in> set (convertQuery q) \<Longrightarrow> length t \<le> length q"
  unfolding convertQuery_def
proof (induction q rule: query_loop.induct)
  case (2 c cs)
  consider "isspace c" | "\<not> isspace c" "c = quote" | "\<not> isspace c" "c \<noteq> quote" by blast
  then show ?case
  proof cases
    case 1
    then show ?thesis using "2.IH"(1) "2.prems" by auto
  next
    case 2
    let ?ph = "takeWhile (\<lambda>x. x \<noteq> quote) cs"
    have "length (text_words ?ph) \<le> length cs"
      using text_words_length [of ?ph] length_takeWhile_le [of "\<lambda>x. x \<noteq> quote" cs] by linarith
    then show ?thesis
      using "2.IH"(2) [OF 2 refl refl] "2.prems" 2
      by (auto simp: Let_def splitWords_def simp flip: text_words_def split: if_splits)
  next
    case 3
    then show ?thesis
      using "2.IH"(3) [OF 3 refl] "2.prems" by (fastforce simp: Let_def)
  qed
qed simp

text \<open>White space and quotes are separators, so cutting at them first changes nothing.\<close>

lemma isspace_not_alnum: "isspace c \<Longrightarrow> \<not> isalnum c"
  by (auto simp: ctype_defs)

lemma quote_facts: "\<not> isalnum quote" "\<not> isspace quote"
  by (simp_all add: quote_def ctype_defs)

lemma query_step_plain:
  assumes "\<not> isspace c" and "c \<noteq> quote"
  shows "convertQuery (c # cs) =
    map (\<lambda>w. [w]) (text_words (takeWhile (\<lambda>x. \<not> isspace x \<and> x \<noteq> quote) (c # cs))) @
    convertQuery (dropWhile (\<lambda>x. \<not> isspace x \<and> x \<noteq> quote) (c # cs))"
  using assms dropWhile_eq_drop [of "\<lambda>x. \<not> isspace x \<and> x \<noteq> quote" "c # cs"]
  by (simp add: convertQuery_def Let_def splitWords_def flip: text_words_def)

lemma while_stop:
  assumes "rest = [] \<or> \<not> P (hd rest)"
  shows "takeWhile P (xs @ rest) = takeWhile P xs" and "dropWhile P (xs @ rest) = dropWhile P xs @ rest"
proof -
  show "takeWhile P (xs @ rest) = takeWhile P xs" using assms by (induction xs) (cases rest; simp)+
  show "dropWhile P (xs @ rest) = dropWhile P xs @ rest" using assms by (induction xs) (cases rest; simp)+
qed

lemma query_plain_prefix:
  assumes "quote \<notin> set q" and "rest = [] \<or> hd rest = quote"
  shows "convertQuery (q @ rest) = map (\<lambda>w. [w]) (text_words q) @ convertQuery rest"
  using assms
proof (induction "length q" arbitrary: q rule: less_induct)
  case less
  show ?case
  proof (cases q)
    case Nil
    then show ?thesis by (simp add: text_words_def)
  next
    case (Cons c cs)
    show ?thesis
    proof (cases "isspace c")
      case True
      have "convertQuery (q @ rest) = convertQuery (cs @ rest)" using True Cons by (simp add: convertQuery_def)
      moreover have "text_words q = text_words cs"
        using text_words_sep [of c "[]" cs] isspace_not_alnum [OF True] Cons by (simp add: text_words_def)
      ultimately show ?thesis using less Cons by simp
    next
      case False
      let ?P = "\<lambda>x. \<not> isspace x \<and> x \<noteq> quote"
      let ?w = "takeWhile ?P q" and ?r = "dropWhile ?P q"
      have c: "c \<noteq> quote" using less.prems(1) Cons by auto
      have "rest = [] \<or> \<not> ?P (hd rest)" using less.prems(2) by auto
      note tw = while_stop [of rest ?P q, OF this]
      have "length ?r < length q"
        using False c Cons length_dropWhile_le [of ?P cs] by (simp add: le_imp_less_Suc)
      moreover have "quote \<notin> set ?r" using less.prems(1) set_dropWhileD by metis
      ultimately have "convertQuery (?r @ rest) = map (\<lambda>w. [w]) (text_words ?r) @ convertQuery rest"
        using less by simp
      moreover have "convertQuery (q @ rest) = map (\<lambda>w. [w]) (text_words ?w) @ convertQuery (?r @ rest)"
        using query_step_plain [of c "cs @ rest"] False c Cons tw by simp
      moreover have "text_words q = text_words ?w @ text_words ?r"
      proof (cases ?r)
        case Nil
        then have "q = ?w" by (metis append_Nil2 takeWhile_dropWhile_id)
        moreover have "text_words ?r = []" unfolding Nil by (simp add: text_words_def)
        ultimately show ?thesis by simp
      next
        case (Cons d ds)
        have "\<not> ?P d" using hd_dropWhile [of ?P q] Cons by auto
        then have "\<not> isalnum d" using isspace_not_alnum quote_facts by auto
        moreover have "q = ?w @ d # ds" by (metis Cons takeWhile_dropWhile_id)
        ultimately show ?thesis
          using text_words_sep [of d ?w ds] text_words_sep [of d "[]" ds] Cons by (metis append_Nil text_words_no_alnum
            empty_iff list.set(1))
      qed
      ultimately show ?thesis by simp
    qed
  qed
qed

section \<open>The search over a keyword index\<close>

lemma set_as_set [simp]: "set (as_set xs) = set xs"
  by (simp add: as_set_def)

lemma sorted_as_set: "sorted_wrt (<) (as_set xs)"
  unfolding as_set_def strict_sorted_iff by simp

locale keyword_index =
  fixes ok :: "'d \<Rightarrow> bool" and look :: "'d \<Rightarrow> finder" and occurs :: "'d \<Rightarrow> nat \<Rightarrow> nat \<Rightarrow> nat \<Rightarrow> string \<Rightarrow> bool"
  assumes look_spec: "ok d \<Longrightarrow> is_token w \<Longrightarrow> \<exists>r. look d w = Some r \<and>
      set (case r of None \<Rightarrow> [] | Some occ \<Rightarrow> map occ_pos occ) = {(i, f, k). occurs d i f k w} \<and>
      (r = None \<longleftrightarrow> {(i, f, k). occurs d i f k w} = {})"
    and occurs_bounds: "ok d \<Longrightarrow> occurs d i f k w \<Longrightarrow> i < 2 ^ 31 \<and> k < 2 ^ 24"
begin

text \<open>Review \<open>i\<close> has the words of \<open>t\<close> one after the other in one field.\<close>

definition term_in :: "'d \<Rightarrow> nat \<Rightarrow> string list \<Rightarrow> bool" where
  "term_in d i t \<longleftrightarrow> (\<exists>f off. \<forall>k < length t. occurs d i f (off + k) (t ! k))"

lemma to_int32_small: "i < 2 ^ 31 \<Longrightarrow> to_int32 i = int i"
  by (simp add: to_int32_def signed_take_bit_int_eq_self)

lemma occ_image:
  assumes "set (map occ_pos occ) = {(i, f, k). occurs d i f k w}" and "ok d"
  shows "(\<lambda>x. to_int32 (reviewIndex x)) ` set occ = int ` {i. \<exists>f k. occurs d i f k w}"
proof -
  have "(\<lambda>x. to_int32 (reviewIndex x)) ` set occ = (\<lambda>p. to_int32 (fst p)) ` set (map occ_pos occ)"
    by (simp add: image_image occ_pos_def)
  also have "\<dots> = (\<lambda>p. int (fst p)) ` {(i, f, k). occurs d i f k w}"
    unfolding assms(1) using occurs_bounds [OF assms(2)] to_int32_small by (intro image_cong) auto
  also have "\<dots> = int ` {i. \<exists>f k. occurs d i f k w}" by force
  finally show ?thesis .
qed

lemma one_word:
  assumes "ok d" and "is_token w"
  shows "\<exists>m. term_matches (look d) [w] = Some m \<and> sorted_wrt (<) m \<and> set m = int ` {i. term_in d i [w]}"
proof -
  obtain r where r: "look d w = Some r" "set (case r of None \<Rightarrow> [] | Some occ \<Rightarrow> map occ_pos occ) = {(i, f, k). occurs d i f k w}"
    using look_spec [OF assms] by blast
  have t: "term_in d i [w] \<longleftrightarrow> (\<exists>f k. occurs d i f k w)" for i by (auto simp: term_in_def)
  show ?thesis
  proof (cases r)
    case None
    then have "{i. term_in d i [w]} = {}" using r(2) t by auto
    with r(1) None show ?thesis by (simp add: term_matches_def)
  next
    case (Some occ)
    with r show ?thesis
      using occ_image [OF _ assms(1), of occ w] by (simp add: term_matches_def sorted_as_set t)
  qed
qed

lemma phrase_positions_spec:
  assumes "ok d" and "\<forall>w \<in> set ws. is_token w"
  shows "\<exists>r. phrase_positions (look d) ws = Some r \<and> (case r of
      None \<Rightarrow> \<exists>w \<in> set ws. {(i, f, k). occurs d i f k w} = {}
    | Some ps \<Rightarrow> length ps = length ws \<and> (\<forall>n < length ws. set (ps ! n) = {(i, f, k). occurs d i f k (ws ! n)}))"
  using assms(2)
proof (induction ws)
  case (Cons w ws)
  obtain r where r: "look d w = Some r" "set (case r of None \<Rightarrow> [] | Some occ \<Rightarrow> map occ_pos occ) = {(i, f, k). occurs d i f k w}"
    "r = None \<longleftrightarrow> {(i, f, k). occurs d i f k w} = {}"
    using look_spec [OF assms(1)] Cons.prems by (metis list.set_intros(1))
  obtain r' where r': "phrase_positions (look d) ws = Some r'" "case r' of
      None \<Rightarrow> \<exists>w \<in> set ws. {(i, f, k). occurs d i f k w} = {}
    | Some ps \<Rightarrow> length ps = length ws \<and> (\<forall>n < length ws. set (ps ! n) = {(i, f, k). occurs d i f k (ws ! n)})"
    using Cons by auto
  show ?case
  proof (cases r)
    case None
    then show ?thesis using r by simp
  next
    case (Some occ)
    then have first: "set (as_set (map occ_pos occ)) = {(i, f, k). occurs d i f k w}" using r(2) by simp
    show ?thesis
    proof (cases r')
      case None
      then show ?thesis using r(1) r' Some by simp
    next
      case (Some ps)
      let ?ps = "as_set (map occ_pos occ) # ps"
      have "phrase_positions (look d) (w # ws) = Some (Some ?ps)" using r(1) r'(1) Some \<open>r = Some occ\<close> by simp
      moreover have "set (?ps ! n) = {(i, f, k). occurs d i f k ((w # ws) ! n)}" if "n < length (w # ws)" for n
        using that first r'(2) Some by (cases n) simp_all
      moreover have "length ?ps = length (w # ws)" using r'(2) Some by simp
      ultimately show ?thesis by (intro exI [of _ "Some ?ps"]) simp
    qed
  qed
qed simp

lemma anchored_iff:
  assumes "ok d" and "length ps = length t" and "\<forall>n < length t. set (ps ! n) = {(i, f, k). occurs d i f k (t ! n)}"
    and "length t < 2 ^ 31" and "occurs d i f off (t ! 0)" and "t \<noteq> []"
  shows "anchored ps (i, f, off) \<longleftrightarrow> (\<forall>k < length t. occurs d i f (off + k) (t ! k))"
proof -
  have off: "off < 2 ^ 24" using occurs_bounds [OF assms(1,5)] by simp
  have "anchored ps (i, f, off) \<longleftrightarrow> (\<forall>k \<in> {1..<length t}. occurs d i f ((off + k) mod 2 ^ 32) (t ! k))"
    using assms(2,3) by (simp add: anchored_def list_all_iff)
  also have "\<dots> \<longleftrightarrow> (\<forall>k \<in> {1..<length t}. occurs d i f (off + k) (t ! k))"
    using off assms(4) by (intro ball_cong) auto
  also have "\<dots> \<longleftrightarrow> (\<forall>k < length t. occurs d i f (off + k) (t ! k))"
  proof
    assume a: "\<forall>k \<in> {1..<length t}. occurs d i f (off + k) (t ! k)"
    show "\<forall>k < length t. occurs d i f (off + k) (t ! k)"
    proof (intro allI impI)
      fix k
      assume "k < length t"
      with a assms(5) show "occurs d i f (off + k) (t ! k)" by (cases "k = 0") simp_all
    qed
  qed simp
  finally show ?thesis .
qed

lemma phrase:
  assumes "ok d" and "\<forall>w \<in> set t. is_token w" and "t \<noteq> []" and "length t \<noteq> 1" and "length t < 2 ^ 31"
  shows "\<exists>m. term_matches (look d) t = Some m \<and> sorted_wrt (<) m \<and> set m = int ` {i. term_in d i t}"
proof -
  obtain r where r: "phrase_positions (look d) t = Some r" "case r of
      None \<Rightarrow> \<exists>w \<in> set t. {(i, f, k). occurs d i f k w} = {}
    | Some ps \<Rightarrow> length ps = length t \<and> (\<forall>n < length t. set (ps ! n) = {(i, f, k). occurs d i f k (t ! n)})"
    using phrase_positions_spec [OF assms(1,2)] by blast
  show ?thesis
  proof (cases r)
    case None
    then obtain w where w: "w \<in> set t" "{(i, f, k). occurs d i f k w} = {}" using r(2) by auto
    then obtain n where n: "n < length t" "t ! n = w" by (auto simp: in_set_conv_nth)
    have "\<not> term_in d i t" for i
    proof
      assume "term_in d i t"
      then obtain f off where "occurs d i f (off + n) (t ! n)" using n(1) by (auto simp: term_in_def)
      then show False using w(2) n(2) by auto
    qed
    then have "{i. term_in d i t} = {}" by simp
    with r(1) None assms(4) show ?thesis by (simp add: term_matches_def)
  next
    case (Some ps)
    then have ps: "length ps = length t" "\<forall>n < length t. set (ps ! n) = {(i, f, k). occurs d i f k (t ! n)}"
      using r(2) by auto
    have "hd ps = ps ! 0" using ps(1) assms(3) by (intro hd_conv_nth) auto
    then have hd: "set (hd ps) = {(i, f, k). occurs d i f k (t ! 0)}" using ps(2) assms(3) by simp
    have head: "occurs d i f off (t ! 0)" if "\<forall>k < length t. occurs d i f (off + k) (t ! k)" for i f off
      using that assms(3) by (metis add.right_neutral length_greater_0_conv)
    have "{p \<in> set (hd ps). anchored ps p} = {(i, f, off). \<forall>k < length t. occurs d i f (off + k) (t ! k)}"
    proof (intro set_eqI, clarify)
      fix i f off
      have "occurs d i f off (t ! 0)" if "\<forall>k < length t. occurs d i f (off + k) (t ! k)"
        by (rule head [OF that])
      moreover have "anchored ps (i, f, off) \<longleftrightarrow> (\<forall>k < length t. occurs d i f (off + k) (t ! k))" if "occurs d i f off (t ! 0)"
        by (rule anchored_iff [OF assms(1) ps assms(5) that assms(3)])
      ultimately show "(i, f, off) \<in> {p \<in> set (hd ps). anchored ps p} \<longleftrightarrow>
          (i, f, off) \<in> {(i, f, off). \<forall>k < length t. occurs d i f (off + k) (t ! k)}"
        unfolding hd by blast
    qed
    moreover have "i < 2 ^ 31" if "\<forall>k < length t. occurs d i f (off + k) (t ! k)" for i f off
      using occurs_bounds [OF assms(1) head [OF that]] by simp
    ultimately have "(\<lambda>p. to_int32 (fst p)) ` {p \<in> set (hd ps). anchored ps p} =
        (\<lambda>p. int (fst p)) ` {(i, f, off). \<forall>k < length t. occurs d i f (off + k) (t ! k)}"
      using to_int32_small by (intro image_cong) auto
    also have "\<dots> = int ` {i. term_in d i t}"
      unfolding term_in_def by (auto simp: image_iff) blast+
    finally have "(\<lambda>p. to_int32 (fst p)) ` {p \<in> set (hd ps). anchored ps p} = int ` {i. term_in d i t}" .
    with r(1) Some assms(4) show ?thesis by (simp add: term_matches_def sorted_as_set)
  qed
qed

lemma term_matches_spec:
  assumes "ok d" and "\<forall>w \<in> set t. is_token w" and "t \<noteq> []" and "length t < 2 ^ 31"
  shows "\<exists>m. term_matches (look d) t = Some m \<and> sorted_wrt (<) m \<and> set m = int ` {i. term_in d i t}"
proof (cases "length t = 1")
  case True
  then obtain w where "t = [w]" by (auto simp: length_Suc_conv)
  with assms one_word show ?thesis by auto
next
  case False
  with assms phrase show ?thesis by blast
qed

lemma search_loop_spec:
  assumes "ok d" and "\<forall>t \<in> set ts. t \<noteq> [] \<and> length t < 2 ^ 31 \<and> (\<forall>w \<in> set t. is_token w)"
    and "\<And>old. res = Some old \<Longrightarrow> sorted_wrt (<) old"
  shows "\<exists>r. search_loop (look d) ts res = Some r \<and> sorted_wrt (<) r \<and> set r = (case res of
      None \<Rightarrow> if ts = [] then {} else int ` {i. \<forall>t \<in> set ts. term_in d i t}
    | Some old \<Rightarrow> {x \<in> set old. \<forall>t \<in> set ts. x \<in> int ` {i. term_in d i t}})"
  using assms(2,3)
proof (induction ts arbitrary: res)
  case Nil
  then show ?case by (cases res) auto
next
  case (Cons t ts)
  obtain m where m: "term_matches (look d) t = Some m" "sorted_wrt (<) m" "set m = int ` {i. term_in d i t}"
    using term_matches_spec [OF assms(1), of t] Cons.prems(1) by auto
  define r where "r = (case res of None \<Rightarrow> m | Some old \<Rightarrow> filter (\<lambda>x. x \<in> set m) old)"
  have r: "sorted_wrt (<) r" "set r = (case res of None \<Rightarrow> set m | Some old \<Rightarrow> set old \<inter> set m)"
    using m(2) Cons.prems(2) by (auto simp: r_def sorted_wrt_filter split: option.splits)
  have step: "search_loop (look d) (t # ts) res = (if r = [] then Some [] else search_loop (look d) ts (Some r))"
    using m(1) by (simp add: r_def)
  have split: "int ` {i. \<forall>t' \<in> set (t # ts). term_in d i t'} = {x \<in> set m. \<forall>t' \<in> set ts. x \<in> int ` {i. term_in d i t'}}"
    unfolding m(3) by (auto simp: inj_image_mem_iff)
  have goal: "(case res of None \<Rightarrow> if t # ts = [] then {} else int ` {i. \<forall>t' \<in> set (t # ts). term_in d i t'}
      | Some old \<Rightarrow> {x \<in> set old. \<forall>t' \<in> set (t # ts). x \<in> int ` {i. term_in d i t'}}) =
      {x \<in> set r. \<forall>t' \<in> set ts. x \<in> int ` {i. term_in d i t'}}"
    unfolding split r(2) m(3) by (cases res) auto
  show ?case
  proof (cases "r = []")
    case True
    then show ?thesis unfolding step goal by simp
  next
    case False
    then show ?thesis unfolding step goal using Cons.IH [of "Some r"] Cons.prems(1) r(1) by auto
  qed
qed

end

section \<open>The built index\<close>

definition index_ok :: "rec list \<Rightarrow> bool" where
  "index_ok recs \<longleftrightarrow> fits recs \<and> short_fields recs"

lemma word_in_bounds:
  assumes "index_ok recs" and "word_in recs i f k w"
  shows "i < 2 ^ 31 \<and> k < 2 ^ 24"
proof -
  have "4 + 4 * length recs < 2 ^ 32"
    using assms(1) table_file_header(3) [of rec_bytes recs] by (simp add: index_ok_def fits_def build_db_table)
  moreover have "recs ! i \<in> set recs" "f < 4" "k < length (mk_splitWords (field_text (recs ! i) f))" "i < length recs"
    using assms(2) by (auto simp: word_in_def)
  moreover from this have "k < 2 ^ 24" using assms(1) by (meson index_ok_def less_le_trans short_fields_def)
  ultimately show ?thesis by simp
qed

interpretation built: keyword_index index_ok "\<lambda>recs. findKeyword (opened recs)" word_in
proof
  show "index_ok d \<Longrightarrow> is_token w \<Longrightarrow> \<exists>r. findKeyword (opened d) w = Some r \<and>
      set (case r of None \<Rightarrow> [] | Some occ \<Rightarrow> map occ_pos occ) = {(i, f, k). word_in d i f k w} \<and>
      (r = None \<longleftrightarrow> {(i, f, k). word_in d i f k w} = {})" for d w
    using find_built by (simp add: index_ok_def)
  show "index_ok d \<Longrightarrow> word_in d i f k w \<Longrightarrow> i < 2 ^ 31 \<and> k < 2 ^ 24" for d i f k w
    by (rule word_in_bounds)
qed

text \<open>A term's words stand one after the other in some field of the review.\<close>

definition mentions :: "rec \<Rightarrow> string list \<Rightarrow> bool" where
  "mentions r t \<longleftrightarrow> (\<exists>f < 4. \<exists>off. take (length t) (drop off (text_words (field_text r f))) = t)"

lemma mentions_iff_infix:
  "mentions r t \<longleftrightarrow> (\<exists>f < 4. \<exists>before after. text_words (field_text r f) = before @ t @ after)"
proof -
  have "(\<exists>off. take (length t) (drop off ws) = t) \<longleftrightarrow> (\<exists>before after. ws = before @ t @ after)" for ws :: "string list"
    by (metis append_take_drop_id append_eq_conv_conj)
  then show ?thesis by (simp add: mentions_def)
qed

lemma consecutive_iff:
  "t \<noteq> [] \<Longrightarrow> (\<forall>k < length t. off + k < length ws \<and> ws ! (off + k) = t ! k) \<longleftrightarrow> take (length t) (drop off ws) = t"
proof
  assume ne: "t \<noteq> []" and a: "\<forall>k < length t. off + k < length ws \<and> ws ! (off + k) = t ! k"
  then have "off + (length t - 1) < length ws" by simp
  then have "length (take (length t) (drop off ws)) = length t" using ne by (cases t) auto
  then show "take (length t) (drop off ws) = t" using a by (intro nth_equalityI) auto
next
  assume ne: "t \<noteq> []" and a: "take (length t) (drop off ws) = t"
  have l: "length t \<le> length ws - off" using a by (metis length_drop length_take min.cobounded1)
  moreover have "t ! k = ws ! (off + k)" if "k < length t" for k
  proof -
    have "t ! k = take (length t) (drop off ws) ! k" using a by simp
    also have "\<dots> = ws ! (off + k)" using that l by simp
    finally show ?thesis .
  qed
  ultimately show "\<forall>k < length t. off + k < length ws \<and> ws ! (off + k) = t ! k" by auto
qed

lemma term_in_mentions: "t \<noteq> [] \<Longrightarrow> built.term_in recs i t \<longleftrightarrow> i < length recs \<and> mentions (recs ! i) t"
proof -
  assume ne: "t \<noteq> []"
  have w: "mk_splitWords = text_words" by (simp add: fun_eq_iff mk_splitWords_def text_words_def)
  have "built.term_in recs i t \<longleftrightarrow> (\<exists>f off. i < length recs \<and> f < 4 \<and>
      (\<forall>k < length t. off + k < length (text_words (field_text (recs ! i) f)) \<and>
         text_words (field_text (recs ! i) f) ! (off + k) = t ! k))"
    unfolding built.term_in_def word_in_def w using ne by (metis length_greater_0_conv)
  then show ?thesis using consecutive_iff [OF ne] by (auto simp: mentions_def)
qed

end
