(* ===== verification/Amazon_Props.thy ===== *)
theory Amazon_Props
  imports Sorting Amazon_Search
begin

text \<open>
  What a search returns: the terms of a query, the exact set of reviews that \<open>searchKeywordIndex\<close> finds in
  the index that \<open>mkamazondb\<close> built, and the reviews that \<open>amazon_search\<close> prints, for any \<open>std::sort\<close>
  that meets its contract.
\<close>

section \<open>Query terms\<close>

definition phrase_term :: "string \<Rightarrow> string list list" where
  "phrase_term ph = (if text_words ph = [] then [] else [text_words ph])"

lemma query_quoted: "convertQuery (quote # cs) =
    phrase_term (takeWhile (\<lambda>x. x \<noteq> quote) cs) @ convertQuery (drop (length (takeWhile (\<lambda>x. x \<noteq> quote) cs) + 1) cs)"
  using quote_facts
  by (simp add: convertQuery_def Let_def splitWords_def phrase_term_def flip: text_words_def)

lemma query_parts:
  assumes "quote \<notin> set plain" and "quote \<notin> set phrase"
  shows "convertQuery plain = map (\<lambda>w. [w]) (text_words plain)"
    and "convertQuery (plain @ quote # phrase @ quote # rest) =
      convertQuery plain @ (if text_words phrase = [] then [] else [text_words phrase]) @ convertQuery rest"
    and "convertQuery (plain @ quote # phrase) =
      convertQuery plain @ (if text_words phrase = [] then [] else [text_words phrase])"
proof -
  have nil: "convertQuery [] = []" by (simp add: convertQuery_def)
  show plain: "convertQuery plain = map (\<lambda>w. [w]) (text_words plain)"
    using query_plain_prefix [OF assms(1), of "[]"] nil by simp
  have tw: "takeWhile (\<lambda>x. x \<noteq> quote) phrase = phrase"
    by (rule takeWhile_eq_all_conv [THEN iffD2]) (use assms(2) in auto)
  have cut: "takeWhile (\<lambda>x. x \<noteq> quote) (phrase @ quote # rest) = phrase"
    using while_stop(1) [of "quote # rest" "\<lambda>x. x \<noteq> quote" phrase] tw by simp
  show "convertQuery (plain @ quote # phrase @ quote # rest) =
      convertQuery plain @ (if text_words phrase = [] then [] else [text_words phrase]) @ convertQuery rest"
    using query_plain_prefix [OF assms(1), of "quote # phrase @ quote # rest"] plain
    by (simp add: query_quoted cut phrase_term_def)
  show "convertQuery (plain @ quote # phrase) =
      convertQuery plain @ (if text_words phrase = [] then [] else [text_words phrase])"
    using query_plain_prefix [OF assms(1), of "quote # phrase"] plain
    by (simp add: query_quoted tw nil phrase_term_def)
qed

text \<open>
  The terms of a query. Outside quotes every word is a term of its own, whatever separates the words;
  a quoted phrase is one term, dropped when it has no word; the closing quote may be missing, and then
  the phrase runs to the end of the query.
\<close>

theorem query_terms:
  assumes "quote \<notin> set plain" and "quote \<notin> set phrase"
  shows "convertQuery plain = map (\<lambda>w. [w]) (text_words plain) \<and>
    convertQuery (plain @ quote # phrase @ quote # rest) =
      convertQuery plain @ (if text_words phrase = [] then [] else [text_words phrase]) @ convertQuery rest \<and>
    convertQuery (plain @ quote # phrase) =
      convertQuery plain @ (if text_words phrase = [] then [] else [text_words phrase])"
  using query_parts [OF assms] by blast

lemma query_terms_witness:
  "convertQuery ''Fast, cheap'' = map (\<lambda>w. [w]) (text_words ''Fast, cheap'') \<and>
    convertQuery (''Fast, cheap'' @ quote # ''Red Kettle!'' @ quote # ''now'') =
      convertQuery ''Fast, cheap'' @ (if text_words ''Red Kettle!'' = [] then [] else [text_words ''Red Kettle!'']) @
      convertQuery ''now'' \<and>
    convertQuery (''Fast, cheap'' @ quote # ''Red Kettle!'') =
      convertQuery ''Fast, cheap'' @ (if text_words ''Red Kettle!'' = [] then [] else [text_words ''Red Kettle!''])"
  by (rule query_terms) (simp_all add: quote_def)

section \<open>The answer of a search\<close>

definition answer :: "rec list \<Rightarrow> string \<Rightarrow> nat list" where
  "answer recs query = filter (\<lambda>i. convertQuery query \<noteq> [] \<and> (\<forall>t \<in> set (convertQuery query). mentions (recs ! i) t))
     [0..<length recs]"

lemma strict_sorted_eq:
  fixes xs ys :: "int list"
  assumes "sorted_wrt (<) xs" and "sorted_wrt (<) ys" and "set xs = set ys"
  shows "xs = ys"
  using assms strict_sorted_equal by blast

lemma search_answer:
  assumes "index_ok recs" and "length query < 2 ^ 31"
  shows "searchKeywordIndex (opened recs) query = Some (map int (answer recs query))"
proof (cases "convertQuery query = []")
  case True
  then show ?thesis by (simp add: searchKeywordIndex_def answer_def)
next
  case False
  have ts: "t \<noteq> [] \<and> length t < 2 ^ 31 \<and> (\<forall>w \<in> set t. is_token w)" if "t \<in> set (convertQuery query)" for t
    using query_tokens [OF that] query_term_length [OF that] assms(2) by simp
  then obtain r where r: "search_loop (findKeyword (opened recs)) (convertQuery query) None = Some r" "sorted_wrt (<) r"
    "set r = int ` {i. \<forall>t \<in> set (convertQuery query). built.term_in recs i t}"
    using built.search_loop_spec [OF assms(1), of "convertQuery query" None] False by auto
  have "{i. \<forall>t \<in> set (convertQuery query). built.term_in recs i t} = set (answer recs query)"
    using False ts by (cases "convertQuery query") (auto simp: term_in_mentions answer_def)
  moreover have "sorted_wrt (<) (map int (answer recs query))"
    by (simp add: answer_def sorted_wrt_map sorted_wrt_filter)
  ultimately have "r = map int (answer recs query)" using r(2,3) by (intro strict_sorted_eq) auto
  with r(1) False show ?thesis by (simp add: searchKeywordIndex_def)
qed

text \<open>
  C6: a search is exact. On the two files that \<open>mkamazondb\<close> writes for \<open>recs\<close> (each under 4 GiB, no field
  over \<open>2 ^ 24\<close> words), \<open>searchKeywordIndex\<close> reads only inside the files and returns, in increasing order
  and once each, exactly the reviews in which every term of the query has its words one after the other
  in one field: none is missed by the binary search or the intersection, and none is invented.
\<close>

theorem search_exact:
  assumes "fits recs" and "short_fields recs" and "length query < 2 ^ 31"
  shows "\<exists>r. searchKeywordIndex (opened recs) query = Some r \<and> sorted_wrt (<) r \<and>
    set r = int ` {i. i < length recs \<and> convertQuery query \<noteq> [] \<and>
      (\<forall>t \<in> set (convertQuery query). \<exists>f < 4. \<exists>before after. text_words (field_text (recs ! i) f) = before @ t @ after)}"
proof -
  have m: "mentions r t \<longleftrightarrow> (\<exists>f < 4. \<exists>before after. text_words (field_text r f) = before @ t @ after)" for r t
    by (simp add: mentions_iff_infix)
  have "index_ok recs" using assms by (simp add: index_ok_def)
  from search_answer [OF this assms(3)] show ?thesis
    by (intro exI [of _ "map int (answer recs query)"])
      (auto simp: answer_def sorted_wrt_map sorted_wrt_filter m)
qed

lemma example_short: "short_fields example_recs"
proof -
  have "length (mk_splitWords s) \<le> length s" for s
    using text_words_length [of s] by (simp add: mk_splitWords_def text_words_def)
  moreover have "length (field_text r f) \<le> 2 ^ 24" if "r \<in> set example_recs" "f < 4" for r f
  proof -
    have "f = 0 \<or> f = 1 \<or> f = 2 \<or> f = 3" using that(2) by linarith
    then show ?thesis using that(1) by (elim disjE) (auto simp: example_recs_def field_text_def)
  qed
  ultimately show ?thesis unfolding short_fields_def by (meson le_trans)
qed

lemma search_exact_witness:
  "\<exists>r. searchKeywordIndex (opened example_recs) (''red '' @ quote # ''boils very'' @ [quote]) = Some r \<and> sorted_wrt (<) r \<and>
    set r = int ` {i. i < length example_recs \<and> convertQuery (''red '' @ quote # ''boils very'' @ [quote]) \<noteq> [] \<and>
      (\<forall>t \<in> set (convertQuery (''red '' @ quote # ''boils very'' @ [quote])).
        \<exists>f < 4. \<exists>before after. text_words (field_text (example_recs ! i) f) = before @ t @ after)}"
  by (rule search_exact [OF example_fits example_short]) simp

section \<open>The printed reviews\<close>

lemma strict_weak_date: "strict_weak date_before"
  unfolding strict_weak_def date_before_def by (auto split: if_splits)

lemma comparator_strict_weak: "strict_weak (comparator key reversed)"
proof -
  have "strict_weak (comparator key False)"
    unfolding comparator_def Let_def if_False
    by (intro if_split [where P = strict_weak, THEN iffD2] conjI impI strict_weak_key strict_weak_date)
  moreover have "comparator key True = (\<lambda>x y. comparator key False y x)" by (simp add: comparator_def)
  ultimately show ?thesis using strict_weak_flip by (cases reversed) simp_all
qed

lemma get_reviews_opened:
  assumes "fits recs" and "\<forall>r \<in> set recs. rec_ok r" and "\<forall>i \<in> set is. i < length recs"
  shows "get_reviews (opened recs) (map int is) = Some (map (\<lambda>i. review_of i (recs ! i)) is)"
proof -
  have "length recs < 2 ^ 32" using assms(1) table_file_header(3) [of rec_bytes recs] by (simp add: fits_def build_db_table)
  then have small: "nat (int i mod 2 ^ 32) = i" if "i < length recs" for i
    using that by (metis mod_pos_pos_trivial nat_int of_nat_0_le_iff of_nat_less_numeral_power_cancel_iff order.strict_trans)
  show ?thesis using assms(3)
    by (induction "is") (simp_all add: getReview_opened [OF assms(1,2)] small del: power_numeral)
qed

text \<open>
  What \<open>amazon_search\<close> prints. For every key and direction it offers, the comparator is one that
  \<open>std::sort\<close> accepts; the number announced is the number of matching reviews; and the reviews shown are
  the first \<open>limit\<close> (all of them when \<open>limit\<close> is negative) of a list that holds each matching review
  once, in the order of the key.
\<close>

theorem search_prints:
  assumes "sorts std_sort" and "fits recs" and "short_fields recs" and "\<forall>r \<in> set recs. rec_ok r" and "length query < 2 ^ 31"
  shows "\<exists>sorted_reviews. search_main std_sort (opened recs) query key reversed limit =
      Some (length (answer recs query), if limit < 0 then sorted_reviews else take (nat limit) sorted_reviews) \<and>
    mset sorted_reviews = mset (map (\<lambda>i. review_of i (recs ! i)) (answer recs query)) \<and>
    sorted_wrt (\<lambda>x y. \<not> comparator key reversed y x) sorted_reviews"
proof -
  have "index_ok recs" using assms by (simp add: index_ok_def)
  note search = search_answer [OF this assms(5)]
  have get: "get_reviews (opened recs) (map int (answer recs query)) = Some (map (\<lambda>i. review_of i (recs ! i)) (answer recs query))"
    by (rule get_reviews_opened [OF assms(2,4)]) (simp add: answer_def)
  let ?s = "std_sort (comparator key reversed) (map (\<lambda>i. review_of i (recs ! i)) (answer recs query))"
  have "mset ?s = mset (map (\<lambda>i. review_of i (recs ! i)) (answer recs query)) \<and> sorted_wrt (\<lambda>x y. \<not> comparator key reversed y x) ?s"
    using assms(1) comparator_strict_weak unfolding sorts_def by blast
  then show ?thesis
    by (intro exI [of _ ?s]) (simp add: search_main_def search getSortedReviewsFromIndexes_def get)
qed

lemma search_prints_witness:
  "\<exists>sorted_reviews. search_main insertion_sort (opened example_recs) ''red'' ''stars'' True 5 =
      Some (length (answer example_recs ''red''), if (5 :: int) < 0 then sorted_reviews else take (nat 5) sorted_reviews) \<and>
    mset sorted_reviews = mset (map (\<lambda>i. review_of i (example_recs ! i)) (answer example_recs ''red'')) \<and>
    sorted_wrt (\<lambda>x y. \<not> comparator ''stars'' True y x) sorted_reviews"
  by (rule search_prints [OF insertion_sort_sorts example_fits example_short])
    (use example_recs_ok in auto)

end
