(* ===== verification/Amazon_Main.thy ===== *)
theory Amazon_Main
  imports Amazon_Props
begin

text \<open>
  The two programs over the review database as a whole: \<open>amazon_search.cc\<close> and \<open>dbase_test.cc\<close>, from their
  options to what they print. What \<open>getopt_long\<close> makes of the command line is an argument: the letters it
  returns with their values, in order, and the arguments from \<open>optind\<close> on. \<^term>\<open>None\<close> is a read outside
  the mapped files; \<open>Terminated\<close> is an exception that nothing catches.
\<close>

datatype program_end = Exited int string string | Terminated

record options =
  o_directory :: string
  o_prefix :: string
  o_key :: string
  o_reversed :: bool
  o_limit :: int

definition default_options :: options where
  "default_options = \<lparr>o_directory = ''.'', o_prefix = ''amazon_reviews_us_Electronics_v1_00'', o_key = ''date'',
     o_reversed = False, o_limit = - 1\<rparr>"

text \<open>The option loop of the search program: the options, or the early end.\<close>

fun search_options :: "string \<Rightarrow> (char \<times> string) list \<Rightarrow> options \<Rightarrow> options + program_end" where
  "search_options usage [] q = Inl q"
| "search_options usage ((ch, optarg) # rest) q =
     (if ch = CHR ''d'' then search_options usage rest (q\<lparr>o_directory := optarg\<rparr>)
      else if ch = CHR ''f'' then search_options usage rest (q\<lparr>o_prefix := optarg\<rparr>)
      else if ch = CHR ''k'' then search_options usage rest (q\<lparr>o_key := optarg\<rparr>)
      else if ch = CHR ''r'' then search_options usage rest (q\<lparr>o_reversed := True\<rparr>)
      else if ch = CHR ''n'' then
        (case stol optarg of None \<Rightarrow> Inr Terminated | Some n \<Rightarrow> search_options usage rest (q\<lparr>o_limit := n\<rparr>))
      else if ch = CHR ''h'' then Inr (Exited 0 usage [])
      else Inr (Exited 1 [] []))"

definition NL :: string where "NL = [CHR 0x0A]"

fun join_words :: "string \<Rightarrow> string list \<Rightarrow> string" where
  "join_words query [] = query"
| "join_words query (w # ws) = join_words ((if query \<noteq> [] then query @ '' '' else query) @ w) ws"

definition printReview :: "review \<Rightarrow> string" where
  "printReview r = ''Review #'' @ show_nat (index r) @ '':'' @ NL @
     ''  Title:    '' @ product_title r @ NL @
     ''  Category: '' @ product_category r @ NL @
     ''  Rating:   '' @ show_nat (star_rating r) @ '' star(s)'' @ NL @
     ''  Headline: '' @ review_headline r @ NL @
     ''  Date:     '' @ show_nat (review_year r) @ ''-'' @ show_nat (review_month r) @ ''-'' @ show_nat (review_day r) @ NL @
     ''  Body:     '' @ review_body r @ NL"

definition found_line :: "nat \<Rightarrow> nat \<Rightarrow> string" where
  "found_line n all_reviews = ''Found '' @ show_nat n @ '' matching reviews out of '' @ show_nat all_reviews @
     '' reviews in the database.'' @ NL"

definition cannot_open :: "string \<Rightarrow> string \<Rightarrow> string" where
  "cannot_open prefix directory = ''error: could not open database '' @ [CHR 0x27] @ prefix @ [CHR 0x27] @ '' in '' @
     [CHR 0x27] @ directory @ [CHR 0x27] @ NL"

definition amazon_search ::
  "((review \<Rightarrow> review \<Rightarrow> bool) \<Rightarrow> review list \<Rightarrow> review list) \<Rightarrow> (string \<rightharpoonup> byte list) \<Rightarrow> string \<Rightarrow>
   (char \<times> string) list \<Rightarrow> string list \<Rightarrow> program_end option" where
  "amazon_search std_sort fs usage opts args =
     (case search_options usage opts default_options of
        Inr e \<Rightarrow> Some e
      | Inl q \<Rightarrow>
          let query = join_words [] args
          in if query = [] then Some (Exited 1 [] (''error: empty query'' @ NL))
             else do {
               db \<leftarrow> open_amazon fs (o_directory q) (o_prefix q);
               if \<not> good db then Some (Exited 1 [] (cannot_open (o_prefix q) (o_directory q)))
               else do {
                 (n, reviews) \<leftarrow> search_main std_sort db query (o_key q) (o_reversed q) (o_limit q);
                 Some (Exited 0 (found_line n (numReviews db) @ concat (map printReview reviews)) [])
               }
             })"

section \<open>The lookup program\<close>

fun test_options :: "string \<Rightarrow> (char \<times> string) list \<Rightarrow> options \<Rightarrow> options + program_end" where
  "test_options usage [] q = Inl q"
| "test_options usage ((ch, optarg) # rest) q =
     (if ch = CHR ''d'' then test_options usage rest (q\<lparr>o_directory := optarg\<rparr>)
      else if ch = CHR ''f'' then test_options usage rest (q\<lparr>o_prefix := optarg\<rparr>)
      else if ch = CHR ''h'' then Inr (Exited 0 usage [])
      else Inr (Exited 1 [] []))"

text \<open>\<open>static_cast<unsigned int>\<close> of a \<open>std::stoul\<close>.\<close>

definition index_of :: "string \<Rightarrow> nat option" where
  "index_of s = map_option (\<lambda>n. n mod 2 ^ 32) (stoul s)"

definition index_prompt :: string where
  "index_prompt = ''Please enter an index (<enter> to end): ''"

text \<open>The loop over the lines of standard input; \<open>said\<close> is what has been printed.\<close>

fun index_loop :: "amazon \<Rightarrow> string list \<Rightarrow> string \<Rightarrow> program_end option" where
  "index_loop db [] said = Some (Exited 0 (said @ index_prompt) [])"
| "index_loop db (line # ls) said =
     (if line = [] then Some (Exited 0 (said @ index_prompt) [])
      else case index_of line of
          None \<Rightarrow> Some Terminated
        | Some i \<Rightarrow>
            (case getReview db i of
               None \<Rightarrow> None
             | Some found \<Rightarrow>
                 index_loop db ls (said @ index_prompt @ (case found of Some r \<Rightarrow> printReview r | None \<Rightarrow> ''invalid index'' @ NL))))"

definition dbase_test :: "(string \<rightharpoonup> byte list) \<Rightarrow> string \<Rightarrow> (char \<times> string) list \<Rightarrow> string list \<Rightarrow> string list \<Rightarrow> program_end option" where
  "dbase_test fs usage opts args ls =
     (case test_options usage opts default_options of
        Inr e \<Rightarrow> Some e
      | Inl q \<Rightarrow> do {
          db \<leftarrow> open_amazon fs (o_directory q) (o_prefix q);
          if \<not> good db then Some (Exited 1 [] (cannot_open (o_prefix q) (o_directory q)))
          else case args of
              a # _ \<Rightarrow>
                (case index_of a of
                   None \<Rightarrow> Some Terminated
                 | Some i \<Rightarrow>
                     (case getReview db i of
                        None \<Rightarrow> None
                      | Some (Some r) \<Rightarrow> Some (Exited 0 (printReview r) [])
                      | Some None \<Rightarrow> Some (Exited 1 [] (''invalid index '' @ show_nat i @ NL))))
            | [] \<Rightarrow> index_loop db ls (''Total number of reviews: '' @ show_nat (numReviews db) @ NL)
        })"

section \<open>What they print\<close>

text \<open>Whatever is typed, the lookups read inside the file, and each line is answered from the records.\<close>

lemma index_loop_opened:
  assumes "fits recs" and "\<forall>r \<in> set recs. rec_ok r"
  shows "\<exists>e. index_loop (opened recs) ls said = Some e"
  by (induction ls arbitrary: said) (simp_all add: getReview_opened [OF assms] split: option.split)

lemma index_loop_line:
  assumes "fits recs" and "\<forall>r \<in> set recs. rec_ok r" and "line \<noteq> []" and "index_of line = Some i"
  shows "index_loop (opened recs) (line # ls) said =
    index_loop (opened recs) ls (said @ index_prompt @ (if i < length recs then printReview (review_of i (recs ! i)) else ''invalid index'' @ NL))"
  using assms(3,4) by (simp add: getReview_opened [OF assms(1,2)])

text \<open>
  C36: the search program end to end. After \<open>mkamazondb\<close> has built the database from a TSV text, a run of
  \<open>amazon_search\<close> with any options that name it and any query ends with status 0, having printed the exact
  number of reviews that match and then the first \<open>limit\<close> (all when it is negative) of a list that holds
  each matching review once, in the order of the chosen key and direction. Every byte it reads is inside
  the files.
\<close>

theorem search_program:
  assumes "sorts std_sort" and "mkamazondb tsv dir prefix = Some fs" and "read_tsv tsv = Some (recs, bad)" and "dir \<noteq> []"
    and "fits recs" and "short_fields recs" and "\<forall>r \<in> set recs. rec_ok r"
    and "search_options usage opts default_options = Inl q" and "o_directory q = dir" and "o_prefix q = prefix"
    and "join_words [] args \<noteq> []" and "length (join_words [] args) < 2 ^ 31"
  shows "\<exists>ranked. amazon_search std_sort fs usage opts args =
      Some (Exited 0 (found_line (length (answer recs (join_words [] args))) (length recs) @
        concat (map printReview (if o_limit q < 0 then ranked else take (nat (o_limit q)) ranked))) []) \<and>
    mset ranked = mset (map (\<lambda>i. review_of i (recs ! i)) (answer recs (join_words [] args))) \<and>
    sorted_wrt (\<lambda>x y. \<not> comparator (o_key q) (o_reversed q) y x) ranked"
proof -
  obtain ranked where r: "search_main std_sort (opened recs) (join_words [] args) (o_key q) (o_reversed q) (o_limit q) =
      Some (length (answer recs (join_words [] args)), if o_limit q < 0 then ranked else take (nat (o_limit q)) ranked)"
    "mset ranked = mset (map (\<lambda>i. review_of i (recs ! i)) (answer recs (join_words [] args)))"
    "sorted_wrt (\<lambda>x y. \<not> comparator (o_key q) (o_reversed q) y x) ranked"
    using search_prints [OF assms(1,5,6,7,12)] by blast
  have "open_amazon fs (o_directory q) (o_prefix q) = Some (opened recs)"
    using open_built [OF assms(5,2,3,4)] assms(9,10) by simp
  moreover have "good (opened recs)" "numReviews (opened recs) = length recs" by (simp_all add: good_def opened_def)
  ultimately have "amazon_search std_sort fs usage opts args =
      Some (Exited 0 (found_line (length (answer recs (join_words [] args))) (length recs) @
        concat (map printReview (if o_limit q < 0 then ranked else take (nat (o_limit q)) ranked))) [])"
    using assms(8,11) r(1) by (simp add: amazon_search_def)
  with r(2,3) show ?thesis by blast
qed

lemma example_program_options:
  "search_options ''usage'' [(CHR ''d'', ''data''), (CHR ''f'', ''r''), (CHR ''n'', ''5''), (CHR ''k'', ''stars''), (CHR ''r'', [])] default_options =
    Inl \<lparr>o_directory = ''data'', o_prefix = ''r'', o_key = ''stars'', o_reversed = True, o_limit = 5\<rparr>"
  by code_simp

lemma search_program_witness:
  "\<exists>fs ranked. mkamazondb (tsv_text example_recs) ''data'' ''r'' = Some fs \<and> amazon_search insertion_sort fs ''usage''
      [(CHR ''d'', ''data''), (CHR ''f'', ''r''), (CHR ''n'', ''5''), (CHR ''k'', ''stars''), (CHR ''r'', [])] [''red'', ''kettle''] =
      Some (Exited 0 (found_line (length (answer example_recs ''red kettle'')) (length example_recs) @
        concat (map printReview (take 5 ranked))) []) \<and>
    mset ranked = mset (map (\<lambda>i. review_of i (example_recs ! i)) (answer example_recs ''red kettle'')) \<and>
    sorted_wrt (\<lambda>x y. \<not> comparator ''stars'' True y x) ranked"
proof -
  have tsv: "read_tsv (tsv_text example_recs) = Some (example_recs, 0)" by (rule read_tsv_text) (use example_recs_ok in blast)
  then obtain fs where fs: "mkamazondb (tsv_text example_recs) ''data'' ''r'' = Some fs" by (simp add: mkamazondb_def)
  have j: "join_words [] [''red'', ''kettle''] = ''red kettle''" by simp
  show ?thesis
    using search_program [OF insertion_sort_sorts fs tsv _ example_fits example_short _ example_program_options, of "[''red'', ''kettle'']"]
      example_recs_ok fs unfolding j by auto
qed

end
