(* ===== verification/Http_Reader.thy ===== *)
theory Http_Reader
  imports Prelude
begin

text \<open>
  The buffered socket reader \<open>SockReader\<close> of \<open>http.h\<close> and \<open>http.cc\<close> (the same files serve the proxy
  and the news aggregator). The socket is the list of byte runs that successive \<open>read\<close> calls
  return; the end of the list, or an empty run, is a call that returns 0 or fails. What the message
  parsers rely on is the interface \<open>byte_stream\<close>: the reader consumes one string, however the
  network cut it.
\<close>

record sock_reader =
  sock :: "string list"
  rbuf :: string

abbreviation LF :: char where "LF \<equiv> CHR 0x0A"
abbreviation CR :: char where "CR \<equiv> CHR 0x0D"

definition open_reader :: "string list \<Rightarrow> sock_reader" where
  "open_reader chunks = \<lparr>sock = chunks, rbuf = []\<rparr>"

definition fill :: "sock_reader \<Rightarrow> bool \<times> sock_reader" where
  "fill r = (case sock r of
       [] \<Rightarrow> (False, r)
     | c # cs \<Rightarrow> if c = [] then (False, r\<lparr>sock := cs\<rparr>) else (True, r\<lparr>sock := cs, rbuf := rbuf r @ c\<rparr>))"

definition pop_cr :: "string \<Rightarrow> string" where
  "pop_cr l = (if l \<noteq> [] \<and> last l = CR then butlast l else l)"

lemma fill_shorter: "fill r = (b, r') \<Longrightarrow> b \<or> sock r \<noteq> [] \<Longrightarrow> length (sock r') < length (sock r)"
  by (auto simp: fill_def split: list.splits if_splits)

function readLine :: "sock_reader \<Rightarrow> string option \<times> sock_reader" where
  "readLine r =
     (case find_char LF (rbuf r) of
        Some nl \<Rightarrow> (Some (pop_cr (take nl (rbuf r))), r\<lparr>rbuf := drop (nl + 1) (rbuf r)\<rparr>)
      | None \<Rightarrow>
          (case fill r of
             (True, r') \<Rightarrow> readLine r'
           | (False, r') \<Rightarrow> if rbuf r' = [] then (None, r') else (Some (rbuf r'), r'\<lparr>rbuf := []\<rparr>)))"
  by pat_completeness auto
termination
  by (relation "measure (\<lambda>r. length (sock r))") (auto dest: fill_shorter [OF sym])

declare readLine.simps [simp del]

text \<open>The two loops that fill the buffer.\<close>

function fill_to :: "nat \<Rightarrow> sock_reader \<Rightarrow> sock_reader" where
  "fill_to n r =
     (if length (rbuf r) < n then (case fill r of (True, r') \<Rightarrow> fill_to n r' | (False, r') \<Rightarrow> r') else r)"
  by pat_completeness auto
termination
  by (relation "measure (\<lambda>(n, r). length (sock r))") (auto dest: fill_shorter [OF sym])

declare fill_to.simps [simp del]

definition readExactly :: "nat \<Rightarrow> string \<Rightarrow> sock_reader \<Rightarrow> string \<times> sock_reader" where
  "readExactly n out r =
     (let r' = fill_to n r; m = min n (length (rbuf r'))
      in (out @ take m (rbuf r'), r'\<lparr>rbuf := drop m (rbuf r')\<rparr>))"

function drain :: "string \<Rightarrow> sock_reader \<Rightarrow> string \<times> sock_reader" where
  "drain out r =
     (case fill r of
        (True, r') \<Rightarrow> drain (out @ rbuf r') (r'\<lparr>rbuf := []\<rparr>)
      | (False, r') \<Rightarrow> (out, r'))"
  by pat_completeness auto
termination
  by (relation "measure (\<lambda>(out, r). length (sock r))") (auto dest: fill_shorter [OF sym])

declare drain.simps [simp del]

definition readUntilEOF :: "string \<Rightarrow> sock_reader \<Rightarrow> string \<times> sock_reader" where
  "readUntilEOF out r = drain (out @ rbuf r) (r\<lparr>rbuf := []\<rparr>)"

section \<open>The stream behind the reader\<close>

text \<open>All that is still to come, and the runs that \<open>read\<close> can return (never empty).\<close>

definition remaining :: "sock_reader \<Rightarrow> string" where
  "remaining r = rbuf r @ concat (sock r)"

definition reader_ok :: "sock_reader \<Rightarrow> bool" where
  "reader_ok r \<longleftrightarrow> [] \<notin> set (sock r)"

lemma remaining_update [simp]: "remaining (r\<lparr>rbuf := b\<rparr>) = b @ concat (sock r)"
  by (simp add: remaining_def)

text \<open>A line of a string: up to the newline, without one carriage return; or the unterminated rest.\<close>

definition next_line :: "string \<Rightarrow> string option \<times> string" where
  "next_line s = (case find_char LF s of
       Some nl \<Rightarrow> (Some (pop_cr (take nl s)), drop (nl + 1) s)
     | None \<Rightarrow> (if s = [] then None else Some s, []))"

locale byte_stream =
  fixes rest :: "'r \<Rightarrow> string" and ok :: "'r \<Rightarrow> bool"
    and get_line :: "'r \<Rightarrow> string option \<times> 'r"
    and get_bytes :: "nat \<Rightarrow> string \<Rightarrow> 'r \<Rightarrow> string \<times> 'r"
    and get_all :: "string \<Rightarrow> 'r \<Rightarrow> string \<times> 'r"
  assumes line_law: "ok r \<Longrightarrow> get_line r = (l, r') \<Longrightarrow> (l, rest r') = next_line (rest r) \<and> ok r'"
    and bytes_law: "ok r \<Longrightarrow> get_bytes n out r = (out', r') \<Longrightarrow>
      out' = out @ take n (rest r) \<and> rest r' = drop n (rest r) \<and> ok r'"
    and all_law: "ok r \<Longrightarrow> get_all out r = (out', r') \<Longrightarrow> out' = out @ rest r \<and> rest r' = [] \<and> ok r'"
begin

lemma same_line:
  assumes "ok r" and "ok q" and "rest r = rest q"
  shows "fst (get_line r) = fst (get_line q) \<and> rest (snd (get_line r)) = rest (snd (get_line q))"
  using line_law [OF assms(1), of "fst (get_line r)" "snd (get_line r)"]
    line_law [OF assms(2), of "fst (get_line q)" "snd (get_line q)"] assms(3)
  by (metis prod.collapse prod.inject)

lemma line_of:
  assumes "ok r" and "rest r = l @ CR # LF # s" and "LF \<notin> set l"
  shows "fst (get_line r) = Some l" and "rest (snd (get_line r)) = s" and "ok (snd (get_line r))"
proof -
  have "find_char LF (rest r) = Some (Suc (length l))"
    using assms(3) find_char_append [of LF "l @ [CR]" s] by (simp add: assms(2))
  then have "next_line (rest r) = (Some l, s)" by (simp add: next_line_def assms(2) pop_cr_def)
  then show "fst (get_line r) = Some l" and "rest (snd (get_line r)) = s" and "ok (snd (get_line r))"
    using line_law [OF assms(1), of "fst (get_line r)" "snd (get_line r)"] by simp_all
qed

end

lemma find_char_append_Some: "find_char c xs = Some i \<Longrightarrow> find_char c (xs @ ys) = Some i"
  by (induction xs arbitrary: i) auto

lemma fill_facts:
  assumes "reader_ok r" and "fill r = (b, r')"
  shows "reader_ok r'" and "remaining r' = remaining r" and "\<not> b \<Longrightarrow> sock r' = [] \<and> r' = r"
  using assms by (auto simp: fill_def reader_ok_def remaining_def split: list.splits if_splits)

lemma fill_remaining: "fill r = (b, r') \<Longrightarrow> remaining r' = remaining r"
  by (auto simp: fill_def remaining_def split: list.splits if_splits)

lemma readLine_shortens: "readLine r = (Some l, r') \<Longrightarrow> length (remaining r') < length (remaining r)"
proof (induction r arbitrary: l r' rule: readLine.induct)
  case (1 r)
  show ?case
  proof (cases "find_char LF (rbuf r)")
    case (Some nl)
    then have "nl < length (rbuf r)" by (simp add: find_char_Some_iff)
    with Some "1.prems" show ?thesis by (auto simp: readLine.simps [of r] remaining_def)
  next
    case None
    obtain b q where f: "fill r = (b, q)" by (cases "fill r")
    show ?thesis
    proof (cases b)
      case True
      with "1.IH" [OF None, of b q l r'] f "1.prems" None fill_remaining [OF f] show ?thesis
        by (simp add: readLine.simps [of r])
    next
      case False
      with f None "1.prems" have "rbuf q \<noteq> []" "r' = q\<lparr>rbuf := []\<rparr>"
        by (auto simp: readLine.simps [of r] split: if_splits)
      with fill_remaining [OF f, symmetric] show ?thesis by (simp add: remaining_def [of q])
    qed
  qed
qed

lemma readLine_law: "reader_ok r \<Longrightarrow> readLine r = (l, r') \<Longrightarrow> (l, remaining r') = next_line (remaining r) \<and> reader_ok r'"
proof (induction r arbitrary: l r' rule: readLine.induct)
  case (1 r)
  show ?case
  proof (cases "find_char LF (rbuf r)")
    case (Some nl)
    then have "find_char LF (remaining r) = Some nl" by (simp add: remaining_def find_char_append_Some)
    moreover have "nl < length (rbuf r)" using Some by (simp add: find_char_Some_iff)
    ultimately show ?thesis
      using Some "1.prems" by (auto simp: readLine.simps [of r] next_line_def remaining_def reader_ok_def)
  next
    case None
    obtain b q where f: "fill r = (b, q)" by (cases "fill r")
    note facts = fill_facts [OF "1.prems"(1) f]
    show ?thesis
    proof (cases b)
      case True
      then show ?thesis
        using "1.IH" [OF None, of b q l r'] f "1.prems" facts None by (simp add: readLine.simps [of r])
    next
      case False
      with facts have "remaining r = rbuf r" "sock r = []" "q = r" by (auto simp: remaining_def)
      with False f None "1.prems" show ?thesis
        by (auto simp: readLine.simps [of r] next_line_def remaining_def reader_ok_def split: if_splits)
    qed
  qed
qed

lemma fill_to_facts:
  "reader_ok r \<Longrightarrow> reader_ok (fill_to n r) \<and> remaining (fill_to n r) = remaining r \<and>
     (n \<le> length (rbuf (fill_to n r)) \<or> sock (fill_to n r) = [])"
proof (induction n r rule: fill_to.induct)
  case (1 n r)
  obtain b q where f: "fill r = (b, q)" by (cases "fill r")
  note facts = fill_facts [OF "1.prems" f]
  show ?case
  proof (cases "length (rbuf r) < n \<and> b")
    case True
    with "1.IH" [of b q] f facts show ?thesis by (simp add: fill_to.simps [of n r])
  next
    case False
    with f facts "1.prems" show ?thesis by (auto simp: fill_to.simps [of n r])
  qed
qed

lemma readExactly_law:
  assumes "reader_ok r" and "readExactly n out r = (out', r')"
  shows "out' = out @ take n (remaining r) \<and> remaining r' = drop n (remaining r) \<and> reader_ok r'"
proof -
  let ?q = "fill_to n r"
  note f = fill_to_facts [OF assms(1), of n]
  have "take (min n (length (rbuf ?q))) (rbuf ?q) = take n (remaining ?q)"
    and "drop (min n (length (rbuf ?q))) (rbuf ?q) @ concat (sock ?q) = drop n (remaining ?q)"
    using conjunct2 [OF conjunct2 [OF f]] by (auto simp: remaining_def [of ?q] min_def)
  with f assms(2) show ?thesis
    by (auto simp: readExactly_def Let_def reader_ok_def)
qed

lemma drain_law:
  "reader_ok r \<Longrightarrow> rbuf r = [] \<Longrightarrow> drain out r = (out', r') \<Longrightarrow>
   out' = out @ remaining r \<and> remaining r' = [] \<and> reader_ok r'"
proof (induction out r arbitrary: out' r' rule: drain.induct)
  case (1 out r)
  obtain b q where f: "fill r = (b, q)" by (cases "fill r")
  note facts = fill_facts [OF "1.prems"(1) f]
  show ?case
  proof (cases b)
    case True
    have "reader_ok (q\<lparr>rbuf := []\<rparr>)" and "remaining r = rbuf q @ remaining (q\<lparr>rbuf := []\<rparr>)"
      using facts by (simp_all add: reader_ok_def remaining_def)
    with True "1.IH" [of b q out' r'] f "1.prems"(3) show ?thesis
      by (simp add: drain.simps [of out r])
  next
    case False
    with facts f "1.prems" show ?thesis by (auto simp: drain.simps [of out r] remaining_def)
  qed
qed

interpretation reader: byte_stream remaining reader_ok readLine readExactly readUntilEOF
proof unfold_locales
  show "out' = out @ remaining r \<and> remaining r' = [] \<and> reader_ok r'"
    if "reader_ok r" "readUntilEOF out r = (out', r')" for r out out' r'
  proof -
    have "reader_ok (r\<lparr>rbuf := []\<rparr>)" and "remaining r = rbuf r @ remaining (r\<lparr>rbuf := []\<rparr>)"
      using that(1) by (simp_all add: reader_ok_def remaining_def)
    with that(2) drain_law [of "r\<lparr>rbuf := []\<rparr>" "out @ rbuf r" out' r'] show ?thesis
      by (simp add: readUntilEOF_def)
  qed
qed (use readLine_law readExactly_law in blast)+

lemma reader_ok_open: "reader_ok (open_reader cs) \<longleftrightarrow> [] \<notin> set cs"
  and remaining_open: "remaining (open_reader cs) = concat cs"
  by (simp_all add: open_reader_def reader_ok_def remaining_def)

end
