(* ===== verification/Http_Message.thy ===== *)
theory Http_Message
  imports Http_Reader
begin

text \<open>
  The HTTP message model of \<open>http.h\<close> and \<open>http.cc\<close>: the case-insensitive header collection with its
  interface \<open>header_map\<close>, URL and request parsing, response parsing, and both serialisers.
\<close>

section \<open>Headers\<close>

type_synonym http_header = "(string \<times> string) list"

abbreviation TAB :: char where "TAB \<equiv> CHR 0x09"
abbreviation CRLF :: string where "CRLF \<equiv> [CR, LF]"

definition lower :: "string \<Rightarrow> string" where
  "lower s = map tolower s"

definition header_add :: "string \<Rightarrow> string \<Rightarrow> http_header \<Rightarrow> http_header" where
  "header_add name v h = h @ [(name, v)]"

definition header_remove :: "string \<Rightarrow> http_header \<Rightarrow> http_header" where
  "header_remove name h = filter (\<lambda>e. lower (fst e) \<noteq> lower name) h"

fun header_has :: "string \<Rightarrow> http_header \<Rightarrow> bool" where
  "header_has name [] = False"
| "header_has name (e # h) = (if lower (fst e) = lower name then True else header_has name h)"

fun header_get :: "string \<Rightarrow> http_header \<Rightarrow> string" where
  "header_get name [] = []"
| "header_get name (e # h) = (if lower (fst e) = lower name then snd e else header_get name h)"

fun header_serialize :: "http_header \<Rightarrow> string" where
  "header_serialize [] = []"
| "header_serialize (e # h) = fst e @ '': '' @ snd e @ CRLF @ header_serialize h"

definition skip_blanks :: "string \<Rightarrow> string" where
  "skip_blanks v = dropWhile (\<lambda>c. c = CHR '' '' \<or> c = TAB) v"

function header_parse :: "sock_reader \<Rightarrow> http_header \<Rightarrow> http_header \<times> sock_reader" where
  "header_parse r h =
     (case readLine r of
        (None, r') \<Rightarrow> (h, r')
      | (Some line, r') \<Rightarrow>
          if line = [] then (h, r')
          else (case find_char CHR '':'' line of
                  None \<Rightarrow> header_parse r' h
                | Some colon \<Rightarrow>
                    header_parse r' (header_add (take colon line) (skip_blanks (drop (colon + 1) line)) h)))"
  by pat_completeness auto
termination
  by (relation "measure (\<lambda>(r, h). length (remaining r))") (auto dest: readLine_shortens [OF sym])

declare header_parse.simps [simp del]


text \<open>The contract of a header collection; names are compared by a key.\<close>

locale header_map =
  fixes key :: "string \<Rightarrow> string"
    and add :: "string \<Rightarrow> string \<Rightarrow> 'h \<Rightarrow> 'h" and remove :: "string \<Rightarrow> 'h \<Rightarrow> 'h"
    and has :: "string \<Rightarrow> 'h \<Rightarrow> bool" and get :: "string \<Rightarrow> 'h \<Rightarrow> string"
  assumes has_add: "has n (add m v h) \<longleftrightarrow> has n h \<or> key n = key m"
    and get_add: "get n (add m v h) = (if has n h then get n h else if key n = key m then v else get n h)"
    and has_remove: "has n (remove m h) \<longleftrightarrow> has n h \<and> key n \<noteq> key m"
    and get_remove: "key n \<noteq> key m \<Longrightarrow> get n (remove m h) = get n h"
begin

text \<open>Setting a header the way the sources do: remove, then add.\<close>

lemma set_get: "get n (add m v (remove m h)) = (if key n = key m then v else get n h)"
  by (simp add: get_add has_remove get_remove)

lemma set_has: "has n (add m v (remove m h)) \<longleftrightarrow> has n h \<or> key n = key m"
  by (auto simp: has_add has_remove)

end

lemma header_has_append: "header_has n (h @ g) \<longleftrightarrow> header_has n h \<or> header_has n g"
  by (induction h) auto

lemma header_get_append: "header_get n (h @ g) = (if header_has n h then header_get n h else header_get n g)"
  by (induction h) auto

lemma header_has_iff: "header_has n h \<longleftrightarrow> (\<exists>e \<in> set h. lower (fst e) = lower n)"
  by (induction h) auto

lemma header_get_absent: "\<not> header_has n h \<Longrightarrow> header_get n h = []"
  by (induction h) (auto split: if_splits)

interpretation headers: header_map lower header_add header_remove header_has header_get
proof unfold_locales
  show "header_get n (header_add m v h) =
      (if header_has n h then header_get n h else if lower n = lower m then v else header_get n h)" for n m v h
    by (simp add: header_add_def header_get_append header_get_absent eq_commute)
  show "header_get n (header_remove m h) = header_get n h" if "lower n \<noteq> lower m" for n m h
    using that by (induction h) (auto simp: header_remove_def)
qed (auto simp: header_add_def header_has_append header_remove_def header_has_iff intro: rev_bexI)

section \<open>URLs\<close>

record request_target =
  t_host :: string
  t_port :: u16
  t_path :: string

definition default_target :: request_target where
  "default_target = \<lparr>t_host = [], t_port = 80, t_path = ''/''\<rparr>"

definition split_authority :: "string \<Rightarrow> string \<times> u16" where
  "split_authority a = (case find_char CHR '':'' a of
       None \<Rightarrow> (a, 80)
     | Some colon \<Rightarrow> (take colon a, word_of_int (atoi (drop (colon + 1) a))))"

definition parse_hier :: "string \<Rightarrow> request_target" where
  "parse_hier rest =
     (let (authority, path) = (case find_char CHR ''/'' rest of
            None \<Rightarrow> (rest, ''/'') | Some slash \<Rightarrow> (take slash rest, drop slash rest));
          (host, port) = split_authority authority
      in \<lparr>t_host = host, t_port = port, t_path = path\<rparr>)"

definition parseURL :: "string \<Rightarrow> request_target \<Rightarrow> request_target" where
  "parseURL url t =
     (case find_sub ''://'' url of
        Some scheme \<Rightarrow> parse_hier (drop (scheme + 3) url)
      | None \<Rightarrow>
          if take 2 url = ''//'' then parse_hier (drop 2 url)
          else t\<lparr>t_path := (if url = [] then ''/'' else url)\<rparr>)"

section \<open>Requests\<close>

record http_request =
  r_method :: string
  r_url :: string
  r_protocol :: string
  r_target :: request_target
  r_headers :: http_header
  r_body :: string

text \<open>\<open>stream >> word\<close>: leading white space skipped, then a maximal run of other characters.\<close>

definition next_word :: "string \<Rightarrow> string \<times> string" where
  "next_word s = (let s' = dropWhile isspace s
     in (takeWhile (\<lambda>c. \<not> isspace c) s', dropWhile (\<lambda>c. \<not> isspace c) s'))"

definition target_from_host :: "http_header \<Rightarrow> request_target \<Rightarrow> request_target" where
  "target_from_host h t =
     (if t_host t = [] \<and> header_has ''Host'' h
      then (let (host, port) = split_authority (header_get ''Host'' h) in t\<lparr>t_host := host, t_port := port\<rparr>)
      else t)"

definition content_length :: "http_header \<Rightarrow> nat" where
  "content_length h = strtoul (header_get ''Content-Length'' h)"

definition request_parse :: "sock_reader \<Rightarrow> http_request option \<times> sock_reader" where
  "request_parse r =
     (case readLine r of
        (None, r1) \<Rightarrow> (None, r1)
      | (Some line, r1) \<Rightarrow>
          if line = [] then (None, r1)
          else
            let (method, s1) = next_word line; (url, s2) = next_word s1; (protocol, s3) = next_word s2
            in if protocol = [] then (None, r1)
               else
                 let (h, r2) = header_parse r1 [];
                     target = target_from_host h (parseURL url default_target);
                     (body, r3) = (if header_has ''Content-Length'' h
                       then readExactly (content_length h) [] r2 else ([], r2))
                 in (Some \<lparr>r_method = method, r_url = url, r_protocol = protocol, r_target = target,
                       r_headers = h, r_body = body\<rparr>, r3))"

definition request_serialize :: "http_request \<Rightarrow> string" where
  "request_serialize q =
     r_method q @ '' '' @ t_path (r_target q) @ '' '' @ r_protocol q @ CRLF @
     header_serialize (r_headers q) @ CRLF @ r_body q"

section \<open>Responses\<close>

record http_response =
  p_protocol :: string
  p_code :: int
  p_reason :: string
  p_headers :: http_header
  p_body :: string

definition new_response :: http_response where
  "new_response = \<lparr>p_protocol = ''HTTP/1.0'', p_code = 0, p_reason = [], p_headers = [], p_body = []\<rparr>"

text \<open>
  \<open>stream >> code_\<close>: an optional sign and digits; on failure the value is 0, or the nearest \<open>int\<close> when
  out of range. The flag is the stream's state.
\<close>

definition read_int :: "string \<Rightarrow> int \<times> bool \<times> string" where
  "read_int s =
     (let (neg, r) = scan_sign s; ds = takeWhile isdigit r; rest = dropWhile isdigit r;
          v = (if neg then - int (dec_nat ds) else int (dec_nat ds))
      in if ds = [] then (0, False, rest)
         else if v < - (2 ^ 31) then (- (2 ^ 31), False, rest)
         else if v \<ge> 2 ^ 31 then (2 ^ 31 - 1, False, rest)
         else (v, True, rest))"

definition status_line :: "string \<Rightarrow> http_response \<Rightarrow> http_response" where
  "status_line line p =
     (let (protocol, s) = next_word line; s' = dropWhile isspace s
      in if protocol = [] then p
         else if s' = [] then p\<lparr>p_protocol := protocol\<rparr>
         else
           let (code, ok, rest) = read_int s'
           in p\<lparr>p_protocol := protocol, p_code := code,
                p_reason := (if ok \<and> rest \<noteq> [] then (if hd rest = CHR '' '' then tl rest else rest)
                             else p_reason p)\<rparr>)"

definition ingestFrom :: "sock_reader \<Rightarrow> http_response \<Rightarrow> http_response \<times> sock_reader" where
  "ingestFrom r p =
     (let (l, r1) = readLine r;
          p1 = (case l of Some line \<Rightarrow> status_line line p | None \<Rightarrow> p);
          (h, r2) = header_parse r1 (p_headers p1);
          (body, r3) = (if header_has ''Content-Length'' h
            then readExactly (content_length h) (p_body p1) r2 else readUntilEOF (p_body p1) r2)
      in (p1\<lparr>p_headers := h, p_body := body\<rparr>, r3))"

definition setStatus :: "int \<Rightarrow> string \<Rightarrow> http_response \<Rightarrow> http_response" where
  "setStatus code reason p = p\<lparr>p_code := code, p_reason := reason\<rparr>"

definition setBody :: "string \<Rightarrow> http_response \<Rightarrow> http_response" where
  "setBody b p = p\<lparr>p_body := b,
     p_headers := header_add ''Content-Length'' (show_nat (length b)) (header_remove ''Content-Length'' (p_headers p))\<rparr>"

definition response_serialize :: "http_response \<Rightarrow> string" where
  "response_serialize p =
     p_protocol p @ '' '' @ show_int (p_code p) @ '' '' @ p_reason p @ CRLF @
     header_serialize (p_headers p) @ CRLF @ p_body p"


section \<open>Only the bytes matter\<close>

lemma header_parse_same:
  assumes "reader_ok r" and "reader_ok q" and "remaining r = remaining q"
  shows "fst (header_parse r h) = fst (header_parse q h) \<and>
    remaining (snd (header_parse r h)) = remaining (snd (header_parse q h)) \<and>
    reader_ok (snd (header_parse r h)) \<and> reader_ok (snd (header_parse q h))"
  using assms
proof (induction r h arbitrary: q rule: header_parse.induct)
  case (1 r h)
  obtain l r1 where r: "readLine r = (l, r1)" by (cases "readLine r")
  obtain l' q1 where q: "readLine q = (l', q1)" by (cases "readLine q")
  have eq: "l' = l" "remaining r1 = remaining q1"
    using reader.same_line [OF "1.prems"] r q by simp_all
  have ok: "reader_ok r1" "reader_ok q1"
    using reader.line_law [OF "1.prems"(1) r] reader.line_law [OF "1.prems"(2) q] by simp_all
  show ?case
  proof (cases "l = None \<or> l = Some []")
    case True
    then show ?thesis using eq ok r q by (auto simp: header_parse.simps [of r h] header_parse.simps [of q h])
  next
    case False
    then obtain line where l: "l = Some line" "line \<noteq> []" by auto
    show ?thesis
    proof (cases "find_char CHR '':'' line")
      case None
      with "1.IH"(1) [OF r [symmetric] l(1) l(2) None, of q1] eq ok r q l show ?thesis
        by (simp add: header_parse.simps [of r h] header_parse.simps [of q h])
    next
      case (Some colon)
      with "1.IH"(2) [OF r [symmetric] l(1) l(2) Some, of q1] eq ok r q l show ?thesis
        by (simp add: header_parse.simps [of r h] header_parse.simps [of q h])
    qed
  qed
qed

lemma readExactly_same:
  assumes "reader_ok r" and "reader_ok q" and "remaining r = remaining q"
  shows "fst (readExactly n out r) = fst (readExactly n out q) \<and>
    remaining (snd (readExactly n out r)) = remaining (snd (readExactly n out q))"
  using reader.bytes_law [OF assms(1), of n out "fst (readExactly n out r)" "snd (readExactly n out r)"]
    reader.bytes_law [OF assms(2), of n out "fst (readExactly n out q)" "snd (readExactly n out q)"] assms(3)
  by simp

lemma readUntilEOF_same:
  assumes "reader_ok r" and "reader_ok q" and "remaining r = remaining q"
  shows "fst (readUntilEOF out r) = fst (readUntilEOF out q) \<and>
    remaining (snd (readUntilEOF out r)) = remaining (snd (readUntilEOF out q))"
  using reader.all_law [OF assms(1), of out "fst (readUntilEOF out r)" "snd (readUntilEOF out r)"]
    reader.all_law [OF assms(2), of out "fst (readUntilEOF out q)" "snd (readUntilEOF out q)"] assms(3)
  by simp

lemma ingest_same:
  assumes "reader_ok r" and "reader_ok q" and "remaining r = remaining q"
  shows "fst (ingestFrom r p) = fst (ingestFrom q p) \<and>
    remaining (snd (ingestFrom r p)) = remaining (snd (ingestFrom q p))"
proof -
  obtain l r1 where r: "readLine r = (l, r1)" by (cases "readLine r")
  obtain l' q1 where q: "readLine q = (l', q1)" by (cases "readLine q")
  have eq: "l' = l" "remaining r1 = remaining q1"
    using reader.same_line [OF assms] r q by simp_all
  have ok: "reader_ok r1" "reader_ok q1"
    using reader.line_law [OF assms(1) r] reader.line_law [OF assms(2) q] by simp_all
  define p1 where "p1 = (case l of Some line \<Rightarrow> status_line line p | None \<Rightarrow> p)"
  define h0 where "h0 = p_headers p1"
  obtain h r2 where r2: "header_parse r1 h0 = (h, r2)" by (cases "header_parse r1 h0")
  obtain h' q2 where q2: "header_parse q1 h0 = (h', q2)" by (cases "header_parse q1 h0")
  have s2: "h' = h" "remaining r2 = remaining q2" "reader_ok r2" "reader_ok q2"
    using header_parse_same [OF ok eq(2), of h0] r2 q2 by simp_all
  have body: "ingestFrom r p = (let (b, x) = f r2 in (p1\<lparr>p_headers := h, p_body := b\<rparr>, x))"
      "ingestFrom q p = (let (b, x) = f q2 in (p1\<lparr>p_headers := h, p_body := b\<rparr>, x))"
    if "f = (\<lambda>x. if header_has ''Content-Length'' h then readExactly (content_length h) (p_body p1) x
                else readUntilEOF (p_body p1) x)" for f
    using r q r2 q2 eq(1) s2(1) that by (simp_all add: ingestFrom_def p1_def h0_def Let_def)
  show ?thesis
    using readExactly_same [OF s2(3,4,2), of "content_length h" "p_body p1"]
      readUntilEOF_same [OF s2(3,4,2), of "p_body p1"]
    by (auto simp: body [OF refl] split: prod.split)
qed

lemma request_parse_same:
  assumes "reader_ok r" and "reader_ok q" and "remaining r = remaining q"
  shows "fst (request_parse r) = fst (request_parse q) \<and>
    remaining (snd (request_parse r)) = remaining (snd (request_parse q))"
proof -
  obtain l r1 where r: "readLine r = (l, r1)" by (cases "readLine r")
  obtain l' q1 where q: "readLine q = (l', q1)" by (cases "readLine q")
  have eq: "l' = l" "remaining r1 = remaining q1"
    using reader.same_line [OF assms] r q by simp_all
  have ok: "reader_ok r1" "reader_ok q1"
    using reader.line_law [OF assms(1) r] reader.line_law [OF assms(2) q] by simp_all
  obtain h r2 where r2: "header_parse r1 [] = (h, r2)" by (cases "header_parse r1 []")
  obtain h' q2 where q2: "header_parse q1 [] = (h', q2)" by (cases "header_parse q1 []")
  have s2: "h' = h" "remaining r2 = remaining q2" "reader_ok r2" "reader_ok q2"
    using header_parse_same [OF ok eq(2), of "[]"] r2 q2 by simp_all
  show ?thesis
    using readExactly_same [OF s2(3,4,2), of "content_length h" "[]"] r q r2 q2 eq s2
    by (auto simp: request_parse_def Let_def split: prod.split option.split)
qed

section \<open>What is written is what is read\<close>

definition header_ok :: "string \<times> string \<Rightarrow> bool" where
  "header_ok e \<longleftrightarrow> CHR '':'' \<notin> set (fst e) \<and> LF \<notin> set (fst e) \<and> LF \<notin> set (snd e) \<and>
     (snd e \<noteq> [] \<longrightarrow> hd (snd e) \<noteq> CHR '' '' \<and> hd (snd e) \<noteq> TAB)"

lemma skip_blanks_value: "header_ok e \<Longrightarrow> skip_blanks (CHR '' '' # snd e) = snd e"
  by (cases "snd e") (auto simp: skip_blanks_def header_ok_def)

lemma header_parse_serialized:
  assumes "reader_ok r" and "remaining r = header_serialize hs @ CRLF @ s" and "\<forall>e \<in> set hs. header_ok e"
  shows "fst (header_parse r h) = h @ hs \<and> remaining (snd (header_parse r h)) = s \<and>
    reader_ok (snd (header_parse r h))"
  using assms
proof (induction hs arbitrary: r h)
  case Nil
  have "remaining r = [] @ CR # LF # s" using Nil.prems(2) by simp
  note l = reader.line_of [OF Nil.prems(1) this]
  then obtain r1 where "readLine r = (Some [], r1)" "remaining r1 = s" "reader_ok r1"
    by (cases "readLine r") auto
  then show ?case by (simp add: header_parse.simps [of r h])
next
  case (Cons e hs)
  let ?line = "fst e @ '': '' @ snd e"
  have e: "header_ok e" using Cons.prems(3) by simp
  have rr: "remaining r = ?line @ CR # LF # (header_serialize hs @ CRLF @ s)" using Cons.prems(2) by simp
  have nl: "LF \<notin> set ?line" using e by (simp add: header_ok_def)
  obtain r1 where r1: "readLine r = (Some ?line, r1)"
      "remaining r1 = header_serialize hs @ CRLF @ s" "reader_ok r1"
    using reader.line_of [OF Cons.prems(1) rr nl] by (cases "readLine r") auto
  have c: "find_char CHR '':'' ?line = Some (length (fst e))"
    using e find_char_append [of "CHR '':''" "fst e" "CHR '' '' # snd e"] by (simp add: header_ok_def)
  have "header_parse r h = header_parse r1 (h @ [e])"
    using r1(1) c skip_blanks_value [OF e] by (simp add: header_parse.simps [of r h] header_add_def)
  then show ?case using Cons.IH [OF r1(3,2), of "h @ [e]"] Cons.prems(3) by simp
qed

lemma next_word_word:
  assumes "w \<noteq> []" and "\<forall>c \<in> set w. \<not> isspace c" and "s = [] \<or> isspace (hd s)"
  shows "next_word (w @ s) = (w, s)" and "next_word (CHR '' '' # w @ s) = (w, s)"
proof -
  have d: "dropWhile isspace (w @ s) = w @ s" using assms(1,2) by (cases w) auto
  have t: "takeWhile (\<lambda>c. \<not> isspace c) (w @ s) = w" "dropWhile (\<lambda>c. \<not> isspace c) (w @ s) = s"
    using assms(2,3) by (cases s; simp add: takeWhile_append2 dropWhile_append2)+
  show "next_word (w @ s) = (w, s)" using d t by (simp add: next_word_def)
  have "isspace CHR '' ''" by (simp add: isspace_def char_code_def)
  then show "next_word (CHR '' '' # w @ s) = (w, s)" using d t by (simp add: next_word_def)
qed


lemma isspace_codes: "isspace CHR '' ''" "isspace LF" "isspace CR"
  by (simp_all add: isspace_def char_code_def)

lemma show_nat_no_space: "\<forall>c \<in> set (show_nat n). \<not> isspace c"
  using show_nat_digits isdigit_not_space by blast

lemma read_int_show:
  assumes "n < 2 ^ 31" and "\<And>c. c \<in> set (take 1 r) \<Longrightarrow> \<not> isdigit c"
  shows "read_int (show_nat n @ r) = (int n, True, r)"
proof -
  obtain c cs where s: "show_nat n = c # cs" by (cases "show_nat n") auto
  then have "isdigit c" using show_nat_digits [of c n] by simp
  then have sign: "scan_sign (show_nat n @ r) = (False, show_nat n @ r)"
    by (auto simp: s scan_sign_def isdigit_def char_code_def)
  have t: "takeWhile isdigit (show_nat n @ r) = show_nat n"
    using assms(2) by (rule takeWhile_digits_show_nat)
  then have "dropWhile isdigit (show_nat n @ r) = r"
    by (metis append_same_eq same_append_eq takeWhile_dropWhile_id)
  then show ?thesis using sign t assms(1) by (simp add: read_int_def)
qed

definition response_ok :: "http_response \<Rightarrow> bool" where
  "response_ok p \<longleftrightarrow>
     p_protocol p \<noteq> [] \<and> (\<forall>c \<in> set (p_protocol p). \<not> isspace c) \<and>
     0 \<le> p_code p \<and> p_code p < 2 ^ 31 \<and> LF \<notin> set (p_reason p) \<and> (\<forall>e \<in> set (p_headers p). header_ok e) \<and>
     (header_has ''Content-Length'' (p_headers p) \<longrightarrow> content_length (p_headers p) = length (p_body p))"

lemma status_line_serialized:
  assumes "response_ok p"
  shows "status_line (p_protocol p @ '' '' @ show_int (p_code p) @ '' '' @ p_reason p) q
    = q\<lparr>p_protocol := p_protocol p, p_code := p_code p, p_reason := p_reason p\<rparr>"
proof -
  let ?n = "nat (p_code p)" and ?r = "CHR '' '' # p_reason p"
  have code: "int ?n = p_code p" "?n < 2 ^ 31" using assms by (auto simp: response_ok_def)
  have s: "show_int (p_code p) = show_nat ?n" using assms by (simp add: show_int_def response_ok_def)
  have w: "next_word (p_protocol p @ CHR '' '' # show_nat ?n @ ?r) = (p_protocol p, CHR '' '' # show_nat ?n @ ?r)"
    using assms isspace_codes by (intro next_word_word(1)) (auto simp: response_ok_def)
  have "dropWhile isspace (show_nat ?n @ ?r) = show_nat ?n @ ?r"
    using show_nat_no_space [of ?n] by (cases "show_nat ?n") auto
  then have d: "dropWhile isspace (CHR '' '' # show_nat ?n @ ?r) = show_nat ?n @ ?r"
    using isspace_codes by simp
  have i: "read_int (show_nat ?n @ ?r) = (p_code p, True, ?r)"
    using read_int_show [OF code(2), of ?r] code(1) by (auto simp: isdigit_def char_code_def)
  show ?thesis
    unfolding status_line_def s append_Cons append_Nil Let_def w prod.case d i
    using assms by (simp add: response_ok_def)
qed

lemma ingest_serialized:
  assumes "reader_ok r" and "response_ok p" and "remaining r = response_serialize p @ extra"
    and "extra = [] \<or> header_has ''Content-Length'' (p_headers p)"
  shows "fst (ingestFrom r new_response) = p \<and> remaining (snd (ingestFrom r new_response)) = extra"
proof -
  let ?line = "p_protocol p @ '' '' @ show_int (p_code p) @ '' '' @ p_reason p"
  have int: "LF \<notin> set (show_int (p_code p))"
    using assms(2) show_nat_no_space [of "nat (p_code p)"] isspace_codes by (auto simp: response_ok_def show_int_def)
  then have nl: "LF \<notin> set ?line" using assms(2) isspace_codes by (auto simp: response_ok_def)
  have rr: "remaining r = ?line @ CR # LF # (header_serialize (p_headers p) @ CRLF @ p_body p @ extra)"
    using assms(3) by (simp add: response_serialize_def)
  obtain r1 where r1: "readLine r = (Some ?line, r1)"
      "remaining r1 = header_serialize (p_headers p) @ CRLF @ p_body p @ extra" "reader_ok r1"
    using reader.line_of [OF assms(1) rr nl] by (cases "readLine r") auto
  have hs: "\<forall>e \<in> set (p_headers p). header_ok e" using assms(2) by (simp add: response_ok_def)
  obtain r2 where r2: "header_parse r1 [] = (p_headers p, r2)" "remaining r2 = p_body p @ extra" "reader_ok r2"
    using header_parse_serialized [OF r1(3) _ hs, of "p_body p @ extra" "[]"] r1(2)
    by (cases "header_parse r1 []") auto
  obtain body r3 where body: "(if header_has ''Content-Length'' (p_headers p)
      then readExactly (content_length (p_headers p)) [] r2 else readUntilEOF [] r2) = (body, r3)"
    by (meson surj_pair)
  have "body = p_body p \<and> remaining r3 = extra"
    using reader.bytes_law [OF r2(3), of "content_length (p_headers p)" "[]" body r3]
      reader.all_law [OF r2(3), of "[]" body r3] body r2(2) assms(2,4)
    by (auto simp: response_ok_def split: if_splits)
  then show ?thesis
    using r1(1) r2(1) body status_line_serialized [OF assms(2), of new_response]
    by (cases "header_has ''Content-Length'' (p_headers p)")
      (simp_all add: ingestFrom_def new_response_def Let_def)
qed

definition request_ok :: "http_request \<Rightarrow> bool" where
  "request_ok q \<longleftrightarrow>
     (\<forall>w \<in> {r_method q, t_path (r_target q), r_protocol q}. w \<noteq> [] \<and> (\<forall>c \<in> set w. \<not> isspace c)) \<and>
     (\<forall>e \<in> set (r_headers q). header_ok e) \<and>
     length (r_body q) = (if header_has ''Content-Length'' (r_headers q) then content_length (r_headers q) else 0)"

lemma request_parse_serialized:
  assumes "reader_ok r" and "request_ok q" and "remaining r = request_serialize q @ extra"
  shows "fst (request_parse r) = Some (q\<lparr>r_url := t_path (r_target q),
      r_target := target_from_host (r_headers q) (parseURL (t_path (r_target q)) default_target)\<rparr>) \<and>
    remaining (snd (request_parse r)) = extra"
proof -
  let ?m = "r_method q" and ?u = "t_path (r_target q)" and ?p = "r_protocol q"
  let ?line = "?m @ '' '' @ ?u @ '' '' @ ?p"
  have ws: "w \<noteq> []" "\<forall>c \<in> set w. \<not> isspace c" if "w \<in> {?m, ?u, ?p}" for w
    using assms(2) that unfolding request_ok_def by blast+
  have nl: "LF \<notin> set ?line" using ws(2) isspace_codes by auto
  have rr: "remaining r = ?line @ CR # LF # (header_serialize (r_headers q) @ CRLF @ r_body q @ extra)"
    using assms(3) by (simp add: request_serialize_def)
  obtain r1 where r1: "readLine r = (Some ?line, r1)"
      "remaining r1 = header_serialize (r_headers q) @ CRLF @ r_body q @ extra" "reader_ok r1"
    using reader.line_of [OF assms(1) rr nl] by (cases "readLine r") auto
  have w: "next_word ?line = (?m, CHR '' '' # ?u @ CHR '' '' # ?p)"
      "next_word (CHR '' '' # ?u @ CHR '' '' # ?p) = (?u, CHR '' '' # ?p)"
      "next_word (CHR '' '' # ?p) = (?p, [])"
    using next_word_word(1) [of ?m "CHR '' '' # ?u @ CHR '' '' # ?p"]
      next_word_word(2) [of ?u "CHR '' '' # ?p"] next_word_word(2) [of ?p "[]"] ws isspace_codes
    by auto
  have hs: "\<forall>e \<in> set (r_headers q). header_ok e" using assms(2) by (simp add: request_ok_def)
  obtain r2 where r2: "header_parse r1 [] = (r_headers q, r2)" "remaining r2 = r_body q @ extra" "reader_ok r2"
    using header_parse_serialized [OF r1(3) _ hs, of "r_body q @ extra" "[]"] r1(2)
    by (cases "header_parse r1 []") auto
  obtain body r3 where body: "(if header_has ''Content-Length'' (r_headers q)
      then readExactly (content_length (r_headers q)) [] r2 else ([], r2)) = (body, r3)"
    by (meson surj_pair)
  have "body = r_body q \<and> remaining r3 = extra"
    using reader.bytes_law [OF r2(3), of "content_length (r_headers q)" "[]" body r3] body r2(2) assms(2)
    by (auto simp: request_ok_def split: if_splits)
  then show ?thesis
    using r1(1) r2(1) body w ws(1) by (simp add: request_parse_def Let_def)
qed

end
