(* ===== verification/Proxy.thy ===== *)
theory Proxy
  imports Http_Message
begin

text \<open>
  The forward proxy \<open>proxy.cc\<close>: its cache, its blocklist and the service of one connection. What is
  outside the repository is a parameter: the regular-expression library (\<open>compile\<close>, \<open>search\<close>),
  the name service and the origin servers (\<open>connect\<close>), the results of \<open>write\<close> calls and the
  readings of the monotonic clock, in ticks with \<open>ticks_per_second\<close> to the second. A connection's
  effects are the list of its events, in order.
\<close>

section \<open>Sockets\<close>

text \<open>
  \<open>writeAll\<close>: \<open>results\<close> are the return values of successive \<open>write\<close> calls; when they are used up a call
  takes everything. The second component is what has been written.
\<close>

fun writeAll :: "int list \<Rightarrow> string \<Rightarrow> bool \<times> string" where
  "writeAll results [] = (True, [])"
| "writeAll [] data = (True, data)"
| "writeAll (n # ns) data =
     (if n \<le> 0 then (False, [])
      else let (ok, more) = writeAll ns (drop (nat n) data) in (ok, take (nat n) data @ more))"

lemma writeAll_prefix: "writeAll ns data = (ok, out) \<Longrightarrow> (\<exists>rest. data = out @ rest \<and> (ok \<longrightarrow> rest = []))"
proof (induction ns data arbitrary: ok out rule: writeAll.induct)
  case (3 n ns c cs)
  show ?case
  proof (cases "n \<le> 0")
    case False
    obtain ok' more where w: "writeAll ns (drop (nat n) (c # cs)) = (ok', more)"
      by (cases "writeAll ns (drop (nat n) (c # cs))")
    with "3.IH" [OF False] obtain rest where r: "drop (nat n) (c # cs) = more @ rest" "ok' \<longrightarrow> rest = []"
      by blast
    have "c # cs = take (nat n) (c # cs) @ more @ rest" using r(1) append_take_drop_id by metis
    with False w r(2) "3.prems" show ?thesis by auto
  qed (use "3.prems" in auto)
qed auto

section \<open>The cache\<close>

record cache_entry =
  serialized :: string
  expires :: int

type_synonym http_cache = "string \<rightharpoonup> cache_entry"

definition ticks_per_second :: int where "ticks_per_second = 1000000000"

definition cache_lookup :: "string \<Rightarrow> int \<Rightarrow> http_cache \<Rightarrow> string option \<times> http_cache" where
  "cache_lookup key now c = (case c key of
       None \<Rightarrow> (None, c)
     | Some e \<Rightarrow> if now \<ge> expires e then (None, c(key := None)) else (Some (serialized e), c))"

definition cache_store :: "string \<Rightarrow> string \<Rightarrow> int \<Rightarrow> int \<Rightarrow> http_cache \<Rightarrow> http_cache" where
  "cache_store key text ttlSeconds now c =
     c(key \<mapsto> \<lparr>serialized = text, expires = now + ttlSeconds * ticks_per_second\<rparr>)"

text \<open>
  What the connections rely on: a hit is a live entry, a look-up adds nothing, a store replaces one key. Hence
  whatever is true of every entry stored is true of every entry, and of every hit.
\<close>

definition cache_content :: "http_cache \<Rightarrow> string \<Rightarrow> (string \<times> int) option" where
  "cache_content c key = map_option (\<lambda>e. (serialized e, expires e)) (c key)"

locale expiring_cache =
  fixes look :: "string \<Rightarrow> int \<Rightarrow> 'c \<Rightarrow> string option \<times> 'c"
    and put :: "string \<Rightarrow> string \<Rightarrow> int \<Rightarrow> int \<Rightarrow> 'c \<Rightarrow> 'c"
    and content :: "'c \<Rightarrow> string \<Rightarrow> (string \<times> int) option"
  assumes hit_live: "look key t c = (Some x, c') \<Longrightarrow> \<exists>u. content c key = Some (x, u) \<and> t < u"
    and look_shrinks: "look key t c = (r, c') \<Longrightarrow> content c' k = Some e \<Longrightarrow> content c k = Some e"
    and content_put: "content (put key x ttl t c) = (content c)(key \<mapsto> (x, t + ttl * ticks_per_second))"
begin

lemma hit_stored:
  assumes "\<And>k x u. content c k = Some (x, u) \<Longrightarrow> P k x u" and "look key t c = (Some x, c')"
  shows "\<exists>u. P key x u \<and> t < u"
  using assms hit_live by blast

lemma put_keeps:
  assumes "\<And>k x u. content c k = Some (x, u) \<Longrightarrow> P k x u" and "P key x (t + ttl * ticks_per_second)"
    and "content (put key x ttl t c) k = Some (y, u)"
  shows "P k y u"
  using assms by (auto simp: content_put split: if_splits)

end

interpretation hc: expiring_cache cache_lookup cache_store cache_content
  by unfold_locales
    ((auto simp: cache_lookup_def cache_content_def split: option.splits if_splits)[2],
      simp add: cache_store_def cache_content_def fun_eq_iff)

section \<open>The blocklist\<close>

definition blocklist_load :: "(string \<Rightarrow> 're option) \<Rightarrow> string \<Rightarrow> 're list" where
  "blocklist_load compile text =
     List.map_filter compile (filter (\<lambda>l. l \<noteq> [] \<and> hd l \<noteq> CHR ''#'') (getlines LF text))"

fun blocklist_blocks :: "('re \<Rightarrow> string \<Rightarrow> bool) \<Rightarrow> 're list \<Rightarrow> string \<Rightarrow> bool" where
  "blocklist_blocks search [] host = False"
| "blocklist_blocks search (r # rs) host = (if search r host then True else blocklist_blocks search rs host)"

section \<open>Helpers\<close>

definition cacheKey :: "http_request \<Rightarrow> string" where
  "cacheKey req = r_method req @ '' '' @ t_host (r_target req) @ '':'' @ show_nat (unat (t_port (r_target req)))
     @ t_path (r_target req)"

definition cacheTTL :: "http_request \<Rightarrow> http_response \<Rightarrow> int" where
  "cacheTTL req resp =
     (if r_method req \<noteq> ''GET'' \<or> p_code resp \<noteq> 200 then 0
      else let cc = header_get ''Cache-Control'' (p_headers resp)
           in if find_sub ''no-store'' cc \<noteq> None \<or> find_sub ''no-cache'' cc \<noteq> None \<or> find_sub ''private'' cc \<noteq> None
              then 0
              else (case find_sub ''max-age='' cc of
                      None \<Rightarrow> 0
                    | Some p \<Rightarrow> let ttl = atoi (drop (p + 8) cc) in if ttl > 0 then ttl else 0))"

definition simple_response :: "int \<Rightarrow> string \<Rightarrow> string \<Rightarrow> http_response" where
  "simple_response code reason body =
     (let resp = setStatus code reason (new_response\<lparr>p_protocol := ''HTTP/1.0''\<rparr>);
          h = header_add ''Connection'' ''close'' (header_add ''Content-Type'' ''text/plain'' (p_headers resp))
      in setBody body (resp\<lparr>p_headers := h\<rparr>))"

section \<open>One connection\<close>

text \<open>An origin server that accepted the connection: its \<open>write\<close> results and its reply to what it gets.\<close>

record origin_conn =
  o_writes :: "int list"
  o_reply :: "string \<Rightarrow> string list"

datatype proxy_event =
    Log string
  | To_client string
  | To_origin string u16 string
  | Close_origin
  | Close_client

text \<open>\<open>sendSimple\<close>; every \<open>writeAll\<close> to the client ignores its result.\<close>

definition client_write :: "int list \<Rightarrow> string \<Rightarrow> proxy_event" where
  "client_write cw data = To_client (snd (writeAll cw data))"

definition sendSimple :: "int list \<Rightarrow> int \<Rightarrow> string \<Rightarrow> string \<Rightarrow> proxy_event" where
  "sendSimple cw code reason body = client_write cw (response_serialize (simple_response code reason body))"

definition forwarded_request :: "string \<Rightarrow> http_request \<Rightarrow> http_request" where
  "forwarded_request clientIP req =
     req\<lparr>r_headers :=
       header_add ''x-forwarded-for'' clientIP
         (header_add ''Connection'' ''close''
           (header_remove ''Proxy-Connection'' (header_remove ''Connection'' (r_headers req))))\<rparr>"

record 're proxy_env =
  e_search :: "'re \<Rightarrow> string \<Rightarrow> bool"
  e_blocklist :: "'re list"
  e_connect :: "string \<Rightarrow> u16 \<Rightarrow> origin_conn option"

definition blocked_body :: string where
  "blocked_body = ''Forbidden: host is blocked by the proxy.'' @ [LF]"

definition unreachable_body :: string where
  "unreachable_body = ''Bad Gateway: could not reach origin.'' @ [LF]"

definition write_failed_body :: string where
  "write_failed_body = ''Bad Gateway: write to origin failed.'' @ [LF]"

text \<open>From the cache miss on: \<open>t2\<close> is the clock when the response is stored.\<close>

definition forward :: "'re proxy_env \<Rightarrow> int list \<Rightarrow> string \<Rightarrow> int \<Rightarrow> http_request \<Rightarrow> http_cache
    \<Rightarrow> proxy_event list \<times> http_cache" where
  "forward env cw clientIP t2 req0 c =
     (let label = cacheKey req0; key = cacheKey req0; req = forwarded_request clientIP req0; tgt = r_target req
      in case e_connect env (t_host tgt) (t_port tgt) of
           None \<Rightarrow> ([Log (''[ERR]   '' @ label @ ''  (origin unreachable)''),
                     sendSimple cw 502 ''Bad Gateway'' unreachable_body, Close_client], c)
         | Some origin \<Rightarrow>
             let (ok, sent) = writeAll (o_writes origin) (request_serialize req)
             in if \<not> ok
                then ([To_origin (t_host tgt) (t_port tgt) sent, Close_origin,
                       sendSimple cw 502 ''Bad Gateway'' write_failed_body, Close_client], c)
                else
                  let (resp, _) = ingestFrom (open_reader (o_reply origin sent)) new_response;
                      ttl = cacheTTL req resp;
                      text = response_serialize resp
                  in if ttl > 0
                     then ([To_origin (t_host tgt) (t_port tgt) sent, Close_origin,
                            Log (''[MISS]  '' @ label @ ''  (cached '' @ show_int ttl @ ''s)''),
                            client_write cw text, Close_client], cache_store key text ttl t2 c)
                     else ([To_origin (t_host tgt) (t_port tgt) sent, Close_origin, Log (''[MISS]  '' @ label),
                            client_write cw text, Close_client], c))"

definition serviceConnection :: "'re proxy_env \<Rightarrow> string list \<Rightarrow> int list \<Rightarrow> string \<Rightarrow> int \<Rightarrow> int \<Rightarrow> http_cache
    \<Rightarrow> proxy_event list \<times> http_cache" where
  "serviceConnection env chunks cw clientIP t1 t2 c =
     (case fst (request_parse (open_reader chunks)) of
        None \<Rightarrow> ([Close_client], c)
      | Some req \<Rightarrow>
          if t_host (r_target req) = [] then ([Close_client], c)
          else if blocklist_blocks (e_search env) (e_blocklist env) (t_host (r_target req))
          then ([Log (''[BLOCK] '' @ cacheKey req), sendSimple cw 403 ''Forbidden'' blocked_body, Close_client], c)
          else if r_method req = ''GET''
          then (case cache_lookup (cacheKey req) t1 c of
                  (Some text, c1) \<Rightarrow> ([Log (''[HIT]   '' @ cacheKey req), client_write cw text, Close_client], c1)
                | (None, c1) \<Rightarrow> forward env cw clientIP t2 req c1)
          else forward env cw clientIP t2 req c)"

end
