(* ===== verification/Proxy_Props.thy ===== *)
theory Proxy_Props
  imports Proxy
begin

text \<open>
  Properties of the HTTP message model and of the proxy: independence of how the network cuts the
  stream, round trips, what is forwarded, when the cache answers, which hosts are contacted, and
  that every descriptor is closed.
\<close>

section \<open>What the parser produces\<close>

lemma next_line_no_LF: "next_line s = (Some l, rest) \<Longrightarrow> LF \<notin> set l"
  by (auto simp: next_line_def pop_cr_def find_char_Some_iff find_char_None split: option.splits if_splits
      dest: in_set_butlastD)

lemma skip_blanks_head: "skip_blanks v \<noteq> [] \<Longrightarrow> hd (skip_blanks v) \<noteq> CHR '' '' \<and> hd (skip_blanks v) \<noteq> TAB"
  unfolding skip_blanks_def by (drule hd_dropWhile) blast

lemma set_skip_blanks: "c \<in> set (skip_blanks v) \<Longrightarrow> c \<in> set v"
  unfolding skip_blanks_def by (rule set_dropWhileD)

lemma header_parse_ok:
  "reader_ok r \<Longrightarrow> \<forall>e \<in> set h. header_ok e \<Longrightarrow> \<forall>e \<in> set (fst (header_parse r h)). header_ok e"
proof (induction r h rule: header_parse.induct)
  case (1 r h)
  obtain l r1 where r: "readLine r = (l, r1)" by (cases "readLine r")
  have ok: "reader_ok r1" "(l, remaining r1) = next_line (remaining r)"
    using reader.line_law [OF "1.prems"(1) r] by simp_all
  show ?case
  proof (cases "l = None \<or> l = Some []")
    case True
    then show ?thesis using r "1.prems" by (auto simp: header_parse.simps [of r h])
  next
    case False
    then obtain line where l: "l = Some line" "line \<noteq> []" by auto
    have nl: "LF \<notin> set line" using next_line_no_LF ok(2) l(1) by metis
    show ?thesis
    proof (cases "find_char CHR '':'' line")
      case None
      with "1.IH"(1) [OF r [symmetric] l(1) l(2) None] r l ok "1.prems" show ?thesis
        by (simp add: header_parse.simps [of r h])
    next
      case (Some colon)
      let ?e = "(take colon line, skip_blanks (drop (colon + 1) line))"
      have "header_ok ?e"
        using nl Some skip_blanks_head set_skip_blanks
        by (auto simp: header_ok_def find_char_Some_iff dest: in_set_takeD in_set_dropD)
      with "1.IH"(2) [OF r [symmetric] l(1) l(2) Some] r l ok "1.prems" Some show ?thesis
        by (simp add: header_parse.simps [of r h] header_add_def)
    qed
  qed
qed

lemma next_word_no_space: "next_word s = (w, t) \<Longrightarrow> \<forall>c \<in> set w. \<not> isspace c"
  by (auto simp: next_word_def Let_def dest: set_takeWhileD)

lemma next_word_Nil: "next_word s = ([], t) \<Longrightarrow> next_word t = ([], [])"
  unfolding next_word_def Let_def
  by (cases "dropWhile isspace s") (auto split: if_splits dest: hd_dropWhile simp: dropWhile_eq_Cons_conv)

lemma next_word_empty [simp]: "next_word [] = ([], [])"
  by (simp add: next_word_def)

lemma parse_hier_path:
  "\<forall>c \<in> set rest. \<not> isspace c \<Longrightarrow> t_path (parse_hier rest) \<noteq> [] \<and> (\<forall>c \<in> set (t_path (parse_hier rest)). \<not> isspace c)"
  by (auto simp: parse_hier_def split_authority_def find_char_Some_iff isspace_def char_code_def
      split: option.split dest: in_set_dropD)

lemma parseURL_path:
  assumes "url \<noteq> []" and "\<forall>c \<in> set url. \<not> isspace c"
  shows "t_path (parseURL url t) \<noteq> [] \<and> (\<forall>c \<in> set (t_path (parseURL url t)). \<not> isspace c)"
proof -
  have "t_path (parse_hier (drop n url)) \<noteq> [] \<and> (\<forall>c \<in> set (t_path (parse_hier (drop n url))). \<not> isspace c)" for n
    using parse_hier_path [of "drop n url"] assms(2) by (auto dest: in_set_dropD)
  with assms show ?thesis by (auto simp: parseURL_def split: option.split)
qed

lemma target_from_host_path [simp]: "t_path (target_from_host h t) = t_path t"
  by (simp add: target_from_host_def Let_def split: prod.split)

lemma request_parse_words:
  assumes "reader_ok r" and "fst (request_parse r) = Some q"
  shows "\<forall>w \<in> {r_method q, t_path (r_target q), r_protocol q}. w \<noteq> [] \<and> (\<forall>c \<in> set w. \<not> isspace c)"
    and "\<forall>e \<in> set (r_headers q). header_ok e"
proof -
  obtain l r1 where r: "readLine r = (l, r1)" by (cases "readLine r")
  obtain line where line: "l = Some line" "line \<noteq> []"
    using assms(2) r by (cases l) (auto simp: request_parse_def split: if_splits)
  obtain m s1 where m: "next_word line = (m, s1)" by (cases "next_word line")
  obtain u s2 where u: "next_word s1 = (u, s2)" by (cases "next_word s1")
  obtain p s3 where p: "next_word s2 = (p, s3)" by (cases "next_word s2")
  obtain h r2 where h: "header_parse r1 [] = (h, r2)" by (cases "header_parse r1 []")
  have pn: "p \<noteq> []"
    using assms(2) r line m u p by (auto simp: request_parse_def Let_def)
  have mu: "m \<noteq> []" "u \<noteq> []"
    using pn m u p next_word_Nil by auto
  have q: "r_method q = m" "r_protocol q = p" "r_headers q = h" "t_path (r_target q) = t_path (parseURL u default_target)"
    using assms(2) r line m u p h pn by (auto simp: request_parse_def Let_def split: prod.splits)
  show "\<forall>w \<in> {r_method q, t_path (r_target q), r_protocol q}. w \<noteq> [] \<and> (\<forall>c \<in> set w. \<not> isspace c)"
    using q pn mu next_word_no_space [OF m] next_word_no_space [OF u] next_word_no_space [OF p]
      parseURL_path [OF mu(2), of default_target] by auto
  have "reader_ok r1" using reader.line_law [OF assms(1) r] by simp
  then show "\<forall>e \<in> set (r_headers q). header_ok e"
    using header_parse_ok [of r1 "[]"] h q(3) by simp
qed


section \<open>Facts about the connection\<close>

lemma client_write_event: "\<exists>s. client_write cw data = To_client s"
  by (simp add: client_write_def)

lemma cache_lookup_cases:
  "cache_lookup key now c = (case c key of
     None \<Rightarrow> (None, c)
   | Some e \<Rightarrow> if now < expires e then (Some (serialized e), c) else (None, c(key := None)))"
  by (auto simp: cache_lookup_def split: option.split)

definition closes :: "proxy_event list \<Rightarrow> bool" where
  "closes evs \<longleftrightarrow> evs \<noteq> [] \<and> last evs = Close_client \<and> count_list evs Close_client = 1 \<and>
     count_list evs Close_origin = length (filter (\<lambda>e. case e of To_origin _ _ _ \<Rightarrow> True | _ \<Rightarrow> False) evs)"

lemma closes_simps:
  "closes [Close_client]" "closes [Log a, client_write cw b, Close_client]"
  "closes [Log a, sendSimple cw k r b, Close_client]"
  by (simp_all add: closes_def client_write_def sendSimple_def)

lemma forward_closes: "closes (fst (forward env cw ip t2 req c))"
  by (auto simp: forward_def closes_def sendSimple_def client_write_def Let_def split: option.split prod.split)

lemma forward_origin:
  "To_origin h p s \<in> set (fst (forward env cw ip t2 req c)) \<Longrightarrow>
   h = t_host (r_target req) \<and> p = t_port (r_target req) \<and> e_connect env h p \<noteq> None \<and>
   (\<exists>rest. request_serialize (forwarded_request ip req) = s @ rest)"
  unfolding forward_def Let_def
  by (auto simp: forwarded_request_def sendSimple_def client_write_def split: option.splits prod.splits if_splits
      dest!: writeAll_prefix)

section \<open>Properties\<close>

definition GET_example :: http_request where
  "GET_example = \<lparr>r_method = ''GET'', r_url = ''/index'', r_protocol = ''HTTP/1.0'',
     r_target = \<lparr>t_host = ''origin.test'', t_port = 8080, t_path = ''/index''\<rparr>,
     r_headers = [(''host'', ''origin.test:8080''), (''Connection'', ''keep-alive'')], r_body = []\<rparr>"

text \<open>
  C16: reading a message depends on the bytes only: however \<open>read\<close> cuts a stream into runs, the parsed
  request and the parsed response are the same, and so is what is left of the stream.
\<close>
theorem parsing_ignores_chunking:
  assumes "[] \<notin> set chunks" and "[] \<notin> set chunks'" and "concat chunks = concat chunks'"
  shows "fst (request_parse (open_reader chunks)) = fst (request_parse (open_reader chunks')) \<and>
    fst (ingestFrom (open_reader chunks) p) = fst (ingestFrom (open_reader chunks') p) \<and>
    remaining (snd (request_parse (open_reader chunks))) = remaining (snd (request_parse (open_reader chunks'))) \<and>
    remaining (snd (ingestFrom (open_reader chunks) p)) = remaining (snd (ingestFrom (open_reader chunks') p))"
proof -
  have r: "reader_ok (open_reader chunks)" "reader_ok (open_reader chunks')"
    "remaining (open_reader chunks) = remaining (open_reader chunks')"
    using assms by (simp_all add: reader_ok_open remaining_open)
  show ?thesis using request_parse_same [OF r] ingest_same [OF r, of p] by blast
qed

lemma parsing_ignores_chunking_witness:
  "fst (request_parse (open_reader [''GET /'', '' HTTP/1.0'' @ CRLF @ CRLF]))
     = fst (request_parse (open_reader [''GET / HTTP/1.0'' @ [CR], LF # CRLF])) \<and>
   fst (ingestFrom (open_reader [''GET /'', '' HTTP/1.0'' @ CRLF @ CRLF]) new_response)
     = fst (ingestFrom (open_reader [''GET / HTTP/1.0'' @ [CR], LF # CRLF]) new_response) \<and>
   remaining (snd (request_parse (open_reader [''GET /'', '' HTTP/1.0'' @ CRLF @ CRLF])))
     = remaining (snd (request_parse (open_reader [''GET / HTTP/1.0'' @ [CR], LF # CRLF]))) \<and>
   remaining (snd (ingestFrom (open_reader [''GET /'', '' HTTP/1.0'' @ CRLF @ CRLF]) new_response))
     = remaining (snd (ingestFrom (open_reader [''GET / HTTP/1.0'' @ [CR], LF # CRLF]) new_response))"
  by (rule parsing_ignores_chunking) simp_all

text \<open>
  C15: a response that is serialised is read back as it was, status line, headers in order and body,
  and nothing after it is consumed when it announces its length.
\<close>
theorem response_roundtrip:
  assumes "[] \<notin> set chunks" and "response_ok p" and "concat chunks = response_serialize p @ extra"
    and "extra = [] \<or> header_has ''Content-Length'' (p_headers p)"
  shows "fst (ingestFrom (open_reader chunks) new_response) = p \<and>
    remaining (snd (ingestFrom (open_reader chunks) new_response)) = extra"
  using ingest_serialized [of "open_reader chunks" p extra] assms by (simp add: reader_ok_open remaining_open)

lemma simple_response_ok:
  assumes "0 \<le> code" and "code < 2 ^ 31" and "LF \<notin> set reason" and "length body < 2 ^ 64"
  shows "response_ok (simple_response code reason body) \<and>
    header_has ''Content-Length'' (p_headers (simple_response code reason body))"
proof -
  let ?h = "[(''Content-Type'', ''text/plain''), (''Connection'', ''close''), (''Content-Length'', show_nat (length body))]"
  have h: "p_headers (simple_response code reason body) = ?h"
    by (simp add: simple_response_def Let_def setStatus_def setBody_def header_add_def header_remove_def
        new_response_def lower_def tolower_def isupper_def char_code_def)
  have "header_ok (''Content-Length'', show_nat (length body))"
    using show_nat_no_space [of "length body"] isspace_codes
    by (cases "show_nat (length body)") (auto simp: header_ok_def isspace_def char_code_def)
  moreover have "header_get ''Content-Length'' ?h = show_nat (length body)" "header_has ''Content-Length'' ?h"
    by (simp_all add: lower_def tolower_def isupper_def char_code_def)
  ultimately show ?thesis
    using assms h
    by (simp add: response_ok_def content_length_def strtoul_show_nat)
      (simp add: simple_response_def Let_def setStatus_def setBody_def new_response_def header_ok_def
        isspace_def char_code_def)
qed

lemma response_roundtrip_witness:
  "fst (ingestFrom (open_reader [response_serialize (simple_response 403 ''Forbidden'' ''no''), ''next''])
      new_response) = simple_response 403 ''Forbidden'' ''no'' \<and>
   remaining (snd (ingestFrom (open_reader [response_serialize (simple_response 403 ''Forbidden'' ''no''), ''next''])
      new_response)) = ''next''"
  by (rule response_roundtrip)
    (use simple_response_ok [of 403 "''Forbidden''" "''no''"] in \<open>simp_all add: response_serialize_def\<close>)

lemma lower_names:
  "lower ''Connection'' = ''connection''"
  "lower ''Proxy-Connection'' = ''proxy-connection''"
  "lower ''Content-Length'' = ''content-length''"
  "lower ''x-forwarded-for'' = ''x-forwarded-for''"
  by code_simp+

text \<open>
  C13: what the origin sees is what the client asked: parsing the forwarded bytes gives the client's
  method, protocol, path and body, and the client's headers in order, without any \<open>Connection\<close> or
  \<open>Proxy-Connection\<close> of whatever capitalisation, followed by \<open>Connection: close\<close> and the
  client's address in \<open>x-forwarded-for\<close>.
\<close>
theorem forwarded_request_seen_by_origin:
  assumes "[] \<notin> set chunks" and "fst (request_parse (open_reader chunks)) = Some req"
    and "length (r_body req) = (if header_has ''Content-Length'' (r_headers req) then content_length (r_headers req) else 0)"
    and "header_ok (''x-forwarded-for'', ip)"
    and "[] \<notin> set arriving" and "concat arriving = request_serialize (forwarded_request ip req)"
  shows "\<exists>seen. fst (request_parse (open_reader arriving)) = Some seen \<and>
    r_method seen = r_method req \<and> r_protocol seen = r_protocol req \<and> r_body seen = r_body req \<and>
    r_url seen = t_path (r_target req) \<and>
    r_headers seen = filter (\<lambda>e. lower (fst e) \<notin> {''connection'', ''proxy-connection''}) (r_headers req)
      @ [(''Connection'', ''close''), (''x-forwarded-for'', ip)]"
proof -
  let ?q = "forwarded_request ip req"
  let ?kept = "filter (\<lambda>e. lower (fst e) \<notin> {''connection'', ''proxy-connection''}) (r_headers req)"
  note lows = lower_names
  have hs: "r_headers ?q = ?kept @ [(''Connection'', ''close''), (''x-forwarded-for'', ip)]"
    by (simp add: forwarded_request_def header_add_def header_remove_def lows filter_filter)
  have cl: "header_has ''Content-Length'' (r_headers ?q) = header_has ''Content-Length'' (r_headers req)"
      "header_get ''Content-Length'' (r_headers ?q) = header_get ''Content-Length'' (r_headers req)"
    by (simp_all add: forwarded_request_def headers.has_add headers.has_remove headers.get_add headers.get_remove lows)
  have "reader_ok (open_reader chunks)" using assms(1) by (simp add: reader_ok_open)
  note w = request_parse_words [OF this assms(2)]
  have "header_ok (''Connection'', ''close'')" by (simp add: header_ok_def)
  then have "\<forall>e \<in> set (r_headers ?q). header_ok e" using w(2) assms(4) by (auto simp: hs)
  moreover have "r_method ?q = r_method req" "r_target ?q = r_target req" "r_protocol ?q = r_protocol req"
      "r_body ?q = r_body req" by (simp_all add: forwarded_request_def)
  moreover have "content_length (r_headers ?q) = content_length (r_headers req)"
    using cl(2) by (simp add: content_length_def)
  ultimately have "request_ok ?q"
    using w(1) assms(3) unfolding request_ok_def cl(1) by simp
  then have "fst (request_parse (open_reader arriving)) = Some (?q\<lparr>r_url := t_path (r_target ?q),
      r_target := target_from_host (r_headers ?q) (parseURL (t_path (r_target ?q)) default_target)\<rparr>)"
    using request_parse_serialized [of "open_reader arriving" ?q "[]"] assms(5,6)
    by (simp add: reader_ok_open remaining_open)
  then show ?thesis using hs by (simp add: forwarded_request_def)
qed


definition example_headers :: http_header where
  "example_headers = [(''host'', ''origin.test:8080''), (''connection'', ''keep-alive'')]"

definition example_request :: http_request where
  "example_request = \<lparr>r_method = ''GET'', r_url = ''/index'', r_protocol = ''HTTP/1.0'',
     r_target = target_from_host example_headers (parseURL ''/index'' default_target),
     r_headers = example_headers, r_body = []\<rparr>"

text \<open>A client's request that parses to the example, and the runs in which it arrives.\<close>

lemma example_target:
  "parseURL ''/index'' default_target = \<lparr>t_host = [], t_port = 80, t_path = ''/index''\<rparr>"
  "t_path (r_target example_request) = ''/index''"
  "t_host (r_target example_request) = ''origin.test''"
  "header_has ''Content-Length'' example_headers = False"
  by code_simp+

lemma example_request_ok: "request_ok example_request"
  using example_target(2,4)
  by (simp add: request_ok_def example_request_def) (simp add: example_headers_def header_ok_def isspace_def char_code_def)

lemma example_parses:
  "fst (request_parse (open_reader [request_serialize example_request])) = Some example_request"
proof -
  have r: "reader_ok (open_reader [request_serialize example_request])"
    by (simp add: reader_ok_open request_serialize_def example_request_def)
  have "fst (request_parse (open_reader [request_serialize example_request])) =
      Some (example_request\<lparr>r_url := t_path (r_target example_request),
        r_target := target_from_host (r_headers example_request)
          (parseURL (t_path (r_target example_request)) default_target)\<rparr>)"
    using request_parse_serialized [OF r example_request_ok, of "[]"] by (simp add: remaining_open)
  then show ?thesis unfolding example_target(2) by (simp add: example_request_def)
qed

lemma forwarded_request_seen_by_origin_witness:
  "\<exists>seen. fst (request_parse (open_reader [request_serialize (forwarded_request ''10.0.0.7'' example_request)]))
       = Some seen \<and>
    r_method seen = r_method example_request \<and> r_protocol seen = r_protocol example_request \<and>
    r_body seen = r_body example_request \<and> r_url seen = t_path (r_target example_request) \<and>
    r_headers seen = filter (\<lambda>e. lower (fst e) \<notin> {''connection'', ''proxy-connection''}) (r_headers example_request)
      @ [(''Connection'', ''close''), (''x-forwarded-for'', ''10.0.0.7'')]"
proof (rule forwarded_request_seen_by_origin [OF _ example_parses])
  show "length (r_body example_request) = (if header_has ''Content-Length'' (r_headers example_request)
      then content_length (r_headers example_request) else 0)"
    using example_target(4) by (simp add: example_request_def)
qed (simp_all add: header_ok_def request_serialize_def forwarded_request_def example_request_def)

text \<open>
  C14: no connection reaches an origin for a blocked or empty host: when an origin is contacted, it is
  at the host and port of the parsed request, the blocklist does not match that host, and what is sent
  is a prefix of the forwarded request; a blocked request is answered with the 403 page alone and the
  cache is untouched.
\<close>
theorem blocked_hosts_never_contacted:
  "(To_origin h p s \<in> set (fst (serviceConnection env chunks cw ip t1 t2 c)) \<longrightarrow>
     (\<exists>req. fst (request_parse (open_reader chunks)) = Some req \<and> h \<noteq> [] \<and>
        h = t_host (r_target req) \<and> p = t_port (r_target req) \<and>
        \<not> blocklist_blocks (e_search env) (e_blocklist env) h \<and>
        (\<exists>rest. request_serialize (forwarded_request ip req) = s @ rest))) \<and>
   (\<forall>req. fst (request_parse (open_reader chunks)) = Some req \<and> t_host (r_target req) \<noteq> [] \<and>
      blocklist_blocks (e_search env) (e_blocklist env) (t_host (r_target req)) \<longrightarrow>
      serviceConnection env chunks cw ip t1 t2 c =
        ([Log (''[BLOCK] '' @ cacheKey req), sendSimple cw 403 ''Forbidden'' blocked_body, Close_client], c))"
proof (intro conjI impI)
  assume a: "To_origin h p s \<in> set (fst (serviceConnection env chunks cw ip t1 t2 c))"
  have no: "To_origin h p s \<noteq> sendSimple cw k r b" "To_origin h p s \<noteq> client_write cw b" for k r b
    by (simp_all add: sendSimple_def client_write_def)
  obtain req where req: "fst (request_parse (open_reader chunks)) = Some req"
    using a by (cases "fst (request_parse (open_reader chunks))") (auto simp: serviceConnection_def)
  have b: "t_host (r_target req) \<noteq> []" "\<not> blocklist_blocks (e_search env) (e_blocklist env) (t_host (r_target req))"
    using a req no by (auto simp: serviceConnection_def split: if_splits)
  have "\<exists>c'. To_origin h p s \<in> set (fst (forward env cw ip t2 req c'))"
    using a req b no by (auto simp: serviceConnection_def split: if_splits option.splits prod.splits)
  with forward_origin [of h p s env cw ip t2 req] req b
  show "\<exists>req. fst (request_parse (open_reader chunks)) = Some req \<and> h \<noteq> [] \<and>
      h = t_host (r_target req) \<and> p = t_port (r_target req) \<and>
      \<not> blocklist_blocks (e_search env) (e_blocklist env) h \<and>
      (\<exists>rest. request_serialize (forwarded_request ip req) = s @ rest)" by auto
qed (simp add: serviceConnection_def)

text \<open>
  Every connection is closed: the events of a connection end with the close of the client's
  descriptor, its only one, and each origin descriptor opened is closed once, on all error paths.
\<close>
theorem connection_closes_descriptors:
  "last (fst (serviceConnection env chunks cw ip t1 t2 c)) = Close_client \<and>
   count_list (fst (serviceConnection env chunks cw ip t1 t2 c)) Close_client = 1 \<and>
   count_list (fst (serviceConnection env chunks cw ip t1 t2 c)) Close_origin =
     length (filter (\<lambda>e. case e of To_origin _ _ _ \<Rightarrow> True | _ \<Rightarrow> False)
       (fst (serviceConnection env chunks cw ip t1 t2 c)))"
proof -
  have "closes (fst (serviceConnection env chunks cw ip t1 t2 c))"
    by (auto simp: serviceConnection_def forward_closes closes_simps split: option.split prod.split)
  then show ?thesis by (simp add: closes_def)
qed


text \<open>
  The cache answers exactly while an entry is fresh: after a cacheable response has been fetched and
  stored with time to live \<open>ttl\<close>, every later \<open>GET\<close> with the same key is answered with the same
  bytes, without contacting an origin and leaving the cache as it is, as long as the clock is before
  the expiry; from then on the entry is dropped and the request is forwarded again.
\<close>
theorem cache_fresh_until_expiry:
  assumes "fst (request_parse (open_reader chunks)) = Some req" and "r_method req = ''GET''"
    and "t_host (r_target req) \<noteq> []"
    and "\<not> blocklist_blocks (e_search env) (e_blocklist env) (t_host (r_target req))"
  shows "serviceConnection env chunks cw ip t1 t2 (cache_store (cacheKey req) text ttl t0 c) =
    (if t1 < t0 + ttl * ticks_per_second
     then ([Log (''[HIT]   '' @ cacheKey req), client_write cw text, Close_client],
           cache_store (cacheKey req) text ttl t0 c)
     else forward env cw ip t2 req (c(cacheKey req := None)))"
  using assms by (simp add: serviceConnection_def cache_lookup_cases cache_store_def)

definition example_env :: "string proxy_env" where
  "example_env = \<lparr>e_search = (\<lambda>p h. find_sub p h \<noteq> None), e_blocklist = [''evil.test''],
     e_connect = (\<lambda>h p. Some \<lparr>o_writes = [3], o_reply = (\<lambda>_. [''HTTP/1.0 200 OK'' @ CRLF @ CRLF])\<rparr>)\<rparr>"

lemma cache_fresh_until_expiry_witness:
  "serviceConnection example_env [request_serialize example_request] [] ''10.0.0.7'' 1000 2000
     (cache_store (cacheKey example_request) ''cached'' 60 500 Map.empty) =
    (if (1000 :: int) < 500 + 60 * ticks_per_second
     then ([Log (''[HIT]   '' @ cacheKey example_request), client_write [] ''cached'', Close_client],
           cache_store (cacheKey example_request) ''cached'' 60 500 Map.empty)
     else forward example_env [] ''10.0.0.7'' 2000 example_request (Map.empty(cacheKey example_request := None)))"
proof (rule cache_fresh_until_expiry [OF example_parses])
  show "\<not> blocklist_blocks (e_search example_env) (e_blocklist example_env) (t_host (r_target example_request))"
    unfolding example_target(3) by (simp add: example_env_def)
qed (simp_all add: example_target(3), simp add: example_request_def)

text \<open>
  Only what the rules allow is cached: a positive time to live means a \<open>GET\<close>, a 200 answer whose
  consulted \<open>Cache-Control\<close> value has none of the three forbidding words, and is the value of its
  first \<open>max-age\<close>.
\<close>
theorem cacheTTL_positive:
  "0 < cacheTTL req resp \<longleftrightarrow>
     r_method req = ''GET'' \<and> p_code resp = 200 \<and>
     (\<nexists>a b. header_get ''Cache-Control'' (p_headers resp) = a @ ''no-store'' @ b) \<and>
     (\<nexists>a b. header_get ''Cache-Control'' (p_headers resp) = a @ ''no-cache'' @ b) \<and>
     (\<nexists>a b. header_get ''Cache-Control'' (p_headers resp) = a @ ''private'' @ b) \<and>
     (\<exists>i. find_sub ''max-age='' (header_get ''Cache-Control'' (p_headers resp)) = Some i \<and>
        0 < atoi (drop (i + 8) (header_get ''Cache-Control'' (p_headers resp))))"
proof -
  let ?cc = "header_get ''Cache-Control'' (p_headers resp)"
  have w: "(\<nexists>a b. ?cc = a @ x @ b) \<longleftrightarrow> find_sub x ?cc = None" for x using find_sub_None [of x ?cc] by blast
  show ?thesis
    unfolding cacheTTL_def Let_def w
    by (cases "find_sub ''max-age='' ?cc") (auto split: if_splits option.splits)
qed

text \<open>Two facts about the code as it is: only the first \<open>Cache-Control\<close> line counts, and case matters.\<close>

lemma second_cache_control_ignored:
  "cacheTTL GET_example (new_response\<lparr>p_code := 200,
     p_headers := [(''Cache-Control'', ''max-age=60''), (''Cache-Control'', ''no-store'')]\<rparr>) = 60"
  "cacheTTL GET_example (new_response\<lparr>p_code := 200,
     p_headers := [(''Cache-Control'', ''max-age=60, No-Store'')]\<rparr>) = 60"
  by code_simp+

text \<open>An origin-form path that contains a URL is taken apart as if it were that URL.\<close>

lemma url_inside_path_taken_as_target:
  "t_host (parseURL ''/login?next=http://other.test/home'' default_target) = ''other.test''"
  by code_simp

lemma blocked_hosts_never_contacted_witness:
  "\<exists>env. env = example_env\<lparr>e_blocklist := [''origin'']\<rparr> \<and> ((To_origin ''origin.test'' 8080 [] \<in> set (fst (serviceConnection env
        [request_serialize example_request] [] ''10.0.0.7'' 1 2 Map.empty)) \<longrightarrow>
     (\<exists>req. fst (request_parse (open_reader [request_serialize example_request])) = Some req \<and> ''origin.test'' \<noteq> [] \<and>
        ''origin.test'' = t_host (r_target req) \<and> 8080 = t_port (r_target req) \<and>
        \<not> blocklist_blocks (e_search env)
            (e_blocklist env) ''origin.test'' \<and>
        (\<exists>rest. request_serialize (forwarded_request ''10.0.0.7'' req) = [] @ rest))) \<and>
   (\<forall>req. fst (request_parse (open_reader [request_serialize example_request])) = Some req \<and> t_host (r_target req) \<noteq> [] \<and>
      blocklist_blocks (e_search env)
        (e_blocklist env) (t_host (r_target req)) \<longrightarrow>
      serviceConnection env [request_serialize example_request] []
        ''10.0.0.7'' 1 2 Map.empty =
        ([Log (''[BLOCK] '' @ cacheKey req), sendSimple [] 403 ''Forbidden'' blocked_body, Close_client], Map.empty)))"
  by (rule exI [of _ "example_env\<lparr>e_blocklist := [''origin'']\<rparr>"], rule conjI [OF refl], rule blocked_hosts_never_contacted)

end
