(* ===== verification/Proxy_Server.thy ===== *)
theory Proxy_Server
  imports Proxy_Props
begin

text \<open>
  The proxy as a running server: \<open>main\<close> of \<open>proxy.cc\<close>, its sixteen workers and the cache they share. A
  connection is cut where it touches what others can see: the two critical sections of the cache. The
  origin, the name service and the client may be different at every step, and the clock moves on between
  any two. One connection that runs alone is \<open>serviceConnection\<close>. The property says where every reply
  comes from, whatever the interleaving. \<open>c_fetched\<close>, \<open>c_time\<close> and \<open>stores\<close> only record what happened.
\<close>

section \<open>Sockets\<close>

text \<open>For every address whether a socket can be had and what accepts there.\<close>

fun connect_first :: "(bool \<times> origin_conn option) list \<Rightarrow> origin_conn option" where
  "connect_first [] = None"
| "connect_first ((has_socket, conn) # rest) =
     (if \<not> has_socket then connect_first rest else case conn of Some c \<Rightarrow> Some c | None \<Rightarrow> connect_first rest)"

definition createClientSocket ::
  "(string \<Rightarrow> string \<Rightarrow> (bool \<times> origin_conn option) list option) \<Rightarrow> string \<Rightarrow> u16 \<Rightarrow> origin_conn option" where
  "createClientSocket getaddrinfo host port =
     (case getaddrinfo host (show_nat (unat port)) of None \<Rightarrow> None | Some res \<Rightarrow> connect_first res)"

text \<open>The results of \<open>socket\<close>, \<open>bind\<close> and \<open>listen\<close>; the descriptors that stay open.\<close>

definition createServerSocket :: "int \<Rightarrow> int \<Rightarrow> int \<Rightarrow> int option \<times> int list" where
  "createServerSocket fd bound listening =
     (if fd < 0 then (None, [])
      else if bound < 0 then (None, [])
      else if listening < 0 then (None, [])
      else (Some fd, [fd]))"

section \<open>Starting\<close>

datatype proxy_start = Quit int | Serving u16 int

text \<open>\<open>main\<close> up to the first \<open>accept\<close>: \<open>blocks\<close> reads the blocklist file, when there is one.\<close>

definition proxy_main ::
  "(string \<Rightarrow> 're option) \<Rightarrow> (string \<Rightarrow> string option) \<Rightarrow> (u16 \<Rightarrow> int \<times> int \<times> int) \<Rightarrow> string list \<Rightarrow>
   proxy_start \<times> 're list \<times> string list" where
  "proxy_main compile blocks calls args =
     (case args of
        [] \<Rightarrow> (Quit 1, [], [])
      | port_arg # others \<Rightarrow>
          let port = word_of_int (atoi port_arg);
              (patterns, logs) = (case others of
                 [] \<Rightarrow> ([], [])
               | path # _ \<Rightarrow> (case blocks path of
                     Some text \<Rightarrow> (blocklist_load compile text, [''loaded blocklist from '' @ path])
                   | None \<Rightarrow> ([], [''warning: could not load blocklist '' @ path])));
              (fd, bound, listening) = calls port
          in case fst (createServerSocket fd bound listening) of
               None \<Rightarrow> (Quit 1, patterns, logs)
             | Some serverfd \<Rightarrow> (Serving port serverfd, patterns, logs @ [''stproxy listening on port '' @ show_nat (unat port)]))"

section \<open>Connections\<close>

datatype conn_pc =
    Queued
  | Parsing
  | Looking http_request
  | Forwarding http_request
  | Storing http_request http_response
  | Answering string
  | Closed

record conn =
  c_in :: "string list"
  c_writes :: "int list"
  c_ip :: string
  c_pc :: conn_pc
  c_events :: "proxy_event list"
  c_fetched :: "http_response option"
  c_time :: int

definition accepted :: "string list \<Rightarrow> int list \<Rightarrow> string \<Rightarrow> conn" where
  "accepted chunks cw ip = \<lparr>c_in = chunks, c_writes = cw, c_ip = ip, c_pc = Queued, c_events = [], c_fetched = None, c_time = 0\<rparr>"

definition say :: "proxy_event list \<Rightarrow> conn_pc \<Rightarrow> conn \<Rightarrow> conn" where
  "say evs p cn = cn\<lparr>c_events := c_events cn @ evs, c_pc := p\<rparr>"

definition parsed :: "conn \<Rightarrow> http_request option" where
  "parsed cn = fst (request_parse (open_reader (c_in cn)))"

definition parse_step :: "('re \<Rightarrow> string \<Rightarrow> bool) \<Rightarrow> 're list \<Rightarrow> conn \<Rightarrow> conn" where
  "parse_step search patterns cn =
     (case parsed cn of
        None \<Rightarrow> say [Close_client] Closed cn
      | Some req \<Rightarrow>
          if t_host (r_target req) = [] then say [Close_client] Closed cn
          else if blocklist_blocks search patterns (t_host (r_target req))
          then say [Log (''[BLOCK] '' @ cacheKey req), sendSimple (c_writes cn) 403 ''Forbidden'' blocked_body, Close_client] Closed cn
          else say [] (if r_method req = ''GET'' then Looking req else Forwarding req) cn)"

definition forward_step :: "origin_conn option \<Rightarrow> http_request \<Rightarrow> conn \<Rightarrow> conn" where
  "forward_step conn req0 cn =
     (let label = cacheKey req0; req = forwarded_request (c_ip cn) req0; tgt = r_target req in case conn of
        None \<Rightarrow> say [Log (''[ERR]   '' @ label @ ''  (origin unreachable)''),
            sendSimple (c_writes cn) 502 ''Bad Gateway'' unreachable_body, Close_client] Closed cn
      | Some origin \<Rightarrow>
          let (ok, sent) = writeAll (o_writes origin) (request_serialize req)
          in if \<not> ok
             then say [To_origin (t_host tgt) (t_port tgt) sent, Close_origin,
                 sendSimple (c_writes cn) 502 ''Bad Gateway'' write_failed_body, Close_client] Closed cn
             else
               let (resp, _) = ingestFrom (open_reader (o_reply origin sent)) new_response;
                   cn' = cn\<lparr>c_fetched := Some resp\<rparr>
               in if cacheTTL req resp > 0
                  then say [To_origin (t_host tgt) (t_port tgt) sent, Close_origin] (Storing req0 resp) cn'
                  else say [To_origin (t_host tgt) (t_port tgt) sent, Close_origin, Log (''[MISS]  '' @ label)]
                    (Answering (response_serialize resp)) cn')"

text \<open>The next step of a connection; the cache may change with it.\<close>

definition conn_step ::
  "('re \<Rightarrow> string \<Rightarrow> bool) \<Rightarrow> 're list \<Rightarrow> (string \<Rightarrow> u16 \<Rightarrow> origin_conn option) \<Rightarrow> int \<Rightarrow> conn \<Rightarrow> http_cache \<Rightarrow>
   (conn \<times> http_cache) option" where
  "conn_step search patterns connect now cn c = (case c_pc cn of
       Queued \<Rightarrow> Some (say [] Parsing cn, c)
     | Parsing \<Rightarrow> Some (parse_step search patterns cn, c)
     | Looking req \<Rightarrow>
         (case cache_lookup (cacheKey req) now c of
            (Some text, c') \<Rightarrow> Some (say [Log (''[HIT]   '' @ cacheKey req)] (Answering text) (cn\<lparr>c_time := now\<rparr>), c')
          | (None, c') \<Rightarrow> Some (say [] (Forwarding req) cn, c'))
     | Forwarding req \<Rightarrow> Some (forward_step (connect (t_host (r_target req)) (t_port (r_target req))) req cn, c)
     | Storing req resp \<Rightarrow>
         (let ttl = cacheTTL (forwarded_request (c_ip cn) req) resp; text = response_serialize resp in
          Some (say [Log (''[MISS]  '' @ cacheKey req @ ''  (cached '' @ show_int ttl @ ''s)'')] (Answering text) cn,
            cache_store (cacheKey req) text ttl now c))
     | Answering text \<Rightarrow> Some (say [client_write (c_writes cn) text, Close_client] Closed cn, c)
     | Closed \<Rightarrow> None)"

text \<open>A connection with the proxy to itself: the clock reads \<open>t1\<close> at the look-up and \<open>t2\<close> at the store.\<close>

fun run_alone ::
  "nat \<Rightarrow> 're proxy_env \<Rightarrow> int \<Rightarrow> int \<Rightarrow> conn \<Rightarrow> http_cache \<Rightarrow> conn \<times> http_cache" where
  "run_alone 0 env t1 t2 cn c = (cn, c)"
| "run_alone (Suc n) env t1 t2 cn c =
     (case conn_step (e_search env) (e_blocklist env) (e_connect env) (case c_pc cn of Looking _ \<Rightarrow> t1 | _ \<Rightarrow> t2) cn c of
        None \<Rightarrow> (cn, c) | Some (cn', c') \<Rightarrow> run_alone n env t1 t2 cn' c')"

lemma forwarded_target [simp]: "r_target (forwarded_request ip req) = r_target req" "r_method (forwarded_request ip req) = r_method req"
  by (simp_all add: forwarded_request_def)

lemma forwarded_ttl [simp]: "cacheTTL (forwarded_request ip req) resp = cacheTTL req resp"
  by (simp add: cacheTTL_def)

lemma run_closed: "c_pc cn = Closed \<Longrightarrow> run_alone n env t1 t2 cn c = (cn, c)"
  by (cases n) (simp_all add: conn_step_def)

lemma run_forward:
  assumes "c_pc cn = Forwarding req" and "c_events cn = []"
  shows "let (cn', c') = run_alone (Suc (Suc (Suc n))) env t1 t2 cn c in
    c_pc cn' = Closed \<and> (c_events cn', c') = forward env (c_writes cn) (c_ip cn) t2 req c"
  using assms
  by (auto simp: conn_step_def forward_step_def forward_def say_def run_closed Let_def split: option.split prod.split)

lemma run_alone_service:
  "let (cn, c') = run_alone 6 env t1 t2 (accepted chunks cw ip) c in
    c_pc cn = Closed \<and> (c_events cn, c') = serviceConnection env chunks cw ip t1 t2 c"
proof -
  let ?cn = "(accepted chunks cw ip)\<lparr>c_pc := Parsing\<rparr>"
  have start: "run_alone 6 env t1 t2 (accepted chunks cw ip) c = run_alone 5 env t1 t2 ?cn c"
    by (simp add: numeral_eq_Suc conn_step_def accepted_def say_def)
  show ?thesis
  proof (cases "fst (request_parse (open_reader chunks))")
    case None
    then show ?thesis unfolding start
      by (simp add: numeral_eq_Suc conn_step_def accepted_def say_def parse_step_def parsed_def serviceConnection_def run_closed)
  next
    case (Some req)
    note parse = Some
    let ?host = "t_host (r_target req)"
    consider "?host = [] \<or> blocklist_blocks (e_search env) (e_blocklist env) ?host"
      | "?host \<noteq> []" "\<not> blocklist_blocks (e_search env) (e_blocklist env) ?host" "r_method req \<noteq> ''GET''"
      | "?host \<noteq> []" "\<not> blocklist_blocks (e_search env) (e_blocklist env) ?host" "r_method req = ''GET''"
      by blast
    then show ?thesis
    proof cases
      case 1
      then show ?thesis unfolding start using parse
        by (auto simp: numeral_eq_Suc conn_step_def accepted_def say_def parse_step_def parsed_def serviceConnection_def run_closed)
    next
      case 2
      let ?f = "?cn\<lparr>c_pc := Forwarding req\<rparr>"
      have "run_alone 5 env t1 t2 ?cn c = run_alone 4 env t1 t2 ?f c"
        using 2 parse by (simp add: numeral_eq_Suc conn_step_def accepted_def say_def parse_step_def parsed_def)
      then show ?thesis using run_forward [of ?f req 1 env t1 t2 c] 2 parse unfolding start
        by (simp add: accepted_def serviceConnection_def numeral_eq_Suc)
    next
      case 3
      let ?l = "?cn\<lparr>c_pc := Looking req\<rparr>"
      have look: "run_alone 5 env t1 t2 ?cn c = run_alone 4 env t1 t2 ?l c"
        using 3 parse by (simp add: numeral_eq_Suc conn_step_def accepted_def say_def parse_step_def parsed_def)
      obtain r c1 where lk: "cache_lookup (cacheKey req) t1 c = (r, c1)" by (cases "cache_lookup (cacheKey req) t1 c")
      show ?thesis
      proof (cases r)
        case None
        let ?f = "?cn\<lparr>c_pc := Forwarding req\<rparr>"
        have "run_alone 4 env t1 t2 ?l c = run_alone 3 env t1 t2 ?f c1"
          using lk None by (simp add: numeral_eq_Suc conn_step_def accepted_def say_def)
        then show ?thesis using run_forward [of ?f req 0 env t1 t2 c1] 3 parse lk None unfolding start look
          by (simp add: accepted_def serviceConnection_def numeral_eq_Suc)
      next
        case (Some cached)
        then show ?thesis using 3 parse lk unfolding start look
          by (simp add: numeral_eq_Suc conn_step_def accepted_def say_def serviceConnection_def run_closed)
      qed
    qed
  qed
qed

section \<open>The server\<close>

record proxy_server =
  now :: int
  cache :: http_cache
  conns :: "conn list"
  stores :: "(nat \<times> int) list"

definition pool_size :: nat where "pool_size = 16"

definition in_service :: "proxy_server \<Rightarrow> nat" where
  "in_service s = length (filter (\<lambda>cn. c_pc cn \<notin> {Queued, Closed}) (conns s))"

definition proxy_init :: "int \<Rightarrow> proxy_server" where
  "proxy_init t = \<lparr>now = t, cache = Map.empty, conns = [], stores = []\<rparr>"

text \<open>A worker's step: connection \<open>i\<close> of the pool, with whatever the name service and the origins do now.\<close>

definition serve :: "('re \<Rightarrow> string \<Rightarrow> bool) \<Rightarrow> 're list \<Rightarrow> (string \<Rightarrow> u16 \<Rightarrow> origin_conn option) \<Rightarrow> nat \<Rightarrow> proxy_server \<Rightarrow> proxy_server option" where
  "serve search patterns connect i s =
     (let cn = conns s ! i in
      if c_pc cn = Queued \<and> in_service s \<ge> pool_size then None
      else case conn_step search patterns connect (now s) cn (cache s) of
          None \<Rightarrow> None
        | Some (cn', c') \<Rightarrow> Some (s\<lparr>cache := c', conns := (conns s)[i := cn'],
            stores := (case c_pc cn of Storing _ _ \<Rightarrow> (i, now s) # stores s | _ \<Rightarrow> stores s)\<rparr>))"

inductive server_step :: "('re \<Rightarrow> string \<Rightarrow> bool) \<Rightarrow> 're list \<Rightarrow> proxy_server \<Rightarrow> proxy_server \<Rightarrow> bool" for search patterns where
  ticks: "now s \<le> t \<Longrightarrow> server_step search patterns s (s\<lparr>now := t\<rparr>)"
| accepts: "server_step search patterns s (s\<lparr>conns := conns s @ [accepted chunks cw ip]\<rparr>)"
| works: "i < length (conns s) \<Longrightarrow> serve search patterns (createClientSocket names) i s = Some s' \<Longrightarrow>
    server_step search patterns s s'"

inductive server_reach :: "('re \<Rightarrow> string \<Rightarrow> bool) \<Rightarrow> 're list \<Rightarrow> int \<Rightarrow> proxy_server \<Rightarrow> bool" for search patterns t0 where
  start: "server_reach search patterns t0 (proxy_init t0)"
| step: "server_reach search patterns t0 s \<Longrightarrow> server_step search patterns s s' \<Longrightarrow> server_reach search patterns t0 s'"

section \<open>Where replies come from\<close>

definition allowed :: "('re \<Rightarrow> string \<Rightarrow> bool) \<Rightarrow> 're list \<Rightarrow> conn \<Rightarrow> http_request \<Rightarrow> bool" where
  "allowed search patterns cn req \<longleftrightarrow>
     parsed cn = Some req \<and> t_host (r_target req) \<noteq> [] \<and> \<not> blocklist_blocks search patterns (t_host (r_target req))"

text \<open>Some connection fetched this text for this key and stored it at time \<open>t\<close>, to live until \<open>u\<close>.\<close>

definition stored_reply :: "proxy_server \<Rightarrow> string \<Rightarrow> string \<Rightarrow> int \<Rightarrow> int \<Rightarrow> bool" where
  "stored_reply s key text t u \<longleftrightarrow> (\<exists>j req resp. (j, t) \<in> set (stores s) \<and> j < length (conns s) \<and>
     parsed (conns s ! j) = Some req \<and> cacheKey req = key \<and> c_fetched (conns s ! j) = Some resp \<and>
     text = response_serialize resp \<and> 0 < cacheTTL req resp \<and> u = t + cacheTTL req resp * ticks_per_second)"

definition asked :: "conn \<Rightarrow> http_request \<Rightarrow> proxy_event" where
  "asked cn req = To_origin (t_host (r_target req)) (t_port (r_target req)) (request_serialize (forwarded_request (c_ip cn) req))"

definition from_cache :: "proxy_server \<Rightarrow> conn \<Rightarrow> http_request \<Rightarrow> string \<Rightarrow> bool" where
  "from_cache s cn req text \<longleftrightarrow> r_method req = ''GET'' \<and>
     (\<exists>t u. stored_reply s (cacheKey req) text t u \<and> t \<le> c_time cn \<and> c_time cn < u)"

text \<open>The courses a connection can have taken when it is closed.\<close>

definition accounted :: "('re \<Rightarrow> string \<Rightarrow> bool) \<Rightarrow> 're list \<Rightarrow> proxy_server \<Rightarrow> conn \<Rightarrow> bool" where
  "accounted search patterns s cn \<longleftrightarrow>
     c_events cn = [Close_client] \<and> (\<forall>req. parsed cn = Some req \<longrightarrow> t_host (r_target req) = [])
   \<or> (\<exists>req. parsed cn = Some req \<and> blocklist_blocks search patterns (t_host (r_target req)) \<and>
        c_events cn = [Log (''[BLOCK] '' @ cacheKey req), sendSimple (c_writes cn) 403 ''Forbidden'' blocked_body, Close_client])
   \<or> (\<exists>req. allowed search patterns cn req \<and>
        ((\<exists>l. c_events cn = [Log l, sendSimple (c_writes cn) 502 ''Bad Gateway'' unreachable_body, Close_client])
       \<or> (\<exists>sent rest. request_serialize (forwarded_request (c_ip cn) req) = sent @ rest \<and>
            c_events cn = [To_origin (t_host (r_target req)) (t_port (r_target req)) sent, Close_origin,
              sendSimple (c_writes cn) 502 ''Bad Gateway'' write_failed_body, Close_client])
       \<or> (\<exists>l text. from_cache s cn req text \<and> c_events cn = [Log l, client_write (c_writes cn) text, Close_client])
       \<or> (\<exists>l resp. c_fetched cn = Some resp \<and>
            c_events cn = [asked cn req, Close_origin, Log l, client_write (c_writes cn) (response_serialize resp), Close_client])))"

definition conn_ok :: "('re \<Rightarrow> string \<Rightarrow> bool) \<Rightarrow> 're list \<Rightarrow> proxy_server \<Rightarrow> conn \<Rightarrow> bool" where
  "conn_ok search patterns s cn = (case c_pc cn of
       Queued \<Rightarrow> c_events cn = [] \<and> c_fetched cn = None
     | Parsing \<Rightarrow> c_events cn = [] \<and> c_fetched cn = None
     | Looking req \<Rightarrow> c_events cn = [] \<and> c_fetched cn = None \<and> allowed search patterns cn req \<and> r_method req = ''GET''
     | Forwarding req \<Rightarrow> c_events cn = [] \<and> c_fetched cn = None \<and> allowed search patterns cn req
     | Storing req resp \<Rightarrow> c_events cn = [asked cn req, Close_origin] \<and> c_fetched cn = Some resp \<and>
         allowed search patterns cn req \<and> 0 < cacheTTL req resp
     | Answering text \<Rightarrow> (\<exists>req l. allowed search patterns cn req \<and>
         (from_cache s cn req text \<and> c_events cn = [Log l]
        \<or> (\<exists>resp. c_fetched cn = Some resp \<and> text = response_serialize resp \<and> c_events cn = [asked cn req, Close_origin, Log l])))
     | Closed \<Rightarrow> accounted search patterns s cn)"

definition cache_ok :: "proxy_server \<Rightarrow> bool" where
  "cache_ok s \<longleftrightarrow> (\<forall>key x u. cache_content (cache s) key = Some (x, u) \<longrightarrow> (\<exists>t \<le> now s. stored_reply s key x t u))"

text \<open>Nothing that was recorded is lost.\<close>

definition later :: "proxy_server \<Rightarrow> proxy_server \<Rightarrow> bool" where
  "later s s' \<longleftrightarrow> set (stores s) \<subseteq> set (stores s') \<and> length (conns s) \<le> length (conns s') \<and>
     (\<forall>j < length (conns s). parsed (conns s' ! j) = parsed (conns s ! j) \<and>
        (\<forall>r. c_fetched (conns s ! j) = Some r \<longrightarrow> c_fetched (conns s' ! j) = Some r))"

lemma stored_later: "stored_reply s key text t u \<Longrightarrow> later s s' \<Longrightarrow> stored_reply s' key text t u"
  unfolding stored_reply_def later_def by (elim exE conjE, intro exI conjI) auto

lemma from_cache_later: "from_cache s cn req text \<Longrightarrow> later s s' \<Longrightarrow> from_cache s' cn req text"
  unfolding from_cache_def by (blast intro: stored_later)

lemma accounted_later: "accounted search patterns s cn \<Longrightarrow> later s s' \<Longrightarrow> accounted search patterns s' cn"
  unfolding accounted_def by (blast dest: from_cache_later)

lemma conn_ok_later: "conn_ok search patterns s cn \<Longrightarrow> later s s' \<Longrightarrow> conn_ok search patterns s' cn"
  unfolding conn_ok_def by (cases "c_pc cn") (auto dest: from_cache_later accounted_later)

section \<open>Every step keeps the account\<close>

lemma say_fields [simp]:
  "c_pc (say evs p cn) = p" "c_events (say evs p cn) = c_events cn @ evs" "c_fetched (say evs p cn) = c_fetched cn"
  "c_time (say evs p cn) = c_time cn" "c_in (say evs p cn) = c_in cn" "c_writes (say evs p cn) = c_writes cn"
  "c_ip (say evs p cn) = c_ip cn" "parsed (say evs p cn) = parsed cn" "asked (say evs p cn) = asked cn"
  "allowed search patterns (say evs p cn) = allowed search patterns cn"
  "from_cache s (say evs p cn) req txt = from_cache s cn req txt"
  by (simp_all add: say_def parsed_def asked_def allowed_def from_cache_def fun_eq_iff)

lemma record_fields [simp]:
  "parsed (cn\<lparr>c_time := t\<rparr>) = parsed cn" "parsed (cn\<lparr>c_fetched := r\<rparr>) = parsed cn"
  "asked (cn\<lparr>c_time := t\<rparr>) = asked cn" "asked (cn\<lparr>c_fetched := r\<rparr>) = asked cn"
  "allowed search patterns (cn\<lparr>c_time := t\<rparr>) = allowed search patterns cn"
  "allowed search patterns (cn\<lparr>c_fetched := r\<rparr>) = allowed search patterns cn"
  by (simp_all add: parsed_def asked_def allowed_def fun_eq_iff)

lemma step_parsed:
  "conn_step search patterns connect t cn c = Some (cn', c') \<Longrightarrow> parsed cn' = parsed cn"
  by (auto simp: conn_step_def parse_step_def forward_step_def Let_def split: conn_pc.splits option.splits prod.splits if_splits)

lemma step_fetched:
  "conn_step search patterns connect t cn c = Some (cn', c') \<Longrightarrow> conn_ok search patterns s cn \<Longrightarrow>
   c_fetched cn = Some r \<Longrightarrow> c_fetched cn' = Some r"
  by (auto simp: conn_step_def conn_ok_def parse_step_def Let_def split: conn_pc.splits option.splits prod.splits if_splits)

lemma parse_step_ok:
  "c_pc cn = Parsing \<Longrightarrow> conn_ok search patterns s cn \<Longrightarrow> conn_ok search patterns s (parse_step search patterns cn)"
  by (auto simp: conn_ok_def parse_step_def accounted_def allowed_def split: option.splits)

lemma forward_step_ok:
  assumes "c_pc cn = Forwarding req" and "conn_ok search patterns s cn"
  shows "conn_ok search patterns s (forward_step conn req cn)"
proof -
  have cn: "c_events cn = []" "c_fetched cn = None" "allowed search patterns cn req" using assms by (simp_all add: conn_ok_def)
  show ?thesis
  proof (cases conn)
    case None
    then show ?thesis using cn by (auto simp: forward_step_def conn_ok_def accounted_def Let_def)
  next
    case (Some origin)
    obtain sent_ok sent where w: "writeAll (o_writes origin) (request_serialize (forwarded_request (c_ip cn) req)) = (sent_ok, sent)"
      by (cases "writeAll (o_writes origin) (request_serialize (forwarded_request (c_ip cn) req))")
    obtain rest where rest: "request_serialize (forwarded_request (c_ip cn) req) = sent @ rest" "sent_ok \<longrightarrow> rest = []"
      using writeAll_prefix [OF w] by blast
    show ?thesis
    proof (cases sent_ok)
      case False
      then show ?thesis using cn Some w rest by (auto simp: forward_step_def conn_ok_def accounted_def Let_def)
    next
      case True
      then show ?thesis using cn Some w rest
        by (auto simp: forward_step_def conn_ok_def asked_def Let_def split: prod.split)
    qed
  qed
qed

lemma lookup_step_ok:
  assumes "c_pc cn = Looking req" and "conn_ok search patterns s cn" and "cache_ok s"
    and "conn_step search patterns connect (now s) cn (cache s) = Some (cn', c')"
  shows "conn_ok search patterns s cn'"
proof -
  have cn: "c_events cn = []" "c_fetched cn = None" "allowed search patterns cn req" "r_method req = ''GET''"
    using assms by (simp_all add: conn_ok_def)
  obtain hit c1 where lk: "cache_lookup (cacheKey req) (now s) (cache s) = (hit, c1)"
    by (cases "cache_lookup (cacheKey req) (now s) (cache s)")
  show ?thesis
  proof (cases hit)
    case None
    then show ?thesis using assms(1,4) lk cn by (auto simp: conn_step_def conn_ok_def)
  next
    case (Some cached)
    then have "\<exists>u. (\<exists>t \<le> now s. stored_reply s (cacheKey req) cached t u) \<and> now s < u"
      using assms(3) lk unfolding cache_ok_def by (intro hc.hit_stored) auto
    then have "from_cache s (cn\<lparr>c_time := now s\<rparr>) req cached"
      using cn(4) by (auto simp: from_cache_def)
    then show ?thesis using assms(1,4) lk Some cn by (auto simp: conn_step_def conn_ok_def)
  qed
qed

lemma answer_step_ok:
  assumes "c_pc cn = Answering answer" and "conn_ok search patterns s cn"
  shows "conn_ok search patterns s (say [client_write (c_writes cn) answer, Close_client] Closed cn)"
proof -
  obtain req l where a: "allowed search patterns cn req"
    and l: "from_cache s cn req answer \<and> c_events cn = [Log l] \<or>
      (\<exists>resp. c_fetched cn = Some resp \<and> answer = response_serialize resp \<and> c_events cn = [asked cn req, Close_origin, Log l])"
    using assms by (auto simp: conn_ok_def)
  from l have "accounted search patterns s (say [client_write (c_writes cn) answer, Close_client] Closed cn)"
  proof (elim disjE exE conjE)
    assume "from_cache s cn req answer" and "c_events cn = [Log l]"
    then show ?thesis using a unfolding accounted_def by auto
  next
    fix resp
    assume "c_fetched cn = Some resp" and "answer = response_serialize resp" and "c_events cn = [asked cn req, Close_origin, Log l]"
    then show ?thesis using a unfolding accounted_def by auto
  qed
  then show ?thesis by (simp add: conn_ok_def)
qed

lemma conn_step_ok:
  assumes "conn_ok search patterns s cn" and "cache_ok s"
    and "conn_step search patterns connect (now s) cn (cache s) = Some (cn', c')"
  shows "conn_ok search patterns s cn'"
proof (cases "c_pc cn")
  case Queued
  then show ?thesis using assms by (auto simp: conn_step_def conn_ok_def)
next
  case Parsing
  then show ?thesis using assms parse_step_ok by (auto simp: conn_step_def)
next
  case (Looking req)
  then show ?thesis using assms lookup_step_ok by blast
next
  case (Forwarding req)
  then show ?thesis using assms forward_step_ok by (auto simp: conn_step_def)
next
  case (Storing req resp)
  then show ?thesis using assms by (auto simp: conn_step_def conn_ok_def Let_def)
next
  case (Answering answer)
  then show ?thesis using assms answer_step_ok [OF Answering assms(1)] by (auto simp: conn_step_def)
next
  case Closed
  then show ?thesis using assms by (simp add: conn_step_def)
qed

section \<open>The invariant of the server\<close>

definition server_ok :: "('re \<Rightarrow> string \<Rightarrow> bool) \<Rightarrow> 're list \<Rightarrow> proxy_server \<Rightarrow> bool" where
  "server_ok search patterns s \<longleftrightarrow>
     (\<forall>cn \<in> set (conns s). conn_ok search patterns s cn) \<and> cache_ok s \<and> in_service s \<le> pool_size"

lemma accounted_closes: "accounted search patterns s cn \<Longrightarrow> closes (c_events cn)"
  unfolding accounted_def by (elim disjE exE conjE) (simp_all add: closes_def sendSimple_def client_write_def asked_def)

lemma server_okI:
  assumes "later s s'" and "server_ok search patterns s" and "cache_ok s'" and "in_service s' \<le> pool_size"
    and "\<And>cn. cn \<in> set (conns s') \<Longrightarrow> cn \<in> set (conns s) \<or> conn_ok search patterns s cn"
  shows "server_ok search patterns s'"
  using assms unfolding server_ok_def by (blast intro: conn_ok_later)

lemma cache_ok_later:
  assumes "cache_ok s" and "later s s'" and "now s \<le> now s'"
    and "\<And>key e. cache_content (cache s') key = Some e \<Longrightarrow> cache_content (cache s) key = Some e"
  shows "cache_ok s'"
  using assms stored_later order_trans unfolding cache_ok_def by blast

lemma step_cache_shrinks:
  "conn_step search patterns connect t cn c = Some (cn', c') \<Longrightarrow> \<forall>req resp. c_pc cn \<noteq> Storing req resp \<Longrightarrow>
   cache_content c' key = Some e \<Longrightarrow> cache_content c key = Some e"
  by (auto simp: conn_step_def split: conn_pc.splits option.splits prod.splits dest: hc.look_shrinks)

lemma serve_parts:
  assumes "serve search patterns connect i s = Some s'"
  obtains cn' where "conn_step search patterns connect (now s) (conns s ! i) (cache s) = Some (cn', cache s')"
    and "conns s' = (conns s)[i := cn']" and "now s' = now s"
    and "stores s' = (case c_pc (conns s ! i) of Storing _ _ \<Rightarrow> (i, now s) # stores s | _ \<Rightarrow> stores s)"
    and "c_pc (conns s ! i) = Queued \<longrightarrow> in_service s < pool_size"
  using assms by (auto simp: serve_def Let_def split: if_splits option.splits prod.splits)

lemma serve_later:
  assumes "serve search patterns connect i s = Some s'" and "i < length (conns s)"
    and "conn_ok search patterns s (conns s ! i)"
  shows "later s s'"
proof -
  obtain cn' where st: "conn_step search patterns connect (now s) (conns s ! i) (cache s) = Some (cn', cache s')"
    and c: "conns s' = (conns s)[i := cn']"
    and m: "stores s' = (case c_pc (conns s ! i) of Storing _ _ \<Rightarrow> (i, now s) # stores s | _ \<Rightarrow> stores s)"
    using assms(1) by (rule serve_parts)
  show ?thesis
    using step_parsed [OF st] step_fetched [OF st assms(3)] assms(2)
    by (auto simp: later_def c m nth_list_update split: conn_pc.split)
qed

lemma serve_cache_ok:
  assumes "serve search patterns connect i s = Some s'" and "i < length (conns s)"
    and "conn_ok search patterns s (conns s ! i)" and "cache_ok s"
  shows "cache_ok s'"
proof -
  let ?cn = "conns s ! i"
  obtain cn' where st: "conn_step search patterns connect (now s) ?cn (cache s) = Some (cn', cache s')"
    and c: "conns s' = (conns s)[i := cn']" and n: "now s' = now s"
    and m: "stores s' = (case c_pc ?cn of Storing _ _ \<Rightarrow> (i, now s) # stores s | _ \<Rightarrow> stores s)"
    using assms(1) by (rule serve_parts)
  note lat = serve_later [OF assms(1-3)]
  show ?thesis
  proof (cases "\<exists>req resp. c_pc ?cn = Storing req resp")
    case False
    then show ?thesis using cache_ok_later [OF assms(4) lat] step_cache_shrinks [OF st] n by simp
  next
    case True
    then obtain req resp where pc: "c_pc ?cn = Storing req resp" by blast
    have cn: "parsed ?cn = Some req" "c_fetched ?cn = Some resp" "0 < cacheTTL req resp"
      using assms(3) pc by (simp_all add: conn_ok_def allowed_def)
    have new: "cache s' = cache_store (cacheKey req) (response_serialize resp) (cacheTTL req resp) (now s) (cache s)"
      and cn': "parsed cn' = Some req" "c_fetched cn' = Some resp"
      using st pc cn by (auto simp: conn_step_def Let_def)
    have "stored_reply s' (cacheKey req) (response_serialize resp) (now s) (now s + cacheTTL req resp * ticks_per_second)"
      using assms(2) pc cn cn' by (auto simp: stored_reply_def c m)
    moreover have "\<exists>t \<le> now s. stored_reply s' key x t u" if "cache_content (cache s) key = Some (x, u)" for key x u
      using assms(4) stored_later [OF _ lat] that unfolding cache_ok_def by blast
    ultimately show ?thesis
      unfolding cache_ok_def new n using hc.put_keeps [where P = "\<lambda>k x u. \<exists>t \<le> now s. stored_reply s' k x t u"] by blast
  qed
qed

lemma serve_in_service:
  assumes "serve search patterns connect i s = Some s'" and "i < length (conns s)" and "in_service s \<le> pool_size"
  shows "in_service s' \<le> pool_size"
proof -
  let ?cn = "conns s ! i" and ?P = "\<lambda>cn. c_pc cn \<notin> {Queued, Closed}"
  obtain cn' where st: "conn_step search patterns connect (now s) ?cn (cache s) = Some (cn', cache s')"
    and c: "conns s' = (conns s)[i := cn']" and q: "c_pc ?cn = Queued \<longrightarrow> in_service s < pool_size"
    using assms(1) by (rule serve_parts)
  have "c_pc ?cn \<noteq> Closed" using st by (auto simp: conn_step_def)
  with length_filter_update [OF assms(2), of ?P cn'] q assms(3) show ?thesis
    by (cases "c_pc ?cn = Queued") (auto simp: in_service_def c of_bool_def split: if_splits)
qed

lemma server_step_ok:
  assumes "server_step search patterns s s'" and "server_ok search patterns s"
  shows "server_ok search patterns s'"
  using assms(1)
proof cases
  case (ticks t)
  have lat: "later s s'" by (simp add: ticks later_def)
  show ?thesis
  proof (rule server_okI [OF lat assms(2)])
    show "cache_ok s'" using cache_ok_later [OF _ lat] assms(2) ticks by (simp add: server_ok_def)
    show "in_service s' \<le> pool_size" using assms(2) ticks by (simp add: server_ok_def in_service_def)
  qed (simp add: ticks)
next
  case (accepts chunks cw ip)
  have lat: "later s s'" by (auto simp: accepts later_def nth_append)
  show ?thesis
  proof (rule server_okI [OF lat assms(2)])
    show "cache_ok s'" using cache_ok_later [OF _ lat] assms(2) accepts by (simp add: server_ok_def)
    show "in_service s' \<le> pool_size"
      using assms(2) accepts by (simp add: server_ok_def in_service_def accepted_def)
  qed (auto simp: accepts conn_ok_def accepted_def)
next
  case (works i names)
  have ok: "conn_ok search patterns s (conns s ! i)" "cache_ok s" "in_service s \<le> pool_size"
    using assms(2) works(1) by (simp_all add: server_ok_def)
  show ?thesis
  proof (rule server_okI [OF serve_later [OF works(2,1) ok(1)] assms(2)])
    show "cache_ok s'" "in_service s' \<le> pool_size"
      using serve_cache_ok serve_in_service works ok by blast+
    fix cn
    obtain cn' where st: "conn_step search patterns (createClientSocket names) (now s) (conns s ! i) (cache s) = Some (cn', cache s')"
      and c: "conns s' = (conns s)[i := cn']"
      using works(2) by (rule serve_parts)
    assume "cn \<in> set (conns s')"
    then show "cn \<in> set (conns s) \<or> conn_ok search patterns s cn"
      using conn_step_ok [OF ok(1,2) st] set_update_subset_insert unfolding c by fastforce
  qed
qed

lemma reach_ok: "server_reach search patterns t0 s \<Longrightarrow> server_ok search patterns s"
proof (induction rule: server_reach.induct)
  case start
  show ?case by (simp add: server_ok_def proxy_init_def cache_ok_def cache_content_def in_service_def)
qed (rule server_step_ok)

text \<open>
  C38: every reply is accounted for. Whatever the connections do between each other's steps, and whatever the
  origins and the clock do, a connection that is closed took one of six courses: refused as unreadable or
  without host; the 403 page, exactly for a blocked host, without contact to an origin; one of the two 502
  pages; a copy from the cache, of what some connection fetched for the same key with a positive time to
  live that had begun and not run out at the look-up; or the reply to its own request, sent in full to the
  host it names. Its descriptors are closed once each. Before that the client has been sent nothing. At most
  sixteen connections are served at a time.
\<close>

theorem every_reply_accounted:
  assumes "server_reach search patterns t0 s" and "cn \<in> set (conns s)"
  shows "(c_pc cn = Closed \<longrightarrow> accounted search patterns s cn \<and> closes (c_events cn)) \<and>
    (c_pc cn \<noteq> Closed \<longrightarrow> Close_client \<notin> set (c_events cn) \<and> (\<forall>data. To_client data \<notin> set (c_events cn))) \<and>
    in_service s \<le> pool_size"
proof -
  have ok: "conn_ok search patterns s cn" "in_service s \<le> pool_size"
    using reach_ok [OF assms(1)] assms(2) by (simp_all add: server_ok_def)
  show ?thesis
    using ok accounted_closes [of search patterns s cn] by (cases "c_pc cn") (auto simp: conn_ok_def asked_def)
qed

section \<open>A run\<close>

text \<open>One client asks for a page while the name service is down.\<close>

definition demo_conn :: conn where
  "demo_conn = accepted [request_serialize example_request] [] ''10.0.0.7''"

definition demo_server :: "conn \<Rightarrow> proxy_server" where
  "demo_server cn = \<lparr>now = 5, cache = Map.empty, conns = [cn], stores = []\<rparr>"

definition demo_closed :: conn where
  "demo_closed = forward_step None example_request (demo_conn\<lparr>c_pc := Forwarding example_request\<rparr>)"

lemma demo_alone:
  assumes "server_reach search patterns 5 (demo_server cn)" and "c_pc cn \<noteq> Closed"
    and "\<And>c. c = Map.empty \<Longrightarrow> conn_step search patterns (createClientSocket (\<lambda>h p. None)) 5 cn c = Some (cn', c)"
    and "\<forall>req resp. c_pc cn \<noteq> Storing req resp"
  shows "server_reach search patterns 5 (demo_server cn')"
proof (rule server_reach.step [OF assms(1)], rule server_step.works)
  show "0 < length (conns (demo_server cn))" by (simp add: demo_server_def)
  show "serve search patterns (createClientSocket (\<lambda>h p. None)) 0 (demo_server cn) = Some (demo_server cn')"
    using assms(2-4) by (auto simp: serve_def demo_server_def in_service_def pool_size_def split: conn_pc.split)
qed

lemma demo_reach:
  "server_reach (\<lambda>p h. find_sub p h \<noteq> None) [''evil.test''] 5 (demo_server demo_closed)"
proof -
  let ?reach = "server_reach (\<lambda>p h. find_sub p h \<noteq> None) [''evil.test''] 5"
  let ?p = "demo_conn\<lparr>c_pc := Parsing\<rparr>" and ?l = "demo_conn\<lparr>c_pc := Looking example_request\<rparr>"
    and ?f = "demo_conn\<lparr>c_pc := Forwarding example_request\<rparr>"
  have parses: "parsed ?p = Some example_request"
    using example_parses by (simp add: parsed_def demo_conn_def accepted_def)
  have get: "r_method example_request = ''GET''" "\<not> blocklist_blocks (\<lambda>p h. find_sub p h \<noteq> None) [''evil.test''] ''origin.test''"
    by (simp add: example_request_def, code_simp)
  have init: "?reach (proxy_init 5\<lparr>conns := conns (proxy_init 5) @ [demo_conn]\<rparr>)"
    unfolding demo_conn_def by (rule server_reach.step [OF server_reach.start server_step.accepts])
  have 0: "?reach (demo_server demo_conn)"
    using init by (simp add: proxy_init_def demo_server_def)
  have 1: "?reach (demo_server ?p)"
    by (rule demo_alone [OF 0]) (simp_all add: demo_conn_def accepted_def conn_step_def say_def)
  have 2: "?reach (demo_server ?l)"
    by (rule demo_alone [OF 1])
      (use parses get in \<open>simp_all add: demo_conn_def accepted_def conn_step_def say_def parse_step_def example_target(3)\<close>)
  have 3: "?reach (demo_server ?f)"
    by (rule demo_alone [OF 2]) (simp_all add: demo_conn_def accepted_def conn_step_def say_def cache_lookup_def)
  show ?thesis
    by (rule demo_alone [OF 3]) (simp_all add: conn_step_def createClientSocket_def demo_closed_def)
qed

theorem every_reply_accounted_witness:
  "\<exists>s cn. server_reach (\<lambda>p h. find_sub p h \<noteq> None) [''evil.test''] 5 s \<and> cn \<in> set (conns s) \<and> c_pc cn = Closed \<and>
     accounted (\<lambda>p h. find_sub p h \<noteq> None) [''evil.test''] s cn \<and> closes (c_events cn)"
proof (intro exI conjI)
  have cn: "demo_closed \<in> set (conns (demo_server demo_closed))" "c_pc demo_closed = Closed"
    by (simp_all add: demo_server_def demo_closed_def forward_step_def)
  show "demo_closed \<in> set (conns (demo_server demo_closed))" "c_pc demo_closed = Closed" by (rule cn)+
  show "accounted (\<lambda>p h. find_sub p h \<noteq> None) [''evil.test''] (demo_server demo_closed) demo_closed" "closes (c_events demo_closed)"
    using every_reply_accounted [OF demo_reach cn(1)] cn(2) by simp_all
qed (rule demo_reach)

section \<open>What a key stands for\<close>

text \<open>With a path that starts with a slash, as in every request with a full URL, the key determines the target.\<close>

lemma cacheKey_inj:
  assumes "cacheKey q = cacheKey q'" and "CHR '' '' \<notin> set (r_method q) \<union> set (r_method q')"
    and "CHR '':'' \<notin> set (t_host (r_target q)) \<union> set (t_host (r_target q'))"
    and "t_path (r_target q) = CHR ''/'' # p" and "t_path (r_target q') = CHR ''/'' # p'"
  shows "r_method q = r_method q' \<and> r_target q = r_target q'"
proof -
  let ?t = "r_target q" and ?t' = "r_target q'"
  have 1: "r_method q = r_method q' \<and> t_host ?t @ CHR '':'' # show_nat (unat (t_port ?t)) @ t_path ?t =
      t_host ?t' @ CHR '':'' # show_nat (unat (t_port ?t')) @ t_path ?t'"
    using assms(1,2) by (intro cut_at) (auto simp: cacheKey_def)
  then have 2: "t_host ?t = t_host ?t' \<and> show_nat (unat (t_port ?t)) @ CHR ''/'' # p = show_nat (unat (t_port ?t')) @ CHR ''/'' # p'"
    using assms(3-5) by (intro cut_at) auto
  have "CHR ''/'' \<notin> set (show_nat n)" for n
    using show_nat_digits [of "CHR ''/''" n] by (auto simp: isdigit_def char_code_def)
  with 2 have 3: "show_nat (unat (t_port ?t)) = show_nat (unat (t_port ?t')) \<and> p = p'"
    by (intro cut_at) auto
  then have "t_port ?t = t_port ?t'" by (metis dec_nat_show_nat word_unat_eq_iff)
  with 1 2 3 assms(4,5) show ?thesis by (cases ?t; cases ?t') simp
qed

text \<open>
  In a request whose URL is a bare path the path may start with a digit, and then the key is that of another
  port: the page stored for \<open>h:8\<close> answers the request for \<open>http://h/x\<close>.
\<close>

lemma collision_targets:
  "target_from_host [(''Host'', ''h:8'')] (parseURL ''0/x'' default_target) = \<lparr>t_host = ''h'', t_port = 8, t_path = ''0/x''\<rparr>"
  "target_from_host [(''Host'', ''h'')] (parseURL ''http://h/x'' default_target) = \<lparr>t_host = ''h'', t_port = 80, t_path = ''/x''\<rparr>"
  by code_simp+

lemma cacheKey_collides:
  "\<exists>q q'. r_target q = target_from_host [(''Host'', ''h:8'')] (parseURL ''0/x'' default_target) \<and>
     r_target q' = target_from_host [(''Host'', ''h'')] (parseURL ''http://h/x'' default_target) \<and>
     t_port (r_target q) = 8 \<and> t_port (r_target q') = 80 \<and> cacheKey q = cacheKey q'"
proof -
  let ?q = "example_request\<lparr>r_target := \<lparr>t_host = ''h'', t_port = 8, t_path = ''0/x''\<rparr>\<rparr>"
  let ?q' = "example_request\<lparr>r_target := \<lparr>t_host = ''h'', t_port = 80, t_path = ''/x''\<rparr>\<rparr>"
  have "show_nat 8 = ''8''" "show_nat 80 = ''80''" by code_simp+
  then have "cacheKey ?q = cacheKey ?q'" by (simp add: cacheKey_def)
  then show ?thesis unfolding collision_targets by (intro exI [of _ ?q] exI [of _ ?q']) simp
qed

end
