(* ===== verification/Semaphore.thy ===== *)
theory Semaphore
  imports Prelude
begin

text \<open>
  The counting semaphore of \<open>semaphore.h\<close>: an integer guarded by a mutex, with a condition variable.
  A critical section is one step. A thread in \<open>cv.wait\<close> is \<open>sleeping\<close>; a notified thread, or one
  woken without notification, is \<open>woken\<close> until it holds the mutex again and re-tests the
  predicate. The contract \<open>counting_semaphore\<close> is what the thread pool builds on. (\<open>value\<close> is a
  32-bit \<open>int\<close> in the source; the model's is unbounded: nothing in the programs comes near
  \<open>2 ^ 31\<close> pending signals.)
\<close>

section \<open>State and operations\<close>

record sem =
  sem_value :: int
  sleeping :: "nat list"
  woken :: "nat list"

definition sem_init :: "int \<Rightarrow> sem" where
  "sem_init v = \<lparr>sem_value = v, sleeping = [], woken = []\<rparr>"

text \<open>The predicate loop of \<open>cv.wait\<close> under the mutex: take a unit, or go to sleep.\<close>

definition wait_check :: "nat \<Rightarrow> sem \<Rightarrow> bool \<times> sem" where
  "wait_check t s =
     (if sem_value s > 0 then (True, s\<lparr>sem_value := sem_value s - 1\<rparr>)
      else (False, s\<lparr>sleeping := sleeping s @ [t]\<rparr>))"

definition sem_resume :: "nat \<Rightarrow> sem \<Rightarrow> bool \<times> sem" where
  "sem_resume t s = wait_check t (s\<lparr>woken := remove1 t (woken s)\<rparr>)"

definition wake :: "nat \<Rightarrow> sem \<Rightarrow> sem" where
  "wake t s = s\<lparr>sleeping := remove1 t (sleeping s), woken := t # woken s\<rparr>"

text \<open>\<open>notify_one\<close> wakes one sleeper of the implementation's choice, if there is any.\<close>

definition notify_one :: "nat \<Rightarrow> sem \<Rightarrow> sem" where
  "notify_one k s =
     (if sleeping s = [] then s else wake (sleeping s ! (k mod length (sleeping s))) s)"

definition sem_signal :: "nat \<Rightarrow> sem \<Rightarrow> sem" where
  "sem_signal k s = notify_one k (s\<lparr>sem_value := sem_value s + 1\<rparr>)"

datatype sem_event = Acquired nat | Blocked nat | Signalled | Woke nat

definition outcome :: "nat \<Rightarrow> bool \<Rightarrow> sem_event" where
  "outcome t ok = (if ok then Acquired t else Blocked t)"

inductive sem_step :: "sem \<Rightarrow> sem_event \<Rightarrow> sem \<Rightarrow> bool" where
  call_wait: "wait_check t s = (ok, s') \<Longrightarrow> sem_step s (outcome t ok) s'"
| resume: "t \<in> set (woken s) \<Longrightarrow> sem_resume t s = (ok, s') \<Longrightarrow> sem_step s (outcome t ok) s'"
| signal: "sem_step s Signalled (sem_signal k s)"
| spurious: "t \<in> set (sleeping s) \<Longrightarrow> sem_step s (Woke t) (wake t s)"

inductive sem_run :: "sem \<Rightarrow> sem_event list \<Rightarrow> sem \<Rightarrow> bool" where
  start: "sem_run s [] s"
| more: "sem_run s es s' \<Longrightarrow> sem_step s' e s'' \<Longrightarrow> sem_run s (es @ [e]) s''"

inductive_cases sem_step_cases: "sem_step s e s'"

section \<open>The contract\<close>

text \<open>
  What a client sees of a counting semaphore: units are conserved, an attempt succeeds exactly when
  a unit is there, and units are never taken before they exist.
\<close>

locale counting_semaphore =
  fixes val :: "'s \<Rightarrow> int" and attempt :: "nat \<Rightarrow> 's \<Rightarrow> bool \<times> 's" and post :: "nat \<Rightarrow> 's \<Rightarrow> 's"
  assumes attempt_ok: "fst (attempt t s) \<longleftrightarrow> 0 < val s"
    and attempt_val: "val (snd (attempt t s)) = (if 0 < val s then val s - 1 else val s)"
    and post_val: "val (post k s) = val s + 1"
begin

text \<open>A client's calls in the order of their critical sections; the count of successful attempts.\<close>

fun calls :: "(nat + nat) list \<Rightarrow> 's \<Rightarrow> nat \<times> 's" where
  "calls [] s = (0, s)"
| "calls (Inl t # cs) s =
     (let (ok, s1) = attempt t s; (n, s2) = calls cs s1 in ((if ok then 1 else 0) + n, s2))"
| "calls (Inr k # cs) s = calls cs (post k s)"

lemma units_conserved:
  "val (snd (calls cs s)) + int (fst (calls cs s)) = val s + int (length (filter (Not \<circ> isl) cs))"
proof (induction cs s rule: calls.induct)
  case (2 t cs s)
  obtain ok s1 where a: "attempt t s = (ok, s1)" by (cases "attempt t s")
  then show ?case
    using "2" [OF a [symmetric] refl] attempt_ok [of t s] attempt_val [of t s] by (auto split: prod.split)
qed (simp_all add: post_val)

lemma val_nonneg: "0 \<le> val s \<Longrightarrow> 0 \<le> val (snd (calls cs s))"
proof (induction cs s rule: calls.induct)
  case (2 t cs s)
  obtain ok s1 where a: "attempt t s = (ok, s1)" by (cases "attempt t s")
  then show ?case
    using "2.IH" [OF a [symmetric] refl] "2.prems" attempt_val [of t s] by (auto split: prod.split if_splits)
qed (simp_all add: post_val)

lemma never_overdrawn:
  "0 \<le> val s \<Longrightarrow> int (fst (calls cs s)) \<le> val s + int (length (filter (Not \<circ> isl) cs))"
  using units_conserved [of cs s] val_nonneg [of s cs] by linarith

end

interpretation sem_count: counting_semaphore sem_value wait_check sem_signal
  by unfold_locales (auto simp: wait_check_def sem_signal_def notify_one_def wake_def)

section \<open>No lost wake-up\<close>

definition sem_inv :: "sem \<Rightarrow> bool" where
  "sem_inv s \<longleftrightarrow> 0 \<le> sem_value s \<and> (sleeping s \<noteq> [] \<longrightarrow> sem_value s \<le> int (length (woken s)))"

lemma wait_check_inv: "sem_inv s \<Longrightarrow> sem_inv (snd (wait_check t s))"
  by (auto simp: sem_inv_def wait_check_def)

lemma sem_resume_inv:
  assumes "sem_inv s" and "t \<in> set (woken s)"
  shows "sem_inv (snd (sem_resume t s))"
proof -
  have "length (remove1 t (woken s)) = length (woken s) - 1" "0 < length (woken s)"
    using assms(2) by (auto simp: length_remove1 intro: length_pos_if_in_set)
  then show ?thesis
    using assms(1) by (auto simp: sem_inv_def sem_resume_def wait_check_def of_nat_diff)
qed

lemma wake_inv:
  "0 \<le> sem_value s \<Longrightarrow> (sleeping s \<noteq> [] \<longrightarrow> sem_value s \<le> int (length (woken s)) + 1) \<Longrightarrow>
   t \<in> set (sleeping s) \<Longrightarrow> sem_inv (wake t s)"
  by (cases "sleeping s") (auto simp: sem_inv_def wake_def)

lemma sem_signal_inv: "sem_inv s \<Longrightarrow> sem_inv (sem_signal k s)"
proof (cases "sleeping s = []")
  case False
  then have "sleeping s ! (k mod length (sleeping s)) \<in> set (sleeping s)" by simp
  moreover assume "sem_inv s"
  ultimately show ?thesis
    using False wake_inv [of "s\<lparr>sem_value := sem_value s + 1\<rparr>"]
    by (auto simp: sem_signal_def notify_one_def sem_inv_def)
qed (auto simp: sem_signal_def notify_one_def sem_inv_def)

lemma sem_step_inv: "sem_step s e s' \<Longrightarrow> sem_inv s \<Longrightarrow> sem_inv s'"
proof (induction rule: sem_step.induct)
  case (call_wait t s ok s')
  then show ?case using wait_check_inv [of s t] by simp
next
  case (resume t s ok s')
  then show ?case using sem_resume_inv [of s t] by simp
next
  case (signal s k)
  then show ?case by (rule sem_signal_inv)
next
  case (spurious t s)
  then show ?case by (intro wake_inv) (auto simp: sem_inv_def)
qed

lemma sem_run_inv: "sem_run s es s' \<Longrightarrow> sem_inv s \<Longrightarrow> sem_inv s'"
  by (induction rule: sem_run.induct) (auto dest: sem_step_inv)

definition is_acquired :: "sem_event \<Rightarrow> bool" where
  "is_acquired e = (case e of Acquired _ \<Rightarrow> True | _ \<Rightarrow> False)"

lemma sem_step_value:
  "sem_step s e s' \<Longrightarrow>
   sem_value s' = sem_value s + (if e = Signalled then 1 else 0) - (if is_acquired e then 1 else 0)"
  by (erule sem_step.cases)
    (auto simp: wait_check_def sem_resume_def sem_signal_def notify_one_def wake_def outcome_def is_acquired_def
      split: if_splits)

lemma sem_run_value:
  "sem_run s es s' \<Longrightarrow>
   sem_value s' = sem_value s + int (count_list es Signalled) - int (length (filter is_acquired es))"
  by (induction rule: sem_run.induct) (auto simp: sem_step_value)

section \<open>Properties\<close>

text \<open>
  C12: the semaphore loses no wake-up and conserves its units: after any interleaving of \<open>wait\<close>,
  \<open>signal\<close>, notified and spurious wake-ups, its value is the initial value plus the signals minus the
  completed waits and is not negative; and whenever it is positive while a thread still sleeps in
  \<open>wait\<close>, some woken thread is on its way, and every woken thread completes its \<open>wait\<close> when it
  gets the mutex.
\<close>
theorem semaphore_no_lost_wakeup:
  assumes "sem_run (sem_init v) es s" and "0 \<le> v"
  shows "sem_value s = v + int (count_list es Signalled) - int (length (filter is_acquired es)) \<and>
    0 \<le> sem_value s \<and>
    (0 < sem_value s \<and> sleeping s \<noteq> [] \<longrightarrow>
      woken s \<noteq> [] \<and> (\<forall>t \<in> set (woken s). fst (sem_resume t s)))"
proof -
  have "sem_inv s" using sem_run_inv [OF assms(1)] assms(2) by (simp add: sem_inv_def sem_init_def)
  then show ?thesis
    using sem_run_value [OF assms(1)]
    by (auto simp: sem_init_def sem_inv_def sem_resume_def wait_check_def)
qed

text \<open>Two threads block on an empty semaphore and one signal arrives.\<close>

lemma two_sleepers_one_signal:
  "sem_run (sem_init 0) [Blocked 1, Blocked 2, Signalled] \<lparr>sem_value = 1, sleeping = [2], woken = [1]\<rparr>"
proof -
  have "sem_step (sem_init 0) (outcome 1 False) \<lparr>sem_value = 0, sleeping = [1], woken = []\<rparr>"
    by (rule call_wait) (simp add: wait_check_def sem_init_def)
  moreover have "sem_step \<lparr>sem_value = 0, sleeping = [1], woken = []\<rparr> (outcome 2 False)
      \<lparr>sem_value = 0, sleeping = [1, 2], woken = []\<rparr>"
    by (rule call_wait) (simp add: wait_check_def)
  moreover have "sem_step \<lparr>sem_value = 0, sleeping = [1, 2], woken = []\<rparr> Signalled
      \<lparr>sem_value = 1, sleeping = [2], woken = [1]\<rparr>"
    using signal [of "\<lparr>sem_value = 0, sleeping = [1, 2], woken = []\<rparr>" 0]
    by (simp add: sem_signal_def notify_one_def wake_def)
  ultimately show ?thesis
    using more [OF more [OF more [OF start]]] by (fastforce simp: outcome_def)
qed

lemma semaphore_no_lost_wakeup_witness:
  "\<exists>s. s = \<lparr>sem_value = 1, sleeping = [2], woken = [1]\<rparr> \<and> (sem_value s
     = 0 + int (count_list [Blocked 1, Blocked 2, Signalled] Signalled)
       - int (length (filter is_acquired [Blocked 1, Blocked 2, Signalled])) \<and>
   0 \<le> sem_value s \<and>
   (0 < sem_value s \<and>
      sleeping s \<noteq> [] \<longrightarrow>
    woken s \<noteq> [] \<and>
    (\<forall>t \<in> set (woken s).
       fst (sem_resume t s))))"
  by (rule exI [of _ "\<lparr>sem_value = 1, sleeping = [2], woken = [1]\<rparr>"], rule conjI [OF refl], rule semaphore_no_lost_wakeup [OF two_sleepers_one_signal], simp)

end
