(* ===== verification/ThreadPool.thy ===== *)
theory ThreadPool
  imports Semaphore "HOL-Library.Multiset"
begin

text \<open>
  The thread pool (\<open>thread-pool.h\<close>, \<open>thread-pool.cc\<close>; the same file serves the thread-pool,
  mapreduce, news-aggregator and http-proxy programs). Each thread has a program counter; one step is
  one critical section, one semaphore operation, one read of \<open>done\<close> or one call of a thunk, and
  \<open>pool_step\<close> interleaves the steps of the dispatcher, the workers and any number of client calls.
  A semaphore is its count (see \<open>counting_semaphore\<close>); a step that would block is \<^term>\<open>None\<close>.
  Thunks are values of a type \<open>'a\<close>; they return and do not throw. \<open>scheduled\<close> and \<open>ran\<close> are
  ghost logs.
\<close>

section \<open>State\<close>

datatype 'a dispatcher_pc =
    D_wait_queued
  | D_check_done
  | D_wait_available
  | D_recheck_done
  | D_claim
  | D_pop nat
  | D_assign nat 'a
  | D_signal_ready nat
  | D_exit
  | D_undefined        \<comment> \<open>\<open>front()\<close> of an empty queue, or a worker that does not exist\<close>

datatype worker_pc =
    W_wait_ready
  | W_check_done
  | W_run
  | W_set_available
  | W_signal_available
  | W_decrement
  | W_exit
  | W_undefined        \<comment> \<open>call of an empty \<open>std::function\<close>\<close>

datatype dtor_pc =
    T_alive
  | T_wait
  | T_set_done
  | T_signal_queued
  | T_signal_available
  | T_join_dispatcher
  | T_signal_worker nat
  | T_join_worker nat
  | T_dead

record 'a worker_t =
  ready :: nat
  thunk :: "'a option"
  available :: bool
  wpc :: worker_pc

record 'a pool =
  wts :: "'a worker_t list"
  dpc :: "'a dispatcher_pc"
  tasks :: "'a list"
  queued :: nat
  availableWorkers :: nat
  outstanding :: nat
  pool_done :: bool
  dtor :: dtor_pc
  pushing :: "'a list"      \<comment> \<open>\<open>schedule\<close> calls between their two critical sections\<close>
  signalling :: nat         \<comment> \<open>\<open>schedule\<close> calls about to signal \<open>queued\<close>\<close>
  w_asleep :: nat           \<comment> \<open>\<open>wait\<close> calls asleep on \<open>allDone\<close>\<close>
  w_awake :: nat            \<comment> \<open>\<open>wait\<close> calls woken and about to test the predicate\<close>
  scheduled :: "'a list"
  ran :: "'a list"

text \<open>The state the constructor leaves: every worker idle, the dispatcher started last.\<close>

definition pool_init :: "nat \<Rightarrow> 'a pool" where
  "pool_init numThreads =
     \<lparr>wts = replicate numThreads \<lparr>ready = 0, thunk = None, available = True, wpc = W_wait_ready\<rparr>,
      dpc = D_wait_queued, tasks = [], queued = 0, availableWorkers = numThreads, outstanding = 0,
      pool_done = False, dtor = T_alive, pushing = [], signalling = 0, w_asleep = 0, w_awake = 0,
      scheduled = [], ran = []\<rparr>"

abbreviation update_worker :: "nat \<Rightarrow> ('a worker_t \<Rightarrow> 'a worker_t) \<Rightarrow> 'a pool \<Rightarrow> 'a pool" where
  "update_worker i f s \<equiv> s\<lparr>wts := (wts s)[i := f (wts s ! i)]\<rparr>"

section \<open>The threads' steps\<close>

fun first_available :: "'a worker_t list \<Rightarrow> nat option" where
  "first_available [] = None"
| "first_available (w # ws) = (if available w then Some 0 else map_option Suc (first_available ws))"

definition dispatcher_step :: "'a pool \<Rightarrow> 'a pool option" where
  "dispatcher_step s = (case dpc s of
       D_wait_queued \<Rightarrow>
         if queued s > 0 then Some (s\<lparr>queued := queued s - 1, dpc := D_check_done\<rparr>) else None
     | D_check_done \<Rightarrow> Some (s\<lparr>dpc := (if pool_done s then D_exit else D_wait_available)\<rparr>)
     | D_wait_available \<Rightarrow>
         if availableWorkers s > 0
         then Some (s\<lparr>availableWorkers := availableWorkers s - 1, dpc := D_recheck_done\<rparr>) else None
     | D_recheck_done \<Rightarrow> Some (s\<lparr>dpc := (if pool_done s then D_exit else D_claim)\<rparr>)
     | D_claim \<Rightarrow>
         (case first_available (wts s) of
            Some i \<Rightarrow> Some (update_worker i (\<lambda>w. w\<lparr>available := False\<rparr>) (s\<lparr>dpc := D_pop i\<rparr>))
          | None \<Rightarrow> Some (s\<lparr>dpc := D_pop 0\<rparr>))
     | D_pop i \<Rightarrow>
         (case tasks s of
            [] \<Rightarrow> Some (s\<lparr>dpc := D_undefined\<rparr>)
          | t # ts \<Rightarrow> Some (s\<lparr>tasks := ts, dpc := D_assign i t\<rparr>))
     | D_assign i t \<Rightarrow>
         if i < length (wts s)
         then Some (update_worker i (\<lambda>w. w\<lparr>thunk := Some t\<rparr>) (s\<lparr>dpc := D_signal_ready i\<rparr>))
         else Some (s\<lparr>dpc := D_undefined\<rparr>)
     | D_signal_ready i \<Rightarrow>
         Some (update_worker i (\<lambda>w. w\<lparr>ready := ready w + 1\<rparr>) (s\<lparr>dpc := D_wait_queued\<rparr>))
     | D_exit \<Rightarrow> None
     | D_undefined \<Rightarrow> None)"

definition worker_step :: "nat \<Rightarrow> 'a pool \<Rightarrow> 'a pool option" where
  "worker_step i s = (let w = wts s ! i in case wpc w of
       W_wait_ready \<Rightarrow>
         if ready w > 0 then Some (update_worker i (\<lambda>w. w\<lparr>ready := ready w - 1, wpc := W_check_done\<rparr>) s)
         else None
     | W_check_done \<Rightarrow>
         Some (update_worker i (\<lambda>w. w\<lparr>wpc := (if pool_done s then W_exit else W_run)\<rparr>) s)
     | W_run \<Rightarrow>
         (case thunk w of
            None \<Rightarrow> Some (update_worker i (\<lambda>w. w\<lparr>wpc := W_undefined\<rparr>) s)
          | Some t \<Rightarrow> Some (update_worker i (\<lambda>w. w\<lparr>wpc := W_set_available\<rparr>) (s\<lparr>ran := ran s @ [t]\<rparr>)))
     | W_set_available \<Rightarrow>
         Some (update_worker i (\<lambda>w. w\<lparr>available := True, wpc := W_signal_available\<rparr>) s)
     | W_signal_available \<Rightarrow>
         Some (update_worker i (\<lambda>w. w\<lparr>wpc := W_decrement\<rparr>)
           (s\<lparr>availableWorkers := availableWorkers s + 1\<rparr>))
     | W_decrement \<Rightarrow>
         Some (update_worker i (\<lambda>w. w\<lparr>wpc := W_wait_ready\<rparr>)
           (if outstanding s - 1 = 0
            then s\<lparr>outstanding := outstanding s - 1, w_awake := w_awake s + w_asleep s, w_asleep := 0\<rparr>
            else s\<lparr>outstanding := outstanding s - 1\<rparr>))
     | W_exit \<Rightarrow> None
     | W_undefined \<Rightarrow> None)"

section \<open>The clients' calls\<close>

definition schedule_enter :: "'a \<Rightarrow> 'a pool \<Rightarrow> 'a pool" where
  "schedule_enter t s =
     s\<lparr>outstanding := outstanding s + 1, pushing := t # pushing s, scheduled := t # scheduled s\<rparr>"

definition schedule_push :: "'a \<Rightarrow> 'a pool \<Rightarrow> 'a pool" where
  "schedule_push t s =
     s\<lparr>pushing := remove1 t (pushing s), tasks := tasks s @ [t], signalling := signalling s + 1\<rparr>"

definition schedule_signal :: "'a pool \<Rightarrow> 'a pool" where
  "schedule_signal s = s\<lparr>signalling := signalling s - 1, queued := queued s + 1\<rparr>"

text \<open>\<open>wait\<close>: the predicate test under \<open>outstandingLock\<close>; the flag says whether the call returns.\<close>

definition pool_wait_check :: "'a pool \<Rightarrow> bool \<times> 'a pool" where
  "pool_wait_check s = (if outstanding s = 0 then (True, s) else (False, s\<lparr>w_asleep := w_asleep s + 1\<rparr>))"

definition dtor_step :: "'a pool \<Rightarrow> 'a pool option" where
  "dtor_step s = (case dtor s of
       T_alive \<Rightarrow> None
     | T_wait \<Rightarrow> if outstanding s = 0 then Some (s\<lparr>dtor := T_set_done\<rparr>) else None
     | T_set_done \<Rightarrow> Some (s\<lparr>pool_done := True, dtor := T_signal_queued\<rparr>)
     | T_signal_queued \<Rightarrow> Some (s\<lparr>queued := queued s + 1, dtor := T_signal_available\<rparr>)
     | T_signal_available \<Rightarrow>
         Some (s\<lparr>availableWorkers := availableWorkers s + 1, dtor := T_join_dispatcher\<rparr>)
     | T_join_dispatcher \<Rightarrow>
         (case dpc s of
            D_exit \<Rightarrow> Some (s\<lparr>dtor := (if wts s = [] then T_dead else T_signal_worker 0)\<rparr>)
          | _ \<Rightarrow> None)
     | T_signal_worker i \<Rightarrow>
         Some (update_worker i (\<lambda>w. w\<lparr>ready := ready w + 1\<rparr>) (s\<lparr>dtor := T_join_worker i\<rparr>))
     | T_join_worker i \<Rightarrow>
         if wpc (wts s ! i) = W_exit
         then Some (s\<lparr>dtor := (if Suc i < length (wts s) then T_signal_worker (Suc i) else T_dead)\<rparr>)
         else None
     | T_dead \<Rightarrow> None)"

section \<open>Interleavings\<close>

text \<open>The steps that serve calls already made.\<close>

inductive internal_step :: "'a pool \<Rightarrow> 'a pool \<Rightarrow> bool" where
  dispatch: "dispatcher_step s = Some s' \<Longrightarrow> internal_step s s'"
| work: "i < length (wts s) \<Longrightarrow> worker_step i s = Some s' \<Longrightarrow> internal_step s s'"
| push: "t \<in> set (pushing s) \<Longrightarrow> internal_step s (schedule_push t s)"
| signal_queued: "0 < signalling s \<Longrightarrow> internal_step s (schedule_signal s)"

text \<open>
  All steps: a client may call \<open>schedule\<close> until the destructor's own \<open>wait\<close> has returned, \<open>wait\<close>
  at any time before that, and the destructor once.
\<close>

inductive pool_step :: "'a pool \<Rightarrow> 'a pool \<Rightarrow> bool" where
  internal: "internal_step s s' \<Longrightarrow> pool_step s s'"
| schedule: "dtor s \<in> {T_alive, T_wait} \<Longrightarrow> pool_step s (schedule_enter t s)"
| call_wait: "dtor s \<in> {T_alive, T_wait} \<Longrightarrow> pool_step s (snd (pool_wait_check s))"
| resume_wait: "0 < w_awake s \<Longrightarrow> pool_step s (snd (pool_wait_check (s\<lparr>w_awake := w_awake s - 1\<rparr>)))"
| spurious_wait: "0 < w_asleep s \<Longrightarrow> pool_step s (s\<lparr>w_asleep := w_asleep s - 1, w_awake := w_awake s + 1\<rparr>)"
| call_dtor: "dtor s = T_alive \<Longrightarrow> pool_step s (s\<lparr>dtor := T_wait\<rparr>)"
| destroy: "dtor_step s = Some s' \<Longrightarrow> pool_step s s'"

inductive reachable :: "nat \<Rightarrow> 'a pool \<Rightarrow> bool" for n where
  reach_init: "reachable n (pool_init n)"
| reach_step: "reachable n s \<Longrightarrow> pool_step s s' \<Longrightarrow> reachable n s'"

inductive_cases internal_step_cases: "internal_step s s'"
inductive_cases pool_step_cases: "pool_step s s'"

end
