(* ===== verification/ThreadPool_Inv.thy ===== *)
theory ThreadPool_Inv
  imports ThreadPool
begin

text \<open>
  The invariant of the thread pool and its preservation by every step. While \<open>done\<close> is unset it is
  a set of balances: the units of each semaphore against the queue and the idle flags, the one
  assignment in progress at each claimed worker, and, for every thunk, where its copies are. After
  \<open>done\<close> is set nothing is left to run and only the destructor's own signals are in flight.
\<close>

section \<open>Sums over the workers\<close>

lemma sum_list_pos:
  fixes f :: "'b \<Rightarrow> nat"
  shows "0 < sum_list (map f xs) \<longleftrightarrow> (\<exists>i < length xs. 0 < f (xs ! i))"
proof -
  have "0 < sum_list (map f xs) \<longleftrightarrow> (\<exists>x \<in> set xs. 0 < f x)" by (induction xs) auto
  then show ?thesis by (metis in_set_conv_nth)
qed

lemma first_available_Some:
  "first_available ws = Some i \<Longrightarrow> i < length ws \<and> available (ws ! i)"
  by (induction ws arbitrary: i) (auto split: if_splits)

lemma first_available_None: "first_available ws = None \<longleftrightarrow> (\<forall>w \<in> set ws. \<not> available w)"
  by (induction ws) auto

definition queue_token :: "'a dispatcher_pc \<Rightarrow> nat" where
  "queue_token d = (case d of
     D_check_done \<Rightarrow> 1 | D_wait_available \<Rightarrow> 1 | D_recheck_done \<Rightarrow> 1 | D_claim \<Rightarrow> 1 | D_pop _ \<Rightarrow> 1 | _ \<Rightarrow> 0)"

definition avail_token :: "'a dispatcher_pc \<Rightarrow> nat" where
  "avail_token d = (case d of D_recheck_done \<Rightarrow> 1 | D_claim \<Rightarrow> 1 | _ \<Rightarrow> 0)"

definition claim_of :: "'a dispatcher_pc \<Rightarrow> nat \<Rightarrow> nat" where
  "claim_of d i = (case d of
     D_pop j \<Rightarrow> of_bool (i = j) | D_assign j _ \<Rightarrow> of_bool (i = j) | D_signal_ready j \<Rightarrow> of_bool (i = j) | _ \<Rightarrow> 0)"

definition claim_ok :: "nat \<Rightarrow> 'a dispatcher_pc \<Rightarrow> bool" where
  "claim_ok n d = (case d of
     D_pop j \<Rightarrow> j < n | D_assign j _ \<Rightarrow> j < n | D_signal_ready j \<Rightarrow> j < n | D_exit \<Rightarrow> False | D_undefined \<Rightarrow> False
   | _ \<Rightarrow> True)"

text \<open>The thunk the dispatcher has popped and not yet handed over.\<close>

definition in_hand :: "'a worker_t list \<Rightarrow> 'a dispatcher_pc \<Rightarrow> 'a option" where
  "in_hand ws d = (case d of D_assign _ t \<Rightarrow> Some t | D_signal_ready j \<Rightarrow> thunk (ws ! j) | _ \<Rightarrow> None)"

definition is_idle :: "'a worker_t \<Rightarrow> nat" where "is_idle w = of_bool (available w)"
definition at_signal :: "'a worker_t \<Rightarrow> nat" where "at_signal w = of_bool (wpc w = W_signal_available)"
definition to_run :: "'a worker_t \<Rightarrow> nat" where
  "to_run w = ready w + of_bool (wpc w = W_check_done) + of_bool (wpc w = W_run)"
definition undecremented :: "'a worker_t \<Rightarrow> nat" where
  "undecremented w = of_bool (wpc w \<in> {W_set_available, W_signal_available, W_decrement})"
definition to_run_of :: "'a \<Rightarrow> 'a worker_t \<Rightarrow> nat" where
  "to_run_of x w = (if thunk w = Some x then to_run w else 0)"

lemmas worker_measures = is_idle_def at_signal_def to_run_def undecremented_def to_run_of_def
lemmas pc_measures = queue_token_def avail_token_def claim_of_def claim_ok_def in_hand_def

text \<open>What holds of worker \<open>i\<close>: it is claimed for at most one assignment, and that has a thunk.\<close>

definition worker_ok :: "'a dispatcher_pc \<Rightarrow> nat \<Rightarrow> 'a worker_t \<Rightarrow> bool" where
  "worker_ok d i w \<longleftrightarrow>
     to_run w + of_bool (wpc w = W_set_available) + claim_of d i = of_bool (\<not> available w) \<and>
     (0 < to_run w \<longrightarrow> thunk w \<noteq> None) \<and> (d = D_signal_ready i \<longrightarrow> thunk w \<noteq> None) \<and>
     wpc w \<noteq> W_exit \<and> wpc w \<noteq> W_undefined"

abbreviation total :: "('a worker_t \<Rightarrow> nat) \<Rightarrow> 'a pool \<Rightarrow> nat" where
  "total f s \<equiv> sum_list (map f (wts s))"

definition balances :: "'a pool \<Rightarrow> bool" where
  "balances s \<longleftrightarrow>
     queued s + signalling s + queue_token (dpc s) = length (tasks s) \<and>
     availableWorkers s + avail_token (dpc s) + total at_signal s = total is_idle s \<and>
     outstanding s = length (pushing s) + length (tasks s) + of_bool (in_hand (wts s) (dpc s) \<noteq> None)
       + total to_run s + total undecremented s"

definition conserved :: "'a pool \<Rightarrow> bool" where
  "conserved s \<longleftrightarrow> (\<forall>x. count_list (scheduled s) x = count_list (pushing s) x + count_list (tasks s) x
     + of_bool (in_hand (wts s) (dpc s) = Some x) + total (to_run_of x) s + count_list (ran s) x)"

definition live_inv :: "'a pool \<Rightarrow> bool" where
  "live_inv s \<longleftrightarrow> balances s \<and> conserved s \<and> claim_ok (length (wts s)) (dpc s) \<and>
     (\<forall>i < length (wts s). worker_ok (dpc s) i (wts s ! i)) \<and>
     dtor s \<in> {T_alive, T_wait, T_set_done} \<and> (dtor s = T_set_done \<longrightarrow> outstanding s = 0)"

text \<open>After \<open>done\<close>.\<close>

definition signalled_worker :: "dtor_pc \<Rightarrow> nat \<Rightarrow> bool" where
  "signalled_worker d i = (case d of T_signal_worker k \<Rightarrow> i < k | T_join_worker k \<Rightarrow> i \<le> k | T_dead \<Rightarrow> True | _ \<Rightarrow> False)"

definition joined_worker :: "dtor_pc \<Rightarrow> nat \<Rightarrow> bool" where
  "joined_worker d i = (case d of T_signal_worker k \<Rightarrow> i < k | T_join_worker k \<Rightarrow> i < k | T_dead \<Rightarrow> True | _ \<Rightarrow> False)"

definition dtor_ok :: "nat \<Rightarrow> dtor_pc \<Rightarrow> bool" where
  "dtor_ok n d = (case d of T_signal_worker k \<Rightarrow> k < n | T_join_worker k \<Rightarrow> k < n | T_alive \<Rightarrow> False | T_wait \<Rightarrow> False
     | T_set_done \<Rightarrow> False | _ \<Rightarrow> True)"

definition stopping_inv :: "'a pool \<Rightarrow> bool" where
  "stopping_inv s \<longleftrightarrow>
     outstanding s = 0 \<and> pushing s = [] \<and> tasks s = [] \<and> signalling s = 0 \<and>
     (\<forall>x. count_list (scheduled s) x = count_list (ran s) x) \<and>
     dpc s \<in> {D_wait_queued, D_check_done, D_exit} \<and>
     queued s + of_bool (dpc s \<noteq> D_wait_queued) = of_bool (dtor s \<noteq> T_signal_queued) \<and>
     dtor_ok (length (wts s)) (dtor s) \<and>
     (dtor s \<notin> {T_signal_queued, T_signal_available, T_join_dispatcher} \<longrightarrow> dpc s = D_exit) \<and>
     (\<forall>i < length (wts s).
        wpc (wts s ! i) \<in> {W_wait_ready, W_check_done, W_exit} \<and>
        ready (wts s ! i) + of_bool (wpc (wts s ! i) \<noteq> W_wait_ready) = of_bool (signalled_worker (dtor s) i) \<and>
        (joined_worker (dtor s) i \<longrightarrow> wpc (wts s ! i) = W_exit))"

definition pool_inv :: "'a pool \<Rightarrow> bool" where
  "pool_inv s \<longleftrightarrow> (if pool_done s then stopping_inv s else live_inv s) \<and>
     (outstanding s = 0 \<longrightarrow> w_asleep s = 0)"

section \<open>Frame rules\<close>

lemma live_worker_ok: "live_inv s \<Longrightarrow> i < length (wts s) \<Longrightarrow> worker_ok (dpc s) i (wts s ! i)"
  by (simp add: live_inv_def)

lemma worker_ok_cong: "claim_of d i = claim_of d' i \<Longrightarrow> (d = D_signal_ready i \<longleftrightarrow> d' = D_signal_ready i) \<Longrightarrow>
    worker_ok d i w = worker_ok d' i w"
  by (simp add: worker_ok_def)

text \<open>A step that leaves the workers alone and keeps the accounts.\<close>

lemma live_frame:
  assumes "live_inv s" and "wts s' = wts s"
    and "\<And>i. i < length (wts s) \<Longrightarrow> worker_ok (dpc s) i (wts s ! i) \<Longrightarrow> worker_ok (dpc s') i (wts s ! i)"
    and "queued s' + signalling s' + queue_token (dpc s') + length (tasks s)
      = queued s + signalling s + queue_token (dpc s) + length (tasks s')"
    and "availableWorkers s' + avail_token (dpc s') = availableWorkers s + avail_token (dpc s)"
    and "outstanding s' + length (pushing s) + length (tasks s) + of_bool (in_hand (wts s) (dpc s) \<noteq> None)
      = outstanding s + length (pushing s') + length (tasks s') + of_bool (in_hand (wts s) (dpc s') \<noteq> None)"
    and "\<And>x. count_list (scheduled s') x + (count_list (pushing s) x + count_list (tasks s) x
        + of_bool (in_hand (wts s) (dpc s) = Some x) + count_list (ran s) x)
      = count_list (scheduled s) x + (count_list (pushing s') x + count_list (tasks s') x
        + of_bool (in_hand (wts s) (dpc s') = Some x) + count_list (ran s') x)"
    and "claim_ok (length (wts s)) (dpc s')"
    and "dtor s' \<in> {T_alive, T_wait, T_set_done}" and "dtor s' = T_set_done \<Longrightarrow> outstanding s' = 0"
  shows "live_inv s'"
proof -
  have b: "balances s" and c: "conserved s" using assms(1) by (simp_all add: live_inv_def)
  have "balances s'" using b assms(4,5,6) unfolding balances_def assms(2) by linarith
  moreover have "conserved s'"
    unfolding conserved_def assms(2)
  proof
    fix x
    have "count_list (scheduled s) x = count_list (pushing s) x + count_list (tasks s) x
      + of_bool (in_hand (wts s) (dpc s) = Some x) + total (to_run_of x) s + count_list (ran s) x"
      using c by (simp add: conserved_def)
    then show "count_list (scheduled s') x = count_list (pushing s') x + count_list (tasks s') x
       + of_bool (in_hand (wts s) (dpc s') = Some x) + total (to_run_of x) s + count_list (ran s') x"
      using assms(7) [of x] by linarith
  qed
  moreover have "\<forall>i < length (wts s'). worker_ok (dpc s') i (wts s' ! i)"
    using assms(3) live_worker_ok [OF assms(1)] by (simp add: assms(2))
  ultimately show ?thesis using assms(8-10) by (simp add: live_inv_def assms(2))
qed

text \<open>A step that changes worker \<open>i\<close> and keeps the accounts.\<close>

lemma live_worker:
  assumes "live_inv s" and "i < length (wts s)" and "wts s' = (wts s)[i := w']" and w: "w = wts s ! i"
    and "\<And>j. j \<noteq> i \<Longrightarrow> claim_of (dpc s') j = claim_of (dpc s) j"
    and "\<And>j. j \<noteq> i \<Longrightarrow> (dpc s' = D_signal_ready j \<longleftrightarrow> dpc s = D_signal_ready j)"
    and "worker_ok (dpc s) i w \<Longrightarrow> worker_ok (dpc s') i w'"
    and "queued s' + signalling s' + queue_token (dpc s') + length (tasks s)
      = queued s + signalling s + queue_token (dpc s) + length (tasks s')"
    and "availableWorkers s' + avail_token (dpc s') + at_signal w' + is_idle w
      = availableWorkers s + avail_token (dpc s) + at_signal w + is_idle w'"
    and "outstanding s' + length (pushing s) + length (tasks s) + of_bool (in_hand (wts s) (dpc s) \<noteq> None)
        + to_run w + undecremented w
      = outstanding s + length (pushing s') + length (tasks s') + of_bool (in_hand (wts s') (dpc s') \<noteq> None)
        + to_run w' + undecremented w'"
    and "\<And>x. count_list (scheduled s') x + (count_list (pushing s) x + count_list (tasks s) x
        + of_bool (in_hand (wts s) (dpc s) = Some x) + to_run_of x w + count_list (ran s) x)
      = count_list (scheduled s) x + (count_list (pushing s') x + count_list (tasks s') x
        + of_bool (in_hand (wts s') (dpc s') = Some x) + to_run_of x w' + count_list (ran s') x)"
    and "claim_ok (length (wts s)) (dpc s')"
    and "dtor s' \<in> {T_alive, T_wait, T_set_done}" and "dtor s' = T_set_done \<Longrightarrow> outstanding s' = 0"
  shows "live_inv s'"
proof -
  have up: "total f s' + f w = total f s + f w'" for f
    using sum_map_update [OF assms(2), of f w'] by (simp add: assms(3) w)
  have b: "balances s" and c: "conserved s" using assms(1) by (simp_all add: live_inv_def)
  have "balances s'"
    using b assms(8,9,10) up [of at_signal] up [of is_idle] up [of to_run] up [of undecremented]
    unfolding balances_def by linarith
  moreover have "conserved s'"
    unfolding conserved_def
  proof
    fix x
    have "count_list (scheduled s) x = count_list (pushing s) x + count_list (tasks s) x
      + of_bool (in_hand (wts s) (dpc s) = Some x) + total (to_run_of x) s + count_list (ran s) x"
      using c by (simp add: conserved_def)
    then show "count_list (scheduled s') x = count_list (pushing s') x + count_list (tasks s') x
      + of_bool (in_hand (wts s') (dpc s') = Some x) + total (to_run_of x) s' + count_list (ran s') x"
      using assms(11) [of x] up [of "to_run_of x"] by linarith
  qed
  moreover have "worker_ok (dpc s') j (wts s' ! j)" if "j < length (wts s')" for j
  proof (cases "j = i")
    case True
    then show ?thesis using assms(7) live_worker_ok [OF assms(1,2)] assms(2) by (simp add: assms(3) w)
  next
    case False
    then have "worker_ok (dpc s) j (wts s' ! j)"
      using live_worker_ok [OF assms(1), of j] that by (simp add: assms(3))
    then show ?thesis using worker_ok_cong [OF assms(5,6) [OF False]] by simp
  qed
  ultimately show ?thesis using assms(12-14) by (simp add: live_inv_def assms(3))
qed


section \<open>The dispatcher\<close>

lemma live_facts:
  assumes "live_inv s"
  shows "claim_ok (length (wts s)) (dpc s)" and "dtor s \<in> {T_alive, T_wait, T_set_done}"
    and "dtor s = T_set_done \<Longrightarrow> outstanding s = 0"
    and "queued s + signalling s + queue_token (dpc s) = length (tasks s)"
    and "availableWorkers s + avail_token (dpc s) + total at_signal s = total is_idle s"
    and "outstanding s = length (pushing s) + length (tasks s) + of_bool (in_hand (wts s) (dpc s) \<noteq> None)
       + total to_run s + total undecremented s"
  using assms unfolding live_inv_def balances_def by blast+

text \<open>The dispatcher's moves between its first four waiting and testing points.\<close>

lemma dispatcher_move:
  assumes "live_inv s" and "dpc s \<in> {D_wait_queued, D_check_done, D_wait_available, D_recheck_done}"
    and "d \<in> {D_check_done, D_wait_available, D_recheck_done, D_claim}"
    and "s' = s\<lparr>queued := q, availableWorkers := a, dpc := d\<rparr>"
    and "q + queue_token d = queued s + queue_token (dpc s)"
    and "a + avail_token d = availableWorkers s + avail_token (dpc s)"
  shows "live_inv s'"
proof -
  have h: "in_hand (wts s) (dpc s) = None" "in_hand (wts s) d = None" using assms(2,3) by (auto simp: in_hand_def)
  have c: "claim_of (dpc s) i = 0 \<and> claim_of d i = 0 \<and> dpc s \<noteq> D_signal_ready i \<and> d \<noteq> D_signal_ready i" for i
    using assms(2,3) by (auto simp: claim_of_def)
  have "worker_ok (dpc s) i w = worker_ok d i w" for i w using c by (intro worker_ok_cong) auto
  moreover have "claim_ok (length (wts s)) d" using assms(3) by (auto simp: claim_ok_def)
  ultimately show ?thesis
    unfolding assms(4) using assms(5,6) h live_facts(2,3) [OF assms(1)] by (intro live_frame [OF assms(1)]) simp_all
qed

lemma claim_finds_worker:
  assumes "live_inv s" and "dpc s = D_claim"
  obtains i where "first_available (wts s) = Some i" and "i < length (wts s)" and "available (wts s ! i)"
proof -
  have "0 < total is_idle s" using live_facts(5) [OF assms(1)] assms(2) by (simp add: avail_token_def)
  then have "first_available (wts s) \<noteq> None"
    unfolding sum_list_pos first_available_None by (force simp: is_idle_def)
  then show thesis using that first_available_Some by blast
qed

lemma pop_finds_task:
  assumes "live_inv s" and "dpc s = D_pop i"
  obtains t ts where "tasks s = t # ts" and "i < length (wts s)"
  using live_facts(1,4) [OF assms(1)] assms(2) that
  by (cases "tasks s") (auto simp: queue_token_def claim_ok_def)

lemma dispatcher_live:
  assumes "live_inv s" and "\<not> pool_done s" and "dispatcher_step s = Some s'"
  shows "live_inv s'"
proof (cases "dpc s")
  case D_wait_queued
  then show ?thesis using assms
    by (intro dispatcher_move [where d = D_check_done and q = "queued s - 1" and a = "availableWorkers s", OF assms(1)])
      (auto simp: dispatcher_step_def queue_token_def avail_token_def split: if_splits)
next
  case D_check_done
  then show ?thesis using assms
    by (intro dispatcher_move [where d = D_wait_available and q = "queued s" and a = "availableWorkers s", OF assms(1)])
      (auto simp: dispatcher_step_def queue_token_def avail_token_def)
next
  case D_wait_available
  then show ?thesis using assms
    by (intro dispatcher_move [where d = D_recheck_done and q = "queued s" and a = "availableWorkers s - 1", OF assms(1)])
      (auto simp: dispatcher_step_def queue_token_def avail_token_def split: if_splits)
next
  case D_recheck_done
  then show ?thesis using assms
    by (intro dispatcher_move [where d = D_claim and q = "queued s" and a = "availableWorkers s", OF assms(1)])
      (auto simp: dispatcher_step_def queue_token_def avail_token_def)
next
  case D_claim
  obtain i where i: "first_available (wts s) = Some i" "i < length (wts s)" "available (wts s ! i)"
    using claim_finds_worker [OF assms(1) D_claim] .
  have s': "s' = update_worker i (\<lambda>w. w\<lparr>available := False\<rparr>) (s\<lparr>dpc := D_pop i\<rparr>)"
    using assms(3) D_claim i by (simp add: dispatcher_step_def)
  show ?thesis
    by (rule live_worker [OF assms(1) i(2), of s' "(wts s ! i)\<lparr>available := False\<rparr>" "wts s ! i"])
      (use live_facts [OF assms(1)] D_claim i in
        \<open>auto simp: s' pc_measures worker_measures worker_ok_def\<close>)
next
  case (D_pop i)
  obtain t ts where t: "tasks s = t # ts" "i < length (wts s)" using pop_finds_task [OF assms(1) D_pop] .
  have s': "s' = s\<lparr>tasks := ts, dpc := D_assign i t\<rparr>"
    using assms(3) D_pop t by (simp add: dispatcher_step_def)
  show ?thesis
    by (rule live_frame [OF assms(1)])
      (use live_facts [OF assms(1)] D_pop t in \<open>auto simp: s' pc_measures worker_ok_def\<close>)
next
  case (D_assign i t)
  have il: "i < length (wts s)" using live_facts(1) [OF assms(1)] D_assign by (simp add: claim_ok_def)
  have s': "s' = update_worker i (\<lambda>w. w\<lparr>thunk := Some t\<rparr>) (s\<lparr>dpc := D_signal_ready i\<rparr>)"
    using assms(3) D_assign il by (simp add: dispatcher_step_def)
  have "to_run (wts s ! i) = 0"
    using live_worker_ok [OF assms(1) il] D_assign
    by (cases "available (wts s ! i)") (auto simp: worker_ok_def claim_of_def)
  then show ?thesis
    by (intro live_worker [OF assms(1) il, of s' "(wts s ! i)\<lparr>thunk := Some t\<rparr>" "wts s ! i"])
      (use live_facts [OF assms(1)] D_assign il in
        \<open>auto simp: s' pc_measures worker_measures worker_ok_def\<close>)
next
  case (D_signal_ready i)
  have il: "i < length (wts s)" using live_facts(1) [OF assms(1)] D_signal_ready by (simp add: claim_ok_def)
  have s': "s' = update_worker i (\<lambda>w. w\<lparr>ready := ready w + 1\<rparr>) (s\<lparr>dpc := D_wait_queued\<rparr>)"
    using assms(3) D_signal_ready by (simp add: dispatcher_step_def)
  have "thunk (wts s ! i) \<noteq> None"
    using live_worker_ok [OF assms(1) il] D_signal_ready by (simp add: worker_ok_def)
  then show ?thesis
    by (intro live_worker [OF assms(1) il, of s' "(wts s ! i)\<lparr>ready := ready (wts s ! i) + 1\<rparr>" "wts s ! i"])
      (use live_facts [OF assms(1)] D_signal_ready il in
        \<open>auto simp: s' pc_measures worker_measures worker_ok_def\<close>)
next
  case D_exit
  then show ?thesis using assms(3) by (simp add: dispatcher_step_def)
next
  case D_undefined
  then show ?thesis using assms(3) by (simp add: dispatcher_step_def)
qed


section \<open>The workers\<close>

lemma to_run_has_thunk:
  assumes "live_inv s" and "i < length (wts s)" and "0 < to_run (wts s ! i)"
  obtains t where "thunk (wts s ! i) = Some t"
  using live_worker_ok [OF assms(1,2)] assms(3) by (auto simp: worker_ok_def)

lemma worker_live:
  assumes "live_inv s" and "\<not> pool_done s" and il: "i < length (wts s)" and "worker_step i s = Some s'"
  shows "live_inv s'"
proof (cases "wpc (wts s ! i)")
  case W_wait_ready
  then have r: "0 < ready (wts s ! i)"
    and s': "s' = update_worker i (\<lambda>w. w\<lparr>ready := ready w - 1, wpc := W_check_done\<rparr>) s"
    using assms(4) by (auto simp: worker_step_def Let_def split: if_splits)
  show ?thesis
    by (rule live_worker [OF assms(1) il, of s' "(wts s ! i)\<lparr>ready := ready (wts s ! i) - 1, wpc := W_check_done\<rparr>"
        "wts s ! i"])
      (use live_facts [OF assms(1)] W_wait_ready il r in \<open>auto simp: s' in_hand_def worker_measures worker_ok_def
         nth_list_update split: dispatcher_pc.split\<close>)
next
  case W_check_done
  then have s': "s' = update_worker i (\<lambda>w. w\<lparr>wpc := W_run\<rparr>) s"
    using assms(2,4) by (simp add: worker_step_def)
  show ?thesis
    by (rule live_worker [OF assms(1) il, of s' "(wts s ! i)\<lparr>wpc := W_run\<rparr>" "wts s ! i"])
      (use live_facts [OF assms(1)] W_check_done il in \<open>auto simp: s' in_hand_def worker_measures worker_ok_def
         nth_list_update split: dispatcher_pc.split\<close>)
next
  case W_run
  obtain t where t: "thunk (wts s ! i) = Some t"
    using to_run_has_thunk [OF assms(1) il] W_run by (auto simp: to_run_def)
  then have s': "s' = update_worker i (\<lambda>w. w\<lparr>wpc := W_set_available\<rparr>) (s\<lparr>ran := ran s @ [t]\<rparr>)"
    using assms(4) W_run by (simp add: worker_step_def)
  show ?thesis
    by (rule live_worker [OF assms(1) il, of s' "(wts s ! i)\<lparr>wpc := W_set_available\<rparr>" "wts s ! i"])
      (use live_facts [OF assms(1)] W_run il t in \<open>auto simp: s' in_hand_def worker_measures worker_ok_def
         nth_list_update split: dispatcher_pc.split\<close>)
next
  case W_set_available
  then have s': "s' = update_worker i (\<lambda>w. w\<lparr>available := True, wpc := W_signal_available\<rparr>) s"
    using assms(4) by (simp add: worker_step_def)
  have ok: "worker_ok (dpc s) i (wts s ! i)" using live_worker_ok [OF assms(1) il] .
  then have na: "\<not> available (wts s ! i)"
    using W_set_available by (cases "available (wts s ! i)") (auto simp: worker_ok_def)
  show ?thesis
    by (rule live_worker [OF assms(1) il, of s' "(wts s ! i)\<lparr>available := True, wpc := W_signal_available\<rparr>"
        "wts s ! i"])
      (use live_facts [OF assms(1)] W_set_available il na in \<open>auto simp: s' in_hand_def worker_measures worker_ok_def
         nth_list_update split: dispatcher_pc.split\<close>)
next
  case W_signal_available
  then have s': "s' = update_worker i (\<lambda>w. w\<lparr>wpc := W_decrement\<rparr>) (s\<lparr>availableWorkers := availableWorkers s + 1\<rparr>)"
    using assms(4) by (simp add: worker_step_def)
  show ?thesis
    by (rule live_worker [OF assms(1) il, of s' "(wts s ! i)\<lparr>wpc := W_decrement\<rparr>" "wts s ! i"])
      (use live_facts [OF assms(1)] W_signal_available il in \<open>auto simp: s' in_hand_def worker_measures worker_ok_def
         nth_list_update split: dispatcher_pc.split\<close>)
next
  case W_decrement
  have "0 < total undecremented s"
    using W_decrement il by (auto simp: sum_list_pos undecremented_def)
  then have o: "0 < outstanding s" using live_facts(6) [OF assms(1)] by linarith
  have s': "s' = update_worker i (\<lambda>w. w\<lparr>wpc := W_wait_ready\<rparr>)
      (if outstanding s - 1 = 0
       then s\<lparr>outstanding := outstanding s - 1, w_awake := w_awake s + w_asleep s, w_asleep := 0\<rparr>
       else s\<lparr>outstanding := outstanding s - 1\<rparr>)"
    using assms(4) W_decrement by (simp add: worker_step_def)
  then have f: "wts s' = (wts s)[i := (wts s ! i)\<lparr>wpc := W_wait_ready\<rparr>]" "dpc s' = dpc s" "queued s' = queued s"
      "signalling s' = signalling s" "tasks s' = tasks s" "availableWorkers s' = availableWorkers s"
      "pushing s' = pushing s" "scheduled s' = scheduled s" "ran s' = ran s" "dtor s' = dtor s"
      "outstanding s' = outstanding s - 1"
    by simp_all
  have h: "in_hand ((wts s)[i := (wts s ! i)\<lparr>wpc := W_wait_ready\<rparr>]) (dpc s) = in_hand (wts s) (dpc s)"
    using il by (simp add: in_hand_def nth_list_update split: dispatcher_pc.split)
  show ?thesis
    by (rule live_worker [OF assms(1) il f(1) refl])
      (use live_facts(1,2,3) [OF assms(1)] W_decrement il o in \<open>auto simp: f h worker_measures worker_ok_def\<close>)
next
  case W_exit
  then show ?thesis using assms(4) by (simp add: worker_step_def)
next
  case W_undefined
  then show ?thesis using assms(4) by (simp add: worker_step_def)
qed

section \<open>The clients and the destructor\<close>

lemma count_list_remove1: "t \<in> set xs \<Longrightarrow> count_list (remove1 t xs) x + of_bool (x = t) = count_list xs x"
  by (induction xs) auto

lemma push_live:
  assumes "live_inv s" and "t \<in> set (pushing s)"
  shows "live_inv (schedule_push t s)"
proof (rule live_frame [OF assms(1)])
  fix x
  show "count_list (scheduled (schedule_push t s)) x + (count_list (pushing s) x + count_list (tasks s) x
        + of_bool (in_hand (wts s) (dpc s) = Some x) + count_list (ran s) x)
      = count_list (scheduled s) x + (count_list (pushing (schedule_push t s)) x
        + count_list (tasks (schedule_push t s)) x
        + of_bool (in_hand (wts s) (dpc (schedule_push t s)) = Some x) + count_list (ran (schedule_push t s)) x)"
    using count_list_remove1 [OF assms(2), of x] by (auto simp: schedule_push_def)
qed (use live_facts(1-3) [OF assms(1)] assms(2) length_pos_if_in_set [OF assms(2)] in
      \<open>auto simp: schedule_push_def length_remove1\<close>)

lemma signal_queued_live: "live_inv s \<Longrightarrow> 0 < signalling s \<Longrightarrow> live_inv (schedule_signal s)"
  by (rule live_frame) (use live_facts(1-3) in \<open>auto simp: schedule_signal_def\<close>)

lemma enter_live: "live_inv s \<Longrightarrow> dtor s \<in> {T_alive, T_wait} \<Longrightarrow> live_inv (schedule_enter t s)"
  by (rule live_frame) (auto simp: schedule_enter_def live_facts(1))

lemma internal_live: "internal_step s s' \<Longrightarrow> live_inv s \<Longrightarrow> \<not> pool_done s \<Longrightarrow> live_inv s'"
  by (induction rule: internal_step.induct)
    (auto intro: dispatcher_live worker_live push_live signal_queued_live)

lemma live_inv_cong: "live_inv s \<Longrightarrow> live_inv (s\<lparr>w_asleep := a, w_awake := b\<rparr>)"
  by (rule live_frame) (use live_facts(1-3) in auto)

section \<open>Quiet and stopping\<close>

text \<open>With nothing outstanding every thread is parked where it waits, and all that was scheduled has run.\<close>

lemma total_zero: "total f s = 0 \<longleftrightarrow> (\<forall>i < length (wts s). f (wts s ! i) = 0)"
  using sum_list_pos [of f "wts s"] by auto

lemma quiet:
  assumes "live_inv s" and "outstanding s = 0"
  shows "tasks s = []" and "pushing s = []" and "signalling s = 0" and "queued s = 0" and "dpc s = D_wait_queued"
    and "\<And>x. count_list (scheduled s) x = count_list (ran s) x"
    and "\<And>i. i < length (wts s) \<Longrightarrow> wpc (wts s ! i) = W_wait_ready \<and> ready (wts s ! i) = 0 \<and> available (wts s ! i)"
    and "availableWorkers s = length (wts s)"
proof -
  note f = live_facts [OF assms(1)]
  show t: "tasks s = []" and p: "pushing s = []" using f(6) assms(2) by simp_all
  show "signalling s = 0" and "queued s = 0" using f(4) t by simp_all
  have h: "in_hand (wts s) (dpc s) = None" and r: "total to_run s = 0" and u: "total undecremented s = 0"
    using f(6) assms(2) by (simp_all split: if_splits)
  have "queue_token (dpc s) = 0" using f(4) t by simp
  moreover have "dpc s \<noteq> D_signal_ready j" for j
    using f(1) h live_worker_ok [OF assms(1), of j] by (auto simp: claim_ok_def in_hand_def worker_ok_def)
  ultimately show d: "dpc s = D_wait_queued"
    using f(1) h by (cases "dpc s") (auto simp: pc_measures)
  show w: "wpc (wts s ! i) = W_wait_ready \<and> ready (wts s ! i) = 0 \<and> available (wts s ! i)" if "i < length (wts s)" for i
  proof -
    have "to_run (wts s ! i) = 0" "undecremented (wts s ! i) = 0" using r u that by (simp_all add: total_zero)
    moreover have ok: "worker_ok (dpc s) i (wts s ! i)" using live_worker_ok [OF assms(1) that] .
    ultimately show ?thesis
      using d by (cases "wpc (wts s ! i)")
        (auto simp: worker_ok_def to_run_def undecremented_def claim_of_def split: if_splits)
  qed
  have "total (to_run_of x) s = 0" for x
    using r unfolding total_zero by (simp add: to_run_of_def)
  then show "count_list (scheduled s) x = count_list (ran s) x" for x
    using assms(1) t p h by (simp add: live_inv_def conserved_def)
  have "map is_idle (wts s) = map (\<lambda>_. 1) (wts s)" "map at_signal (wts s) = map (\<lambda>_. 0) (wts s)"
    using w by (auto simp: is_idle_def at_signal_def in_set_conv_nth)
  then show "availableWorkers s = length (wts s)"
    using f(5) d by (simp add: avail_token_def sum_list_triv del: map_eq_conv)
qed

lemma stopping_start:
  assumes "live_inv s" and "dtor s = T_set_done"
  shows "stopping_inv (s\<lparr>pool_done := True, dtor := T_signal_queued\<rparr>)"
  using quiet [OF assms(1) live_facts(3) [OF assms]] live_facts(3) [OF assms]
  by (simp add: stopping_inv_def dtor_ok_def signalled_worker_def joined_worker_def)

lemma dispatcher_stopping:
  assumes "stopping_inv s" and "pool_done s" and "dispatcher_step s = Some s'"
  shows "stopping_inv s'"
proof -
  have "dpc s \<in> {D_wait_queued, D_check_done, D_exit}" using assms(1) by (simp add: stopping_inv_def)
  then consider "dpc s = D_wait_queued" "0 < queued s" "s' = s\<lparr>queued := queued s - 1, dpc := D_check_done\<rparr>"
    | "dpc s = D_check_done" "s' = s\<lparr>dpc := D_exit\<rparr>"
    using assms(2,3) by (auto simp: dispatcher_step_def split: if_splits)
  then show ?thesis
  proof cases
    case 1
    have "dtor s \<in> {T_signal_queued, T_signal_available, T_join_dispatcher}" using assms(1) 1(1) by (auto simp: stopping_inv_def)
    then show ?thesis using assms(1) 1 by (simp add: stopping_inv_def)
  next
    case 2
    then show ?thesis using assms(1) by (simp add: stopping_inv_def)
  qed
qed

lemma worker_stopping:
  assumes "stopping_inv s" and "pool_done s" and "i < length (wts s)" and "worker_step i s = Some s'"
  shows "stopping_inv s'"
proof -
  have "wpc (wts s ! i) \<in> {W_wait_ready, W_check_done, W_exit}" using assms(1,3) by (simp add: stopping_inv_def)
  then consider "wpc (wts s ! i) = W_wait_ready" "0 < ready (wts s ! i)"
      "s' = update_worker i (\<lambda>w. w\<lparr>ready := ready w - 1, wpc := W_check_done\<rparr>) s"
    | "wpc (wts s ! i) = W_check_done" "s' = update_worker i (\<lambda>w. w\<lparr>wpc := W_exit\<rparr>) s"
    using assms(2,4) by (auto simp: worker_step_def Let_def split: if_splits)
  then show ?thesis
  proof cases
    case 1
    have "ready (wts s ! i) = of_bool (signalled_worker (dtor s) i)" "\<not> joined_worker (dtor s) i"
      using assms(1,3) 1(1) by (auto simp: stopping_inv_def)
    with 1 assms(1,3) show ?thesis by (auto simp: stopping_inv_def nth_list_update)
  next
    case 2
    have "ready (wts s ! i) + of_bool (wpc (wts s ! i) \<noteq> W_wait_ready) = of_bool (signalled_worker (dtor s) i)"
      using assms(1,3) by (simp add: stopping_inv_def)
    then have "ready (wts s ! i) = 0 \<and> signalled_worker (dtor s) i" using 2(1) by (cases "signalled_worker (dtor s) i") simp_all
    with 2 assms(1,3) show ?thesis by (auto simp: stopping_inv_def nth_list_update)
  qed
qed

lemma dtor_stopping:
  assumes "stopping_inv s" and "dtor_step s = Some s'"
  shows "stopping_inv s'"
proof (cases "dtor s")
  case (T_signal_worker i)
  then have i: "i < length (wts s)" using assms(1) by (simp add: stopping_inv_def dtor_ok_def)
  have r: "ready (wts s ! i) = 0" "wpc (wts s ! i) = W_wait_ready"
    using assms(1) i T_signal_worker by (auto simp: stopping_inv_def signalled_worker_def)
  have "s' = update_worker i (\<lambda>w. w\<lparr>ready := ready w + 1\<rparr>) (s\<lparr>dtor := T_join_worker i\<rparr>)"
    using assms(2) T_signal_worker by (simp add: dtor_step_def)
  with assms(1) T_signal_worker i r show ?thesis
    by (auto simp: stopping_inv_def dtor_ok_def signalled_worker_def joined_worker_def nth_list_update)
next
  case (T_join_worker i)
  then have i: "i < length (wts s)" using assms(1) by (simp add: stopping_inv_def dtor_ok_def)
  have x: "wpc (wts s ! i) = W_exit"
    and s': "s' = s\<lparr>dtor := (if Suc i < length (wts s) then T_signal_worker (Suc i) else T_dead)\<rparr>"
    using assms(2) T_join_worker by (auto simp: dtor_step_def split: if_splits)
  have "wpc (wts s ! j) = W_exit" if "j < length (wts s)" "\<not> Suc i < length (wts s)" for j
    using assms(1) T_join_worker x that
    by (cases "j = i") (auto simp: stopping_inv_def joined_worker_def)
  with assms(1) T_join_worker i x show ?thesis
    by (auto simp: s' stopping_inv_def dtor_ok_def signalled_worker_def joined_worker_def less_Suc_eq
        less_Suc_eq_le)
next
  case T_join_dispatcher
  then have d: "dpc s = D_exit" and s': "s' = s\<lparr>dtor := (if wts s = [] then T_dead else T_signal_worker 0)\<rparr>"
    using assms(2) by (auto simp: dtor_step_def split: dispatcher_pc.splits)
  show ?thesis using assms(1) T_join_dispatcher d
    by (simp add: s' stopping_inv_def dtor_ok_def signalled_worker_def joined_worker_def)
next
  case T_signal_queued
  then have "s' = s\<lparr>queued := queued s + 1, dtor := T_signal_available\<rparr>" using assms(2) by (simp add: dtor_step_def)
  with assms(1) T_signal_queued show ?thesis by (simp add: stopping_inv_def dtor_ok_def signalled_worker_def joined_worker_def)
next
  case T_signal_available
  then have "s' = s\<lparr>availableWorkers := availableWorkers s + 1, dtor := T_join_dispatcher\<rparr>" using assms(2) by (simp add: dtor_step_def)
  with assms(1) T_signal_available show ?thesis by (simp add: stopping_inv_def dtor_ok_def signalled_worker_def joined_worker_def)
qed (use assms in \<open>simp_all add: stopping_inv_def dtor_step_def dtor_ok_def\<close>)


section \<open>Every reachable state\<close>

lemma internal_stopping:
  "internal_step s s' \<Longrightarrow> stopping_inv s \<Longrightarrow> pool_done s \<Longrightarrow> stopping_inv s'"
proof (induction rule: internal_step.induct)
  case (push t s)
  then show ?case by (simp add: stopping_inv_def)
next
  case (signal_queued s)
  then show ?case by (simp add: stopping_inv_def)
qed (auto intro: dispatcher_stopping worker_stopping)

lemma dispatcher_frame:
  "dispatcher_step s = Some s' \<Longrightarrow> pool_done s' = pool_done s \<and> outstanding s' = outstanding s \<and>
   w_asleep s' = w_asleep s \<and> dtor s' = dtor s \<and> length (wts s') = length (wts s) \<and> scheduled s' = scheduled s"
  by (auto simp: dispatcher_step_def split: dispatcher_pc.splits if_splits option.splits list.splits)

lemma worker_frame:
  "worker_step i s = Some s' \<Longrightarrow> pool_done s' = pool_done s \<and> dtor s' = dtor s \<and>
   length (wts s') = length (wts s) \<and> scheduled s' = scheduled s \<and>
   (outstanding s' = outstanding s \<and> w_asleep s' = w_asleep s \<or>
    outstanding s' = 0 \<and> w_asleep s' = 0 \<or> outstanding s' \<noteq> 0 \<and> w_asleep s' = w_asleep s)"
  by (auto simp: worker_step_def Let_def split: worker_pc.splits if_splits option.splits)

lemma internal_frame:
  "internal_step s s' \<Longrightarrow> pool_done s' = pool_done s \<and> dtor s' = dtor s \<and>
   length (wts s') = length (wts s) \<and> scheduled s' = scheduled s \<and>
   (outstanding s' = outstanding s \<and> w_asleep s' = w_asleep s \<or>
    outstanding s' = 0 \<and> w_asleep s' = 0 \<or> outstanding s' \<noteq> 0 \<and> w_asleep s' = w_asleep s)"
  by (induction rule: internal_step.induct)
    (auto dest!: dispatcher_frame worker_frame simp: schedule_push_def schedule_signal_def)

lemma internal_inv: "internal_step s s' \<Longrightarrow> pool_inv s \<Longrightarrow> pool_inv s'"
  using internal_frame [of s s'] internal_live [of s s'] internal_stopping [of s s']
  by (auto simp: pool_inv_def split: if_splits)

lemma wait_live:
  "live_inv s \<Longrightarrow> live_inv (s\<lparr>w_asleep := a\<rparr>)" "live_inv s \<Longrightarrow> live_inv (s\<lparr>w_awake := b\<rparr>)"
  by (rule live_frame, assumption, use live_facts(1-3) in auto)+

lemma stopping_wait [simp]:
  "stopping_inv (s\<lparr>w_asleep := a\<rparr>) = stopping_inv s" "stopping_inv (s\<lparr>w_awake := b\<rparr>) = stopping_inv s"
  by (simp_all add: stopping_inv_def)

lemma wait_check_pool_inv: "pool_inv s \<Longrightarrow> pool_inv (snd (pool_wait_check s))"
  by (auto simp: pool_inv_def pool_wait_check_def intro: wait_live)

lemma dtor_frame:
  "dtor_step s = Some s' \<Longrightarrow> pool_done s' = (pool_done s \<or> dtor s = T_set_done) \<and> w_asleep s' = w_asleep s \<and>
   outstanding s' = outstanding s \<and> length (wts s') = length (wts s) \<and> ran s' = ran s \<and> scheduled s' = scheduled s"
  by (auto simp: dtor_step_def split: dtor_pc.splits if_splits dispatcher_pc.splits)

lemma dtor_inv: "pool_inv s \<Longrightarrow> dtor_step s = Some s' \<Longrightarrow> pool_inv s'"
proof (cases "pool_done s")
  case True
  assume "pool_inv s" "dtor_step s = Some s'"
  with True dtor_stopping [of s s'] dtor_frame [of s s'] show ?thesis by (auto simp: pool_inv_def)
next
  case False
  assume i: "pool_inv s" and d: "dtor_step s = Some s'"
  then have l: "live_inv s" using False by (simp add: pool_inv_def)
  then consider "dtor s = T_wait" "outstanding s = 0" "s' = s\<lparr>dtor := T_set_done\<rparr>"
    | "dtor s = T_set_done" "s' = s\<lparr>pool_done := True, dtor := T_signal_queued\<rparr>"
    using d live_facts(2) [OF l] by (auto simp: dtor_step_def split: if_splits)
  then show ?thesis
  proof cases
    case 1
    then have "live_inv s'" using live_facts(1) [OF l] by (intro live_frame [OF l]) auto
    with 1 False i show ?thesis by (simp add: pool_inv_def)
  next
    case 2
    with stopping_start [OF l] i show ?thesis by (simp add: pool_inv_def)
  qed
qed

lemma pool_step_inv: "pool_step s s' \<Longrightarrow> pool_inv s \<Longrightarrow> pool_inv s'"
proof (induction rule: pool_step.induct)
  case (schedule s t)
  then have "\<not> pool_done s" by (auto simp: pool_inv_def stopping_inv_def dtor_ok_def)
  with schedule show ?case
    using enter_live [of s t] by (auto simp: pool_inv_def schedule_enter_def)
next
  case (resume_wait s)
  then have "pool_inv (s\<lparr>w_awake := w_awake s - 1\<rparr>)" by (auto simp: pool_inv_def intro: wait_live)
  then show ?case by (rule wait_check_pool_inv)
next
  case (spurious_wait s)
  then show ?case by (auto simp: pool_inv_def intro: live_inv_cong)
next
  case (call_dtor s)
  then have l: "live_inv s" "\<not> pool_done s" by (auto simp: pool_inv_def stopping_inv_def dtor_ok_def split: if_splits)
  then have "live_inv (s\<lparr>dtor := T_wait\<rparr>)" using live_facts(1) [OF l(1)] by (intro live_frame [OF l(1)]) auto
  with call_dtor l show ?case by (simp add: pool_inv_def)
qed (auto intro: internal_inv wait_check_pool_inv dtor_inv)

lemma pool_init_inv: "pool_inv (pool_init n :: 'a pool)"
proof -
  have "total at_signal (pool_init n) = 0" "total is_idle (pool_init n) = n" "total to_run (pool_init n) = 0"
    "total undecremented (pool_init n) = 0" "total (to_run_of x) (pool_init n) = 0" for x :: 'a
    by (simp_all add: pool_init_def sum_list_replicate worker_measures)
  then have "live_inv (pool_init n :: 'a pool)"
    unfolding live_inv_def balances_def conserved_def
    by (simp add: pool_init_def pc_measures worker_ok_def worker_measures sum_list_replicate)
  then show ?thesis by (simp add: pool_inv_def pool_init_def)
qed

lemma reachable_inv: "reachable n s \<Longrightarrow> pool_inv s \<and> length (wts s) = n"
proof (induction rule: reachable.induct)
  case reach_init
  then show ?case using pool_init_inv by (simp add: pool_init_def)
next
  case (reach_step s s')
  have "length (wts s') = length (wts s)"
    using reach_step(2)
    by (induction rule: pool_step.induct)
      (auto dest!: internal_frame dtor_frame simp: schedule_enter_def pool_wait_check_def)
  with reach_step pool_step_inv [of s s'] show ?case by simp
qed

end
