(* ===== verification/ThreadPool_Live.thy ===== *)
theory ThreadPool_Live
  imports ThreadPool_Inv
begin

text \<open>
  Progress of the thread pool and its properties: measures under which the pool's own steps
  terminate, the absence of deadlock, and what holds when the pool is drained, when \<open>wait\<close> returns and
  when the destructor is through.
\<close>

section \<open>Draining\<close>

definition dispatcher_weight :: "'a dispatcher_pc \<Rightarrow> nat" where
  "dispatcher_weight d = (case d of
     D_wait_queued \<Rightarrow> 10 | D_check_done \<Rightarrow> 9 | D_wait_available \<Rightarrow> 8 | D_recheck_done \<Rightarrow> 7 | D_claim \<Rightarrow> 6
   | D_pop _ \<Rightarrow> 5 | D_assign _ _ \<Rightarrow> 18 | D_signal_ready _ \<Rightarrow> 17 | D_exit \<Rightarrow> 0 | D_undefined \<Rightarrow> 0)"

definition worker_weight :: "'a worker_t \<Rightarrow> nat" where
  "worker_weight w = 6 * ready w + (case wpc w of
     W_wait_ready \<Rightarrow> 0 | W_check_done \<Rightarrow> 5 | W_run \<Rightarrow> 4 | W_set_available \<Rightarrow> 3 | W_signal_available \<Rightarrow> 2
   | W_decrement \<Rightarrow> 1 | W_exit \<Rightarrow> 0 | W_undefined \<Rightarrow> 0)"

definition drain_measure :: "'a pool \<Rightarrow> nat" where
  "drain_measure s = 16 * length (pushing s) + 14 * length (tasks s) + signalling s
     + dispatcher_weight (dpc s) + total worker_weight s"

lemma total_update:
  "i < length (wts s) \<Longrightarrow> wts s' = (wts s)[i := w'] \<Longrightarrow> total f s' + f (wts s ! i) = total f s + f w'"
  using sum_map_update [of i "wts s" f w'] by simp

lemma dispatcher_decreases:
  assumes "live_inv s" and "\<not> pool_done s" and "dispatcher_step s = Some s'"
  shows "drain_measure s' < drain_measure s"
proof (cases "dpc s")
  case D_claim
  obtain i where i: "first_available (wts s) = Some i" "i < length (wts s)"
    using claim_finds_worker [OF assms(1) D_claim] .
  then have "s' = update_worker i (\<lambda>w. w\<lparr>available := False\<rparr>) (s\<lparr>dpc := D_pop i\<rparr>)"
    using assms(3) D_claim by (simp add: dispatcher_step_def)
  with sum_map_update [OF i(2), of worker_weight "(wts s ! i)\<lparr>available := False\<rparr>"] D_claim
  show ?thesis by (simp add: drain_measure_def dispatcher_weight_def worker_weight_def)
next
  case (D_pop i)
  obtain t ts where "tasks s = t # ts" using pop_finds_task [OF assms(1) D_pop] .
  with assms(3) D_pop show ?thesis
    by (auto simp: dispatcher_step_def drain_measure_def dispatcher_weight_def)
next
  case (D_assign i t)
  then have i: "i < length (wts s)" using live_facts(1) [OF assms(1)] by (simp add: claim_ok_def)
  then have "s' = update_worker i (\<lambda>w. w\<lparr>thunk := Some t\<rparr>) (s\<lparr>dpc := D_signal_ready i\<rparr>)"
    using assms(3) D_assign by (simp add: dispatcher_step_def)
  with sum_map_update [OF i, of worker_weight "(wts s ! i)\<lparr>thunk := Some t\<rparr>"] D_assign
  show ?thesis by (simp add: drain_measure_def dispatcher_weight_def worker_weight_def)
next
  case (D_signal_ready i)
  then have i: "i < length (wts s)" using live_facts(1) [OF assms(1)] by (simp add: claim_ok_def)
  have "s' = update_worker i (\<lambda>w. w\<lparr>ready := ready w + 1\<rparr>) (s\<lparr>dpc := D_wait_queued\<rparr>)"
    using assms(3) D_signal_ready by (simp add: dispatcher_step_def)
  with sum_map_update [OF i, of worker_weight "(wts s ! i)\<lparr>ready := ready (wts s ! i) + 1\<rparr>"] D_signal_ready
  show ?thesis by (simp add: drain_measure_def dispatcher_weight_def worker_weight_def)
qed (use assms(2,3) in \<open>auto simp: dispatcher_step_def drain_measure_def dispatcher_weight_def split: if_splits\<close>)

lemma worker_decreases:
  assumes "live_inv s" and "\<not> pool_done s" and i: "i < length (wts s)" and st: "worker_step i s = Some s'"
  shows "drain_measure s' < drain_measure s"
proof -
  obtain w' where w': "wts s' = (wts s)[i := w']" and lt: "worker_weight w' < worker_weight (wts s ! i)"
    and f: "pushing s' = pushing s" "tasks s' = tasks s" "signalling s' = signalling s" "dpc s' = dpc s"
  proof (cases "wpc (wts s ! i)")
    case W_run
    then obtain t where "thunk (wts s ! i) = Some t"
      using to_run_has_thunk [OF assms(1) i] by (auto simp: to_run_def)
    with st W_run that show ?thesis by (auto simp: worker_step_def worker_weight_def)
  qed (use assms(2) st that in \<open>auto simp: worker_step_def worker_weight_def Let_def split: if_splits\<close>)
  then show ?thesis
    using total_update [OF i w', of worker_weight] by (simp add: drain_measure_def)
qed

lemma internal_decreases:
  "internal_step s s' \<Longrightarrow> live_inv s \<Longrightarrow> \<not> pool_done s \<Longrightarrow> drain_measure s' < drain_measure s"
proof (induction rule: internal_step.induct)
  case (push t s)
  then have "0 < length (pushing s)" by (intro length_pos_if_in_set)
  with push show ?case
    by (cases "length (pushing s)") (auto simp: drain_measure_def schedule_push_def length_remove1)
next
  case (signal_queued s)
  then show ?case by (simp add: drain_measure_def schedule_signal_def)
qed (auto intro: dispatcher_decreases worker_decreases)

lemma dispatcher_enabled:
  "dpc s \<notin> {D_wait_queued, D_wait_available, D_exit, D_undefined} \<Longrightarrow> \<exists>s'. dispatcher_step s = Some s'"
  "dpc s = D_wait_queued \<Longrightarrow> 0 < queued s \<Longrightarrow> \<exists>s'. dispatcher_step s = Some s'"
  "dpc s = D_wait_available \<Longrightarrow> 0 < availableWorkers s \<Longrightarrow> \<exists>s'. dispatcher_step s = Some s'"
  by (cases "dpc s"; auto simp: dispatcher_step_def split: option.split list.split)+

lemma worker_enabled:
  "wpc (wts s ! i) \<notin> {W_wait_ready, W_exit, W_undefined} \<or> wpc (wts s ! i) = W_wait_ready \<and> 0 < ready (wts s ! i) \<Longrightarrow>
   \<exists>s'. worker_step i s = Some s'"
  by (cases "wpc (wts s ! i)") (auto simp: worker_step_def Let_def split: option.split)

lemma busy_worker_enabled:
  assumes "live_inv s" and "i < length (wts s)"
    and "0 < to_run (wts s ! i) \<or> 0 < undecremented (wts s ! i)"
  shows "\<exists>s'. internal_step s s'"
proof -
  have "wpc (wts s ! i) \<noteq> W_exit" "wpc (wts s ! i) \<noteq> W_undefined"
    using live_worker_ok [OF assms(1,2)] by (simp_all add: worker_ok_def)
  then have "\<exists>s'. worker_step i s = Some s'"
    using assms(3) by (intro worker_enabled) (auto simp: to_run_def undecremented_def)
  then show ?thesis using assms(2) work by blast
qed

lemma no_deadlock:
  assumes "live_inv s" and "wts s \<noteq> []" and "0 < outstanding s"
  shows "\<exists>s'. internal_step s s'"
proof (rule ccontr)
  assume no: "\<nexists>s'. internal_step s s'"
  note f = live_facts [OF assms(1)]
  have p: "pushing s = []" using no push [of _ s] by (cases "pushing s") auto
  have g: "signalling s = 0" using no signal_queued [of s] by blast
  have idle: "to_run (wts s ! i) = 0 \<and> undecremented (wts s ! i) = 0" if "i < length (wts s)" for i
    using busy_worker_enabled [OF assms(1) that] no neq0_conv by blast
  have nd: "dispatcher_step s = None" using no dispatch by (metis not_None_eq)
  consider "dpc s = D_wait_queued" "queued s = 0" | "dpc s = D_wait_available" "availableWorkers s = 0"
    using nd dispatcher_enabled [of s] f(1) by (cases "dpc s") (auto simp: claim_ok_def)
  then show False
  proof cases
    case 1
    then have "tasks s = []" using f(4) g by (simp add: queue_token_def)
    moreover have "total to_run s = 0" "total undecremented s = 0" using idle unfolding total_zero by simp_all
    ultimately have "outstanding s = 0" using f(6) p 1(1) by (simp add: in_hand_def del: sum_list_eq_0_iff)
    with assms(3) show False by simp
  next
    case 2
    have "total at_signal s = 0"
      unfolding total_zero using idle by (auto simp: at_signal_def undecremented_def)
    then have "total is_idle s = 0" using f(5) 2 by (simp add: avail_token_def del: sum_list_eq_0_iff)
    moreover have z: "0 < length (wts s)" using assms(2) by simp
    ultimately have "\<not> available (wts s ! 0)" unfolding total_zero by (auto simp: is_idle_def)
    moreover have "worker_ok (dpc s) 0 (wts s ! 0)" using live_worker_ok [OF assms(1) z] .
    ultimately show False
      using 2 idle [OF z] by (auto simp: worker_ok_def claim_of_def undecremented_def split: if_splits)
  qed
qed

section \<open>Stopping\<close>

definition dtor_rank :: "nat \<Rightarrow> dtor_pc \<Rightarrow> nat" where
  "dtor_rank n d = (case d of
     T_alive \<Rightarrow> 0 | T_wait \<Rightarrow> 0 | T_set_done \<Rightarrow> 2 * n + 4 | T_signal_queued \<Rightarrow> 2 * n + 3
   | T_signal_available \<Rightarrow> 2 * n + 2 | T_join_dispatcher \<Rightarrow> 2 * n + 1
   | T_signal_worker k \<Rightarrow> 2 * (n - k) | T_join_worker k \<Rightarrow> 2 * (n - k) - 1 | T_dead \<Rightarrow> 0)"

definition dispatcher_rank :: "'a dispatcher_pc \<Rightarrow> nat" where
  "dispatcher_rank d = (case d of D_wait_queued \<Rightarrow> 2 | D_check_done \<Rightarrow> 1 | _ \<Rightarrow> 0)"

definition worker_rank :: "'a worker_t \<Rightarrow> nat" where
  "worker_rank w = (case wpc w of W_wait_ready \<Rightarrow> 2 | W_check_done \<Rightarrow> 1 | _ \<Rightarrow> 0)"

definition stop_measure :: "'a pool \<Rightarrow> nat" where
  "stop_measure s = dtor_rank (length (wts s)) (dtor s) + dispatcher_rank (dpc s) + total worker_rank s"

lemmas rank_defs = dtor_rank_def dispatcher_rank_def worker_rank_def

text \<open>The threads of the pool and the one running its destructor.\<close>

definition stop_step :: "'a pool \<Rightarrow> 'a pool \<Rightarrow> bool" where
  "stop_step s s' \<longleftrightarrow> internal_step s s' \<or> dtor_step s = Some s'"

lemma stopping_internal_decreases:
  assumes "stopping_inv s" and "pool_done s" and "internal_step s s'"
  shows "stop_measure s' < stop_measure s"
  using assms(3)
proof cases
  case dispatch
  have "dpc s \<in> {D_wait_queued, D_check_done, D_exit}" using assms(1) by (simp add: stopping_inv_def)
  with dispatch assms(2) show ?thesis
    by (auto simp: dispatcher_step_def stop_measure_def dispatcher_rank_def split: if_splits)
next
  case (work i)
  have "wpc (wts s ! i) \<in> {W_wait_ready, W_check_done, W_exit}" using assms(1) work(1) by (simp add: stopping_inv_def)
  then obtain w' where w': "wts s' = (wts s)[i := w']" and lt: "worker_rank w' < worker_rank (wts s ! i)"
    and f: "dtor s' = dtor s" "dpc s' = dpc s"
    using work(2) assms(2) by (auto simp: worker_step_def worker_rank_def Let_def split: if_splits)
  then show ?thesis
    using total_update [OF work(1) w', of worker_rank] by (simp add: stop_measure_def)
next
  case (push t)
  with assms(1) show ?thesis by (simp add: stopping_inv_def)
next
  case signal_queued
  with assms(1) show ?thesis by (simp add: stopping_inv_def)
qed

lemma stopping_dtor_decreases:
  assumes "stopping_inv s" and "dtor_step s = Some s'"
  shows "stop_measure s' < stop_measure s"
proof (cases "dtor s")
  case (T_signal_worker i)
  then have i: "i < length (wts s)" using assms(1) by (simp add: stopping_inv_def dtor_ok_def)
  have "s' = update_worker i (\<lambda>w. w\<lparr>ready := ready w + 1\<rparr>) (s\<lparr>dtor := T_join_worker i\<rparr>)"
    using assms(2) T_signal_worker by (simp add: dtor_step_def)
  with sum_map_update [OF i, of worker_rank "(wts s ! i)\<lparr>ready := ready (wts s ! i) + 1\<rparr>"] i T_signal_worker
  show ?thesis by (simp add: stop_measure_def rank_defs)
next
  case (T_join_worker i)
  then have i: "i < length (wts s)" using assms(1) by (simp add: stopping_inv_def dtor_ok_def)
  with T_join_worker assms(2) show ?thesis by (auto simp: dtor_step_def stop_measure_def dtor_rank_def split: if_splits)
qed (use assms in \<open>auto simp: dtor_step_def stop_measure_def dtor_rank_def stopping_inv_def dtor_ok_def
      split: dispatcher_pc.splits if_splits\<close>)

lemma stopping_progress:
  assumes "stopping_inv s" and "dtor s \<noteq> T_dead"
  shows "\<exists>s'. stop_step s s'"
proof (cases "dtor s")
  case T_join_dispatcher
  consider "dpc s = D_exit" | "dpc s = D_check_done" | "dpc s = D_wait_queued" "0 < queued s"
    using assms(1) T_join_dispatcher by (auto simp: stopping_inv_def)
  then show ?thesis
  proof cases
    case 1
    with T_join_dispatcher show ?thesis by (auto simp: stop_step_def dtor_step_def)
  next
    case 2
    then have "\<exists>s'. dispatcher_step s = Some s'" by (intro dispatcher_enabled(1)) simp
    then show ?thesis unfolding stop_step_def using dispatch by blast
  next
    case 3
    then show ?thesis unfolding stop_step_def using dispatcher_enabled(2) dispatch by blast
  qed
next
  case (T_join_worker i)
  then have i: "i < length (wts s)" using assms(1) by (simp add: stopping_inv_def dtor_ok_def)
  consider "wpc (wts s ! i) = W_exit"
    | "wpc (wts s ! i) = W_check_done \<or> wpc (wts s ! i) = W_wait_ready \<and> 0 < ready (wts s ! i)"
    using assms(1) i T_join_worker by (auto simp: stopping_inv_def signalled_worker_def)
  then show ?thesis
  proof cases
    case 1
    with T_join_worker show ?thesis by (auto simp: stop_step_def dtor_step_def)
  next
    case 2
    then have "\<exists>s'. worker_step i s = Some s'" by (intro worker_enabled) auto
    then show ?thesis unfolding stop_step_def using work [OF i] by blast
  qed
qed (use assms in \<open>auto simp: stop_step_def dtor_step_def stopping_inv_def dtor_ok_def\<close>)


section \<open>Properties\<close>

lemma reach_live: "reachable n s \<Longrightarrow> \<not> pool_done s \<Longrightarrow> live_inv s"
  using reachable_inv [of n s] by (simp add: pool_inv_def)

lemma reach_stopping: "reachable n s \<Longrightarrow> pool_done s \<Longrightarrow> stopping_inv s"
  using reachable_inv [of n s] by (simp add: pool_inv_def)

lemma mset_eq_counts: "mset xs = mset ys \<longleftrightarrow> (\<forall>x. count_list xs x = count_list ys x)"
  by (simp add: multiset_eq_iff count_mset)

lemma drained_ran:
  assumes "reachable n s" and "outstanding s = 0"
  shows "mset (ran s) = mset (scheduled s) \<and> tasks s = [] \<and> w_asleep s = 0"
proof (cases "pool_done s")
  case True
  with reach_stopping [OF assms(1)] reachable_inv [OF assms(1)] assms(2) show ?thesis
    by (simp add: stopping_inv_def mset_eq_counts pool_inv_def)
next
  case False
  note q = quiet [OF reach_live [OF assms(1) False] assms(2)]
  show ?thesis using q(1,6) reachable_inv [OF assms(1)] assms(2) by (simp add: mset_eq_counts pool_inv_def)
qed

text \<open>
  A pool of one worker that has been given one thunk, and the run of its threads: the thunk is
  pushed, dispatched and executed.
\<close>

definition one_scheduled :: "nat pool" where
  "one_scheduled = schedule_signal (schedule_push 7 (schedule_enter 7 (pool_init 1)))"

lemma one_scheduled_reachable: "reachable 1 one_scheduled"
proof -
  have 1: "reachable 1 (schedule_enter (7 :: nat) (pool_init 1))"
    by (intro reach_step [OF reach_init] schedule) (simp add: pool_init_def)
  then have 2: "reachable 1 (schedule_push (7 :: nat) (schedule_enter 7 (pool_init 1)))"
    by (intro reach_step [OF 1] internal push) (simp add: schedule_enter_def)
  then show ?thesis
    unfolding one_scheduled_def
    by (intro reach_step [OF 2] internal signal_queued) (simp add: schedule_push_def)
qed

text \<open>
  C8: the pool neither loses nor repeats a thunk, on any interleaving of its threads and of any number
  of \<open>schedule\<close> calls: what has run is contained, with multiplicities, in what was scheduled, and
  whenever \<open>outstanding\<close> is zero, so whenever \<open>wait\<close> returns, everything scheduled has run exactly
  once and nothing is queued; a thread never sleeps in \<open>wait\<close> on a drained pool.
\<close>
theorem pool_runs_each_thunk_once:
  assumes "reachable n s"
  shows "mset (ran s) \<subseteq># mset (scheduled s) \<and>
    (fst (pool_wait_check s) \<longrightarrow> mset (ran s) = mset (scheduled s) \<and> tasks s = [] \<and> w_asleep s = 0)"
proof -
  have le: "count_list (ran s) x \<le> count_list (scheduled s) x" for x
  proof (cases "pool_done s")
    case True
    with reach_stopping [OF assms] show ?thesis by (simp add: stopping_inv_def)
  next
    case False
    have "conserved s" using reach_live [OF assms False] by (simp add: live_inv_def)
    then show ?thesis by (simp add: conserved_def)
  qed
  then have "mset (ran s) \<subseteq># mset (scheduled s)" by (simp add: subseteq_mset_def count_mset)
  then show ?thesis using drained_ran [OF assms] by (auto simp: pool_wait_check_def split: if_splits)
qed

lemma pool_runs_each_thunk_once_witness:
  "\<exists>s. s = one_scheduled \<and> (mset (ran s) \<subseteq># mset (scheduled s) \<and>
    (fst (pool_wait_check s) \<longrightarrow>
      mset (ran s) = mset (scheduled s) \<and> tasks s = [] \<and>
      w_asleep s = 0))"
  by (rule exI [of _ "one_scheduled"], rule conjI [OF refl], rule pool_runs_each_thunk_once [OF one_scheduled_reachable])

text \<open>
  C10: the dispatcher's bookkeeping is safe: whenever it has passed both semaphores there is an idle
  worker to claim and a task to pop, it never touches the queue's front when empty, and it writes a
  worker's thunk only while that worker neither has a pending \<open>ready\<close> signal nor is about to run
  or running its thunk; no worker calls an empty function.
\<close>
theorem dispatcher_claims_idle_worker:
  assumes "reachable n s"
  shows "dpc s \<noteq> D_undefined \<and> (\<forall>i < n. wpc (wts s ! i) \<noteq> W_undefined) \<and>
    (\<not> pool_done s \<longrightarrow>
      (dpc s = D_claim \<longrightarrow> first_available (wts s) \<noteq> None \<and> tasks s \<noteq> []) \<and>
      (\<forall>i. dpc s = D_pop i \<longrightarrow> i < n \<and> tasks s \<noteq> []) \<and>
      (\<forall>i t. dpc s = D_assign i t \<longrightarrow> i < n \<and> \<not> available (wts s ! i) \<and> ready (wts s ! i) = 0 \<and>
         wpc (wts s ! i) \<notin> {W_check_done, W_run, W_set_available}))"
proof (cases "pool_done s")
  case True
  with reach_stopping [OF assms] reachable_inv [OF assms] show ?thesis
    by (auto simp: stopping_inv_def)
next
  case False
  have l: "live_inv s" using reach_live [OF assms False] .
  have n: "length (wts s) = n" using reachable_inv [OF assms] by simp
  note f = live_facts [OF l]
  have "dpc s \<noteq> D_undefined" using f(1) by (auto simp: claim_ok_def)
  moreover have "\<forall>i < n. wpc (wts s ! i) \<noteq> W_undefined"
    using live_worker_ok [OF l] n by (auto simp: worker_ok_def)
  moreover have "dpc s = D_claim \<longrightarrow> first_available (wts s) \<noteq> None \<and> tasks s \<noteq> []"
    using claim_finds_worker [OF l] f(4) by (fastforce simp: queue_token_def)
  moreover have "\<forall>i. dpc s = D_pop i \<longrightarrow> i < n \<and> tasks s \<noteq> []"
    using pop_finds_task [OF l] n by (metis list.distinct(1))
  moreover have "\<forall>i t. dpc s = D_assign i t \<longrightarrow> i < n \<and> \<not> available (wts s ! i) \<and> ready (wts s ! i) = 0 \<and>
      wpc (wts s ! i) \<notin> {W_check_done, W_run, W_set_available}"
  proof (intro allI impI)
    fix i t assume d: "dpc s = D_assign i t"
    then have i: "i < n" using f(1) n by (simp add: claim_ok_def)
    then have "worker_ok (D_assign i t) i (wts s ! i)" using live_worker_ok [OF l] d n by metis
    with i show "i < n \<and> \<not> available (wts s ! i) \<and> ready (wts s ! i) = 0 \<and>
        wpc (wts s ! i) \<notin> {W_check_done, W_run, W_set_available}"
      by (cases "available (wts s ! i)") (auto simp: worker_ok_def claim_of_def to_run_def)
  qed
  ultimately show ?thesis by blast
qed

lemma dispatcher_claims_idle_worker_witness:
  "\<exists>s. s = one_scheduled \<and> (dpc s \<noteq> D_undefined \<and> (\<forall>i < 1. wpc (wts s ! i) \<noteq> W_undefined) \<and>
    (\<not> pool_done s \<longrightarrow>
      (dpc s = D_claim \<longrightarrow> first_available (wts s) \<noteq> None \<and> tasks s \<noteq> []) \<and>
      (\<forall>i. dpc s = D_pop i \<longrightarrow> i < 1 \<and> tasks s \<noteq> []) \<and>
      (\<forall>i t. dpc s = D_assign i t \<longrightarrow> i < 1 \<and> \<not> available (wts s ! i) \<and>
         ready (wts s ! i) = 0 \<and>
         wpc (wts s ! i) \<notin> {W_check_done, W_run, W_set_available})))"
  by (rule exI [of _ "one_scheduled"], rule conjI [OF refl], rule dispatcher_claims_idle_worker [OF one_scheduled_reachable])

text \<open>
  A pool with at least one worker drains without the help of its clients: from every reachable
  state before shutdown each step of the dispatcher, the workers and the \<open>schedule\<close> calls in
  progress decreases a measure, and as long as a thunk is outstanding one of them can move; so when
  none can, \<open>outstanding\<close> is zero and \<open>wait\<close> returns.
\<close>
lemma drains:
  assumes "reachable n s" and "0 < n" and "\<not> pool_done s"
  shows "(\<forall>s'. internal_step s s' \<longrightarrow> drain_measure s' < drain_measure s) \<and>
    ((\<nexists>s'. internal_step s s') \<longrightarrow> outstanding s = 0 \<and> fst (pool_wait_check s))"
proof -
  have l: "live_inv s" using reach_live [OF assms(1,3)] .
  have "wts s \<noteq> []" using reachable_inv [OF assms(1)] assms(2) by auto
  then have "0 < outstanding s \<Longrightarrow> \<exists>s'. internal_step s s'" using no_deadlock [OF l] by blast
  then show ?thesis
    using internal_decreases [OF _ l assms(3)] by (auto simp: pool_wait_check_def)
qed

text \<open>
  C11: once the destructor has set \<open>done\<close>, the threads of the pool and the destructor finish: each
  of their steps decreases a measure, one is enabled until the destructor has joined every thread,
  and then the dispatcher and all workers have left their loops and everything scheduled has run.
\<close>
theorem destructor_joins_all:
  assumes "reachable n s" and "pool_done s"
  shows "(\<forall>s'. stop_step s s' \<longrightarrow> stop_measure s' < stop_measure s) \<and>
    (dtor s \<noteq> T_dead \<longrightarrow> (\<exists>s'. stop_step s s')) \<and>
    (dtor s = T_dead \<longrightarrow> dpc s = D_exit \<and> (\<forall>i < n. wpc (wts s ! i) = W_exit) \<and> mset (ran s) = mset (scheduled s))"
proof -
  have st: "stopping_inv s" using reach_stopping [OF assms] .
  have "length (wts s) = n" using reachable_inv [OF assms(1)] by simp
  with st have "dtor s = T_dead \<longrightarrow> dpc s = D_exit \<and> (\<forall>i < n. wpc (wts s ! i) = W_exit) \<and> mset (ran s) = mset (scheduled s)"
    by (auto simp: stopping_inv_def joined_worker_def mset_eq_counts)
  then show ?thesis
    using stopping_internal_decreases [OF st assms(2)] stopping_dtor_decreases [OF st] stopping_progress [OF st]
    by (auto simp: stop_step_def)
qed

definition closing_pool :: "nat pool" where
  "closing_pool = (pool_init 2)\<lparr>dtor := T_wait\<rparr>\<lparr>dtor := T_set_done\<rparr>\<lparr>pool_done := True, dtor := T_signal_queued\<rparr>"

lemma closing_pool_reachable: "reachable 2 closing_pool"
proof -
  have 1: "reachable 2 ((pool_init 2 :: nat pool)\<lparr>dtor := T_wait\<rparr>)"
    by (intro reach_step [OF reach_init] call_dtor) (simp add: pool_init_def)
  have 2: "reachable 2 ((pool_init 2 :: nat pool)\<lparr>dtor := T_wait\<rparr>\<lparr>dtor := T_set_done\<rparr>)"
    by (intro reach_step [OF 1] destroy) (simp add: pool_init_def dtor_step_def)
  show ?thesis
    unfolding closing_pool_def by (intro reach_step [OF 2] destroy) (simp add: dtor_step_def)
qed

lemma destructor_joins_all_witness:
  "\<exists>s. s = closing_pool \<and> ((\<forall>s'. stop_step s s' \<longrightarrow> stop_measure s' < stop_measure s) \<and>
    (dtor s \<noteq> T_dead \<longrightarrow> (\<exists>s'. stop_step s s')) \<and>
    (dtor s = T_dead \<longrightarrow> dpc s = D_exit \<and> (\<forall>i < 2. wpc (wts s ! i) = W_exit) \<and>
      mset (ran s) = mset (scheduled s)))"
  by (rule exI [of _ "closing_pool"], rule conjI [OF refl], rule destructor_joins_all [OF closing_pool_reachable], simp add: closing_pool_def)

end
