(* ===== verification/Pool_Client.thy ===== *)
theory Pool_Client
  imports ThreadPool_Live
begin

text \<open>
  A main thread that makes thread pools, gives them thunks, waits and destroys them, interleaved with the
  threads of its pool. Each step has a label: what the main thread did on its own, the thunk that has just
  returned, or nothing. What statements and thunks mean is added by the theories that use this one. A client
  that is disciplined is never stuck, ends, and does its own statements only when nothing is outstanding.
\<close>

section \<open>Clients\<close>

datatype ('a, 'c) client_cmd =
    Make nat          \<comment> \<open>construct a pool of so many workers\<close>
  | Schedule 'a
  | Wait_all
  | Destroy           \<comment> \<open>the pool goes out of scope\<close>
  | Local 'c          \<comment> \<open>a statement of the main thread's own\<close>

datatype 'a client_phase = Running | Pushing 'a | Signalling | Waiting | Destroying

record ('a, 'c) client =
  todo :: "('a, 'c) client_cmd list"
  doing :: "'a client_phase"
  tp :: "'a pool option"

datatype ('a, 'c) client_label = Silent | Did 'c | Returned 'a

definition client_start :: "('a, 'c) client_cmd list \<Rightarrow> ('a, 'c) client" where
  "client_start prog = \<lparr>todo = prog, doing = Running, tp = None\<rparr>"

definition client_over :: "('a, 'c) client \<Rightarrow> bool" where
  "client_over r \<longleftrightarrow> todo r = [] \<and> doing r = Running"

text \<open>The thunk that worker \<open>i\<close> is in the middle of.\<close>

definition in_thunk :: "nat \<Rightarrow> 'a pool \<Rightarrow> 'a option" where
  "in_thunk i s = (if wpc (wts s ! i) = W_run then thunk (wts s ! i) else None)"

definition work_label :: "nat \<Rightarrow> 'a pool \<Rightarrow> ('a, 'c) client_label" where
  "work_label i s = (case in_thunk i s of None \<Rightarrow> Silent | Some t \<Rightarrow> Returned t)"

definition after_check :: "'a pool \<Rightarrow> ('a, 'c) client \<Rightarrow> ('a, 'c) client" where
  "after_check s r = r\<lparr>doing := (if fst (pool_wait_check s) then Running else Waiting), tp := Some (snd (pool_wait_check s))\<rparr>"

inductive client_step :: "('a, 'c) client \<Rightarrow> ('a, 'c) client_label \<Rightarrow> ('a, 'c) client \<Rightarrow> bool" where
  makes: "doing r = Running \<Longrightarrow> todo r = Make n # p \<Longrightarrow> client_step r Silent (r\<lparr>todo := p, tp := Some (pool_init n)\<rparr>)"
| does: "doing r = Running \<Longrightarrow> todo r = Local c # p \<Longrightarrow> client_step r (Did c) (r\<lparr>todo := p\<rparr>)"
| enters: "doing r = Running \<Longrightarrow> todo r = Schedule v # p \<Longrightarrow> tp r = Some s \<Longrightarrow>
    client_step r Silent (r\<lparr>todo := p, doing := Pushing v, tp := Some (schedule_enter v s)\<rparr>)"
| pushes: "doing r = Pushing v \<Longrightarrow> tp r = Some s \<Longrightarrow> client_step r Silent (r\<lparr>doing := Signalling, tp := Some (schedule_push v s)\<rparr>)"
| signals: "doing r = Signalling \<Longrightarrow> tp r = Some s \<Longrightarrow> client_step r Silent (r\<lparr>doing := Running, tp := Some (schedule_signal s)\<rparr>)"
| waits: "doing r = Running \<Longrightarrow> todo r = Wait_all # p \<Longrightarrow> tp r = Some s \<Longrightarrow> client_step r Silent (after_check s (r\<lparr>todo := p\<rparr>))"
| wakes: "doing r = Waiting \<Longrightarrow> tp r = Some s \<Longrightarrow> 0 < w_awake s \<Longrightarrow>
    client_step r Silent (after_check (s\<lparr>w_awake := w_awake s - 1\<rparr>) r)"
| destroys: "doing r = Running \<Longrightarrow> todo r = Destroy # p \<Longrightarrow> tp r = Some s \<Longrightarrow>
    client_step r Silent (r\<lparr>todo := p, doing := Destroying, tp := Some (s\<lparr>dtor := T_wait\<rparr>)\<rparr>)"
| destructs: "doing r = Destroying \<Longrightarrow> tp r = Some s \<Longrightarrow> dtor_step s = Some s' \<Longrightarrow> client_step r Silent (r\<lparr>tp := Some s'\<rparr>)"
| gone: "doing r = Destroying \<Longrightarrow> tp r = Some s \<Longrightarrow> dtor s = T_dead \<Longrightarrow> client_step r Silent (r\<lparr>doing := Running, tp := None\<rparr>)"
| dispatches: "tp r = Some s \<Longrightarrow> dispatcher_step s = Some s' \<Longrightarrow> client_step r Silent (r\<lparr>tp := Some s'\<rparr>)"
| works: "tp r = Some s \<Longrightarrow> i < length (wts s) \<Longrightarrow> worker_step i s = Some s' \<Longrightarrow>
    client_step r (work_label i s) (r\<lparr>tp := Some s'\<rparr>)"

text \<open>The condition variable may also wake the main thread for no reason.\<close>

definition woken :: "('a, 'c) client \<Rightarrow> ('a, 'c) client \<Rightarrow> bool" where
  "woken r r' \<longleftrightarrow> (\<exists>s. tp r = Some s \<and> 0 < w_asleep s \<and>
     r' = r\<lparr>tp := Some (s\<lparr>w_asleep := w_asleep s - 1, w_awake := w_awake s + 1\<rparr>)\<rparr>)"

text \<open>Pools are made and destroyed in turn, and the main thread's own statements come when nothing is outstanding.\<close>

fun disciplined :: "bool \<Rightarrow> bool \<Rightarrow> ('a, 'c) client_cmd list \<Rightarrow> bool" where
  "disciplined alive calm [] = (\<not> alive)"
| "disciplined alive calm (Make n # p) = (\<not> alive \<and> 0 < n \<and> disciplined True True p)"
| "disciplined alive calm (Schedule v # p) = (alive \<and> disciplined True False p)"
| "disciplined alive calm (Wait_all # p) = (alive \<and> disciplined True True p)"
| "disciplined alive calm (Destroy # p) = (alive \<and> disciplined False True p)"
| "disciplined alive calm (Local c # p) = (calm \<and> disciplined alive calm p)"

lemma disciplined_schedules:
  "disciplined True calm (map Schedule vs @ p) = disciplined True (calm \<and> vs = []) p"
  by (induction vs arbitrary: calm) simp_all

lemma disciplined_lives:
  "0 < k \<Longrightarrow> disciplined False True (concat (replicate n ([Make k] @ map Schedule vs @ [Destroy])) @ p) = disciplined False True p"
  by (induction n) (simp_all add: disciplined_schedules)

lemma disciplined_mono: "disciplined alive calm p \<Longrightarrow> (calm \<longrightarrow> calm') \<Longrightarrow> disciplined alive calm' p"
  by (induction alive calm p arbitrary: calm' rule: disciplined.induct) auto

section \<open>The pool a client has\<close>

lemma dispatcher_ran: "dispatcher_step s = Some s' \<Longrightarrow> ran s' = ran s"
  by (auto simp: dispatcher_step_def split: dispatcher_pc.splits option.splits list.splits if_splits)

lemma worker_ran: "worker_step i s = Some s' \<Longrightarrow> ran s' = ran s @ (case in_thunk i s of None \<Rightarrow> [] | Some t \<Rightarrow> [t])"
  by (auto simp: worker_step_def in_thunk_def Let_def split: worker_pc.splits option.splits if_splits)

lemma step_pushes:
  "dispatcher_step s = Some s' \<Longrightarrow> pushing s' = pushing s \<and> signalling s' = signalling s \<and> w_awake s' = w_awake s"
  "worker_step i s = Some s' \<Longrightarrow> pushing s' = pushing s \<and> signalling s' = signalling s \<and>
     w_asleep s' + w_awake s' = w_asleep s + w_awake s \<and> outstanding s' \<le> outstanding s"
  "dtor_step s = Some s' \<Longrightarrow> pushing s' = pushing s \<and> signalling s' = signalling s \<and> w_awake s' = w_awake s"
  by (auto simp: dispatcher_step_def worker_step_def dtor_step_def Let_def
      split: dispatcher_pc.splits worker_pc.splits dtor_pc.splits option.splits list.splits if_splits)

lemma scheduled_same:
  "scheduled (schedule_push v s) = scheduled s" "ran (schedule_push v s) = ran s"
  "scheduled (schedule_signal s) = scheduled s" "ran (schedule_signal s) = ran s"
  "scheduled (schedule_enter v s) = v # scheduled s" "ran (schedule_enter v s) = ran s"
  by (simp_all add: schedule_push_def schedule_signal_def schedule_enter_def)

definition calls_ok :: "'a client_phase \<Rightarrow> 'a pool \<Rightarrow> bool" where
  "calls_ok d s \<longleftrightarrow>
     pushing s = (case d of Pushing v \<Rightarrow> [v] | _ \<Rightarrow> []) \<and> signalling s = of_bool (d = Signalling) \<and>
     w_asleep s + w_awake s = of_bool (d = Waiting) \<and> (dtor s = T_alive \<longleftrightarrow> d \<noteq> Destroying)"

definition plan_ok :: "('a, 'c) client \<Rightarrow> bool" where
  "plan_ok r = (case tp r of
       None \<Rightarrow> doing r = Running \<and> disciplined False True (todo r)
     | Some s \<Rightarrow> (\<exists>n > 0. reachable n s) \<and> calls_ok (doing r) s \<and>
         (case doing r of
            Running \<Rightarrow> disciplined True (outstanding s = 0) (todo r)
          | Waiting \<Rightarrow> disciplined True True (todo r)
          | Destroying \<Rightarrow> disciplined False True (todo r)
          | _ \<Rightarrow> disciplined True False (todo r)))"

text \<open>A step of the pool that leaves the main thread where it is.\<close>

lemma plan_pool_step:
  assumes "plan_ok r" and "tp r = Some s" and "pool_step s s'"
    and "calls_ok (doing r) s'" and "outstanding s' \<le> outstanding s"
  shows "plan_ok (r\<lparr>tp := Some s'\<rparr>)"
proof -
  have "\<exists>n > 0. reachable n s'" using assms(1-3) unfolding plan_ok_def by (auto intro: reach_step)
  moreover have "disciplined True (outstanding s' = 0) (todo r)" if "disciplined True (outstanding s = 0) (todo r)"
    using that by (rule disciplined_mono) (use assms(5) in simp)
  ultimately show ?thesis using assms(1,2,4) unfolding plan_ok_def by (cases "doing r") auto
qed

lemma plan_reach: "plan_ok r \<Longrightarrow> tp r = Some s \<Longrightarrow> (\<exists>n > 0. reachable n s) \<and> calls_ok (doing r) s"
  by (simp add: plan_ok_def)

lemma check_parts:
  "outstanding s = 0 \<Longrightarrow> after_check s r = r\<lparr>doing := Running, tp := Some s\<rparr>"
  "outstanding s \<noteq> 0 \<Longrightarrow> after_check s r = r\<lparr>doing := Waiting, tp := Some (s\<lparr>w_asleep := w_asleep s + 1\<rparr>)\<rparr>"
  by (simp_all add: after_check_def pool_wait_check_def)

lemma plan_waits:
  assumes "plan_ok r" and "doing r = Running" and "todo r = Wait_all # p" and "tp r = Some s"
  shows "plan_ok (after_check s (r\<lparr>todo := p\<rparr>))"
proof -
  obtain n where n: "0 < n" "reachable n s" using plan_reach [OF assms(1,4)] by blast
  have c: "calls_ok Running s" using plan_reach [OF assms(1,4)] assms(2) by simp
  have alive: "dtor s = T_alive" using c by (simp add: calls_ok_def)
  have "pool_step s (snd (pool_wait_check s))" by (rule pool_step.call_wait) (simp add: alive)
  then have r: "reachable n (snd (pool_wait_check s))" by (rule reach_step [OF n(2)])
  have p: "disciplined True True p" using assms by (simp add: plan_ok_def)
  show ?thesis
  proof (cases "outstanding s = 0")
    case True
    then show ?thesis using n c p unfolding plan_ok_def check_parts(1) [OF True] by auto
  next
    case False
    then have "reachable n (s\<lparr>w_asleep := w_asleep s + 1\<rparr>)" using r by (simp add: pool_wait_check_def)
    moreover have "calls_ok Waiting (s\<lparr>w_asleep := w_asleep s + 1\<rparr>)" using c by (simp add: calls_ok_def)
    ultimately show ?thesis using n(1) p unfolding plan_ok_def check_parts(2) [OF False] by auto
  qed
qed

lemma plan_wakes:
  assumes "plan_ok r" and "doing r = Waiting" and "tp r = Some s" and "0 < w_awake s"
  shows "plan_ok (after_check (s\<lparr>w_awake := w_awake s - 1\<rparr>) r)"
proof -
  let ?s = "s\<lparr>w_awake := w_awake s - 1\<rparr>"
  obtain n where n: "0 < n" "reachable n s" using plan_reach [OF assms(1,3)] by blast
  have c: "calls_ok Waiting s" using plan_reach [OF assms(1,3)] assms(2) by simp
  then have w: "w_awake s = 1" "w_asleep s = 0" using assms(4) by (simp_all add: calls_ok_def)
  have r: "reachable n (snd (pool_wait_check ?s))" by (rule reach_step [OF n(2) pool_step.resume_wait [OF assms(4)]])
  have p: "disciplined True True (todo r)" using assms(1-3) by (simp add: plan_ok_def)
  show ?thesis
  proof (cases "outstanding ?s = 0")
    case True
    then have "reachable n ?s" using r by (simp add: pool_wait_check_def)
    moreover have "calls_ok Running ?s" using c w by (simp add: calls_ok_def)
    ultimately show ?thesis using n(1) p True unfolding plan_ok_def check_parts(1) [OF True] by auto
  next
    case False
    then have "reachable n (?s\<lparr>w_asleep := w_asleep ?s + 1\<rparr>)" using r by (simp add: pool_wait_check_def)
    moreover have "calls_ok Waiting (?s\<lparr>w_asleep := w_asleep ?s + 1\<rparr>)" using c w by (simp add: calls_ok_def)
    ultimately show ?thesis using n(1) p unfolding plan_ok_def check_parts(2) [OF False] by auto
  qed
qed

lemma plan_enters:
  assumes "plan_ok r" and "doing r = Running" and "todo r = Schedule v # p" and "tp r = Some s"
  shows "plan_ok (r\<lparr>todo := p, doing := Pushing v, tp := Some (schedule_enter v s)\<rparr>)"
proof -
  obtain n where n: "0 < n" "reachable n s" using plan_reach [OF assms(1,4)] by blast
  have c: "calls_ok Running s" using plan_reach [OF assms(1,4)] assms(2) by simp
  have "pool_step s (schedule_enter v s)" by (rule pool_step.schedule) (use c in \<open>simp add: calls_ok_def\<close>)
  then have "reachable n (schedule_enter v s)" by (rule reach_step [OF n(2)])
  moreover have "calls_ok (Pushing v) (schedule_enter v s)" using c by (simp add: calls_ok_def schedule_enter_def)
  ultimately show ?thesis using assms n(1) by (auto simp: plan_ok_def)
qed

lemma plan_pushes:
  assumes "plan_ok r" and "doing r = Pushing v" and "tp r = Some s"
  shows "plan_ok (r\<lparr>doing := Signalling, tp := Some (schedule_push v s)\<rparr>)"
proof -
  obtain n where n: "0 < n" "reachable n s" using plan_reach [OF assms(1,3)] by blast
  have c: "calls_ok (Pushing v) s" using plan_reach [OF assms(1,3)] assms(2) by simp
  have "pool_step s (schedule_push v s)"
    by (rule pool_step.internal, rule internal_step.push) (use c in \<open>simp add: calls_ok_def\<close>)
  then have "reachable n (schedule_push v s)" by (rule reach_step [OF n(2)])
  moreover have "calls_ok Signalling (schedule_push v s)" using c by (simp add: calls_ok_def schedule_push_def)
  ultimately show ?thesis using assms n(1) by (auto simp: plan_ok_def)
qed

lemma plan_signals:
  assumes "plan_ok r" and "doing r = Signalling" and "tp r = Some s"
  shows "plan_ok (r\<lparr>doing := Running, tp := Some (schedule_signal s)\<rparr>)"
proof -
  obtain n where n: "0 < n" "reachable n s" using plan_reach [OF assms(1,3)] by blast
  have c: "calls_ok Signalling s" using plan_reach [OF assms(1,3)] assms(2) by simp
  have "pool_step s (schedule_signal s)"
    by (rule pool_step.internal, rule internal_step.signal_queued) (use c in \<open>simp add: calls_ok_def\<close>)
  then have "reachable n (schedule_signal s)" by (rule reach_step [OF n(2)])
  moreover have "calls_ok Running (schedule_signal s)" using c by (simp add: calls_ok_def schedule_signal_def)
  moreover have "disciplined True False (todo r)" using assms by (simp add: plan_ok_def)
  then have "disciplined True (outstanding (schedule_signal s) = 0) (todo r)" by (rule disciplined_mono) simp
  ultimately show ?thesis using n(1) by (auto simp: plan_ok_def)
qed

lemma plan_destroys:
  assumes "plan_ok r" and "doing r = Running" and "todo r = Destroy # p" and "tp r = Some s"
  shows "plan_ok (r\<lparr>todo := p, doing := Destroying, tp := Some (s\<lparr>dtor := T_wait\<rparr>)\<rparr>)"
proof -
  obtain n where n: "0 < n" "reachable n s" using plan_reach [OF assms(1,4)] by blast
  have c: "calls_ok Running s" using plan_reach [OF assms(1,4)] assms(2) by simp
  have "pool_step s (s\<lparr>dtor := T_wait\<rparr>)" by (rule pool_step.call_dtor) (use c in \<open>simp add: calls_ok_def\<close>)
  then have "reachable n (s\<lparr>dtor := T_wait\<rparr>)" by (rule reach_step [OF n(2)])
  moreover have "calls_ok Destroying (s\<lparr>dtor := T_wait\<rparr>)" using c by (simp add: calls_ok_def)
  ultimately show ?thesis using assms n(1) by (auto simp: plan_ok_def)
qed

lemma dtor_not_alive: "dtor_step s = Some s' \<Longrightarrow> dtor s' \<noteq> T_alive"
  by (auto simp: dtor_step_def split: dtor_pc.splits dispatcher_pc.splits if_splits)

lemma dead_drained:
  assumes "reachable n s" and "dtor s = T_dead"
  shows "outstanding s = 0"
proof (cases "pool_done s")
  case True
  then show ?thesis using reach_stopping [OF assms(1)] by (simp add: stopping_inv_def)
next
  case False
  then have "dtor s \<in> {T_alive, T_wait, T_set_done}" using reach_live [OF assms(1)] by (simp add: live_inv_def)
  then show ?thesis using assms(2) by simp
qed

lemma client_step_ok:
  assumes "client_step r l r'" and "plan_ok r"
  shows "plan_ok r'"
  using assms(1)
proof cases
  case (makes n p)
  have "reachable n (pool_init n :: 'a pool)" by (rule reach_init)
  with makes assms(2) show ?thesis
    by (auto simp: plan_ok_def calls_ok_def pool_init_def split: option.splits)
next
  case (does c p)
  with assms(2) show ?thesis by (auto simp: plan_ok_def split: option.splits)
next
  case (enters v p s)
  then show ?thesis using assms(2) plan_enters [of r v p s] by simp
next
  case (pushes v s)
  then show ?thesis using assms(2) plan_pushes [of r v s] by simp
next
  case (signals s)
  then show ?thesis using assms(2) plan_signals [of r s] by simp
next
  case (waits p s)
  then show ?thesis using assms(2) plan_waits [of r p s] by simp
next
  case (wakes s)
  then show ?thesis using assms(2) plan_wakes [of r s] by simp
next
  case (destroys p s)
  then show ?thesis using assms(2) plan_destroys [of r p s] by simp
next
  case (destructs s s')
  note f = dtor_frame [OF destructs(5)]
  have "calls_ok Destroying s" using assms(2) destructs plan_reach by fastforce
  then show ?thesis
    using assms(2) destructs f step_pushes(3) [OF destructs(5)] dtor_not_alive [OF destructs(5)]
    by (auto simp: calls_ok_def intro!: plan_pool_step [where s = s] pool_step.destroy)
next
  case (gone s)
  then show ?thesis using assms(2) by (auto simp: plan_ok_def)
next
  case (dispatches s s')
  note f = dispatcher_frame [OF dispatches(4)]
  have "calls_ok (doing r) s" using assms(2) dispatches plan_reach by fastforce
  then show ?thesis
    using assms(2) dispatches f step_pushes(1) [OF dispatches(4)]
    by (auto simp: calls_ok_def intro!: plan_pool_step [where s = s] pool_step.internal internal_step.dispatch)
next
  case (works s i s')
  note f = worker_frame [OF works(5)]
  have "calls_ok (doing r) s" using assms(2) works plan_reach by fastforce
  then have "calls_ok (doing r) s'" using f step_pushes(2) [OF works(5)] by (auto simp: calls_ok_def)
  then have "plan_ok (r\<lparr>tp := Some s'\<rparr>)"
    using assms(2) works step_pushes(2) [OF works(5)]
    by (intro plan_pool_step [where s = s] pool_step.internal internal_step.work [OF works(4)]) auto
  then show ?thesis using works(2) by simp
qed

lemma woken_ok:
  assumes "woken r r'" and "plan_ok r"
  shows "plan_ok r'"
proof -
  obtain s where s: "tp r = Some s" "0 < w_asleep s"
      "r' = r\<lparr>tp := Some (s\<lparr>w_asleep := w_asleep s - 1, w_awake := w_awake s + 1\<rparr>)\<rparr>"
    using assms(1) unfolding woken_def by blast
  have c: "calls_ok (doing r) s" using plan_reach [OF assms(2) s(1)] by simp
  then have "doing r = Waiting" using s(2) by (cases "doing r = Waiting") (simp_all add: calls_ok_def)
  with c assms(2) show ?thesis
    unfolding s(3) using s(1,2) by (intro plan_pool_step [where s = s] pool_step.spurious_wait) (simp_all add: calls_ok_def)
qed

section \<open>What is owed\<close>

text \<open>What has been scheduled and has not returned yet, and what the main thread has still to schedule.\<close>

definition owed :: "'a pool option \<Rightarrow> 'a multiset" where
  "owed q = (case q of None \<Rightarrow> {#} | Some s \<Rightarrow> mset (scheduled s) - mset (ran s))"

fun pending :: "('a, 'c) client_cmd list \<Rightarrow> 'a multiset" where
  "pending [] = {#}"
| "pending (Schedule v # p) = add_mset v (pending p)"
| "pending (_ # p) = pending p"

fun returned :: "('a, 'c) client_label \<Rightarrow> 'a multiset" where
  "returned (Returned t) = {#t#}"
| "returned l = {#}"

lemma pending_append: "pending (p @ q) = pending p + pending q"
  by (induction p rule: pending.induct) simp_all

lemma pending_schedules: "pending (map Schedule vs) = mset vs"
  by (induction vs) simp_all

lemma owed_zero: "reachable n s \<Longrightarrow> outstanding s = 0 \<Longrightarrow> owed (Some s) = {#}"
  using drained_ran [of n s] by (simp add: owed_def)

lemma owed_nothing: "plan_ok r \<Longrightarrow> client_over r \<Longrightarrow> tp r = None"
  by (auto simp: plan_ok_def client_over_def split: option.splits)

lemma ran_scheduled:
  assumes "reachable n s"
  shows "mset (ran s) \<subseteq># mset (scheduled s)"
proof (cases "pool_done s")
  case True
  then show ?thesis using reach_stopping [OF assms] by (simp add: stopping_inv_def mset_eq_counts [symmetric])
next
  case False
  then have "conserved s" using reach_live [OF assms] by (simp add: live_inv_def)
  then show ?thesis by (simp add: subseteq_mset_def count_mset conserved_def)
qed

lemma client_step_owed:
  assumes "client_step r l r'" and "plan_ok r"
  shows "pending (todo r) + owed (tp r) = pending (todo r') + owed (tp r') + returned l"
  using assms(1)
proof cases
  case (makes n p)
  with assms(2) show ?thesis by (auto simp: plan_ok_def owed_def pool_init_def split: option.splits)
next
  case (enters v p s)
  then obtain n where "reachable n s" using plan_reach [OF assms(2)] by blast
  from ran_scheduled [OF this] obtain k where "mset (scheduled s) = mset (ran s) + k" by (metis subset_mset.le_iff_add)
  then show ?thesis using enters by (simp add: owed_def scheduled_same)
next
  case (waits p s)
  then show ?thesis by (cases "outstanding s = 0") (auto simp: owed_def check_parts)
next
  case (wakes s)
  then show ?thesis by (cases "outstanding s = 0") (auto simp: owed_def check_parts)
next
  case (destructs s s')
  then show ?thesis using dtor_frame [OF destructs(5)] by (simp add: owed_def)
next
  case (gone s)
  then obtain n where n: "reachable n s" using plan_reach [OF assms(2)] by blast
  show ?thesis using owed_zero [OF n dead_drained [OF n gone(5)]] gone by (simp add: owed_def)
next
  case (dispatches s s')
  then show ?thesis using dispatcher_frame [OF dispatches(4)] dispatcher_ran [OF dispatches(4)] by (simp add: owed_def)
next
  case (works s i s')
  obtain n where n: "reachable n s" using plan_reach [OF assms(2) works(3)] by blast
  have sched: "scheduled s' = scheduled s" using worker_frame [OF works(5)] by simp
  have r: "reachable n s'" by (rule reach_step [OF n pool_step.internal [OF internal_step.work [OF works(4,5)]]])
  show ?thesis
  proof (cases "in_thunk i s")
    case None
    then show ?thesis using works sched worker_ran [OF works(5)] by (simp add: owed_def work_label_def)
  next
    case (Some t)
    then have ran: "mset (ran s') = add_mset t (mset (ran s))" using worker_ran [OF works(5)] by simp
    have "add_mset t (mset (ran s)) \<subseteq># mset (scheduled s)" using ran_scheduled [OF r] sched ran by simp
    then obtain k where "mset (scheduled s) = add_mset t (mset (ran s)) + k" by (metis subset_mset.le_iff_add)
    then show ?thesis using works sched ran Some by (simp add: owed_def work_label_def)
  qed
qed (auto simp: owed_def scheduled_same)

text \<open>When the main thread does a statement of its own, nothing is owed.\<close>

lemma client_did_calm:
  assumes "client_step r (Did c) r'" and "plan_ok r"
  shows "owed (tp r) = {#} \<and> todo r = Local c # todo r' \<and> tp r' = tp r"
  using assms(1)
proof cases
  case (does p)
  then show ?thesis using assms(2) owed_zero by (auto simp: plan_ok_def owed_def split: option.splits)
qed (auto simp: work_label_def split: option.splits)

section \<open>A client ends\<close>

definition phase_rank :: "('a, 'c) client \<Rightarrow> nat" where
  "phase_rank r = (case doing r of Running \<Rightarrow> 0 | Pushing v \<Rightarrow> 2 | Signalling \<Rightarrow> 1 | Waiting \<Rightarrow> 1
     | Destroying \<Rightarrow> (case tp r of None \<Rightarrow> 0
         | Some s \<Rightarrow> if pool_done s then 1 else if dtor s = T_set_done then 2 else 3))"

definition client_rank :: "('a, 'c) client \<Rightarrow> nat \<times> nat \<times> nat" where
  "client_rank r = (4 * length (todo r) + phase_rank r,
     case tp r of None \<Rightarrow> 0 | Some s \<Rightarrow> if pool_done s then stop_measure s else drain_measure s,
     case tp r of None \<Rightarrow> 0 | Some s \<Rightarrow> w_awake s)"

definition client_order :: "(('a, 'c) client \<times> ('a, 'c) client) set" where
  "client_order = inv_image (less_than <*lex*> (less_than <*lex*> less_than)) client_rank"

lemma wf_client_order: "wf client_order"
  by (simp add: client_order_def wf_lex_prod)

lemma client_order_iff:
  "(r', r) \<in> client_order \<longleftrightarrow> (let (a', b', c') = client_rank r'; (a, b, c) = client_rank r
     in a' < a \<or> a' = a \<and> (b' < b \<or> b' = b \<and> c' < c))"
  by (auto simp: client_order_def split: prod.splits)

lemma internal_lowers:
  assumes "reachable n s" and "internal_step s s'" and "tp r = Some s"
  shows "(r\<lparr>tp := Some s'\<rparr>, r) \<in> client_order"
proof -
  note f = internal_frame [OF assms(2)]
  have m: "(if pool_done s' then stop_measure s' else drain_measure s') < (if pool_done s then stop_measure s else drain_measure s)"
    using internal_decreases [OF assms(2) reach_live [OF assms(1)]]
      stopping_internal_decreases [OF reach_stopping [OF assms(1)] _ assms(2)] f by (cases "pool_done s") simp_all
  have "phase_rank (r\<lparr>tp := Some s'\<rparr>) = phase_rank r"
    using f assms(3) by (simp add: phase_rank_def split: client_phase.split)
  with m assms(3) show ?thesis by (simp add: client_order_iff client_rank_def)
qed

lemma dtor_lowers:
  assumes "reachable n s" and "dtor_step s = Some s'" and "tp r = Some s" and "doing r = Destroying"
  shows "(r\<lparr>tp := Some s'\<rparr>, r) \<in> client_order"
proof (cases "pool_done s")
  case True
  have "stop_measure s' < stop_measure s" by (rule stopping_dtor_decreases [OF reach_stopping [OF assms(1) True] assms(2)])
  then show ?thesis using True dtor_frame [OF assms(2)] assms(3,4) by (simp add: client_order_iff client_rank_def phase_rank_def)
next
  case False
  have "dtor s \<in> {T_alive, T_wait, T_set_done}" using reach_live [OF assms(1) False] by (simp add: live_inv_def)
  then consider "dtor s = T_wait" "s' = s\<lparr>dtor := T_set_done\<rparr>" | "dtor s = T_set_done" "pool_done s'"
    using assms(2) dtor_frame [OF assms(2)] by (auto simp: dtor_step_def split: if_splits)
  then show ?thesis using False assms(3,4) by cases (simp_all add: client_order_iff client_rank_def phase_rank_def)
qed

lemma client_step_lowers:
  assumes "client_step r l r'" and "plan_ok r"
  shows "(r', r) \<in> client_order"
  using assms(1)
proof cases
  case (waits p s)
  then show ?thesis by (cases "outstanding s = 0") (simp_all add: check_parts client_order_iff client_rank_def phase_rank_def)
next
  case (wakes s)
  then show ?thesis
    by (cases "outstanding s = 0") (simp_all add: check_parts client_order_iff client_rank_def phase_rank_def drain_measure_def stop_measure_def)
next
  case (destructs s s')
  then show ?thesis using plan_reach [OF assms(2)] dtor_lowers by blast
next
  case (dispatches s s')
  then obtain n where "reachable n s" using plan_reach [OF assms(2)] by blast
  then show ?thesis using dispatches internal_lowers internal_step.dispatch by blast
next
  case (works s i s')
  then obtain n where "reachable n s" using plan_reach [OF assms(2)] by blast
  then show ?thesis using works internal_lowers internal_step.work by blast
qed (auto simp: client_order_iff client_rank_def phase_rank_def split: option.splits)

section \<open>A client is never stuck\<close>

lemma thread_moves:
  assumes "internal_step s s'" and "tp r = Some s" and "pushing s = []" and "signalling s = 0"
  shows "\<exists>l r'. client_step r l r'"
  using assms(1)
proof cases
  case dispatch
  then show ?thesis using assms(2) client_step.dispatches by blast
next
  case (work i)
  then show ?thesis using assms(2) client_step.works by blast
qed (use assms(3,4) in simp_all)

lemma outstanding_moves:
  assumes "reachable n s" and "0 < n" and "0 < outstanding s" and "tp r = Some s" and "pushing s = []" and "signalling s = 0"
  shows "\<exists>l r'. client_step r l r'"
proof -
  have nd: "\<not> pool_done s" using reach_stopping [OF assms(1)] assms(3) by (auto simp: stopping_inv_def)
  have "wts s \<noteq> []" using reachable_inv [OF assms(1)] assms(2) by auto
  then obtain s' where "internal_step s s'" using no_deadlock [OF reach_live [OF assms(1) nd] _ assms(3)] by blast
  then show ?thesis using thread_moves assms(4-6) by blast
qed

lemma running_moves:
  assumes "plan_ok r" and "doing r = Running" and "todo r = c # p"
  shows "\<exists>l r'. client_step r l r'"
proof (cases "tp r")
  case None
  with assms show ?thesis
    using client_step.makes [OF assms(2)] client_step.does [OF assms(2)] by (cases c) (simp_all add: plan_ok_def, blast+)
next
  case (Some s)
  with assms show ?thesis
    using client_step.does [OF assms(2)] client_step.enters [OF assms(2) _ Some]
      client_step.waits [OF assms(2) _ Some] client_step.destroys [OF assms(2) _ Some]
    by (cases c) (simp_all add: plan_ok_def, blast+)
qed

lemma waiting_moves:
  assumes "plan_ok r" and "doing r = Waiting" and "tp r = Some s"
  shows "\<exists>l r'. client_step r l r'"
proof -
  obtain n where n: "0 < n" "reachable n s" using plan_reach [OF assms(1,3)] by blast
  have p: "pushing s = []" "signalling s = 0" "w_asleep s + w_awake s = 1"
    using plan_reach [OF assms(1,3)] assms(2) by (simp_all add: calls_ok_def)
  show ?thesis
  proof (cases "outstanding s = 0")
    case True
    then have "w_asleep s = 0" using drained_ran [OF n(2)] by simp
    with p have "0 < w_awake s" by simp
    then show ?thesis using client_step.wakes [OF assms(2,3)] by blast
  next
    case False
    then show ?thesis using outstanding_moves [OF n(2,1) _ assms(3) p(1,2)] by simp
  qed
qed

lemma destroying_moves:
  assumes "plan_ok r" and "doing r = Destroying" and "tp r = Some s"
  shows "\<exists>l r'. client_step r l r'"
proof -
  obtain n where n: "0 < n" "reachable n s" using plan_reach [OF assms(1,3)] by blast
  have p: "pushing s = []" "signalling s = 0" "dtor s \<noteq> T_alive"
    using plan_reach [OF assms(1,3)] assms(2) by (simp_all add: calls_ok_def)
  have moves: "\<exists>l r'. client_step r l r'" if "dtor_step s = Some s'" for s'
    using that assms(2,3) client_step.destructs by blast
  consider "dtor s = T_dead" | "dtor s \<noteq> T_dead" "pool_done s" | "\<not> pool_done s" by blast
  then show ?thesis
  proof cases
    case 1
    then show ?thesis using assms(2,3) client_step.gone by blast
  next
    case 2
    then obtain s' where "stop_step s s'" using stopping_progress reach_stopping [OF n(2)] by blast
    then show ?thesis unfolding stop_step_def using moves thread_moves [OF _ assms(3) p(1,2)] by blast
  next
    case 3
    then have "dtor s \<in> {T_wait, T_set_done}" using reach_live [OF n(2)] p(3) by (auto simp: live_inv_def)
    then show ?thesis
      using outstanding_moves [OF n(2,1) _ assms(3) p(1,2)] moves by (cases "outstanding s = 0") (auto simp: dtor_step_def)
  qed
qed

lemma client_progress:
  assumes "plan_ok r" and "\<not> client_over r"
  shows "\<exists>l r'. client_step r l r'"
proof (cases "tp r")
  case None
  then have n: "doing r = Running" using assms(1) by (simp add: plan_ok_def)
  then obtain c p where "todo r = c # p" using assms(2) by (cases "todo r") (auto simp: client_over_def)
  then show ?thesis using running_moves [OF assms(1) n] by blast
next
  case (Some s)
  show ?thesis
  proof (cases "doing r")
    case Running
    then obtain k p where "todo r = k # p" using assms(2) by (cases "todo r") (auto simp: client_over_def)
    then show ?thesis using running_moves [OF assms(1) Running] by blast
  next
    case (Pushing v)
    then show ?thesis using client_step.pushes [OF _ Some] by blast
  next
    case Signalling
    then show ?thesis using client_step.signals [OF _ Some] by blast
  next
    case Waiting
    then show ?thesis using waiting_moves [OF assms(1) _ Some] by simp
  next
    case Destroying
    then show ?thesis using destroying_moves [OF assms(1) _ Some] by simp
  qed
qed

end
