(* ===== verification/Tp_Test.thy ===== *)
theory Tp_Test
  imports Pool_Client
begin

text \<open>
  The driver \<open>tptest.cc\<close> as a client of the thread pool. A thunk is what it adds to the atomic counter. The
  main thread runs its statements in order, \<open>schedule\<close> in its three critical sections, and any thread of
  the pool may move between two of them. What a test reads off its counter is compared with a
  run in which every thunk is called at once, on the spot. A program of clients that reads its counter only
  after \<open>wait\<close> or a destructor cannot tell the two apart.
\<close>

section \<open>Programs over a pool\<close>

datatype test_stmt =
    Zero              \<comment> \<open>a new counter\<close>
  | Observe           \<comment> \<open>read the counter\<close>

type_synonym test_cmd = "(int, test_stmt) client_cmd"

record test_run =
  tester :: "(int, test_stmt) client"
  counted :: int
  seen :: "int list"

definition test_start :: "test_cmd list \<Rightarrow> test_run" where
  "test_start prog = \<lparr>tester = client_start prog, counted = 0, seen = []\<rparr>"

text \<open>What a step does to the counter and to what has been read.\<close>

fun take_effect :: "(int, test_stmt) client_label \<Rightarrow> test_run \<Rightarrow> test_run" where
  "take_effect Silent r = r"
| "take_effect (Did Zero) r = r\<lparr>counted := 0\<rparr>"
| "take_effect (Did Observe) r = r\<lparr>seen := seen r @ [counted r]\<rparr>"
| "take_effect (Returned v) r = r\<lparr>counted := counted r + v\<rparr>"

inductive test_step :: "test_run \<Rightarrow> test_run \<Rightarrow> bool" where
  moves: "client_step (tester r) l c \<Longrightarrow> test_step r (take_effect l (r\<lparr>tester := c\<rparr>))"

inductive test_reach :: "test_cmd list \<Rightarrow> test_run \<Rightarrow> bool" for prog where
  start: "test_reach prog (test_start prog)"
| step: "test_reach prog r \<Longrightarrow> test_step r r' \<Longrightarrow> test_reach prog r'"
| wakes_up: "test_reach prog r \<Longrightarrow> woken (tester r) c \<Longrightarrow> test_reach prog (r\<lparr>tester := c\<rparr>)"

definition test_over :: "test_run \<Rightarrow> bool" where
  "test_over r \<longleftrightarrow> client_over (tester r)"

section \<open>The tests\<close>

definition testCountAndReuse :: "test_cmd list" where
  "testCountAndReuse = [Make 8, Local Zero] @ replicate 1000 (Schedule 1) @ [Wait_all, Local Observe]
     @ replicate 1000 (Schedule 1) @ [Wait_all, Local Observe, Destroy]"

definition testCapturedSum :: "test_cmd list" where
  "testCapturedSum = [Make 4, Local Zero] @ map Schedule [1..100] @ [Wait_all, Local Observe, Destroy]"

definition testParallelism :: "test_cmd list" where
  "testParallelism = [Make 8, Local Zero] @ replicate 16 (Schedule 1) @ [Wait_all, Local Observe, Destroy]"

definition testLifecycle :: "test_cmd list" where
  "testLifecycle = [Local Zero] @ concat (replicate 50 ([Make 4] @ replicate 20 (Schedule 1) @ [Destroy])) @ [Local Observe]"

definition tptest :: "test_cmd list" where
  "tptest = testCountAndReuse @ testCapturedSum @ testParallelism @ testLifecycle"

text \<open>The exit status, from what the tests read and the milliseconds the third one took.\<close>

definition tptest_status :: "int \<Rightarrow> int list \<Rightarrow> int option" where
  "tptest_status elapsed obs = (case obs of
       [once, twice, total_sum, finished, drained] \<Rightarrow>
         let a = (once = 1000 \<and> twice = 2 * 1000);
             b = (total_sum = 100 * (100 + 1) div 2);
             c = (finished = 16 \<and> elapsed < 16 * 100 * 6 div 10);
             d = (drained = 50 * 20)
         in Some (if a \<and> b \<and> c \<and> d then 0 else 1)
     | _ \<Rightarrow> None)"

section \<open>The sequential meaning\<close>

fun expected :: "test_cmd list \<Rightarrow> int \<Rightarrow> int list" where
  "expected [] c = []"
| "expected (Make n # p) c = expected p c"
| "expected (Schedule v # p) c = expected p (c + v)"
| "expected (Wait_all # p) c = expected p c"
| "expected (Destroy # p) c = expected p c"
| "expected (Local Zero # p) c = expected p 0"
| "expected (Local Observe # p) c = c # expected p c"

lemma expected_schedules: "expected (map Schedule vs @ p) c = expected p (c + sum_list vs)"
  by (induction vs arbitrary: c) (simp_all add: add.assoc)

lemma schedules_replicate: "replicate n (Schedule v) = map Schedule (replicate n v)"
  by simp

lemma expected_lives:
  "expected (concat (replicate n ([Make k] @ map Schedule vs @ [Destroy])) @ p) c = expected p (c + int n * sum_list vs)"
  by (induction n arbitrary: c) (simp_all add: expected_schedules algebra_simps)

lemmas tests_defs = tptest_def testCountAndReuse_def testCapturedSum_def testParallelism_def testLifecycle_def

lemma hundred: "sum_list [1..100 :: int] = 5050"
  by code_simp

lemma tptest_expected: "expected tptest 0 = [1000, 2000, 5050, 16, 1000]"
  unfolding tests_defs schedules_replicate
  by (simp add: expected_schedules expected_lives [where n = 50, simplified] sum_list_replicate hundred del: upto.simps map_replicate)

lemma tptest_disciplined: "disciplined False True tptest"
  unfolding tests_defs schedules_replicate
  by (simp add: disciplined_schedules disciplined_lives [where n = 50, simplified] del: upto.simps map_replicate)

text \<open>What the thunks that are still owed will add does not depend on when they run.\<close>

definition test_ok :: "test_cmd list \<Rightarrow> test_run \<Rightarrow> bool" where
  "test_ok prog r \<longleftrightarrow> plan_ok (tester r) \<and>
     seen r @ expected (todo (tester r)) (counted r + sum_mset (owed (tp (tester r)))) = expected prog 0"

lemma take_effect_tester [simp]: "tester (take_effect l r) = tester r"
  by (cases "(l, r)" rule: take_effect.cases) simp_all

text \<open>A step other than a statement of the main thread.\<close>

lemma expected_pending:
  assumes "client_step c l c'" and "plan_ok c" and "\<And>x. l \<noteq> Did x"
  shows "expected (todo c) (k + sum_mset (owed (tp c))) = expected (todo c') (k + sum_mset (owed (tp c')) + sum_mset (returned l))"
  using assms(1)
proof cases
  case (does x p)
  then show ?thesis using assms(3) [of x] by simp
next
  case (waits p s)
  then show ?thesis using client_step_owed [OF assms(1,2)] by (cases "outstanding s = 0") (auto simp: check_parts)
next
  case (wakes s)
  then show ?thesis using client_step_owed [OF assms(1,2)] by (cases "outstanding s = 0") (auto simp: check_parts)
next
  case (enters v p s)
  have "add_mset v (pending p) + owed (tp c) = pending p + owed (tp c')"
    using client_step_owed [OF assms(1,2)] enters by simp
  then have "owed (tp c') = add_mset v (owed (tp c))" by simp
  then show ?thesis using enters by (simp add: add.commute add.left_commute)
qed (use client_step_owed [OF assms(1,2)] in \<open>simp_all add: add.assoc\<close>)

lemma test_step_ok:
  assumes "test_step r r'" and "test_ok prog r"
  shows "test_ok prog r'"
proof -
  obtain l c where c: "client_step (tester r) l c" and r': "r' = take_effect l (r\<lparr>tester := c\<rparr>)"
    using assms(1) by (auto elim: test_step.cases)
  have p: "plan_ok (tester r)" using assms(2) by (simp add: test_ok_def)
  have p': "plan_ok c" by (rule client_step_ok [OF c p])
  show ?thesis
  proof (cases l)
    case (Did x)
    note d = client_did_calm [OF c [unfolded Did] p]
    show ?thesis using assms(2) p' d unfolding r' Did test_ok_def by (cases x) simp_all
  next
    case Silent
    then show ?thesis using assms(2) p' expected_pending [OF c p] unfolding r' test_ok_def by simp
  next
    case (Returned v)
    then show ?thesis using assms(2) p' expected_pending [OF c p] unfolding r' test_ok_def by (simp add: algebra_simps)
  qed
qed

lemma woken_owed: "woken c c' \<Longrightarrow> todo c' = todo c \<and> owed (tp c') = owed (tp c)"
  by (auto simp: woken_def owed_def)

lemma reach_test_ok: "test_reach prog r \<Longrightarrow> disciplined False True prog \<Longrightarrow> test_ok prog r"
proof (induction rule: test_reach.induct)
  case start
  then show ?case by (simp add: test_ok_def plan_ok_def test_start_def client_start_def owed_def)
next
  case (step r r')
  then show ?case using test_step_ok by blast
next
  case (wakes_up r c)
  then show ?case using woken_ok [OF wakes_up(2)] woken_owed [OF wakes_up(2)] by (simp add: test_ok_def)
qed

text \<open>A test is as far from its end as its main thread and its pool.\<close>

definition test_order :: "(test_run \<times> test_run) set" where
  "test_order = inv_image client_order tester"

text \<open>
  C39: the thread pool's own tests pass, on every interleaving. Whatever the dispatcher, the workers and the
  main thread of \<open>tptest\<close> have done, with spurious wake-ups of \<open>wait\<close> or not, the run is not stuck before it is
  over, each further step lowers a well-founded rank, and once it is over the counters read
  are those of a run that calls every thunk on the spot, so that the exit status is 0 exactly if the third test
  measured less than 960 ms. The same holds of every program that makes and destroys its pools in turn and
  reads its counter only after \<open>wait\<close> or a destructor.
\<close>

theorem tests_deterministic:
  assumes "test_reach prog r" and "disciplined False True prog"
  shows "(\<forall>r'. test_step r r' \<longrightarrow> (r', r) \<in> test_order) \<and> wf test_order \<and>
    (\<not> test_over r \<longrightarrow> (\<exists>r'. test_step r r')) \<and>
    (test_over r \<longrightarrow> tp (tester r) = None \<and> seen r = expected prog 0 \<and>
      (prog = tptest \<longrightarrow> tptest_status elapsed (seen r) = Some (if elapsed < 960 then 0 else 1)))"
proof -
  have ok: "plan_ok (tester r)"
      "seen r @ expected (todo (tester r)) (counted r + sum_mset (owed (tp (tester r)))) = expected prog 0"
    using reach_test_ok [OF assms] by (simp_all add: test_ok_def)
  have "tp (tester r) = None \<and> seen r = expected prog 0" if "test_over r"
    using ok owed_nothing [OF ok(1)] that by (simp add: test_over_def client_over_def owed_def)
  moreover have "(r', r) \<in> test_order" if "test_step r r'" for r'
    using that client_step_lowers [OF _ ok(1)] by (auto simp: test_order_def elim: test_step.cases)
  moreover have "\<exists>r'. test_step r r'" if "\<not> test_over r"
    using client_progress [OF ok(1)] that test_step.moves by (fastforce simp: test_over_def)
  moreover have "wf test_order" using wf_client_order by (auto simp: test_order_def)
  ultimately show ?thesis using tptest_expected by (auto simp: tptest_status_def)
qed

text \<open>The driver itself, just after its first pool is made.\<close>

definition tptest_made :: test_run where
  "tptest_made = (test_start tptest)\<lparr>tester := (client_start tptest)\<lparr>todo := tl tptest, tp := Some (pool_init 8)\<rparr>\<rparr>"

lemma tptest_made_reach: "test_reach tptest tptest_made"
proof -
  have "client_step (client_start tptest) Silent ((client_start tptest)\<lparr>todo := tl tptest, tp := Some (pool_init 8)\<rparr>)"
    by (rule client_step.makes) (simp_all add: client_start_def tests_defs)
  then have "test_step (test_start tptest) tptest_made"
    using test_step.moves [of "test_start tptest"] by (fastforce simp: tptest_made_def test_start_def)
  then show ?thesis by (rule test_reach.step [OF test_reach.start])
qed

theorem tests_deterministic_witness:
  "\<exists>r r'. r = tptest_made \<and> test_step r r' \<and> (r', r) \<in> test_order"
proof -
  note t = tests_deterministic [OF tptest_made_reach tptest_disciplined]
  have "\<not> test_over tptest_made" by (simp add: test_over_def client_over_def tptest_made_def tests_defs)
  then show ?thesis using t by blast
qed

end
