(* ===== verification/Run_Filter.thy ===== *)
theory Run_Filter
  imports Tokens
begin

text \<open>
  \<open>runFilter\<close> of \<open>mr.cc\<close>: the writer thread that feeds a filter's standard input, the thread that drains its
  standard output, the filter itself and the two bounded pipes between them, all interleaved. A filter is
  any automaton that reads and writes one character at a time; \<open>mapper.cc\<close> is one of them.
\<close>

section \<open>Filters\<close>

text \<open>\<open>Wants f\<close> is a read: the next character, or \<^term>\<open>None\<close> at end of file.\<close>

datatype 'c action = Wants "char option \<Rightarrow> 'c" | Emits char 'c | Exits_now

text \<open>\<open>filters b c inp n out\<close>: from \<open>c\<close> on, the filter reads all of \<open>inp\<close>, writes \<open>out\<close> and exits, in \<open>n\<close> moves.\<close>

inductive filters :: "('c \<Rightarrow> 'c action) \<Rightarrow> 'c \<Rightarrow> string \<Rightarrow> nat \<Rightarrow> string \<Rightarrow> bool" for b where
  exits: "b c = Exits_now \<Longrightarrow> filters b c [] 1 []"
| emits: "b c = Emits x c' \<Longrightarrow> filters b c' inp n out \<Longrightarrow> filters b c inp (Suc n) (x # out)"
| reads: "b c = Wants f \<Longrightarrow> filters b (f (Some x)) inp n out \<Longrightarrow> filters b c (x # inp) (Suc n) out"
| sees_eof: "b c = Wants f \<Longrightarrow> filters b (f None) [] n out \<Longrightarrow> filters b c [] (Suc n) out"

inductive_cases filters_exits: "filters b c inp n out"

lemma filters_Exits: "b c = Exits_now \<Longrightarrow> filters b c inp n out \<Longrightarrow> inp = [] \<and> out = [] \<and> n = 1"
  by (erule filters_exits) simp_all

lemma filters_Emits:
  "b c = Emits x c' \<Longrightarrow> filters b c inp n out \<Longrightarrow> \<exists>n' out'. n = Suc n' \<and> out = x # out' \<and> filters b c' inp n' out'"
  by (erule filters_exits) auto

lemma filters_reads: "b c = Wants f \<Longrightarrow> filters b c (x # inp) n out \<Longrightarrow> \<exists>n'. n = Suc n' \<and> filters b (f (Some x)) inp n' out"
  by (erule filters_exits) auto

lemma filters_sees_eof: "b c = Wants f \<Longrightarrow> filters b c [] n out \<Longrightarrow> \<exists>n'. n = Suc n' \<and> filters b (f None) [] n' out"
  by (erule filters_exits) auto

section \<open>The call\<close>

datatype writer_pc = Writing | Closing | Ended

datatype reader_pc = Draining | Closing_ingest | Joining | Reaping | Returned

record 'c run_state =
  sent :: nat
  writer :: writer_pc
  supply_pipe :: string
  filter_proc :: "'c option"
  ingest_pipe :: string
  collected :: string
  reader :: reader_pc
  killed :: bool

definition run_start :: "'c \<Rightarrow> 'c run_state" where
  "run_start c = \<lparr>sent = 0, writer = Writing, supply_pipe = [], filter_proc = Some c, ingest_pipe = [], collected = [],
     reader = Draining, killed = False\<rparr>"

text \<open>
  The moves, with pipes of \<open>cap\<close> bytes. A \<open>write\<close> takes as many bytes as fit, a \<open>read\<close> at most 8192. A write
  to a pipe whose reader has gone raises \<open>SIGPIPE\<close>, which nothing in \<open>mr.cc\<close> ignores. The supply pipe is at
  end of file when the writer has closed it, the ingest pipe when the filter has exited.
\<close>

inductive run_step :: "nat \<Rightarrow> string \<Rightarrow> ('c \<Rightarrow> 'c action) \<Rightarrow> 'c run_state \<Rightarrow> 'c run_state \<Rightarrow> bool" for cap input b where
  write_some: "\<not> killed s \<Longrightarrow> writer s = Writing \<Longrightarrow> filter_proc s \<noteq> None \<Longrightarrow> 0 < k \<Longrightarrow> k \<le> length input - sent s \<Longrightarrow>
    k \<le> cap - length (supply_pipe s) \<Longrightarrow>
    run_step cap input b s (s\<lparr>sent := sent s + k, supply_pipe := supply_pipe s @ take k (drop (sent s) input)\<rparr>)"
| sigpipe: "\<not> killed s \<Longrightarrow> writer s = Writing \<Longrightarrow> filter_proc s = None \<Longrightarrow> sent s < length input \<Longrightarrow>
    run_step cap input b s (s\<lparr>killed := True\<rparr>)"
| write_done: "\<not> killed s \<Longrightarrow> writer s = Writing \<Longrightarrow> \<not> sent s < length input \<Longrightarrow>
    run_step cap input b s (s\<lparr>writer := Closing\<rparr>)"
| close_supply: "\<not> killed s \<Longrightarrow> writer s = Closing \<Longrightarrow> run_step cap input b s (s\<lparr>writer := Ended\<rparr>)"
| filter_reads: "\<not> killed s \<Longrightarrow> filter_proc s = Some c \<Longrightarrow> b c = Wants f \<Longrightarrow> supply_pipe s = x # rest \<Longrightarrow>
    run_step cap input b s (s\<lparr>supply_pipe := rest, filter_proc := Some (f (Some x))\<rparr>)"
| filter_eof: "\<not> killed s \<Longrightarrow> filter_proc s = Some c \<Longrightarrow> b c = Wants f \<Longrightarrow> supply_pipe s = [] \<Longrightarrow> writer s = Ended \<Longrightarrow>
    run_step cap input b s (s\<lparr>filter_proc := Some (f None)\<rparr>)"
| filter_emits: "\<not> killed s \<Longrightarrow> filter_proc s = Some c \<Longrightarrow> b c = Emits x c' \<Longrightarrow> length (ingest_pipe s) < cap \<Longrightarrow>
    run_step cap input b s (s\<lparr>ingest_pipe := ingest_pipe s @ [x], filter_proc := Some c'\<rparr>)"
| filter_exits: "\<not> killed s \<Longrightarrow> filter_proc s = Some c \<Longrightarrow> b c = Exits_now \<Longrightarrow>
    run_step cap input b s (s\<lparr>filter_proc := None\<rparr>)"
| read_some: "\<not> killed s \<Longrightarrow> reader s = Draining \<Longrightarrow> 0 < k \<Longrightarrow> k \<le> 8192 \<Longrightarrow> k \<le> length (ingest_pipe s) \<Longrightarrow>
    run_step cap input b s (s\<lparr>collected := collected s @ take k (ingest_pipe s), ingest_pipe := drop k (ingest_pipe s)\<rparr>)"
| read_eof: "\<not> killed s \<Longrightarrow> reader s = Draining \<Longrightarrow> ingest_pipe s = [] \<Longrightarrow> filter_proc s = None \<Longrightarrow>
    run_step cap input b s (s\<lparr>reader := Closing_ingest\<rparr>)"
| close_ingest: "\<not> killed s \<Longrightarrow> reader s = Closing_ingest \<Longrightarrow> run_step cap input b s (s\<lparr>reader := Joining\<rparr>)"
| join_writer: "\<not> killed s \<Longrightarrow> reader s = Joining \<Longrightarrow> writer s = Ended \<Longrightarrow> run_step cap input b s (s\<lparr>reader := Reaping\<rparr>)"
| reap: "\<not> killed s \<Longrightarrow> reader s = Reaping \<Longrightarrow> filter_proc s = None \<Longrightarrow> run_step cap input b s (s\<lparr>reader := Returned\<rparr>)"

section \<open>Invariant\<close>

text \<open>What is still to come: the filter will finish from here, and all output adds up to the result.\<close>

definition run_inv :: "string \<Rightarrow> ('c \<Rightarrow> 'c action) \<Rightarrow> string \<Rightarrow> nat \<Rightarrow> string \<Rightarrow> 'c run_state \<Rightarrow> bool" where
  "run_inv input b result n rest s \<longleftrightarrow> \<not> killed s \<and> sent s \<le> length input \<and>
     (case filter_proc s of
        Some c \<Rightarrow> filters b c (supply_pipe s @ drop (sent s) input) n rest \<and> reader s = Draining
      | None \<Rightarrow> n = 0 \<and> rest = [] \<and> supply_pipe s @ drop (sent s) input = []) \<and>
     collected s @ ingest_pipe s @ rest = result \<and>
     (writer s \<noteq> Writing \<longrightarrow> sent s = length input) \<and>
     (reader s \<noteq> Draining \<longrightarrow> ingest_pipe s = []) \<and>
     (reader s \<in> {Reaping, Returned} \<longrightarrow> writer s = Ended)"

primrec writer_rank :: "writer_pc \<Rightarrow> nat" where
  "writer_rank Writing = 2"
| "writer_rank Closing = 1"
| "writer_rank Ended = 0"

primrec reader_rank :: "reader_pc \<Rightarrow> nat" where
  "reader_rank Draining = 4"
| "reader_rank Closing_ingest = 3"
| "reader_rank Joining = 2"
| "reader_rank Reaping = 1"
| "reader_rank Returned = 0"

definition work_left :: "string \<Rightarrow> nat \<Rightarrow> string \<Rightarrow> 'c run_state \<Rightarrow> nat" where
  "work_left input n rest s = (length input - sent s) + writer_rank (writer s) + n + length (ingest_pipe s) + length rest +
     reader_rank (reader s)"

lemma run_step_inv:
  assumes "run_step cap input b s s'" and "run_inv input b result n rest s"
  shows "\<exists>n' rest'. run_inv input b result n' rest' s' \<and> work_left input n' rest' s' < work_left input n rest s"
  using assms
proof (induction rule: run_step.induct)
  case (write_some s k)
  then have "take k (drop (sent s) input) @ drop (sent s + k) input = drop (sent s) input"
    by (metis add.commute append_take_drop_id drop_drop)
  with write_some show ?case
    by (intro exI [of _ n] exI [of _ rest]) (auto simp: run_inv_def work_left_def split: option.splits)
next
  case (sigpipe s)
  then show ?case by (simp add: run_inv_def)
next
  case (filter_reads s c f x r)
  then obtain n' where "n = Suc n'" "filters b (f (Some x)) (r @ drop (sent s) input) n' rest"
    using filters_reads [of b c f x "r @ drop (sent s) input" n rest] by (auto simp: run_inv_def)
  with filter_reads show ?case
    by (intro exI [of _ n'] exI [of _ rest]) (auto simp: run_inv_def work_left_def)
next
  case (filter_eof s c f)
  then obtain n' where "n = Suc n'" "filters b (f None) [] n' rest"
    using filters_sees_eof [of b c f n rest] by (auto simp: run_inv_def)
  with filter_eof show ?case
    by (intro exI [of _ n'] exI [of _ rest]) (auto simp: run_inv_def work_left_def)
next
  case (filter_emits s c x c')
  then obtain n' rest' where "n = Suc n'" "rest = x # rest'" "filters b c' (supply_pipe s @ drop (sent s) input) n' rest'"
    using filters_Emits [of b c x c' "supply_pipe s @ drop (sent s) input" n rest] by (auto simp: run_inv_def)
  with filter_emits show ?case
    by (intro exI [of _ n'] exI [of _ rest']) (auto simp: run_inv_def work_left_def)
next
  case (read_some s k)
  have "take k (ingest_pipe s) @ drop k (ingest_pipe s) @ rest = ingest_pipe s @ rest" by (simp flip: append_assoc)
  with read_some show ?case
    by (intro exI [of _ n] exI [of _ rest], cases "filter_proc s") (auto simp: run_inv_def work_left_def)
next
  case (filter_exits s c)
  then have "n = 1" "rest = []" "supply_pipe s @ drop (sent s) input = []"
    using filters_Exits [of b c "supply_pipe s @ drop (sent s) input" n rest] by (auto simp: run_inv_def)
  with filter_exits show ?case
    by (intro exI [of _ 0] exI [of _ "[]"]) (auto simp: run_inv_def work_left_def)
qed (intro exI [of _ n] exI [of _ rest], auto simp: run_inv_def work_left_def split: option.splits)+

text \<open>Until the call returns some thread, or the filter, can move.\<close>

lemma run_progress_ended:
  assumes "run_inv input b result n rest s" and "reader s \<noteq> Returned" and None: "filter_proc s = None"
  shows "\<exists>s'. run_step cap input b s s'"
proof -
  have nk: "\<not> killed s" and sent: "sent s = length input"
    using assms(1) None by (auto simp: run_inv_def)
  show ?thesis
  proof (cases "writer s")
    case Writing
    then show ?thesis using run_step.write_done [of s input] nk sent by (metis less_irrefl)
  next
    case Closing
    then show ?thesis using run_step.close_supply [OF nk] by blast
  next
    case Ended
    show ?thesis
    proof (cases "reader s")
      case Draining
      show ?thesis
      proof (cases "ingest_pipe s")
        case Nil
        then show ?thesis using run_step.read_eof [OF nk Draining _ None] by blast
      next
        case (Cons x xs)
        then show ?thesis using nk Draining by (intro exI) (rule run_step.read_some [where k = 1], simp_all)
      qed
    next
      case Closing_ingest
      then show ?thesis using run_step.close_ingest nk by blast
    next
      case Joining
      then show ?thesis using run_step.join_writer nk Ended by blast
    next
      case Reaping
      then show ?thesis using run_step.reap nk None by blast
    next
      case Returned
      then show ?thesis using assms(2) by simp
    qed
  qed
qed

lemma run_progress_filter:
  assumes "run_inv input b result n rest s" and "0 < cap" and Some: "filter_proc s = Some c"
  shows "\<exists>s'. run_step cap input b s s'"
proof -
  have nk: "\<not> killed s" and r: "reader s = Draining" and f: "filters b c (supply_pipe s @ drop (sent s) input) n rest"
    using assms(1) Some by (auto simp: run_inv_def)
  show ?thesis
  proof (cases "b c")
    case Exits_now
    show ?thesis by (rule exI, rule run_step.filter_exits [OF nk Some], rule Exits_now)
  next
    case (Emits x c')
    show ?thesis
    proof (cases "length (ingest_pipe s) < cap")
      case True
      show ?thesis by (rule exI, rule run_step.filter_emits [OF nk Some], rule Emits, rule True)
    next
      case False
      then have "1 \<le> length (ingest_pipe s)" using assms(2) by simp
      then show ?thesis using nk r by (intro exI) (rule run_step.read_some [where k = 1], simp_all)
    qed
  next
    case (Wants f)
    show ?thesis
    proof (cases "supply_pipe s")
      case (Cons x xs)
      show ?thesis by (rule exI, rule run_step.filter_reads [OF nk Some], rule Wants, rule Cons)
    next
      case Nil
      show ?thesis
      proof (cases "writer s")
        case Writing
        show ?thesis
        proof (cases "sent s < length input")
          case True
          then have "1 \<le> length input - sent s" "1 \<le> cap - length (supply_pipe s)" using Nil assms(2) by simp_all
          from run_step.write_some [OF nk Writing _ _ this] show ?thesis using Some by (metis option.distinct(1) zero_less_one)
        next
          case False
          then show ?thesis using run_step.write_done [OF nk Writing] by blast
        qed
      next
        case Closing
        then show ?thesis using run_step.close_supply [OF nk] by blast
      next
        case Ended
        show ?thesis by (rule exI, rule run_step.filter_eof [OF nk Some], rule Wants, rule Nil, rule Ended)
      qed
    qed
  qed
qed

lemma run_progress:
  assumes "run_inv input b result n rest s" and "0 < cap" and "reader s \<noteq> Returned"
  shows "\<exists>s'. run_step cap input b s s'"
proof (cases "filter_proc s")
  case None
  then show ?thesis by (rule run_progress_ended [OF assms(1,3)])
next
  case (Some c)
  then show ?thesis by (rule run_progress_filter [OF assms(1,2)])
qed

lemma run_start_inv: "filters b c input n result \<Longrightarrow> run_inv input b result n result (run_start c)"
  by (simp add: run_inv_def run_start_def)

lemma run_reaches_inv:
  assumes "(run_step cap input b ^^ k) s s'" and "run_inv input b result n rest s"
  shows "\<exists>n' rest'. run_inv input b result n' rest' s' \<and> work_left input n' rest' s' + k \<le> work_left input n rest s"
proof -
  let ?I = "\<lambda>w s. \<exists>n rest. run_inv input b result n rest s \<and> work_left input n rest s = w"
  have "\<exists>w'. ?I w' s' \<and> w' + k \<le> work_left input n rest s"
    by (rule runs_bounded [OF assms(1), where I = ?I]) (use assms(2) run_step_inv in blast)+
  then show ?thesis by blast
qed

section \<open>The mapper as a filter\<close>

text \<open>\<open>Collecting w\<close> is the loop with \<open>cur = w\<close>, \<open>Flushing out fin\<close> still has \<open>out\<close> to write.\<close>

datatype mapper_state = Collecting string | Flushing string bool

definition flushed :: "string \<Rightarrow> string" where
  "flushed cur = (if cur = [] then [] else cur @ [CHR 0x09, CHR ''1'', CHR 0x0A])"

fun mapper_action :: "mapper_state \<Rightarrow> mapper_state action" where
  "mapper_action (Collecting cur) = Wants (\<lambda>r. case r of
       None \<Rightarrow> Flushing (flushed cur) True
     | Some c \<Rightarrow> if isalnum c then Collecting (cur @ [tolower c]) else Flushing (flushed cur) False)"
| "mapper_action (Flushing (x # xs) fin) = Emits x (Flushing xs fin)"
| "mapper_action (Flushing [] True) = Exits_now"
| "mapper_action (Flushing [] False) = Wants (\<lambda>r. case r of
       None \<Rightarrow> Flushing [] True
     | Some c \<Rightarrow> if isalnum c then Collecting [tolower c] else Flushing [] False)"

definition mapper :: "string \<Rightarrow> string" where
  "mapper text = concat (map flushed (words_loop [] text))"

lemma flushing_out:
  "\<exists>n. filters mapper_action (Flushing [] fin) inp n out \<Longrightarrow> \<exists>n. filters mapper_action (Flushing pending fin) inp n (pending @ out)"
proof (induction pending)
  case (Cons x xs)
  then obtain n where "filters mapper_action (Flushing xs fin) inp n (xs @ out)" by blast
  then have "filters mapper_action (Flushing (x # xs) fin) inp (Suc n) (x # xs @ out)"
    by (intro filters.emits [where c' = "Flushing xs fin"]) simp_all
  then show ?case by auto
qed simp

lemma mapper_ends: "\<exists>n. filters mapper_action (Flushing pending True) [] n pending"
  using flushing_out [of True "[]" "[]" pending] filters.exits [of mapper_action "Flushing [] True"] by auto

lemma mapper_loop:
  "\<exists>n. filters mapper_action (Collecting cur) s n (concat (map flushed (words_loop cur s)))"
  "\<exists>n. filters mapper_action (Flushing [] False) s n (concat (map flushed (words_loop [] s)))"
proof (induction s arbitrary: cur)
  case Nil
  {
    case 1
    have "concat (map flushed (words_loop cur [])) = flushed cur" by (simp add: flushed_def)
    moreover obtain n where "filters mapper_action (Flushing (flushed cur) True) [] n (flushed cur)" using mapper_ends by blast
    ultimately have "filters mapper_action (Collecting cur) [] (Suc n) (concat (map flushed (words_loop cur [])))"
      by - (rule filters.sees_eof, rule mapper_action.simps, simp)
    then show ?case by blast
  next
    case 2
    obtain n where "filters mapper_action (Flushing [] True) [] n []" using mapper_ends by blast
    then have "filters mapper_action (Flushing [] False) [] (Suc n) []" by - (rule filters.sees_eof, rule mapper_action.simps, simp)
    then show ?case by auto
  }
next
  case (Cons c s)
  {
    case 1
    show ?case
    proof (cases "isalnum c")
      case True
      obtain n where "filters mapper_action (Collecting (cur @ [tolower c])) s n (concat (map flushed (words_loop (cur @ [tolower c]) s)))"
        using Cons.IH(1) by blast
      with True have "filters mapper_action (Collecting cur) (c # s) (Suc n) (concat (map flushed (words_loop cur (c # s))))"
        by - (rule filters.reads, rule mapper_action.simps, simp)
      then show ?thesis by blast
    next
      case False
      obtain n where "filters mapper_action (Flushing (flushed cur) False) s n (flushed cur @ concat (map flushed (words_loop [] s)))"
        using flushing_out [OF Cons.IH(2)] by blast
      moreover have "concat (map flushed (words_loop cur (c # s))) = flushed cur @ concat (map flushed (words_loop [] s))"
        using False by (simp add: flushed_def)
      ultimately have "filters mapper_action (Collecting cur) (c # s) (Suc n) (concat (map flushed (words_loop cur (c # s))))"
        using False by - (rule filters.reads, rule mapper_action.simps, simp)
      then show ?thesis by blast
    qed
  next
    case 2
    show ?case
    proof (cases "isalnum c")
      case True
      obtain n where "filters mapper_action (Collecting [tolower c]) s n (concat (map flushed (words_loop [tolower c] s)))"
        using Cons.IH(1) by blast
      with True have "filters mapper_action (Flushing [] False) (c # s) (Suc n) (concat (map flushed (words_loop [] (c # s))))"
        by - (rule filters.reads, rule mapper_action.simps, simp)
      then show ?thesis by blast
    next
      case False
      obtain n where "filters mapper_action (Flushing [] False) s n (concat (map flushed (words_loop [] s)))"
        using Cons.IH(2) by blast
      with False have "filters mapper_action (Flushing [] False) (c # s) (Suc n) (concat (map flushed (words_loop [] (c # s))))"
        by - (rule filters.reads, rule mapper_action.simps, simp)
      then show ?thesis by blast
    qed
  }
qed

lemma mapper_filters: "\<exists>n. filters mapper_action (Collecting []) s n (mapper s)"
  using mapper_loop(1) [of "[]" s] by (simp add: mapper_def)

section \<open>Property\<close>

text \<open>
  C31: \<open>runFilter\<close> returns what the filter writes. For every filter that reads its whole input, whatever
  the capacity of the pipes and however the writer thread, the filter and the draining loop interleave,
  no data is lost or reordered, \<open>SIGPIPE\<close> is not raised, some move is possible until the call returns, and
  every run ends within a number of moves fixed in advance. So large inputs do not deadlock.
\<close>

theorem run_filter_completes:
  assumes "filters b c input n result" and "0 < cap"
  shows "\<exists>bound. \<forall>k s. (run_step cap input b ^^ k) (run_start c) s \<longrightarrow>
    k \<le> bound \<and> \<not> killed s \<and> (reader s = Returned \<longrightarrow> collected s = result) \<and>
    (reader s \<noteq> Returned \<longrightarrow> (\<exists>s'. run_step cap input b s s'))"
proof (intro exI [of _ "work_left input n result (run_start c)"] allI impI)
  fix k and s :: "'a run_state"
  assume "(run_step cap input b ^^ k) (run_start c) s"
  then obtain n' rest' where inv: "run_inv input b result n' rest' s"
    "work_left input n' rest' s + k \<le> work_left input n result (run_start c)"
    using run_reaches_inv [OF _ run_start_inv [OF assms(1)]] by blast
  moreover have "collected s = result" if "reader s = Returned"
    using inv(1) that by (auto simp: run_inv_def split: option.splits)
  ultimately show "k \<le> work_left input n result (run_start c) \<and> \<not> killed s \<and> (reader s = Returned \<longrightarrow> collected s = result) \<and>
      (reader s \<noteq> Returned \<longrightarrow> (\<exists>s'. run_step cap input b s s'))"
    using run_progress [OF inv(1) assms(2)] by (auto simp: run_inv_def)
qed

lemma run_filter_completes_witness:
  "\<exists>bound. \<forall>k s. (run_step 4 ''to be or not'' mapper_action ^^ k) (run_start (Collecting [])) s \<longrightarrow>
    k \<le> bound \<and> \<not> killed s \<and> (reader s = Returned \<longrightarrow> collected s = mapper ''to be or not'') \<and>
    (reader s \<noteq> Returned \<longrightarrow> (\<exists>s'. run_step 4 ''to be or not'' mapper_action s s'))"
proof -
  obtain n where "filters mapper_action (Collecting []) ''to be or not'' n (mapper ''to be or not'')"
    using mapper_filters by blast
  then show ?thesis by (rule run_filter_completes) simp
qed

text \<open>A filter that exits with input unread: the write that follows kills the whole of \<open>mr\<close>.\<close>

lemma early_exit_kills:
  "\<exists>s. (run_step 4 ''abcdef'' (\<lambda>c. Exits_now) ^^ 2) (run_start ()) s \<and> killed s"
proof -
  let ?b = "\<lambda>c. Exits_now" and ?s = "run_start ()"
  have "run_step 4 ''abcdef'' ?b ?s (?s\<lparr>filter_proc := None\<rparr>)"
    by (rule run_step.filter_exits [where c = "()"]) (simp_all add: run_start_def)
  moreover have "run_step 4 ''abcdef'' ?b (?s\<lparr>filter_proc := None\<rparr>) (?s\<lparr>filter_proc := None\<rparr>\<lparr>killed := True\<rparr>)"
    by (rule run_step.sigpipe) (simp_all add: run_start_def)
  ultimately show ?thesis
    by (intro exI [of _ "?s\<lparr>filter_proc := None\<rparr>\<lparr>killed := True\<rparr>"]) (auto simp: numeral_2_eq_2)
qed

end
