(* ===== verification/MapReduce.thy ===== *)
theory MapReduce
  imports Run_Filter "HOL-Library.Multiset" "HOL-Library.Monad_Syntax" "HOL-Library.Char_ord" "HOL-Library.List_Lexorder"
begin

text \<open>
  The engine of \<open>mr.cc\<close> and the reducer. The mapper and reducer programs are a parameter \<open>run\<close> from the
  program's name and its standard input to its standard output (what \<open>runFilter\<close> returns, see \<open>Run_Filter\<close>),
  and \<open>std::hash\<close> is a parameter \<open>hasher\<close>. The map tasks interleave at their locked appends.
\<close>

definition tab :: char where
  "tab = CHR 0x09"

definition newline :: char where
  "newline = CHR 0x0A"

section \<open>\<open>reducer.cc\<close>\<close>

text \<open>\<open>long\<close> addition; overflow is undefined in C++, here \<^term>\<open>None\<close>.\<close>

definition add_long :: "int \<Rightarrow> int \<Rightarrow> int option" where
  "add_long x y = (if - (2 ^ 63) \<le> x + y \<and> x + y < 2 ^ 63 then Some (x + y) else None)"

definition total_line :: "string \<Rightarrow> int \<Rightarrow> string" where
  "total_line key tot = key @ tab # show_int tot @ [newline]"

definition record_key :: "string \<Rightarrow> string" where
  "record_key line = (case find_char tab line of None \<Rightarrow> line | Some t \<Rightarrow> take t line)"

fun reducer_loop :: "string list \<Rightarrow> string \<Rightarrow> int \<Rightarrow> bool \<Rightarrow> string option" where
  "reducer_loop [] currentKey tot have = Some (if have then total_line currentKey tot else [])"
| "reducer_loop (line # lines) currentKey tot have =
     (if line = [] then reducer_loop lines currentKey tot have
      else
        (let key = record_key line; done = (have \<and> key \<noteq> currentKey)
         in do {
           value \<leftarrow> (case find_char tab line of None \<Rightarrow> Some 1 | Some t \<Rightarrow> stol (drop (t + 1) line));
           tot' \<leftarrow> add_long (if done then 0 else tot) value;
           rest \<leftarrow> reducer_loop lines key tot' True;
           Some ((if done then total_line currentKey tot else []) @ rest)
         }))"

definition reducer :: "string \<Rightarrow> string option" where
  "reducer inp = reducer_loop (getlines newline inp) [] 0 False"

section \<open>\<open>mr.cc\<close>\<close>

definition mr_setup :: "(string \<rightharpoonup> string) \<Rightarrow> string \<Rightarrow> int \<Rightarrow> int \<Rightarrow> string + string list" where
  "mr_setup fs inputPath M R =
     (if M \<le> 0 \<or> R \<le> 0 then Inl ''M and R must be positive''
      else case fs inputPath of None \<Rightarrow> Inl (''cannot open '' @ inputPath) | Some contents \<Rightarrow> Inr (getlines newline contents))"

fun chunk_loop :: "nat \<Rightarrow> nat \<Rightarrow> string list \<Rightarrow> string list \<Rightarrow> string list" where
  "chunk_loop M i [] chunks = chunks"
| "chunk_loop M i (l # ls) chunks = chunk_loop M (Suc i) ls (chunks[i mod M := chunks ! (i mod M) @ l @ [newline]])"

definition chunks :: "nat \<Rightarrow> string list \<Rightarrow> string list" where
  "chunks M ls = chunk_loop M 0 ls (replicate M [])"

text \<open>The loop of a map task over the lines its mapper emitted, and the appends it then makes.\<close>

fun route :: "(string \<Rightarrow> nat) \<Rightarrow> nat \<Rightarrow> string list \<Rightarrow> string list \<Rightarrow> string list" where
  "route hasher R [] local = local"
| "route hasher R (kv # kvs) local =
     (if kv = [] then route hasher R kvs local
      else
        (let r = hasher (record_key kv) mod R in route hasher R kvs (local[r := local ! r @ kv @ [newline]])))"

definition appends :: "nat \<Rightarrow> string list \<Rightarrow> (nat \<times> string) list" where
  "appends R local = map (\<lambda>r. (r, local ! r)) (filter (\<lambda>r. local ! r \<noteq> []) [0..<R])"

definition map_task :: "(string \<Rightarrow> string) \<Rightarrow> (string \<Rightarrow> nat) \<Rightarrow> nat \<Rightarrow> string \<Rightarrow> (nat \<times> string) list" where
  "map_task prog hasher R chunk =
     (if chunk = [] then []
      else appends R (route hasher R (getlines newline (prog chunk)) (replicate R [])))"

datatype task = Waiting | Appending "(nat \<times> string) list"

record shuffle =
  partitions :: "string list"
  tasks :: "task list"

definition shuffle_start :: "nat \<Rightarrow> nat \<Rightarrow> shuffle" where
  "shuffle_start M R = \<lparr>partitions = replicate R [], tasks = replicate M Waiting\<rparr>"

inductive map_step :: "(nat \<Rightarrow> (nat \<times> string) list) \<Rightarrow> shuffle \<Rightarrow> shuffle \<Rightarrow> bool" for work where
  runs_mapper: "m < length (tasks s) \<Longrightarrow> tasks s ! m = Waiting \<Longrightarrow>
    map_step work s (s\<lparr>tasks := (tasks s)[m := Appending (work m)]\<rparr>)"
| appends_one: "m < length (tasks s) \<Longrightarrow> tasks s ! m = Appending ((r, x) # rest) \<Longrightarrow>
    map_step work s (s\<lparr>partitions := (partitions s)[r := partitions s ! r @ x], tasks := (tasks s)[m := Appending rest]\<rparr>)"

text \<open>The next step of one task; \<^term>\<open>None\<close> when it has returned.\<close>

definition map_move :: "(nat \<Rightarrow> (nat \<times> string) list) \<Rightarrow> nat \<Rightarrow> shuffle \<Rightarrow> shuffle option" where
  "map_move work m s =
     (if m < length (tasks s)
      then (case tasks s ! m of
              Waiting \<Rightarrow> Some (s\<lparr>tasks := (tasks s)[m := Appending (work m)]\<rparr>)
            | Appending [] \<Rightarrow> None
            | Appending ((r, x) # rest) \<Rightarrow>
                Some (s\<lparr>partitions := (partitions s)[r := partitions s ! r @ x], tasks := (tasks s)[m := Appending rest]\<rparr>))
      else None)"

text \<open>Every task is done.\<close>

definition mapped :: "shuffle \<Rightarrow> bool" where
  "mapped s \<longleftrightarrow> (\<forall>t \<in> set (tasks s). t = Appending [])"

definition reduce_input :: "string \<Rightarrow> string" where
  "reduce_input part =
     concat (map (\<lambda>l. l @ [newline]) (sort (filter (\<lambda>l. l \<noteq> []) (getlines newline part))))"

definition part_path :: "string \<Rightarrow> nat \<Rightarrow> string" where
  "part_path outDir r = take 511 (outDir @ ''/part-'' @ show_nat r)"

definition reduce_task :: "(string \<Rightarrow> string) \<Rightarrow> string \<Rightarrow> nat \<Rightarrow> string \<Rightarrow> string \<times> string" where
  "reduce_task prog outDir r part =
     (part_path outDir r, let inp = reduce_input part in if inp = [] then [] else prog inp)"

definition mr_work :: "(string \<Rightarrow> string \<Rightarrow> string) \<Rightarrow> (string \<Rightarrow> nat) \<Rightarrow> string \<Rightarrow> nat \<Rightarrow> nat \<Rightarrow> string list \<Rightarrow> nat \<Rightarrow> (nat \<times> string) list" where
  "mr_work run hasher mapperExe M R ls m = map_task (run mapperExe) hasher R (chunks M ls ! m)"

section \<open>Chunks and routing\<close>

lemma concat_update: "j < length xss \<Longrightarrow> mset (concat (xss[j := xss ! j @ [x]])) = add_mset x (mset (concat xss))"
proof (induction xss arbitrary: j)
  case (Cons xs xss)
  then show ?case by (cases j) auto
qed simp

lemma length_chunk_loop: "length (chunk_loop M i ls cs) = length cs"
  by (induction M i ls cs rule: chunk_loop.induct) simp_all

lemma length_route: "length (route hasher R kvs local) = length local"
  by (induction hasher R kvs local rule: route.induct) (simp_all add: Let_def)

text \<open>A line terminated by a newline is one of the lines of a text made of such lines.\<close>

definition terminated :: "string \<Rightarrow> bool" where
  "terminated s \<longleftrightarrow> (\<exists>ls. (\<forall>l \<in> set ls. newline \<notin> set l) \<and> s = concat (map (\<lambda>l. l @ [newline]) ls))"

lemma terminated_Nil [simp]: "terminated []"
  unfolding terminated_def by (rule exI [of _ "[]"]) simp

lemma terminated_line: "newline \<notin> set l \<Longrightarrow> terminated (l @ [newline])"
  unfolding terminated_def by (rule exI [of _ "[l]"]) simp

lemma terminated_append: "terminated x \<Longrightarrow> terminated y \<Longrightarrow> terminated (x @ y)"
  unfolding terminated_def by (elim exE, rename_tac ls ls', rule_tac x = "ls @ ls'" in exI) auto

lemma getlines_terminated_append: "terminated x \<Longrightarrow> getlines newline (x @ y) = getlines newline x @ getlines newline y"
  unfolding terminated_def by (elim exE conjE) (metis append_Nil2 getlines.simps(1) getlines_concat)

definition full_lines :: "string \<Rightarrow> string list" where
  "full_lines s = filter (\<lambda>l. l \<noteq> []) (getlines newline s)"

lemma full_lines_append: "terminated x \<Longrightarrow> full_lines (x @ y) = full_lines x @ full_lines y"
  by (simp add: full_lines_def getlines_terminated_append)

lemma full_lines_line: "newline \<notin> set l \<Longrightarrow> full_lines (l @ [newline]) = (if l = [] then [] else [l])"
  using getlines_append [of newline l "[]"] by (simp add: full_lines_def)

lemma full_lines_Nil [simp]: "full_lines [] = []"
  by (simp add: full_lines_def)

definition in_partition :: "(string \<Rightarrow> nat) \<Rightarrow> nat \<Rightarrow> nat \<Rightarrow> string list \<Rightarrow> string list" where
  "in_partition hasher R r kvs = filter (\<lambda>kv. kv \<noteq> [] \<and> hasher (record_key kv) mod R = r) kvs"

lemma route_lines:
  assumes "\<forall>kv \<in> set kvs. newline \<notin> set kv" and "\<forall>l \<in> set local. terminated l" and "length local = R" and "r < R"
  shows "terminated (route hasher R kvs local ! r) \<and>
    full_lines (route hasher R kvs local ! r) = full_lines (local ! r) @ in_partition hasher R r kvs"
  using assms
proof (induction hasher R kvs local rule: route.induct)
  case (2 hasher R kv kvs local)
  show ?case
  proof (cases "kv = []")
    case True
    then show ?thesis using 2 by (simp add: in_partition_def)
  next
    case False
    let ?q = "hasher (record_key kv) mod R"
    let ?local = "local[?q := local ! ?q @ kv @ [newline]]"
    have kv: "newline \<notin> set kv" using 2 by simp
    have t: "terminated (local ! ?q)" using 2 by simp
    have new: "terminated (local ! ?q @ kv @ [newline])" using terminated_append [OF t terminated_line [OF kv]] by simp
    then have "\<forall>l \<in> set ?local. terminated l" using 2 set_update_subset_insert by fastforce
    then have "terminated (route hasher R kvs ?local ! r) \<and>
        full_lines (route hasher R kvs ?local ! r) = full_lines (?local ! r) @ in_partition hasher R r kvs"
      using 2 False by simp
    moreover have "full_lines (local ! ?q @ kv @ [newline]) = full_lines (local ! ?q) @ [kv]"
      using False full_lines_append [OF t, of "kv @ [newline]"] full_lines_line [OF kv] by simp
    then have "full_lines (?local ! r) = full_lines (local ! r) @ (if ?q = r then [kv] else [])"
      using "2.prems"(3,4) by (auto simp: nth_list_update)
    ultimately show ?thesis using False by (simp add: Let_def in_partition_def)
  qed
qed (simp add: in_partition_def)

text \<open>What a map task appends to partition \<open>r\<close>, in the end.\<close>

definition sent_to :: "nat \<Rightarrow> (nat \<times> string) list \<Rightarrow> string" where
  "sent_to r ps = concat (map snd (filter (\<lambda>p. fst p = r) ps))"

lemma sent_to_appends: "length local = R \<Longrightarrow> r < R \<Longrightarrow> sent_to r (appends R local) = local ! r"
proof -
  assume a: "length local = R" "r < R"
  have "filter (\<lambda>p. fst p = r) (appends R local) = (if local ! r = [] then [] else [(r, local ! r)])"
  proof -
    have "filter (\<lambda>q. local ! q \<noteq> [] \<and> q = r) [0..<R] = (if local ! r = [] then [] else [r])"
    proof -
      have "filter (\<lambda>q. local ! q \<noteq> [] \<and> q = r) [0..<n] = (if r < n \<and> local ! r \<noteq> [] then [r] else [])" for n
        by (induction n) (auto simp: less_Suc_eq)
      then show ?thesis using a(2) by simp
    qed
    then show ?thesis by (auto simp: appends_def filter_map comp_def conj_commute)
  qed
  then show ?thesis by (simp add: sent_to_def)
qed

definition emitted :: "(string \<Rightarrow> string) \<Rightarrow> string \<Rightarrow> string list" where
  "emitted prog chunk = (if chunk = [] then [] else getlines newline (prog chunk))"

lemma map_task_sends:
  assumes "r < R"
  shows "terminated (sent_to r (map_task prog hasher R chunk))"
    and "full_lines (sent_to r (map_task prog hasher R chunk)) = in_partition hasher R r (emitted prog chunk)"
proof -
  let ?kvs = "getlines newline (prog chunk)"
  have "\<forall>kv \<in> set ?kvs. newline \<notin> set kv" using getlines_no_delim by blast
  with route_lines [of ?kvs "replicate R []" R r hasher] assms
  have "terminated (route hasher R ?kvs (replicate R []) ! r) \<and>
      full_lines (route hasher R ?kvs (replicate R []) ! r) = in_partition hasher R r ?kvs"
    by simp
  then show "terminated (sent_to r (map_task prog hasher R chunk))"
    and "full_lines (sent_to r (map_task prog hasher R chunk)) = in_partition hasher R r (emitted prog chunk)"
    using assms by (simp_all add: map_task_def emitted_def sent_to_appends length_route sent_to_def [of _ "[]"] in_partition_def)
qed

lemma map_task_targets: "(r, x) \<in> set (map_task prog hasher R chunk) \<Longrightarrow> r < R"
  by (auto simp: map_task_def appends_def split: if_splits)

section \<open>The chunks hold the lines\<close>

lemma chunk_lines:
  assumes "\<forall>l \<in> set ls. newline \<notin> set l" and "\<forall>c \<in> set cs. terminated c" and "length cs = M" and "0 < M"
  shows "(\<forall>c \<in> set (chunk_loop M i ls cs). terminated c) \<and>
    mset (concat (map (getlines newline) (chunk_loop M i ls cs))) = mset (concat (map (getlines newline) cs)) + mset ls"
  using assms
proof (induction M i ls cs rule: chunk_loop.induct)
  case (2 M i l ls cs)
  let ?j = "i mod M"
  let ?cs = "cs[?j := cs ! ?j @ l @ [newline]]"
  have j: "?j < length cs" using "2.prems" by simp
  have l: "newline \<notin> set l" using "2.prems" by simp
  have t: "terminated (cs ! ?j)" using "2.prems" j by simp
  have "terminated (cs ! ?j @ l @ [newline])" using terminated_append [OF t terminated_line [OF l]] by simp
  then have "\<forall>c \<in> set ?cs. terminated c" using "2.prems" set_update_subset_insert by fastforce
  then have ih: "(\<forall>c \<in> set (chunk_loop M (Suc i) ls ?cs). terminated c) \<and>
      mset (concat (map (getlines newline) (chunk_loop M (Suc i) ls ?cs))) = mset (concat (map (getlines newline) ?cs)) + mset ls"
    using "2.prems" by (intro "2.IH") auto
  have "getlines newline (cs ! ?j @ l @ [newline]) = getlines newline (cs ! ?j) @ [l]"
    using getlines_terminated_append [OF t] getlines_append [OF l, of "[]"] by simp
  then have "map (getlines newline) ?cs = (map (getlines newline) cs)[?j := map (getlines newline) cs ! ?j @ [l]]"
    using j by (simp add: map_update)
  then have "mset (concat (map (getlines newline) ?cs)) = add_mset l (mset (concat (map (getlines newline) cs)))"
    using j concat_update [of ?j "map (getlines newline) cs" l] by simp
  with ih show ?case by simp
qed simp

end
