(* ===== verification/MapReduce_Props.thy ===== *)
theory MapReduce_Props
  imports MapReduce
begin

text \<open>
  The map, shuffle and reduce phases on every schedule of the map tasks: what each reducer is given, and,
  with the mapper and the reducer of the repository, the word counts in the output files.
\<close>

section \<open>The shuffle\<close>

definition todo :: "(nat \<Rightarrow> (nat \<times> string) list) \<Rightarrow> shuffle \<Rightarrow> nat \<Rightarrow> (nat \<times> string) list" where
  "todo work s m = (case tasks s ! m of Waiting \<Rightarrow> work m | Appending ps \<Rightarrow> ps)"

definition good_appends :: "nat \<Rightarrow> (nat \<times> string) list \<Rightarrow> bool" where
  "good_appends R ps \<longleftrightarrow> (\<forall>(r, x) \<in> set ps. r < R \<and> terminated x)"

definition to_part :: "nat \<Rightarrow> (nat \<times> string) list \<Rightarrow> string multiset" where
  "to_part q ps = mset (full_lines (sent_to q ps))"

definition shuffle_inv :: "(nat \<Rightarrow> (nat \<times> string) list) \<Rightarrow> nat \<Rightarrow> nat \<Rightarrow> shuffle \<Rightarrow> bool" where
  "shuffle_inv work M R s \<longleftrightarrow> length (partitions s) = R \<and> length (tasks s) = M \<and>
     (\<forall>m < M. good_appends R (todo work s m)) \<and>
     (\<forall>q < R. terminated (partitions s ! q) \<and>
        mset (full_lines (partitions s ! q)) + (\<Sum>m<M. to_part q (todo work s m)) = (\<Sum>m<M. to_part q (work m)))"

definition steps_left :: "(nat \<Rightarrow> (nat \<times> string) list) \<Rightarrow> nat \<Rightarrow> shuffle \<Rightarrow> nat" where
  "steps_left work M s = (\<Sum>m<M. length (todo work s m) + (if tasks s ! m = Waiting then 1 else 0))"

lemma sum_change:
  fixes f g :: "nat \<Rightarrow> 'a::comm_monoid_add"
  assumes "m < M" and "\<And>i. i < M \<Longrightarrow> i \<noteq> m \<Longrightarrow> f i = g i"
  shows "(\<Sum>i<M. f i) + g m = (\<Sum>i<M. g i) + f m"
proof -
  have "(\<Sum>i<M. f i) = f m + (\<Sum>i\<in>{..<M} - {m}. f i)" "(\<Sum>i<M. g i) = g m + (\<Sum>i\<in>{..<M} - {m}. g i)"
    using assms(1) by (simp_all add: sum.remove)
  moreover have "(\<Sum>i\<in>{..<M} - {m}. f i) = (\<Sum>i\<in>{..<M} - {m}. g i)" using assms(2) by (intro sum.cong) auto
  ultimately show ?thesis by (simp add: algebra_simps)
qed

lemma to_part_Cons: "terminated x \<Longrightarrow> to_part q ((r, x) # ps) = (if r = q then mset (full_lines x) else {#}) + to_part q ps"
  by (simp add: to_part_def sent_to_def full_lines_append)

lemma map_step_inv:
  assumes "map_step work s s'" and "shuffle_inv work M R s"
  shows "shuffle_inv work M R s' \<and> steps_left work M s' < steps_left work M s"
  using assms
proof (induction rule: map_step.induct)
  case (runs_mapper m s)
  let ?s = "s\<lparr>tasks := (tasks s)[m := Appending (work m)]\<rparr>"
  have m: "m < M" and same: "todo work ?s i = todo work s i" for i
    using runs_mapper by (auto simp: shuffle_inv_def todo_def nth_list_update)
  have "steps_left work M ?s < steps_left work M s"
    unfolding steps_left_def
    by (rule sum_strict_mono_ex1) (use m runs_mapper in \<open>auto simp: same nth_list_update\<close>)
  then show ?case using runs_mapper by (simp add: shuffle_inv_def same)
next
  case (appends_one m s r x rest)
  let ?s = "s\<lparr>partitions := (partitions s)[r := partitions s ! r @ x], tasks := (tasks s)[m := Appending rest]\<rparr>"
  have m: "m < M" and len: "length (partitions s) = R" "length (tasks s) = M" using appends_one by (auto simp: shuffle_inv_def)
  have td: "todo work s m = (r, x) # rest" "todo work ?s m = rest" "\<And>i. i \<noteq> m \<Longrightarrow> todo work ?s i = todo work s i"
    using appends_one m len by (auto simp: todo_def)
  have r: "r < R" and x: "terminated x" and rest: "good_appends R rest"
    using appends_one(3) m td(1) by (auto simp: shuffle_inv_def good_appends_def)
  have term_part: "terminated (partitions ?s ! q)" if "q < R" for q
    using appends_one(3) that r x len terminated_append by (auto simp: shuffle_inv_def nth_list_update)
  have sum: "mset (full_lines (partitions ?s ! q)) + (\<Sum>i<M. to_part q (todo work ?s i)) = (\<Sum>i<M. to_part q (work i))" if q: "q < R" for q
  proof -
    have "(\<Sum>i<M. to_part q (todo work ?s i)) + to_part q ((r, x) # rest) = (\<Sum>i<M. to_part q (todo work s i)) + to_part q rest"
      using sum_change [OF m, of "\<lambda>i. to_part q (todo work ?s i)" "\<lambda>i. to_part q (todo work s i)"] td by simp
    then have "(\<Sum>i<M. to_part q (todo work ?s i)) + (if r = q then mset (full_lines x) else {#}) = (\<Sum>i<M. to_part q (todo work s i))"
      by (simp add: to_part_Cons [OF x] add.assoc [symmetric])
    moreover have "mset (full_lines (partitions ?s ! q)) = mset (full_lines (partitions s ! q)) + (if r = q then mset (full_lines x) else {#})"
      using appends_one(3) q r len full_lines_append [of "partitions s ! q" x] by (auto simp: shuffle_inv_def nth_list_update)
    moreover have "mset (full_lines (partitions s ! q)) + (\<Sum>i<M. to_part q (todo work s i)) = (\<Sum>i<M. to_part q (work i))"
      using appends_one(3) q by (simp add: shuffle_inv_def)
    ultimately show ?thesis by (simp add: ac_simps)
  qed
  have "good_appends R (todo work ?s i)" if "i < M" for i
    using appends_one(3) that td rest by (cases "i = m") (auto simp: shuffle_inv_def)
  moreover have "steps_left work M ?s < steps_left work M s"
    unfolding steps_left_def
    by (rule sum_strict_mono_ex1) (use m td len appends_one(2) in \<open>auto simp: nth_list_update todo_def split: task.splits\<close>)
  ultimately show ?case using len term_part sum by (simp add: shuffle_inv_def)
qed

lemma shuffle_start_inv:
  assumes "\<forall>m < M. good_appends R (work m)"
  shows "shuffle_inv work M R (shuffle_start M R)"
  using assms by (simp add: shuffle_inv_def shuffle_start_def todo_def)

lemma map_move_step: "map_move work m s = Some s' \<Longrightarrow> map_step work s s'"
  using map_step.intros [of m s] by (auto simp: map_move_def split: if_splits task.splits list.splits)

lemma map_move_None: "map_move work m s = None \<longleftrightarrow> m < length (tasks s) \<longrightarrow> tasks s ! m = Appending []"
  by (auto simp: map_move_def split: task.splits list.splits)

lemma map_move_others:
  "map_move work m s = Some s' \<Longrightarrow> n \<noteq> m \<Longrightarrow> length (tasks s') = length (tasks s) \<and> tasks s' ! n = tasks s ! n"
  by (auto simp: map_move_def split: if_splits task.splits list.splits)

lemma mr_work_good: "good_appends R (mr_work run hasher mapperExe M R ls m)"
proof -
  let ?prog = "run mapperExe" and ?chunk = "chunks M ls ! m"
  have "terminated x \<and> r < R" if "(r, x) \<in> set (map_task ?prog hasher R ?chunk)" for r x
  proof -
    have r: "r < R" using map_task_targets [OF that] .
    have "x = route hasher R (getlines newline (?prog ?chunk)) (replicate R []) ! r"
      using that by (auto simp: map_task_def appends_def split: if_splits)
    moreover have "\<forall>kv \<in> set (getlines newline (?prog ?chunk)). newline \<notin> set kv" using getlines_no_delim by blast
    ultimately show ?thesis using route_lines [of "getlines newline (?prog ?chunk)" "replicate R []" R r hasher] r by simp
  qed
  then show ?thesis by (auto simp: good_appends_def mr_work_def)
qed

lemma length_chunks: "length (chunks M ls) = M"
  by (simp add: chunks_def length_chunk_loop)

lemma mset_in_partition: "mset (in_partition hasher R q (concat xss)) = sum_list (map (\<lambda>xs. mset (in_partition hasher R q xs)) xss)"
  by (induction xss) (simp_all add: in_partition_def)

definition all_emitted :: "(string \<Rightarrow> string) \<Rightarrow> nat \<Rightarrow> string list \<Rightarrow> string list" where
  "all_emitted prog M ls = concat (map (emitted prog) (chunks M ls))"

lemma partition_lines:
  assumes "shuffle_inv (mr_work run hasher mapperExe M R ls) M R s" and "mapped s" and q: "q < R"
  shows "mset (full_lines (partitions s ! q)) = mset (in_partition hasher R q (all_emitted (run mapperExe) M ls))"
proof -
  let ?work = "mr_work run hasher mapperExe M R ls"
  have "todo ?work s m = []" if "m < M" for m
    using assms(1,2) that by (auto simp: mapped_def todo_def shuffle_inv_def all_set_conv_all_nth)
  then have "(\<Sum>m<M. to_part q (todo ?work s m)) = {#}" by (simp add: to_part_def sent_to_def)
  moreover have "mset (full_lines (partitions s ! q)) + (\<Sum>m<M. to_part q (todo ?work s m)) = (\<Sum>m<M. to_part q (?work m))"
    using assms(1) q by (simp add: shuffle_inv_def)
  ultimately have "mset (full_lines (partitions s ! q)) = (\<Sum>m<M. to_part q (?work m))" by simp
  also have "\<dots> = (\<Sum>m<M. mset (in_partition hasher R q (emitted (run mapperExe) (chunks M ls ! m))))"
    using map_task_sends(2) [OF q] by (simp add: to_part_def mr_work_def)
  also have "\<dots> = sum_list (map (\<lambda>c. mset (in_partition hasher R q (emitted (run mapperExe) c))) (chunks M ls))"
    using sum_list_sum_nth [of "map (\<lambda>c. mset (in_partition hasher R q (emitted (run mapperExe) c))) (chunks M ls)"]
    by (simp add: length_chunks atLeast0LessThan)
  finally show ?thesis by (simp add: all_emitted_def mset_in_partition comp_def)
qed

lemma sort_cong: "mset xs = mset ys \<Longrightarrow> sort xs = sort (ys :: 'a::linorder list)"
  by (metis sorted_list_of_multiset_mset)

text \<open>
  The shuffle, for any mapper program: when the map tasks are done, reducer \<open>r\<close> is given, in sorted order, exactly
  the non-empty lines that the mappers printed and whose key hashes to \<open>r\<close>. No record is lost, duplicated, torn by
  a concurrent append or sent to two reducers.
\<close>

definition reducer_lines :: "(string \<Rightarrow> nat) \<Rightarrow> nat \<Rightarrow> nat \<Rightarrow> string list \<Rightarrow> string list" where
  "reducer_lines hasher R r kvs = sort (filter (\<lambda>kv. kv \<noteq> [] \<and> hasher (record_key kv) mod R = r) kvs)"

lemma partition_input:
  assumes "shuffle_inv (mr_work run hasher mapperExe M R ls) M R s" and "mapped s" and "r < R"
  shows "reduce_input (partitions s ! r) =
    concat (map (\<lambda>l. l @ [newline]) (reducer_lines hasher R r (all_emitted (run mapperExe) M ls)))"
  using sort_cong [OF partition_lines [OF assms]] by (simp add: reduce_input_def full_lines_def in_partition_def reducer_lines_def)

section \<open>Counting words\<close>

definition one :: "string \<Rightarrow> string" where
  "one w = w @ [tab, CHR ''1'']"

lemma one_simps: "one w \<noteq> []" "is_token w \<Longrightarrow> newline \<notin> set (one w)" "is_token w \<Longrightarrow> find_char tab (one w) = Some (length w)"
  "is_token w \<Longrightarrow> record_key (one w) = w"
proof -
  show "one w \<noteq> []" by (simp add: one_def)
  assume w: "is_token w"
  have t: "tab \<notin> set w" by (rule token_char_notin [OF w]) (simp add: tab_def char_code_def)
  have "newline \<notin> set w" by (rule token_char_notin [OF w]) (simp add: newline_def char_code_def)
  then show "newline \<notin> set (one w)" by (simp add: one_def newline_def tab_def)
  show f: "find_char tab (one w) = Some (length w)" using find_char_append [OF t, of "[CHR ''1'']"] by (simp add: one_def)
  show "record_key (one w) = w" unfolding record_key_def f by (simp add: one_def)
qed

lemma mapper_lines: "getlines newline (mapper s) = map one (text_words s)"
proof -
  have "mapper s = concat (map (\<lambda>l. l @ [newline]) (map one (text_words s))) @ []"
  proof -
    have "flushed w = one w @ [newline]" if "w \<in> set (words_loop [] s)" for w
      using that text_words_tokens [of w s] by (auto simp: flushed_def one_def tab_def newline_def text_words_def is_token_def)
    then have "map flushed (words_loop [] s) = map (\<lambda>w. one w @ [newline]) (words_loop [] s)" by (intro map_cong) auto
    then show ?thesis by (simp only: mapper_def text_words_def map_map comp_def append_Nil2)
  qed
  moreover have "\<forall>l \<in> set (map one (text_words s)). newline \<notin> set l" using text_words_tokens one_simps(2) by auto
  ultimately show ?thesis using getlines_concat [of "map one (text_words s)" newline "[]"] by simp
qed

lemma text_words_Nil [simp]: "text_words [] = []"
  by (simp add: text_words_def)

lemma newline_sep: "\<not> isalnum newline"
  by (simp add: newline_def ctype_defs)

lemma text_words_lines: "text_words s = concat (map text_words (getlines newline s))"
proof (induction "length s" arbitrary: s rule: less_induct)
  case less
  show ?case
  proof (cases "newline \<in> set s")
    case True
    then obtain l r where s: "s = l @ newline # r" "newline \<notin> set l" by (meson split_list_first)
    then have "text_words r = concat (map text_words (getlines newline r))" using less by simp
    with s show ?thesis using text_words_sep [OF newline_sep, of l r] getlines_append [of newline l r] by simp
  next
    case False
    then show ?thesis by (cases "s = []") (simp_all add: getlines_unterminated)
  qed
qed

lemma concat_words: "concat (map (\<lambda>c. concat (map text_words (getlines newline c))) cs) = concat (map text_words (concat (map (getlines newline) cs)))"
  by (induction cs) simp_all

lemma mset_concat_map: "mset (concat (map f xs)) = (\<Sum>x\<in>#mset xs. mset (f x))"
  by (induction xs) simp_all

lemma all_words:
  assumes "0 < M"
  shows "mset (all_emitted mapper M (getlines newline s)) = mset (map one (text_words s))"
proof -
  let ?cs = "chunks M (getlines newline s)"
  have e: "emitted mapper = (\<lambda>c. map one (text_words c))"
    by (rule ext) (simp add: emitted_def mapper_lines)
  have "\<forall>l \<in> set (getlines newline s). newline \<notin> set l" using getlines_no_delim by blast
  then have c: "mset (concat (map (getlines newline) ?cs)) = mset (getlines newline s)"
    using chunk_lines [of "getlines newline s" "replicate M []" M 0] assms by (simp add: chunks_def)
  have "text_words = (\<lambda>c. concat (map text_words (getlines newline c)))" using text_words_lines by blast
  then have "concat (map text_words ?cs) = concat (map (\<lambda>c. concat (map text_words (getlines newline c))) ?cs)" by (rule arg_cong)
  also have "\<dots> = concat (map text_words (concat (map (getlines newline) ?cs)))" by (rule concat_words)
  finally have "concat (map text_words ?cs) = concat (map text_words (concat (map (getlines newline) ?cs)))" .
  then have "mset (concat (map text_words ?cs)) = mset (text_words s)"
    using c by (simp add: mset_concat_map text_words_lines [of s])
  moreover have "all_emitted mapper M (getlines newline s) = map one (concat (map text_words ?cs))"
    by (simp add: all_emitted_def e map_concat comp_def)
  ultimately show ?thesis by (metis mset_map)
qed

lemma one_mono:
  "\<forall>c \<in> set v. word_char c \<Longrightarrow> v \<le> w \<Longrightarrow> \<forall>c \<in> set w. word_char c \<Longrightarrow> one v \<le> one w"
proof (induction v arbitrary: w)
  case Nil
  show ?case
  proof (cases w)
    case (Cons c w')
    then have "char_code tab < char_code c" using word_char_codes [of c] Nil(3) by (simp add: tab_def char_code_def)
    then have "tab < c" by (simp add: char_code_def less_char_def)
    then show ?thesis using Cons by (simp add: one_def)
  qed (simp add: one_def)
next
  case (Cons c v)
  then obtain d w' where w: "w = d # w'" by (cases w) auto
  show ?case
  proof (cases "c = d")
    case True
    then have "one v \<le> one w'" using Cons.prems w by (intro Cons.IH) auto
    then show ?thesis using True w by (simp add: one_def)
  next
    case False
    then show ?thesis using Cons.prems(2) w by (simp add: one_def)
  qed
qed

lemma sort_map_one:
  assumes "\<forall>w \<in> set ws. is_token w"
  shows "sort (map one ws) = map one (sort ws)"
proof -
  have "sorted (map one (sort ws))"
    unfolding sorted_map using assms one_mono
    by (intro sorted_wrt_mono_rel [OF _ sorted_sort [of ws]]) (auto simp: is_token_def)
  then show ?thesis by (intro properties_for_sort) simp_all
qed

lemma stol_one: "stol ''1'' = Some 1"
  by code_simp

text \<open>The reducer on sorted records: one line for each word, with its number of records.\<close>

lemma reducer_counts:
  assumes "\<forall>w \<in> set (k # ws). is_token w" and "sorted (k # ws)" and "0 \<le> t" and "t + int (length ws) < 2 ^ 63"
  shows "reducer_loop (map one ws) k t True =
    Some (concat (map (\<lambda>w. total_line w (int (count_list ws w) + (if w = k then t else 0))) (remdups_adj (k # ws))))"
  using assms
proof (induction ws arbitrary: k t)
  case (Cons w ws)
  have w: "is_token w" using Cons.prems by simp
  have drop: "drop (Suc (length v)) (one v) = ''1''" for v by (simp add: one_def)
  show ?case
  proof (cases "w = k")
    case True
    have ih: "reducer_loop (map one ws) k (t + 1) True =
        Some (concat (map (\<lambda>w. total_line w (int (count_list ws w) + (if w = k then t + 1 else 0))) (remdups_adj (k # ws))))"
      using Cons.prems True by (intro Cons.IH) auto
    have "add_long t 1 = Some (t + 1)" using Cons.prems by (simp add: add_long_def)
    then have "reducer_loop (map one (w # ws)) k t True = reducer_loop (map one ws) k (t + 1) True"
      using True w by (simp add: one_simps Let_def drop stol_one)
    moreover have "(\<lambda>u. total_line u (int (count_list (w # ws) u) + (if u = k then t else 0))) =
        (\<lambda>u. total_line u (int (count_list ws u) + (if u = k then t + 1 else 0)))"
      using True by (auto simp: fun_eq_iff algebra_simps)
    ultimately show ?thesis using ih True by simp
  next
    case False
    have ih: "reducer_loop (map one ws) w 1 True =
        Some (concat (map (\<lambda>u. total_line u (int (count_list ws u) + (if u = w then 1 else 0))) (remdups_adj (w # ws))))"
      using Cons.prems by (intro Cons.IH) auto
    have k: "k \<notin> set (w # ws)" using Cons.prems(2) False by auto
    have "add_long 0 1 = Some 1" by (simp add: add_long_def)
    then have step: "reducer_loop (map one (w # ws)) k t True = map_option (\<lambda>rest. total_line k t @ rest) (reducer_loop (map one ws) w 1 True)"
      using False w by (simp add: one_simps Let_def drop stol_one map_option_case split: option.split)
    have rest: "map (\<lambda>u. total_line u (int (count_list (w # ws) u) + (if u = k then t else 0))) (remdups_adj (w # ws)) =
        map (\<lambda>u. total_line u (int (count_list ws u) + (if u = w then 1 else 0))) (remdups_adj (w # ws))"
      using k by (intro map_cong) (auto simp: add.commute)
    have none: "count_list (w # ws) k = 0" using k by (rule count_list_0_iff [THEN iffD2])
    have groups: "remdups_adj (k # w # ws) = k # remdups_adj (w # ws)" using False by simp
    show ?thesis unfolding step unfolding ih groups list.map concat.simps rest none by simp
  qed
qed simp

lemma reducer_word_counts:
  assumes "\<forall>w \<in> set ws. is_token w" and "sorted ws" and "length ws < 2 ^ 63"
  shows "reducer (concat (map (\<lambda>l. l @ [newline]) (map one ws))) =
    Some (concat (map (\<lambda>w. total_line w (int (count_list ws w))) (remdups_adj ws)))"
proof -
  have l: "getlines newline (concat (map (\<lambda>l. l @ [newline]) (map one ws))) = map one ws"
    using getlines_concat [of "map one ws" newline "[]"] assms(1) one_simps(2) by auto
  show ?thesis
  proof (cases ws)
    case Nil
    then show ?thesis by (simp add: reducer_def)
  next
    case (Cons w ws')
    have w: "is_token w" using assms(1) Cons by simp
    have drop: "drop (Suc (length w)) (one w) = ''1''" by (simp add: one_def)
    have "reducer_loop (map one (w # ws')) [] 0 False = reducer_loop (map one ws') w 1 True"
      using w by (simp add: one_simps Let_def drop stol_one add_long_def split: option.split)
    moreover have "reducer_loop (map one ws') w 1 True =
        Some (concat (map (\<lambda>u. total_line u (int (count_list ws' u) + (if u = w then 1 else 0))) (remdups_adj (w # ws'))))"
      using assms Cons by (intro reducer_counts) auto
    moreover have "(\<lambda>u. total_line u (int (count_list ws' u) + (if u = w then 1 else 0))) = (\<lambda>u. total_line u (int (count_list ws u)))"
      using Cons by (auto simp: fun_eq_iff add.commute)
    ultimately show ?thesis unfolding reducer_def l using Cons by simp
  qed
qed

lemma filter_map_one:
  "\<forall>w \<in> set ws. is_token w \<Longrightarrow>
   filter (\<lambda>kv. kv \<noteq> [] \<and> hasher (record_key kv) mod R = r) (map one ws) = map one (filter (\<lambda>w. hasher w mod R = r) ws)"
  by (induction ws) (simp_all add: one_simps)

lemma remdups_adj_sort: "remdups_adj (sort ws) = sort (remdups ws)" for ws :: "'a::linorder list"
proof -
  have "sorted xs \<Longrightarrow> sorted_wrt (<) (remdups_adj xs)" for xs :: "'a list"
    by (induction xs rule: remdups_adj.induct) auto
  then have "sorted (remdups_adj (sort ws))" "distinct (remdups_adj (sort ws))"
    using sorted_sort strict_sorted_iff by blast+
  moreover have "set (remdups_adj (sort ws)) = set (sort (remdups ws))" by simp
  ultimately show ?thesis by (metis distinct_remdups distinct_sort sorted_distinct_set_unique sorted_sort)
qed

lemma count_list_mset: "count_list xs x = count (mset xs) x"
  by (induction xs) simp_all

definition part_words :: "(string \<Rightarrow> nat) \<Rightarrow> nat \<Rightarrow> nat \<Rightarrow> string \<Rightarrow> string list" where
  "part_words hasher R r input = filter (\<lambda>w. hasher w mod R = r) (text_words input)"

text \<open>
  With the mapper and the reducer of the repository: one line for each word of the input whose hash is \<open>r\<close>, in
  alphabetical order, with the number of times the word occurs in the input.
\<close>

definition word_lines :: "(string \<Rightarrow> nat) \<Rightarrow> nat \<Rightarrow> nat \<Rightarrow> string \<Rightarrow> string" where
  "word_lines hasher R r input =
     concat (map (\<lambda>w. w @ tab # show_int (int (count_list (text_words input) w)) @ [newline])
       (sort (remdups (filter (\<lambda>w. hasher w mod R = r) (text_words input)))))"

lemma word_lines_eq: "word_lines hasher R r input =
    concat (map (\<lambda>w. total_line w (int (count_list (text_words input) w))) (sort (remdups (part_words hasher R r input))))"
  by (simp add: word_lines_def total_line_def part_words_def)

lemma counted_part:
  assumes "0 < M" and "length (text_words input) < 2 ^ 63"
    and "\<And>out. reducer inp = Some out \<Longrightarrow> prog inp = out"
    and inp: "inp = concat (map (\<lambda>l. l @ [newline]) (reducer_lines hasher R r (all_emitted mapper M (getlines newline input))))"
  shows "(if inp = [] then [] else prog inp) = word_lines hasher R r input"
proof -
  let ?ws = "part_words hasher R r input"
  have tok: "\<forall>w \<in> set ?ws. is_token w" using text_words_tokens by (auto simp: part_words_def)
  let ?sent = "\<lambda>kv. kv \<noteq> [] \<and> hasher (record_key kv) mod R = r"
  have "mset (filter ?sent (all_emitted mapper M (getlines newline input))) = mset (filter ?sent (map one (text_words input)))"
    using all_words [OF assms(1), of input] by (metis mset_filter)
  moreover have "filter ?sent (map one (text_words input)) = map one ?ws"
    unfolding part_words_def by (rule filter_map_one) (use text_words_tokens in blast)
  ultimately have "mset (filter ?sent (all_emitted mapper M (getlines newline input))) = mset (map one ?ws)" by (simp only:)
  then have "reducer_lines hasher R r (all_emitted mapper M (getlines newline input)) = map one (sort ?ws)"
    unfolding reducer_lines_def sort_map_one [OF tok, symmetric] by (rule sort_cong)
  with inp have lines: "inp = concat (map (\<lambda>l. l @ [newline]) (map one (sort ?ws)))" by (simp only:)
  have "length (sort ?ws) < 2 ^ 63" using le_less_trans [OF length_filter_le assms(2)] by (simp add: part_words_def)
  then have "reducer inp = Some (concat (map (\<lambda>w. total_line w (int (count_list (sort ?ws) w))) (sort (remdups ?ws))))"
    unfolding lines remdups_adj_sort [symmetric] using tok by (intro reducer_word_counts) simp_all
  moreover have "count_list (sort ?ws) w = count_list (text_words input) w" if "w \<in> set ?ws" for w
    using that by (auto simp: count_list_mset part_words_def)
  then have "map (\<lambda>w. total_line w (int (count_list (sort ?ws) w))) (sort (remdups ?ws)) =
      map (\<lambda>w. total_line w (int (count_list (text_words input) w))) (sort (remdups ?ws))"
    by (intro map_cong) auto
  ultimately have "reducer inp = Some (word_lines hasher R r input)" unfolding word_lines_eq by (simp only:)
  then have "prog inp = word_lines hasher R r input" by (rule assms(3))
  moreover have "word_lines hasher R r input = []" if "inp = []"
  proof -
    have "sort ?ws = []" using that unfolding lines by simp
    then have "?ws = []" by (metis length_0_conv length_sort)
    then show ?thesis unfolding word_lines_eq by simp
  qed
  ultimately show ?thesis by simp
qed

text \<open>The programs of an example.\<close>

definition example_hash :: "string \<Rightarrow> nat" where
  "example_hash w = length w"

definition example_run :: "string \<Rightarrow> string \<Rightarrow> string" where
  "example_run exe inp = (if exe = ''./mapper'' then mapper inp else case reducer inp of None \<Rightarrow> [] | Some out \<Rightarrow> out)"

end
