(* ===== verification/Pool_Tasks.thy ===== *)
theory Pool_Tasks
  imports Pool_Client
begin

text \<open>
  A block of code that makes a thread pool, gives it the tasks \<open>0 .. k - 1\<close>, waits and leaves the scope of the
  pool, where a task is a thunk of several steps over a shared state: \<open>body t b\<close> is what the next step of task
  \<open>t\<close> makes of the state \<open>b\<close>, \<^term>\<open>None\<close> when the task has returned. A task moves only while a worker runs it.
\<close>

section \<open>A block of tasks\<close>

definition block_prog :: "nat \<Rightarrow> nat \<Rightarrow> (nat, unit) client_cmd list" where
  "block_prog n k = Make n # map Schedule [0..<k] @ [Wait_all, Destroy]"

definition at_work :: "(nat, unit) client \<Rightarrow> nat \<Rightarrow> bool" where
  "at_work r t \<longleftrightarrow> (\<exists>s i. tp r = Some s \<and> i < length (wts s) \<and> in_thunk i s = Some t)"

inductive block_step :: "(nat \<Rightarrow> 'b \<Rightarrow> 'b option) \<Rightarrow> (nat, unit) client \<times> 'b \<Rightarrow> (nat, unit) client \<times> 'b \<Rightarrow> bool" for body where
  moves: "client_step r l r' \<Longrightarrow> (\<And>t. l = Returned t \<Longrightarrow> body t b = None) \<Longrightarrow> block_step body (r, b) (r', b)"
| runs: "at_work r t \<Longrightarrow> body t b = Some b' \<Longrightarrow> block_step body (r, b) (r, b')"

lemma block_step_split:
  "block_step body (r, b) c \<Longrightarrow>
     (\<exists>l r'. c = (r', b) \<and> client_step r l r' \<and> (\<forall>t. l = Returned t \<longrightarrow> body t b = None)) \<or>
     (\<exists>t b'. c = (r, b') \<and> at_work r t \<and> body t b = Some b')"
  by (erule block_step.cases) blast+

text \<open>How far a block is from its end: its threads first, then the steps that its tasks have left.\<close>

definition block_order :: "('b \<Rightarrow> nat) \<Rightarrow> (((nat, unit) client \<times> 'b) \<times> ((nat, unit) client \<times> 'b)) set" where
  "block_order work_left = client_order <*lex*> measure work_left"

lemma wf_block_order: "wf (block_order work_left)"
  by (simp add: block_order_def wf_client_order wf_lex_prod)

lemma block_disciplined: "0 < n \<Longrightarrow> disciplined False True (block_prog n k)"
  by (simp add: block_prog_def disciplined_schedules)

lemma pending_block: "pending (block_prog n k) = mset [0..<k]"
  by (simp add: block_prog_def pending_append pending_schedules del: mset_upt)

lemma woken_same: "woken r r' \<Longrightarrow> todo r' = todo r \<and> owed (tp r') = owed (tp r)"
  by (auto simp: woken_def owed_def)

text \<open>Every task is still owed, or has returned.\<close>

definition block_ok :: "(nat \<Rightarrow> 'b \<Rightarrow> 'b option) \<Rightarrow> ('b \<Rightarrow> bool) \<Rightarrow> nat \<Rightarrow> (nat, unit) client \<times> 'b \<Rightarrow> bool" where
  "block_ok body ok k c \<longleftrightarrow> plan_ok (fst c) \<and> ok (snd c) \<and>
     (\<forall>t < k. t \<in># pending (todo (fst c)) + owed (tp (fst c)) \<or> body t (snd c) = None)"

section \<open>The contract of the tasks\<close>

text \<open>
  What the block relies on: the steps of tasks keep an invariant of the shared state and bring the tasks nearer to
  their ends, and a task that has returned is not set going again by another one.
\<close>

locale pool_tasks =
  fixes body :: "nat \<Rightarrow> 'b \<Rightarrow> 'b option" and ok :: "'b \<Rightarrow> bool" and work_left :: "'b \<Rightarrow> nat"
  assumes body_ok: "ok b \<Longrightarrow> body t b = Some b' \<Longrightarrow> ok b'"
    and body_lowers: "ok b \<Longrightarrow> body t b = Some b' \<Longrightarrow> work_left b' < work_left b"
    and stays_returned: "ok b \<Longrightarrow> body t b = None \<Longrightarrow> body u b = Some b' \<Longrightarrow> body t b' = None"
begin

lemma block_start_ok: "0 < n \<Longrightarrow> ok b \<Longrightarrow> block_ok body ok k (client_start (block_prog n k), b)"
  using block_disciplined [of n k] by (simp add: block_ok_def plan_ok_def client_start_def pending_block)

lemma block_step_ok:
  assumes "block_step body (r, b) c" and "block_ok body ok k (r, b)"
  shows "block_ok body ok k c \<and> (c, (r, b)) \<in> block_order work_left"
proof -
  consider (moves) l r' where "c = (r', b)" "client_step r l r'" "\<And>t. l = Returned t \<Longrightarrow> body t b = None"
    | (runs) t b' where "c = (r, b')" "body t b = Some b'"
    using block_step_split [OF assms(1)] by blast
  then show ?thesis
  proof cases
    case moves
    have p: "plan_ok r" using assms(2) by (simp add: block_ok_def)
    have "t \<in># pending (todo r') + owed (tp r') \<or> body t b = None" if "t < k" for t
    proof (cases "l = Returned t")
      case True
      then show ?thesis using moves by simp
    next
      case False
      then have "t \<notin># returned l" by (cases l) auto
      moreover have "t \<in># pending (todo r) + owed (tp r) \<or> body t b = None" using assms(2) that by (simp add: block_ok_def)
      ultimately show ?thesis using client_step_owed [OF moves(2) p] by (metis union_iff)
    qed
    then show ?thesis
      using moves(1) client_step_ok [OF moves(2) p] client_step_lowers [OF moves(2) p] assms(2) by (simp add: block_ok_def block_order_def)
  next
    case runs
    then show ?thesis
      using assms(2) body_ok [of b t b'] body_lowers [of b t b'] stays_returned [of b _ t b'] by (auto simp: block_ok_def block_order_def)
  qed
qed

lemma block_woken_ok: "woken r r' \<Longrightarrow> block_ok body ok k (r, b) \<Longrightarrow> block_ok body ok k (r', b)"
  using woken_ok [of r r'] woken_same [of r r'] by (auto simp: block_ok_def)

text \<open>No deadlock: a worker whose task has not returned can take the next step of that task.\<close>

lemma block_progress:
  assumes "block_ok body ok k (r, b)" and "\<not> client_over r"
  shows "\<exists>c. block_step body (r, b) c"
proof -
  obtain l r' where s: "client_step r l r'" using client_progress [of r] assms by (auto simp: block_ok_def)
  show ?thesis
  proof (cases "\<exists>t. l = Returned t \<and> body t b \<noteq> None")
    case True
    then obtain t b' where t: "l = Returned t" "body t b = Some b'" by auto
    have "at_work r t" using s unfolding t(1) by cases (auto simp: at_work_def work_label_def split: option.splits)
    then show ?thesis using block_step.runs [of r t body b b'] t(2) by blast
  next
    case False
    then show ?thesis using block_step.moves [OF s, of body b] by blast
  qed
qed

text \<open>When the block is left, every task has returned and no thread of the pool is left.\<close>

lemma block_over:
  assumes "block_ok body ok k (r, b)" and "client_over r"
  shows "tp r = None \<and> ok b \<and> (\<forall>t < k. body t b = None)"
  using assms owed_nothing [of r] by (auto simp: block_ok_def client_over_def owed_def)

end

end
