(* ===== verification/Mr_Program.thy ===== *)
theory Mr_Program
  imports MapReduce_Props Pool_Tasks
begin

text \<open>
  The whole program \<open>mr.cc\<close>: its arguments, the block that maps on a pool of \<open>M\<close> threads, the block that
  reduces on a pool of \<open>R\<close> threads, and its closing message. The main thread, the pools' dispatchers and
  workers, the map tasks at their locked appends and the reduce tasks at their opening and writing of a file are
  interleaved. The file system is a map from paths to contents; whether a path can be opened for
  writing is a parameter, as are the programs that are run and the hash function.
\<close>

section \<open>Arguments\<close>

record mr_config =
  mr_lines :: "string list"
  mr_M :: nat
  mr_R :: nat
  mr_mapper :: string
  mr_reducer :: string
  mr_out :: string

definition mr_usage :: "string \<Rightarrow> string" where
  "mr_usage prog = ''usage: '' @ prog @ '' <input> <M> <R> <mapper> <reducer> <out-dir>'' @ [newline]"

text \<open>\<^term>\<open>Inl\<close>: a message on standard error and exit status 1.\<close>

definition mr_args :: "(string \<rightharpoonup> string) \<Rightarrow> string list \<Rightarrow> string + mr_config" where
  "mr_args fs argv = (case argv of
       [prog, inputPath, m, r, mapperExe, reducerExe, outDir] \<Rightarrow>
         (case mr_setup fs inputPath (atoi m) (atoi r) of
            Inl msg \<Rightarrow> Inl (msg @ [newline])
          | Inr ls \<Rightarrow> Inr \<lparr>mr_lines = ls, mr_M = nat (atoi m), mr_R = nat (atoi r), mr_mapper = mapperExe,
              mr_reducer = reducerExe, mr_out = outDir\<rparr>)
     | _ \<Rightarrow> Inl (mr_usage (concat (take 1 argv))))"

section \<open>The reduce tasks\<close>

datatype reduce_pc = Unopened | Opened string string | Written

record reduce_run =
  files :: "string \<rightharpoonup> string"
  reducers :: "reduce_pc list"

definition reduce_start :: "(string \<rightharpoonup> string) \<Rightarrow> nat \<Rightarrow> reduce_run" where
  "reduce_start fs R = \<lparr>files = fs, reducers = replicate R Unopened\<rparr>"

text \<open>A write at the beginning of a file.\<close>

definition overwrite :: "string \<Rightarrow> string \<Rightarrow> string" where
  "overwrite x old = x @ drop (length x) old"

text \<open>
  A task sorts its partition, runs the reducer and creates the file, or else finds that it cannot; then it writes the
  file. The code does not look at what becomes of the stream.
\<close>

definition reduce_move :: "(string \<Rightarrow> string) \<Rightarrow> string \<Rightarrow> (string \<Rightarrow> bool) \<Rightarrow> string list \<Rightarrow> nat \<Rightarrow> reduce_run \<Rightarrow> reduce_run option" where
  "reduce_move prog outDir can_open parts r e =
     (if r < length (reducers e)
      then (case reducers e ! r of
              Unopened \<Rightarrow>
                (case reduce_task prog outDir r (parts ! r) of (path, reduced) \<Rightarrow>
                   Some (if can_open path
                         then e\<lparr>files := (files e)(path \<mapsto> []), reducers := (reducers e)[r := Opened path reduced]\<rparr>
                         else e\<lparr>reducers := (reducers e)[r := Written]\<rparr>))
            | Opened path reduced \<Rightarrow>
                Some (e\<lparr>files := (files e)(path \<mapsto> overwrite reduced (case files e path of None \<Rightarrow> [] | Some old \<Rightarrow> old)),
                        reducers := (reducers e)[r := Written]\<rparr>)
            | Written \<Rightarrow> None)
      else None)"

section \<open>The program\<close>

datatype mr_state =
    Mapping "(nat, unit) client \<times> shuffle"
  | Reducing "string list" "(nat, unit) client \<times> reduce_run"
  | Reported "string \<rightharpoonup> string" string

definition mr_start :: "mr_config \<Rightarrow> mr_state" where
  "mr_start cfg = Mapping (client_start (block_prog (mr_M cfg) (mr_M cfg)), shuffle_start (mr_M cfg) (mr_R cfg))"

definition mr_report :: "mr_config \<Rightarrow> string" where
  "mr_report cfg = ''mapreduce: '' @ show_nat (length (mr_lines cfg)) @ '' input lines, M='' @ show_nat (mr_M cfg) @
     '' mappers, R='' @ show_nat (mr_R cfg) @ '' reducers -> '' @ mr_out cfg @ ''/part-0..'' @ show_int (int (mr_R cfg) - 1) @ [newline]"

definition map_body :: "(string \<Rightarrow> string \<Rightarrow> string) \<Rightarrow> (string \<Rightarrow> nat) \<Rightarrow> mr_config \<Rightarrow> nat \<Rightarrow> shuffle \<Rightarrow> shuffle option" where
  "map_body run hasher cfg = map_move (mr_work run hasher (mr_mapper cfg) (mr_M cfg) (mr_R cfg) (mr_lines cfg))"

definition reduce_body :: "(string \<Rightarrow> string \<Rightarrow> string) \<Rightarrow> mr_config \<Rightarrow> (string \<Rightarrow> bool) \<Rightarrow> string list \<Rightarrow> nat \<Rightarrow> reduce_run \<Rightarrow> reduce_run option" where
  "reduce_body run cfg = reduce_move (run (mr_reducer cfg)) (mr_out cfg)"

inductive mr_step :: "(string \<Rightarrow> string \<Rightarrow> string) \<Rightarrow> (string \<Rightarrow> nat) \<Rightarrow> (string \<Rightarrow> bool) \<Rightarrow> (string \<rightharpoonup> string) \<Rightarrow> mr_config \<Rightarrow>
    mr_state \<Rightarrow> mr_state \<Rightarrow> bool" for run hasher can_open fs cfg where
  maps: "block_step (map_body run hasher cfg) c c' \<Longrightarrow> mr_step run hasher can_open fs cfg (Mapping c) (Mapping c')"
| turns: "client_over r \<Longrightarrow> mr_step run hasher can_open fs cfg (Mapping (r, s))
    (Reducing (partitions s) (client_start (block_prog (mr_R cfg) (mr_R cfg)), reduce_start fs (mr_R cfg)))"
| reduces: "block_step (reduce_body run cfg can_open parts) c c' \<Longrightarrow>
    mr_step run hasher can_open fs cfg (Reducing parts c) (Reducing parts c')"
| reports: "client_over r \<Longrightarrow> mr_step run hasher can_open fs cfg (Reducing parts (r, e)) (Reported (files e) (mr_report cfg))"

inductive mr_reach :: "(string \<Rightarrow> string \<Rightarrow> string) \<Rightarrow> (string \<Rightarrow> nat) \<Rightarrow> (string \<Rightarrow> bool) \<Rightarrow> (string \<rightharpoonup> string) \<Rightarrow> mr_config \<Rightarrow>
    mr_state \<Rightarrow> bool" for run hasher can_open fs cfg where
  start: "mr_reach run hasher can_open fs cfg (mr_start cfg)"
| step: "mr_reach run hasher can_open fs cfg s \<Longrightarrow> mr_step run hasher can_open fs cfg s s' \<Longrightarrow> mr_reach run hasher can_open fs cfg s'"
| wakes_mapping: "mr_reach run hasher can_open fs cfg (Mapping (r, b)) \<Longrightarrow> woken r r' \<Longrightarrow> mr_reach run hasher can_open fs cfg (Mapping (r', b))"
| wakes_reducing: "mr_reach run hasher can_open fs cfg (Reducing parts (r, e)) \<Longrightarrow> woken r r' \<Longrightarrow>
    mr_reach run hasher can_open fs cfg (Reducing parts (r', e))"

section \<open>The tasks keep the contract of the block\<close>

interpretation map_tasks: pool_tasks "map_move work" "shuffle_inv work M R" "steps_left work M" for work M R
proof
  fix b t b' assume "shuffle_inv work M R b" "map_move work t b = Some b'"
  then show "shuffle_inv work M R b'" "steps_left work M b' < steps_left work M b"
    using map_step_inv [OF map_move_step] by blast+
next
  fix b t u b' assume t: "map_move work t b = None" and u: "map_move work u b = Some b'"
  then have "t \<noteq> u" by auto
  then show "map_move work t b' = None" using t map_move_others [OF u] by (simp add: map_move_None)
qed

definition reduce_text :: "(string \<Rightarrow> string) \<Rightarrow> string \<Rightarrow> string" where
  "reduce_text prog part = (let inp = reduce_input part in if inp = [] then [] else prog inp)"

definition reducer_ok :: "(string \<Rightarrow> string) \<Rightarrow> string \<Rightarrow> (string \<Rightarrow> bool) \<Rightarrow> (string \<rightharpoonup> string) \<Rightarrow> string list \<Rightarrow> reduce_run \<Rightarrow> nat \<Rightarrow> bool" where
  "reducer_ok prog outDir can_open fs parts e r =
     (let path = part_path outDir r; reduced = reduce_text prog (parts ! r)
      in case reducers e ! r of
           Unopened \<Rightarrow> files e path = fs path
         | Opened p x \<Rightarrow> p = path \<and> x = reduced \<and> can_open path \<and> files e path = Some []
         | Written \<Rightarrow> files e path = (if can_open path then Some reduced else fs path))"

definition reduce_inv :: "(string \<Rightarrow> string) \<Rightarrow> string \<Rightarrow> (string \<Rightarrow> bool) \<Rightarrow> (string \<rightharpoonup> string) \<Rightarrow> string list \<Rightarrow> reduce_run \<Rightarrow> bool" where
  "reduce_inv prog outDir can_open fs parts e \<longleftrightarrow>
     length (reducers e) = length parts \<and> inj_on (part_path outDir) {..<length parts} \<and>
     (\<forall>r < length parts. reducer_ok prog outDir can_open fs parts e r) \<and>
     (\<forall>p. p \<notin> part_path outDir ` {..<length parts} \<longrightarrow> files e p = fs p)"

definition reducer_left :: "reduce_pc \<Rightarrow> nat" where
  "reducer_left p = (case p of Unopened \<Rightarrow> 2 | Opened _ _ \<Rightarrow> 1 | Written \<Rightarrow> 0)"

definition reduce_left :: "reduce_run \<Rightarrow> nat" where
  "reduce_left e = sum_list (map reducer_left (reducers e))"

text \<open>A move of task \<open>r\<close> touches its own file only.\<close>

lemma reduce_move_parts:
  assumes "reduce_move prog outDir can_open parts r e = Some e'" and "reduce_inv prog outDir can_open fs parts e"
  shows "r < length parts \<and> (\<exists>pc. reducers e' = (reducers e)[r := pc] \<and> reducer_left pc < reducer_left (reducers e ! r)) \<and>
    (\<forall>p. p \<noteq> part_path outDir r \<longrightarrow> files e' p = files e p) \<and> reducer_ok prog outDir can_open fs parts e' r"
proof -
  have len: "length (reducers e) = length parts" using assms(2) by (simp add: reduce_inv_def)
  have r: "r < length parts" using assms(1) len by (auto simp: reduce_move_def split: if_splits)
  then have ok: "reducer_ok prog outDir can_open fs parts e r" using assms(2) by (simp add: reduce_inv_def)
  show ?thesis
  proof (cases "reducers e ! r")
    case Unopened
    then show ?thesis using assms(1) r len ok
      by (auto simp: reduce_move_def reduce_task_def reducer_ok_def reduce_text_def reducer_left_def Let_def split: if_splits)
  next
    case (Opened path reduced)
    then show ?thesis using assms(1) r len ok
      by (auto simp: reduce_move_def reducer_ok_def overwrite_def reducer_left_def Let_def split: if_splits)
  next
    case Written
    then show ?thesis using assms(1) r len by (simp add: reduce_move_def)
  qed
qed

lemma reduce_move_inv:
  assumes "reduce_move prog outDir can_open parts r e = Some e'" and "reduce_inv prog outDir can_open fs parts e"
  shows "reduce_inv prog outDir can_open fs parts e'" and "reduce_left e' < reduce_left e"
    and "q \<noteq> r \<Longrightarrow> reducers e' ! q = reducers e ! q"
proof -
  obtain pc where r: "r < length parts" and pc: "reducers e' = (reducers e)[r := pc]" "reducer_left pc < reducer_left (reducers e ! r)"
    and fr: "\<And>p. p \<noteq> part_path outDir r \<Longrightarrow> files e' p = files e p" and ok: "reducer_ok prog outDir can_open fs parts e' r"
    using reduce_move_parts [OF assms] by blast
  have len: "length (reducers e) = length parts" and inj: "inj_on (part_path outDir) {..<length parts}"
    using assms(2) by (simp_all add: reduce_inv_def)
  have "reducer_ok prog outDir can_open fs parts e' q" if q: "q < length parts" for q
  proof (cases "q = r")
    case False
    then have "part_path outDir q \<noteq> part_path outDir r" using inj_onD [OF inj] q r by blast
    moreover have "reducer_ok prog outDir can_open fs parts e q" using assms(2) q by (simp add: reduce_inv_def)
    moreover have "files e' (part_path outDir q) = files e (part_path outDir q)" by (rule fr) fact
    ultimately show ?thesis using False pc(1) by (cases "reducers e ! q") (simp_all add: reducer_ok_def Let_def)
  qed (use ok in simp)
  moreover have "files e' p = fs p" if "p \<notin> part_path outDir ` {..<length parts}" for p
  proof -
    have "p \<noteq> part_path outDir r" using that r by blast
    then show ?thesis using fr assms(2) that by (simp add: reduce_inv_def)
  qed
  ultimately show "reduce_inv prog outDir can_open fs parts e'" using len inj pc(1) by (simp add: reduce_inv_def)
  show "reduce_left e' < reduce_left e"
    using sum_map_update [of r "reducers e" reducer_left pc] r len pc by (simp add: reduce_left_def)
  show "q \<noteq> r \<Longrightarrow> reducers e' ! q = reducers e ! q" using pc(1) by simp
qed

lemma reduce_move_None: "reduce_move prog outDir can_open parts r e = None \<longleftrightarrow> r < length (reducers e) \<longrightarrow> reducers e ! r = Written"
  by (auto simp: reduce_move_def split: reduce_pc.splits prod.splits)

interpretation reduce_tasks: pool_tasks "reduce_move prog outDir can_open parts" "reduce_inv prog outDir can_open fs parts" reduce_left
  for prog outDir can_open fs parts
proof
  fix b t b' assume "reduce_inv prog outDir can_open fs parts b" "reduce_move prog outDir can_open parts t b = Some b'"
  then show "reduce_inv prog outDir can_open fs parts b'" "reduce_left b' < reduce_left b"
    using reduce_move_inv by blast+
next
  fix b t u b' assume inv: "reduce_inv prog outDir can_open fs parts b"
    and t: "reduce_move prog outDir can_open parts t b = None" and u: "reduce_move prog outDir can_open parts u b = Some b'"
  then have "t \<noteq> u" by auto
  moreover have "length (reducers b') = length (reducers b)"
    using reduce_move_inv(1) [OF u inv] inv by (simp add: reduce_inv_def)
  ultimately show "reduce_move prog outDir can_open parts t b' = None"
    using t reduce_move_inv(3) [OF u inv] by (simp add: reduce_move_None)
qed

section \<open>Every reachable state\<close>

definition cfg_work :: "(string \<Rightarrow> string \<Rightarrow> string) \<Rightarrow> (string \<Rightarrow> nat) \<Rightarrow> mr_config \<Rightarrow> nat \<Rightarrow> (nat \<times> string) list" where
  "cfg_work run hasher cfg = mr_work run hasher (mr_mapper cfg) (mr_M cfg) (mr_R cfg) (mr_lines cfg)"

abbreviation cfg_shuffle :: "(string \<Rightarrow> string \<Rightarrow> string) \<Rightarrow> (string \<Rightarrow> nat) \<Rightarrow> mr_config \<Rightarrow> shuffle \<Rightarrow> bool" where
  "cfg_shuffle run hasher cfg \<equiv> shuffle_inv (cfg_work run hasher cfg) (mr_M cfg) (mr_R cfg)"

abbreviation cfg_reduce :: "(string \<Rightarrow> string \<Rightarrow> string) \<Rightarrow> (string \<Rightarrow> bool) \<Rightarrow> (string \<rightharpoonup> string) \<Rightarrow> mr_config \<Rightarrow> string list \<Rightarrow> reduce_run \<Rightarrow> bool" where
  "cfg_reduce run can_open fs cfg parts \<equiv> reduce_inv (run (mr_reducer cfg)) (mr_out cfg) can_open fs parts"

definition shuffled :: "(string \<Rightarrow> string \<Rightarrow> string) \<Rightarrow> (string \<Rightarrow> nat) \<Rightarrow> mr_config \<Rightarrow> string list \<Rightarrow> bool" where
  "shuffled run hasher cfg parts \<longleftrightarrow> (\<exists>s. cfg_shuffle run hasher cfg s \<and> mapped s \<and> parts = partitions s)"

definition mr_ok :: "(string \<Rightarrow> string \<Rightarrow> string) \<Rightarrow> (string \<Rightarrow> nat) \<Rightarrow> (string \<Rightarrow> bool) \<Rightarrow> (string \<rightharpoonup> string) \<Rightarrow> mr_config \<Rightarrow> mr_state \<Rightarrow> bool" where
  "mr_ok run hasher can_open fs cfg s = (case s of
       Mapping c \<Rightarrow> block_ok (map_body run hasher cfg) (cfg_shuffle run hasher cfg) (mr_M cfg) c
     | Reducing parts c \<Rightarrow> shuffled run hasher cfg parts \<and>
         block_ok (reduce_body run cfg can_open parts) (cfg_reduce run can_open fs cfg parts) (mr_R cfg) c
     | Reported f msg \<Rightarrow> msg = mr_report cfg \<and> (\<exists>parts e. shuffled run hasher cfg parts \<and> f = files e \<and>
         cfg_reduce run can_open fs cfg parts e \<and> (\<forall>r < mr_R cfg. reducers e ! r = Written)))"

text \<open>The main thread's blocks come in order, and each lowers its own rank.\<close>

fun mr_rank :: "mr_state \<Rightarrow> nat \<times> ((nat, unit) client \<times> shuffle) \<times> ((nat, unit) client \<times> reduce_run)" where
  "mr_rank (Mapping c) = (2, c, (client_start [], reduce_start Map.empty 0))"
| "mr_rank (Reducing parts c) = (1, (client_start [], shuffle_start 0 0), c)"
| "mr_rank (Reported f msg) = (0, (client_start [], shuffle_start 0 0), (client_start [], reduce_start Map.empty 0))"

definition mr_order :: "(string \<Rightarrow> string \<Rightarrow> string) \<Rightarrow> (string \<Rightarrow> nat) \<Rightarrow> mr_config \<Rightarrow> (mr_state \<times> mr_state) set" where
  "mr_order run hasher cfg =
     inv_image (less_than <*lex*> (block_order (steps_left (cfg_work run hasher cfg) (mr_M cfg)) <*lex*> block_order reduce_left)) mr_rank"

lemma wf_mr_order: "wf (mr_order run hasher cfg)"
  unfolding mr_order_def by (intro wf_inv_image wf_lex_prod wf_less_than wf_block_order)

lemma show_nat_inj: "show_nat m = show_nat n \<Longrightarrow> m = n"
  by (metis dec_nat_show_nat)

definition paths_fit :: "mr_config \<Rightarrow> bool" where
  "paths_fit cfg \<longleftrightarrow> 0 < mr_M cfg \<and> 0 < mr_R cfg \<and> (\<forall>r < mr_R cfg. length (mr_out cfg @ ''/part-'' @ show_nat r) < 512)"

lemma part_paths_differ:
  assumes "paths_fit cfg"
  shows "inj_on (part_path (mr_out cfg)) {..<mr_R cfg}"
proof (rule inj_onI)
  have path: "part_path (mr_out cfg) r = mr_out cfg @ ''/part-'' @ show_nat r" if "r < mr_R cfg" for r
    unfolding part_path_def using assms that by (intro take_all) (auto simp: paths_fit_def)
  fix q r assume "q \<in> {..<mr_R cfg}" "r \<in> {..<mr_R cfg}" "part_path (mr_out cfg) q = part_path (mr_out cfg) r"
  then show "q = r" using path [of q] path [of r] show_nat_inj by simp
qed

lemma cfg_start: "cfg_shuffle run hasher cfg (shuffle_start (mr_M cfg) (mr_R cfg))"
  unfolding cfg_work_def by (rule shuffle_start_inv) (simp add: mr_work_good)

lemma map_block: "map_body run hasher cfg = map_move (cfg_work run hasher cfg)"
  by (simp add: map_body_def cfg_work_def)

lemma mr_start_ok: "paths_fit cfg \<Longrightarrow> mr_ok run hasher can_open fs cfg (mr_start cfg)"
  using map_tasks.block_start_ok [OF _ cfg_start] by (simp add: mr_ok_def mr_start_def map_block paths_fit_def)

lemma turn_ok:
  assumes "paths_fit cfg" and "client_over r" and "block_ok (map_body run hasher cfg) (cfg_shuffle run hasher cfg) (mr_M cfg) (r, s)"
  shows "mr_ok run hasher can_open fs cfg (Reducing (partitions s) (client_start (block_prog (mr_R cfg) (mr_R cfg)), reduce_start fs (mr_R cfg)))"
proof -
  have s: "cfg_shuffle run hasher cfg s" "\<forall>t < mr_M cfg. map_move (cfg_work run hasher cfg) t s = None"
    using map_tasks.block_over [OF assms(3) [unfolded map_block] assms(2)] by simp_all
  have len: "length (partitions s) = mr_R cfg" "length (shuffle.tasks s) = mr_M cfg" using s(1) by (simp_all add: shuffle_inv_def)
  have "mapped s" using s(2) len(2) by (auto simp: mapped_def map_move_None in_set_conv_nth)
  then have "shuffled run hasher cfg (partitions s)" using s(1) by (auto simp: shuffled_def)
  moreover have "cfg_reduce run can_open fs cfg (partitions s) (reduce_start fs (mr_R cfg))"
    using part_paths_differ [OF assms(1)] len(1) by (simp add: reduce_inv_def reduce_start_def reducer_ok_def)
  ultimately show ?thesis
    using reduce_tasks.block_start_ok [of "mr_R cfg" "run (mr_reducer cfg)" "mr_out cfg" can_open fs "partitions s"] assms(1)
    by (simp add: mr_ok_def reduce_body_def paths_fit_def)
qed

lemma mr_step_ok:
  assumes "mr_step run hasher can_open fs cfg s s'" and "mr_ok run hasher can_open fs cfg s" and "paths_fit cfg"
  shows "mr_ok run hasher can_open fs cfg s' \<and> (s', s) \<in> mr_order run hasher cfg"
  using assms(1)
proof cases
  case (maps c c')
  then show ?thesis using assms(2) map_tasks.block_step_ok [of "cfg_work run hasher cfg" "fst c" "snd c" c']
    by (simp add: mr_ok_def mr_order_def map_block)
next
  case (turns r sh)
  then show ?thesis using turn_ok [OF assms(3) turns(3)] assms(2) by (simp add: mr_ok_def [of _ _ _ _ _ "Mapping _"] mr_order_def)
next
  case (reduces parts c c')
  then show ?thesis using assms(2)
      reduce_tasks.block_step_ok [of "run (mr_reducer cfg)" "mr_out cfg" can_open parts "fst c" "snd c" c' fs "mr_R cfg"]
    by (simp add: mr_ok_def mr_order_def reduce_body_def)
next
  case (reports r parts e)
  have b: "shuffled run hasher cfg parts" "block_ok (reduce_body run cfg can_open parts) (cfg_reduce run can_open fs cfg parts) (mr_R cfg) (r, e)"
    using assms(2) reports by (simp_all add: mr_ok_def)
  have e: "cfg_reduce run can_open fs cfg parts e" "\<forall>t < mr_R cfg. reduce_move (run (mr_reducer cfg)) (mr_out cfg) can_open parts t e = None"
    using reduce_tasks.block_over [OF b(2) [unfolded reduce_body_def] reports(3)] by simp_all
  have "length parts = mr_R cfg" using b(1) by (auto simp: shuffled_def shuffle_inv_def)
  then have "\<forall>r < mr_R cfg. reducers e ! r = Written" using e by (simp add: reduce_move_None reduce_inv_def)
  then show ?thesis using reports b(1) e(1) by (auto simp: mr_ok_def mr_order_def)
qed

lemma mr_reach_ok:
  "mr_reach run hasher can_open fs cfg s \<Longrightarrow> paths_fit cfg \<Longrightarrow> mr_ok run hasher can_open fs cfg s"
proof (induction rule: mr_reach.induct)
  case start
  then show ?case by (rule mr_start_ok)
next
  case (step s s')
  then show ?case using mr_step_ok by blast
next
  case (wakes_mapping r b r')
  then show ?case using map_tasks.block_woken_ok [OF wakes_mapping(2)] by (simp add: mr_ok_def map_block)
next
  case (wakes_reducing parts r e r')
  then show ?case using reduce_tasks.block_woken_ok [OF wakes_reducing(2)] by (simp add: mr_ok_def reduce_body_def)
qed

lemma mr_progress:
  assumes "mr_ok run hasher can_open fs cfg s"
  shows "(\<exists>f msg. s = Reported f msg) \<or> (\<exists>s'. mr_step run hasher can_open fs cfg s s')"
proof (cases s)
  case (Mapping c)
  obtain r b where c: "c = (r, b)" by (cases c)
  show ?thesis
  proof (cases "client_over r")
    case True
    then show ?thesis using mr_step.turns [OF True] Mapping c by blast
  next
    case False
    have "block_ok (map_move (cfg_work run hasher cfg)) (cfg_shuffle run hasher cfg) (mr_M cfg) (r, b)"
      using assms Mapping c by (simp add: mr_ok_def map_block)
    then obtain c' where "block_step (map_body run hasher cfg) c c'" using map_tasks.block_progress [OF _ False] map_block c by metis
    then show ?thesis using mr_step.maps Mapping by blast
  qed
next
  case (Reducing parts c)
  obtain r e where c: "c = (r, e)" by (cases c)
  show ?thesis
  proof (cases "client_over r")
    case True
    then show ?thesis using mr_step.reports [OF True] Reducing c by blast
  next
    case False
    have "block_ok (reduce_body run cfg can_open parts) (cfg_reduce run can_open fs cfg parts) (mr_R cfg) (r, e)"
      using assms Reducing c by (simp add: mr_ok_def)
    then obtain c' where "block_step (reduce_body run cfg can_open parts) c c'"
      using reduce_tasks.block_progress [OF _ False] c unfolding reduce_body_def by metis
    then show ?thesis using mr_step.reduces Reducing by blast
  qed
qed simp

section \<open>Properties\<close>

lemma args_fit:
  assumes "mr_args fs argv = Inr cfg" and "\<And>r. r < mr_R cfg \<Longrightarrow> length (mr_out cfg @ ''/part-'' @ show_nat r) < 512"
  shows "paths_fit cfg \<and> (\<exists>path input. path = argv ! 1 \<and> fs path = Some input \<and> mr_lines cfg = getlines newline input)"
  using assms by (auto simp: mr_args_def mr_setup_def paths_fit_def split: list.splits sum.splits if_splits option.splits)

definition mr_text :: "(string \<Rightarrow> string \<Rightarrow> string) \<Rightarrow> (string \<Rightarrow> nat) \<Rightarrow> mr_config \<Rightarrow> nat \<Rightarrow> string" where
  "mr_text run hasher cfg r =
     (let inp = concat (map (\<lambda>l. l @ [newline]) (reducer_lines hasher (mr_R cfg) r (all_emitted (run (mr_mapper cfg)) (mr_M cfg) (mr_lines cfg))))
      in if inp = [] then [] else run (mr_reducer cfg) inp)"

lemma reported_files:
  assumes "mr_ok run hasher can_open fs cfg (Reported f msg)"
  shows "msg = mr_report cfg \<and> (\<forall>p. p \<notin> part_path (mr_out cfg) ` {..<mr_R cfg} \<longrightarrow> f p = fs p) \<and>
    (\<forall>r < mr_R cfg. f (part_path (mr_out cfg) r) =
       (if can_open (part_path (mr_out cfg) r) then Some (mr_text run hasher cfg r) else fs (part_path (mr_out cfg) r)))"
proof -
  obtain parts e where p: "shuffled run hasher cfg parts" and f: "f = files e" "msg = mr_report cfg"
    and e: "cfg_reduce run can_open fs cfg parts e" and w: "\<forall>r < mr_R cfg. reducers e ! r = Written"
    using assms by (auto simp: mr_ok_def)
  obtain sh where sh: "shuffle_inv (mr_work run hasher (mr_mapper cfg) (mr_M cfg) (mr_R cfg) (mr_lines cfg)) (mr_M cfg) (mr_R cfg) sh"
      "mapped sh" "parts = partitions sh"
    using p by (auto simp: shuffled_def cfg_work_def)
  have len: "length parts = mr_R cfg" using sh(1,3) by (simp add: shuffle_inv_def)
  have "reduce_text (run (mr_reducer cfg)) (parts ! r) = mr_text run hasher cfg r" if "r < mr_R cfg" for r
    using partition_input [OF sh(1,2) that] sh(3) by (simp add: reduce_text_def mr_text_def)
  then show ?thesis using e w f len by (auto simp: reduce_inv_def reducer_ok_def Let_def)
qed

text \<open>
  C28: the whole MapReduce program, on every interleaving of its main thread, its thread pools, its map tasks and its
  reduce tasks. It is never stuck before its closing message, each step lowers a well-founded
  rank, and when it is over file \<open>part-r\<close> holds what the reducer makes of the sorted records whose key hashes to
  \<open>r\<close>, for any mapper, reducer and hash function; every other file is as it was. A part that cannot be
  opened is left out without a word.
\<close>

theorem mapreduce_program:
  assumes "mr_args fs argv = Inr cfg" and "\<And>r. r < mr_R cfg \<Longrightarrow> length (mr_out cfg @ ''/part-'' @ show_nat r) < 512"
    and "mr_reach run hasher can_open fs cfg s"
  shows "(\<forall>s'. mr_step run hasher can_open fs cfg s s' \<longrightarrow> (s', s) \<in> mr_order run hasher cfg) \<and> wf (mr_order run hasher cfg) \<and>
    (case s of
       Reported f msg \<Rightarrow> msg = mr_report cfg \<and> (\<forall>p. p \<notin> part_path (mr_out cfg) ` {..<mr_R cfg} \<longrightarrow> f p = fs p) \<and>
         (\<forall>r < mr_R cfg. f (part_path (mr_out cfg) r) =
            (if can_open (part_path (mr_out cfg) r) then Some (mr_text run hasher cfg r) else fs (part_path (mr_out cfg) r)))
     | _ \<Rightarrow> \<exists>s'. mr_step run hasher can_open fs cfg s s')"
proof -
  have fit: "paths_fit cfg" using args_fit assms(1,2) by blast
  have ok: "mr_ok run hasher can_open fs cfg s" by (rule mr_reach_ok [OF assms(3) fit])
  have low: "\<forall>s'. mr_step run hasher can_open fs cfg s s' \<longrightarrow> (s', s) \<in> mr_order run hasher cfg" using mr_step_ok [OF _ ok fit] by blast
  show ?thesis
  proof (cases s)
    case (Reported f msg)
    show ?thesis using low wf_mr_order [of run hasher cfg] reported_files [OF ok [unfolded Reported]]
      unfolding Reported mr_state.case by (intro conjI) simp_all
  next
    case (Mapping c)
    then show ?thesis using low wf_mr_order [of run hasher cfg] mr_progress [OF ok] by simp
  next
    case (Reducing parts c)
    then show ?thesis using low wf_mr_order [of run hasher cfg] mr_progress [OF ok] by simp
  qed
qed

text \<open>A run that is over exists.\<close>

lemma mr_run_ends:
  assumes "mr_reach run hasher can_open fs cfg s" and "paths_fit cfg"
  shows "\<exists>f msg. mr_reach run hasher can_open fs cfg (Reported f msg)"
  using wf_mr_order [of run hasher cfg] assms
proof (induction s rule: wf_induct_rule)
  case (less s)
  have ok: "mr_ok run hasher can_open fs cfg s" by (rule mr_reach_ok [OF less.prems])
  show ?case
  proof (cases "\<exists>f msg. s = Reported f msg")
    case True
    then show ?thesis using less.prems(1) by blast
  next
    case False
    then obtain s' where s': "mr_step run hasher can_open fs cfg s s'" using mr_progress [OF ok] by blast
    then show ?thesis using less.IH [of s'] mr_step_ok [OF s' ok less.prems(2)] mr_reach.step [OF less.prems(1) s'] less.prems(2) by blast
  qed
qed

definition example_files :: "string \<rightharpoonup> string" where
  "example_files = [''in.txt'' \<mapsto> ''To be, or not to be'']"

definition example_config :: mr_config where
  "example_config = \<lparr>mr_lines = getlines newline ''To be, or not to be'', mr_M = 3, mr_R = 2, mr_mapper = ''./mapper'',
     mr_reducer = ''./reducer'', mr_out = ''out''\<rparr>"

lemma example_args: "mr_args example_files [''mr'', ''in.txt'', ''3'', ''2'', ''./mapper'', ''./reducer'', ''out''] = Inr example_config"
proof -
  have "atoi ''3'' = 3" "atoi ''2'' = 2" by code_simp+
  then show ?thesis by (simp add: mr_args_def mr_setup_def example_files_def example_config_def)
qed

lemma example_paths: "r < mr_R example_config \<Longrightarrow> length (mr_out example_config @ ''/part-'' @ show_nat r) < 512"
proof -
  have "show_nat 0 = ''0''" "show_nat 1 = ''1''" by code_simp+
  moreover assume "r < mr_R example_config"
  then have "r = 0 \<or> r = 1" by (auto simp: example_config_def)
  ultimately show ?thesis by (auto simp: example_config_def)
qed

lemma example_mr_ends: "\<exists>f msg. mr_reach example_run example_hash (\<lambda>p. True) example_files example_config (Reported f msg)"
  by (rule mr_run_ends [OF mr_reach.start]) (use args_fit [OF example_args example_paths] in blast)

lemma mapreduce_program_witness:
  "\<exists>f msg. mr_reach example_run example_hash (\<lambda>p. True) example_files example_config (Reported f msg) \<and>
    f ''in.txt'' = Some ''To be, or not to be'' \<and>
    f (part_path ''out'' 1) = Some (mr_text example_run example_hash example_config 1)"
proof -
  obtain f msg where r: "mr_reach example_run example_hash (\<lambda>p. True) example_files example_config (Reported f msg)"
    using example_mr_ends by blast
  have c: "mr_out example_config = ''out''" "mr_R example_config = 2" by (simp_all add: example_config_def)
  note m = mapreduce_program [OF example_args example_paths r, unfolded mr_state.case c]
  have "''in.txt'' \<notin> part_path ''out'' ` {..<2}" by (auto simp: part_path_def)
  then have "f ''in.txt'' = example_files ''in.txt''" using m by blast
  moreover have "f (part_path ''out'' 1) = Some (mr_text example_run example_hash example_config 1)" using m by simp
  ultimately show ?thesis using r by (simp add: example_files_def) blast
qed

text \<open>
  C29: word counting, end to end. With the repository's mapper and reducer and an output directory that can be
  written to, whatever the interleaving, the number of chunks, the number of partitions and the hash function, the
  program ends with every word of the input counted once: file \<open>part-r\<close> holds, in
  alphabetical order, one line for each word whose hash is \<open>r\<close>, with the number of times it occurs in the input.
\<close>

theorem mapreduce_counts_words:
  assumes "mr_args fs argv = Inr cfg" and "\<And>r. r < mr_R cfg \<Longrightarrow> length (mr_out cfg @ ''/part-'' @ show_nat r) < 512"
    and "\<And>r. r < mr_R cfg \<Longrightarrow> can_open (part_path (mr_out cfg) r)"
    and "run (mr_mapper cfg) = mapper" and "\<And>inp out. reducer inp = Some out \<Longrightarrow> run (mr_reducer cfg) inp = out"
    and "fs (argv ! 1) = Some input" and "length (text_words input) < 2 ^ 63"
    and "mr_reach run hasher can_open fs cfg (Reported f msg)"
  shows "\<forall>r < mr_R cfg. f (part_path (mr_out cfg) r) = Some
    (concat (map (\<lambda>w. w @ tab # show_int (int (count_list (text_words input) w)) @ [newline])
       (sort (remdups (filter (\<lambda>w. hasher w mod mr_R cfg = r) (text_words input))))))"
proof (intro allI impI)
  fix r assume r: "r < mr_R cfg"
  have fit: "paths_fit cfg" and ls: "mr_lines cfg = getlines newline input" using args_fit [OF assms(1,2)] assms(6) by auto
  have "f (part_path (mr_out cfg) r) = Some (mr_text run hasher cfg r)"
    using reported_files [OF mr_reach_ok [OF assms(8) fit]] assms(3) [OF r] r by simp
  moreover have "mr_text run hasher cfg r = word_lines hasher (mr_R cfg) r input"
    unfolding mr_text_def Let_def ls assms(4)
    by (rule counted_part [OF _ assms(7,5) refl]) (use fit in \<open>simp add: paths_fit_def\<close>)
  ultimately show "f (part_path (mr_out cfg) r) = Some
    (concat (map (\<lambda>w. w @ tab # show_int (int (count_list (text_words input) w)) @ [newline])
       (sort (remdups (filter (\<lambda>w. hasher w mod mr_R cfg = r) (text_words input))))))"
    by (simp add: word_lines_def)
qed

lemma mapreduce_counts_words_witness:
  "\<exists>f msg. mr_reach example_run example_hash (\<lambda>p. True) example_files example_config (Reported f msg) \<and>
    f (part_path ''out'' 1) = Some
    (concat (map (\<lambda>w. w @ tab # show_int (int (count_list (text_words ''To be, or not to be'') w)) @ [newline])
       (sort (remdups (filter (\<lambda>w. example_hash w mod 2 = 1) (text_words ''To be, or not to be''))))))"
proof -
  obtain f msg where r: "mr_reach example_run example_hash (\<lambda>p. True) example_files example_config (Reported f msg)"
    using example_mr_ends by blast
  have run: "example_run (mr_mapper example_config) = mapper" by (simp add: example_run_def example_config_def fun_eq_iff)
  have red: "reducer inp = Some out \<Longrightarrow> example_run (mr_reducer example_config) inp = out" for inp out
    by (simp add: example_run_def example_config_def)
  have len: "length (text_words ''To be, or not to be'') < 2 ^ 63" by (rule le_less_trans [OF text_words_length]) simp
  have fs: "example_files ([''mr'', ''in.txt'', ''3'', ''2'', ''./mapper'', ''./reducer'', ''out''] ! 1) = Some ''To be, or not to be''"
    by (simp add: example_files_def)
  show ?thesis
    using mapreduce_counts_words [OF example_args example_paths _ run red fs len r] r
    by (intro exI [of _ f] exI [of _ msg]) (simp add: example_config_def)
qed

end
