(* ===== verification/Stsh_Parse.thy ===== *)
theory Stsh_Parse
  imports Prelude
begin

text \<open>
  The shell's command-line parser (\<open>stsh-parse.h\<close>, \<open>stsh-parse.cc\<close>): the lexer, the single pass that
  assembles a \<open>pipeline_t\<close>, and their round trip with a printer of pipelines.
\<close>

section \<open>The parser\<close>

record pipeline_t =
  commands :: "string list list"
  infile :: string
  outfile :: string
  background :: bool
  valid :: bool
  error :: string

definition empty_pipeline :: pipeline_t where
  "empty_pipeline = \<lparr>commands = [], infile = [], outfile = [], background = False, valid = True, error = []\<rparr>"

definition is_op_char :: "char \<Rightarrow> bool" where
  "is_op_char c \<longleftrightarrow> c = CHR ''|'' \<or> c = CHR ''<'' \<or> c = CHR ''>'' \<or> c = CHR ''&''"

definition flush :: "string \<Rightarrow> string list" where
  "flush cur = (if cur \<noteq> [] then [cur] else [])"

fun lex_loop :: "string \<Rightarrow> string \<Rightarrow> string list" where
  "lex_loop cur [] = flush cur"
| "lex_loop cur (c # cs) =
     (if isspace c then flush cur @ lex_loop [] cs
      else if is_op_char c then flush cur @ [[c]] @ lex_loop [] cs
      else lex_loop (cur @ [c]) cs)"

definition lex :: "string \<Rightarrow> string list" where
  "lex line = lex_loop [] line"

definition isOperator :: "string \<Rightarrow> bool" where
  "isOperator t \<longleftrightarrow> t = ''|'' \<or> t = ''<'' \<or> t = ''>'' \<or> t = ''&''"

definition quoted :: "string \<Rightarrow> string" where
  "quoted s = [CHR 0x27] @ s @ [CHR 0x27]"

definition fail :: "string \<Rightarrow> pipeline_t \<Rightarrow> pipeline_t" where
  "fail msg p = p\<lparr>valid := False, error := msg\<rparr>"

text \<open>After the loop: the last stage is added, and a bare redirection is refused.\<close>

definition finish :: "string list \<Rightarrow> pipeline_t \<Rightarrow> pipeline_t" where
  "finish current p =
     (let p' = (if current \<noteq> [] then p\<lparr>commands := commands p @ [current]\<rparr> else p)
      in if commands p' = [] \<and> (infile p' \<noteq> [] \<or> outfile p' \<noteq> [])
         then fail ''redirection without a command'' p' else p')"

fun parse_loop :: "string list \<Rightarrow> string list \<Rightarrow> pipeline_t \<Rightarrow> pipeline_t" where
  "parse_loop [] current p = finish current p"
| "parse_loop (t # ts) current p =
     (if t = ''|'' then
        (if current = [] then fail (''missing command before '' @ quoted ''|'') p
         else parse_loop ts [] (p\<lparr>commands := commands p @ [current]\<rparr>))
      else if t = ''<'' then
        (case ts of
           [] \<Rightarrow> fail (''expected filename after '' @ quoted ''<'') p
         | f # ts' \<Rightarrow> if isOperator f then fail (''expected filename after '' @ quoted ''<'') p
                     else parse_loop ts' current (p\<lparr>infile := f\<rparr>))
      else if t = ''>'' then
        (case ts of
           [] \<Rightarrow> fail (''expected filename after '' @ quoted ''>'') p
         | f # ts' \<Rightarrow> if isOperator f then fail (''expected filename after '' @ quoted ''>'') p
                     else parse_loop ts' current (p\<lparr>outfile := f\<rparr>))
      else if t = ''&'' then
        (if ts \<noteq> [] then fail (quoted ''&'' @ '' must be the last token'') p
         else parse_loop ts current (p\<lparr>background := True\<rparr>))
      else parse_loop ts (current @ [t]) p)"

definition parsePipeline :: "string \<Rightarrow> pipeline_t" where
  "parsePipeline line = parse_loop (lex line) [] empty_pipeline"

section \<open>Words and tokens\<close>

definition is_word :: "string \<Rightarrow> bool" where
  "is_word w \<longleftrightarrow> w \<noteq> [] \<and> (\<forall>c \<in> set w. \<not> isspace c \<and> \<not> is_op_char c)"

lemma op_tokens: "is_op_char c \<Longrightarrow> isOperator [c]"
  by (auto simp: is_op_char_def isOperator_def)

lemma isOperator_cases: "isOperator t \<longleftrightarrow> (\<exists>c. t = [c] \<and> is_op_char c)"
  by (auto simp: is_op_char_def isOperator_def)

lemma word_not_operator: "is_word w \<Longrightarrow> \<not> isOperator w"
  by (auto simp: is_word_def isOperator_cases)

lemma is_op_char_not_space: "is_op_char c \<Longrightarrow> \<not> isspace c"
  by (auto simp: is_op_char_def isspace_def char_code_def)

text \<open>Every token is an operator or a word.\<close>

lemma lex_loop_tokens:
  "cur = [] \<or> is_word cur \<Longrightarrow> t \<in> set (lex_loop cur cs) \<Longrightarrow> isOperator t \<or> is_word t"
proof (induction cur cs arbitrary: t rule: lex_loop.induct)
  case (1 cur)
  then show ?case by (auto simp: flush_def split: if_splits)
next
  case (2 cur c cs)
  consider "isspace c" | "\<not> isspace c" "is_op_char c" | "\<not> isspace c" "\<not> is_op_char c" by blast
  then show ?case
  proof cases
    case 1
    then show ?thesis using "2.IH"(1) "2.prems" by (auto simp: flush_def split: if_splits)
  next
    case op: 2
    then show ?thesis using "2.IH"(2) "2.prems" op_tokens by (auto simp: flush_def split: if_splits)
  next
    case 3
    then have "is_word (cur @ [c])" using "2.prems"(1) by (auto simp: is_word_def)
    with 3 show ?thesis using "2.IH"(3) "2.prems"(2) by simp
  qed
qed

lemma lex_tokens: "t \<in> set (lex line) \<Longrightarrow> isOperator t \<or> is_word t"
  using lex_loop_tokens [of "[]"] by (simp add: lex_def)

text \<open>A word takes in the characters up to the next space or operator.\<close>

lemma lex_loop_word:
  "\<forall>c \<in> set w. \<not> isspace c \<and> \<not> is_op_char c \<Longrightarrow> lex_loop cur (w @ s) = lex_loop (cur @ w) s"
  by (induction w arbitrary: cur) auto

lemma lex_word: "is_word w \<Longrightarrow> s = [] \<or> isspace (hd s) \<or> is_op_char (hd s) \<Longrightarrow> lex (w @ s) = w # lex s"
  using lex_loop_word [of w "[]" s]
  by (cases s) (auto simp: lex_def is_word_def flush_def)

lemma lex_space: "isspace c \<Longrightarrow> lex (c # s) = lex s"
  by (simp add: lex_def flush_def)

lemma lex_op: "is_op_char c \<Longrightarrow> lex (c # s) = [c] # lex s"
  using is_op_char_not_space [of c] by (simp add: lex_def flush_def)

lemma lex_Nil [simp]: "lex [] = []"
  by (simp add: lex_def flush_def)

section \<open>What a valid result looks like\<close>

definition stage_ok :: "string list \<Rightarrow> bool" where
  "stage_ok argv \<longleftrightarrow> argv \<noteq> [] \<and> (\<forall>w \<in> set argv. is_word w)"

definition parsed_ok :: "pipeline_t \<Rightarrow> bool" where
  "parsed_ok p \<longleftrightarrow> (\<forall>argv \<in> set (commands p). stage_ok argv) \<and>
     (infile p = [] \<or> is_word (infile p)) \<and> (outfile p = [] \<or> is_word (outfile p))"

lemma parsed_ok_simps [simp]:
  "parsed_ok (fail m p) = parsed_ok p"
  "parsed_ok (p\<lparr>background := b\<rparr>) = parsed_ok p"
  "parsed_ok (p\<lparr>commands := commands p @ [a]\<rparr>) \<longleftrightarrow> parsed_ok p \<and> stage_ok a"
  "is_word f \<Longrightarrow> parsed_ok p \<Longrightarrow> parsed_ok (p\<lparr>infile := f\<rparr>)"
  "is_word f \<Longrightarrow> parsed_ok p \<Longrightarrow> parsed_ok (p\<lparr>outfile := f\<rparr>)"
  by (auto simp: parsed_ok_def fail_def)

lemma parse_loop_ok:
  "\<forall>t \<in> set ts. isOperator t \<or> is_word t \<Longrightarrow> \<forall>w \<in> set current. is_word w \<Longrightarrow> parsed_ok p \<Longrightarrow>
   parsed_ok (parse_loop ts current p)"
proof (induction ts current p rule: parse_loop.induct)
  case (1 current p)
  then show ?case by (auto simp: finish_def Let_def stage_ok_def)
next
  case (2 t ts current p)
  consider "t = ''|''" | "t = ''<''" | "t = ''>''" | "t = ''&''" | "\<not> isOperator t"
    by (auto simp: isOperator_def)
  then show ?case
  proof cases
    case 1
    then show ?thesis using 2 by (simp add: stage_ok_def)
  next
    case lt: 2
    then show ?thesis using "2.prems" "2.IH"(2) by (cases ts) auto
  next
    case 3
    then show ?thesis using "2.prems" "2.IH"(3) by (cases ts) auto
  next
    case 4
    then show ?thesis using 2 by (simp add: stage_ok_def)
  next
    case 5
    then have "is_word t" using "2.prems"(1) by simp
    with 5 show ?thesis using 2 by (simp add: isOperator_def)
  qed
qed

lemma parse_loop_valid_commands:
  "valid (parse_loop ts current p) \<Longrightarrow> commands (parse_loop ts current p) = [] \<Longrightarrow>
   infile (parse_loop ts current p) = [] \<and> outfile (parse_loop ts current p) = []"
proof (induction ts current p rule: parse_loop.induct)
  case (1 current p)
  then show ?case by (auto simp: finish_def fail_def Let_def split: if_splits)
next
  case (2 t ts current p)
  consider "t = ''|''" | "t = ''<''" | "t = ''>''" | "t = ''&''" | "\<not> isOperator t"
    by (auto simp: isOperator_def)
  then show ?case
  proof cases
    case 1
    then show ?thesis using 2 by (auto simp: fail_def split: if_splits)
  next
    case lt: 2
    then show ?thesis using "2.prems" "2.IH"(2) by (cases ts) (auto simp: fail_def split: if_splits)
  next
    case 3
    then show ?thesis using "2.prems" "2.IH"(3) by (cases ts) (auto simp: fail_def split: if_splits)
  next
    case 4
    then show ?thesis using 2 by (simp add: fail_def split: if_splits)
  next
    case 5
    then show ?thesis using 2 by (simp add: isOperator_def)
  qed
qed

section \<open>Printing a pipeline\<close>

fun render_words :: "string list \<Rightarrow> string" where
  "render_words [] = []"
| "render_words (w # ws) = CHR '' '' # w @ render_words ws"

fun render_stages :: "string list list \<Rightarrow> string" where
  "render_stages [] = []"
| "render_stages [a] = render_words a"
| "render_stages (a # b # rest) = render_words a @ ''|'' @ render_stages (b # rest)"

definition render :: "pipeline_t \<Rightarrow> string" where
  "render p = render_stages (commands p) @
     (if infile p = [] then [] else ''<'' @ infile p) @
     (if outfile p = [] then [] else ''>'' @ outfile p) @
     (if background p then ''&'' else [])"

text \<open>The tokens of the printed form.\<close>

fun stage_tokens :: "string list list \<Rightarrow> string list" where
  "stage_tokens [] = []"
| "stage_tokens [a] = a"
| "stage_tokens (a # b # rest) = a @ ''|'' # stage_tokens (b # rest)"

definition tail_tokens :: "pipeline_t \<Rightarrow> string list" where
  "tail_tokens p = (if infile p = [] then [] else [''<'', infile p]) @
     (if outfile p = [] then [] else [''>'', outfile p]) @ (if background p then [''&''] else [])"

definition starts_op :: "string \<Rightarrow> bool" where
  "starts_op s \<longleftrightarrow> s = [] \<or> isspace (hd s) \<or> is_op_char (hd s)"

lemma space_is_space: "isspace CHR '' ''"
  by (simp add: isspace_def char_code_def)

lemma starts_op_render_words: "starts_op s \<Longrightarrow> starts_op (render_words ws @ s)"
  by (cases ws) (auto simp: starts_op_def space_is_space)

lemma lex_render_words: "\<forall>w \<in> set ws. is_word w \<Longrightarrow> starts_op s \<Longrightarrow> lex (render_words ws @ s) = ws @ lex s"
proof (induction ws)
  case (Cons w ws)
  have "lex (w @ render_words ws @ s) = w # lex (render_words ws @ s)"
    using Cons.prems starts_op_render_words [of s ws] by (intro lex_word) (auto simp: starts_op_def)
  with Cons show ?case by (simp add: lex_space space_is_space)
qed simp

lemma op_chars: "is_op_char CHR ''|''" "is_op_char CHR ''<''" "is_op_char CHR ''>''" "is_op_char CHR ''&''"
  by (simp_all add: is_op_char_def)

lemma lex_render_stages:
  "\<forall>a \<in> set cs. stage_ok a \<Longrightarrow> starts_op s \<Longrightarrow> lex (render_stages cs @ s) = stage_tokens cs @ lex s"
proof (induction cs rule: render_stages.induct)
  case (2 a)
  then show ?case by (simp add: lex_render_words stage_ok_def)
next
  case (3 a b rest)
  have "lex (render_words a @ CHR ''|'' # render_stages (b # rest) @ s)
      = a @ lex (CHR ''|'' # render_stages (b # rest) @ s)"
    using 3 by (intro lex_render_words) (auto simp: stage_ok_def starts_op_def op_chars)
  with 3 show ?case by (simp add: lex_op op_chars)
qed simp

lemma lex_render:
  assumes "parsed_ok p"
  shows "lex (render p) = stage_tokens (commands p) @ tail_tokens p"
proof -
  let ?amp = "if background p then ''&'' else []"
  let ?out = "(if outfile p = [] then [] else ''>'' @ outfile p) @ ?amp"
  let ?in = "(if infile p = [] then [] else ''<'' @ infile p) @ ?out"
  have a: "starts_op ?amp" "lex ?amp = (if background p then [''&''] else [])"
    by (auto simp: starts_op_def op_chars lex_op)
  have w: "is_word f \<Longrightarrow> starts_op s \<Longrightarrow> lex (f @ s) = f # lex s" for f s
    unfolding starts_op_def by (rule lex_word)
  then have w0: "is_word f \<Longrightarrow> lex f = [f]" for f using lex_word [of f "[]"] by simp
  have o: "starts_op ?out" "lex ?out = (if outfile p = [] then [] else [''>'', outfile p]) @ lex ?amp"
    using assms a(1) w w0 by (auto simp: parsed_ok_def lex_op op_chars) (auto simp: starts_op_def op_chars)
  have i: "starts_op ?in" "lex ?in = (if infile p = [] then [] else [''<'', infile p]) @ lex ?out"
    using assms o(1) w [OF _ o(1)] by (auto simp: parsed_ok_def lex_op op_chars) (auto simp: starts_op_def op_chars)
  have "\<forall>c \<in> set (commands p). stage_ok c" using assms by (simp add: parsed_ok_def)
  from lex_render_stages [OF this i(1)] show ?thesis
    unfolding render_def i(2) o(2) a(2) tail_tokens_def by simp
qed

lemma parse_words: "\<forall>w \<in> set ws. is_word w \<Longrightarrow> parse_loop (ws @ ts) cur p = parse_loop ts (cur @ ws) p"
proof (induction ws arbitrary: cur)
  case (Cons w ws)
  then have "\<not> isOperator w" by (simp add: word_not_operator)
  then have "w \<noteq> ''|''" "w \<noteq> ''<''" "w \<noteq> ''>''" "w \<noteq> ''&''" by (auto simp: isOperator_def)
  with Cons show ?case by simp
qed simp

lemma parse_stages:
  "\<forall>a \<in> set cs. stage_ok a \<Longrightarrow> cs \<noteq> [] \<Longrightarrow>
   parse_loop (stage_tokens cs @ ts) [] p = parse_loop ts (last cs) (p\<lparr>commands := commands p @ butlast cs\<rparr>)"
proof (induction cs arbitrary: p rule: stage_tokens.induct)
  case (2 a)
  then show ?case by (simp add: parse_words stage_ok_def)
next
  case (3 a b rest)
  then have a: "a \<noteq> []" "\<forall>w \<in> set a. is_word w" by (simp_all add: stage_ok_def)
  have "parse_loop (a @ ''|'' # stage_tokens (b # rest) @ ts) [] p
      = parse_loop (''|'' # stage_tokens (b # rest) @ ts) a p"
    using parse_words [OF a(2), of "''|'' # stage_tokens (b # rest) @ ts" "[]"] by simp
  with 3 a show ?case by simp
qed simp

lemma parse_tail:
  assumes "parsed_ok p" and "cur \<noteq> []" and "infile q = []" "outfile q = []" "\<not> background q" "valid q"
  shows "parse_loop (tail_tokens p) cur q
    = q\<lparr>commands := commands q @ [cur], infile := infile p, outfile := outfile p, background := background p\<rparr>"
proof -
  have "infile p \<noteq> [] \<Longrightarrow> \<not> isOperator (infile p)" "outfile p \<noteq> [] \<Longrightarrow> \<not> isOperator (outfile p)"
    using assms(1) word_not_operator by (auto simp: parsed_ok_def)
  with assms(2-6) show ?thesis
    by (cases "infile p = []"; cases "outfile p = []"; cases "background p")
      (simp_all add: tail_tokens_def finish_def Let_def)
qed


section \<open>Properties\<close>

text \<open>
  C22: the parser inverts printing: a pipeline of any length whose words are free of spaces and shell
  operators, with any redirections and with or without \<open>&\<close>, is parsed from its printed form
  exactly, with no error.
\<close>
theorem parse_render:
  assumes "parsed_ok p" and "commands p \<noteq> []" and "valid p" and "error p = []"
  shows "parsePipeline (render p) = p"
proof -
  have st: "\<forall>a \<in> set (commands p). stage_ok a" using assms(1) by (simp add: parsed_ok_def)
  then have ne: "last (commands p) \<noteq> []" using assms(2) by (simp add: stage_ok_def)
  let ?q = "empty_pipeline\<lparr>commands := butlast (commands p)\<rparr>"
  have "parsePipeline (render p) = parse_loop (tail_tokens p) (last (commands p)) ?q"
    using parse_stages [OF st assms(2), of "tail_tokens p" empty_pipeline]
    by (simp add: parsePipeline_def lex_render [OF assms(1)] empty_pipeline_def)
  also have "\<dots> = ?q\<lparr>commands := commands ?q @ [last (commands p)], infile := infile p, outfile := outfile p,
      background := background p\<rparr>"
    by (rule parse_tail [OF assms(1) ne]) (simp_all add: empty_pipeline_def)
  also have "\<dots> = p"
    using assms(2-4) by (cases p) (simp add: empty_pipeline_def)
  finally show ?thesis .
qed

definition example_pipeline :: pipeline_t where
  "example_pipeline = \<lparr>commands = [[''cat'', ''-n''], [''sort''], [''wc'', ''-l'']], infile = ''in.txt'', outfile = ''out'',
     background = True, valid = True, error = []\<rparr>"

lemma example_pipeline_ok: "parsed_ok example_pipeline"
  by (simp add: example_pipeline_def parsed_ok_def stage_ok_def is_word_def is_op_char_def isspace_def char_code_def)

lemma parse_render_witness: "parsePipeline (render example_pipeline) = example_pipeline"
  by (rule parse_render [OF example_pipeline_ok]) (simp_all add: example_pipeline_def)

text \<open>
  C25: whatever the line, the stages the parser returns are non-empty lists of words and the redirection
  targets are absent or words, with no space or operator inside; and a line accepted as valid has no
  redirection without a command.
\<close>
theorem parse_sound:
  "(\<forall>argv \<in> set (commands (parsePipeline line)). argv \<noteq> [] \<and> (\<forall>w \<in> set argv. is_word w)) \<and>
   (infile (parsePipeline line) = [] \<or> is_word (infile (parsePipeline line))) \<and>
   (outfile (parsePipeline line) = [] \<or> is_word (outfile (parsePipeline line))) \<and>
   (valid (parsePipeline line) \<and> commands (parsePipeline line) = [] \<longrightarrow>
      infile (parsePipeline line) = [] \<and> outfile (parsePipeline line) = [])"
proof -
  have "parsed_ok (parsePipeline line)"
    unfolding parsePipeline_def
    by (rule parse_loop_ok) (simp_all add: lex_tokens, simp add: parsed_ok_def empty_pipeline_def)
  then show ?thesis
    using parse_loop_valid_commands [of "lex line" "[]" empty_pipeline]
    by (auto simp: parsed_ok_def stage_ok_def parsePipeline_def)
qed

lemma parse_sound_witness:
  "\<exists>line. line = ''ls>out'' \<and> ((\<forall>argv \<in> set (commands (parsePipeline line)). argv \<noteq> [] \<and> (\<forall>w \<in> set argv. is_word w)) \<and>
   (infile (parsePipeline line) = [] \<or> is_word (infile (parsePipeline line))) \<and>
   (outfile (parsePipeline line) = [] \<or> is_word (outfile (parsePipeline line))) \<and>
   (valid (parsePipeline line) \<and> commands (parsePipeline line) = [] \<longrightarrow>
      infile (parsePipeline line) = [] \<and> outfile (parsePipeline line) = []))"
  by (rule exI [of _ "''ls>out''"], rule conjI [OF refl], rule parse_sound)

text \<open>A pipe with no stage behind it is accepted.\<close>

lemma trailing_pipe_accepted: "parsePipeline ''ls |'' = empty_pipeline\<lparr>commands := [[''ls'']]\<rparr>"
  by code_simp

end
