(* ===== verification/Posix_Fd.thy ===== *)
theory Posix_Fd
  imports Prelude
begin

text \<open>
  A process's descriptor table as the kernel keeps it, and the calls on it that \<open>stsh.cc\<close>,
  \<open>subprocess.cc\<close>, \<open>pipeline.cc\<close> and \<open>farm.cc\<close> make: \<open>pipe\<close>, \<open>pipe2(O_CLOEXEC)\<close>, \<open>open\<close>, \<open>dup2\<close>,
  \<open>close\<close>, the copy that \<open>fork\<close> gives a child and the close-on-exec sweep of \<open>execvp\<close>. A table is a
  list indexed by the descriptor; \<^term>\<open>None\<close> marks a closed slot, and a new descriptor is the lowest
  closed one. The variables that hold \<open>-1\<close> for no descriptor are of type \<^typ>\<open>nat option\<close>.
  The contract \<open>descriptor_table\<close> is what the clients' proofs use of a table.
\<close>

section \<open>Tables\<close>

datatype open_file =
    Tty nat
  | Pipe_Read nat
  | Pipe_Write nat
  | File_Read string
  | File_Write string

record fd_entry =
  refers :: open_file
  cloexec :: bool

type_synonym fd_table = "fd_entry option list"

definition fd_get :: "fd_table \<Rightarrow> nat \<Rightarrow> fd_entry option" where
  "fd_get t n = (if n < length t then t ! n else None)"

definition fd_put :: "nat \<Rightarrow> fd_entry option \<Rightarrow> fd_table \<Rightarrow> fd_table" where
  "fd_put n e t = (if n < length t then t[n := e] else t @ replicate (n - length t) None @ [e])"

definition fd_lowest :: "fd_table \<Rightarrow> nat" where
  "fd_lowest t = length (takeWhile (\<lambda>e. e \<noteq> None) t)"

definition fd_close :: "nat \<Rightarrow> fd_table \<Rightarrow> fd_table" where
  "fd_close n t = (if fd_get t n = None then t else fd_put n None t)"

definition fd_alloc :: "open_file \<Rightarrow> bool \<Rightarrow> fd_table \<Rightarrow> nat \<times> fd_table" where
  "fd_alloc f ce t = (fd_lowest t, fd_put (fd_lowest t) (Some \<lparr>refers = f, cloexec = ce\<rparr>) t)"

text \<open>
  \<open>dup2(a, b)\<close> fails on a closed \<open>a\<close>, does nothing when \<open>a\<close> and \<open>b\<close> are the same, and otherwise
  replaces \<open>b\<close>; the copy never has the close-on-exec flag.
\<close>

definition dup2 :: "nat \<Rightarrow> nat \<Rightarrow> fd_table \<Rightarrow> fd_table" where
  "dup2 a b t = (case fd_get t a of
       None \<Rightarrow> t
     | Some e \<Rightarrow> if a = b then t else fd_put b (Some (e\<lparr>cloexec := False\<rparr>)) t)"

text \<open>A new pipe, with the number the kernel gives it: read end first, then write end.\<close>

definition make_pipe :: "bool \<Rightarrow> nat \<Rightarrow> fd_table \<Rightarrow> (nat \<times> nat) \<times> fd_table" where
  "make_pipe ce k t =
     (let (r, t) = fd_alloc (Pipe_Read k) ce t; (w, t) = fd_alloc (Pipe_Write k) ce t in ((r, w), t))"

definition exec_table :: "fd_table \<Rightarrow> fd_table" where
  "exec_table t = map (\<lambda>e. case e of Some d \<Rightarrow> if cloexec d then None else e | None \<Rightarrow> None) t"

text \<open>What a forked child ends up as: running a program with its descriptors, or gone.\<close>

datatype child_outcome = Execs "string list" fd_table | Exits int

section \<open>The contract\<close>

locale descriptor_table =
  fixes get :: "'t \<Rightarrow> nat \<Rightarrow> 'e option" and put :: "nat \<Rightarrow> 'e option \<Rightarrow> 't \<Rightarrow> 't"
    and lowest :: "'t \<Rightarrow> nat" and shut :: "nat \<Rightarrow> 't \<Rightarrow> 't"
  assumes get_put: "get (put n e t) = (get t)(n := e)"
    and get_shut: "get (shut n t) = (get t)(n := None)"
    and get_lowest: "get t (lowest t) = None"
    and below_lowest: "n < lowest t \<Longrightarrow> get t n \<noteq> None"
begin

text \<open>Two allocations in a row give two different closed descriptors.\<close>

lemma lowest_twice:
  assumes "e \<noteq> None"
  shows "lowest (put (lowest t) e t) \<noteq> lowest t" and "get t (lowest (put (lowest t) e t)) = None"
proof -
  have *: "get (put (lowest t) e t) (lowest (put (lowest t) e t)) = None" by (rule get_lowest)
  show ne: "lowest (put (lowest t) e t) \<noteq> lowest t"
    using * assms by (auto simp: get_put)
  show "get t (lowest (put (lowest t) e t)) = None"
    using * ne by (simp add: get_put)
qed

text \<open>An open descriptor is not handed out.\<close>

lemma lowest_not_open: "get t n \<noteq> None \<Longrightarrow> lowest t \<noteq> n"
  using get_lowest by metis

text \<open>Moving a descriptor onto another and closing the original leaves one copy.\<close>

lemma moved: "a \<noteq> b \<Longrightarrow> get t' = get t \<Longrightarrow> get (shut a (put b e t')) = (get t)(b := e, a := None)"
  by (simp add: get_put get_shut)

lemma shut_closed: "get t n = None \<Longrightarrow> get (shut n t) = get t"
  by (auto simp: get_shut)

lemma put_shut_restores: "get t n = None \<Longrightarrow> get (shut n (put n e t)) = get t"
  by (auto simp: get_put get_shut)

end

lemma fd_get_put: "fd_get (fd_put n e t) = (fd_get t)(n := e)"
  by (rule ext) (auto simp: fd_get_def fd_put_def nth_append nth_Cons')

lemma fd_get_lowest: "fd_get t (fd_lowest t) = None"
proof (cases "fd_lowest t < length t")
  case True
  then show ?thesis
    unfolding fd_lowest_def fd_get_def using nth_length_takeWhile [of "\<lambda>e. e \<noteq> None" t] by auto
next
  case False
  then show ?thesis by (simp add: fd_get_def)
qed

lemma fd_below_lowest:
  assumes "n < fd_lowest t"
  shows "fd_get t n \<noteq> None"
proof -
  have "n < length t"
    using assms length_takeWhile_le [of "\<lambda>e. e \<noteq> None" t] unfolding fd_lowest_def by linarith
  moreover have "t ! n \<noteq> None"
    using assms nth_mem [of n "takeWhile (\<lambda>e. e \<noteq> None) t"] set_takeWhileD takeWhile_nth
    unfolding fd_lowest_def by metis
  ultimately show ?thesis by (simp add: fd_get_def)
qed

lemma fd_get_close: "fd_get (fd_close n t) = (fd_get t)(n := None)"
  by (auto simp: fd_close_def fd_get_put)

interpretation fd: descriptor_table fd_get fd_put fd_lowest fd_close
  by unfold_locales (simp_all add: fd_get_put fd_get_close fd_get_lowest fd_below_lowest)

section \<open>The calls\<close>

named_theorems fd_simps \<open>what each call does to the descriptors\<close>

declare fd.get_put [fd_simps] fd.get_shut [fd_simps]

lemma fd_get_dup2 [fd_simps]:
  "fd_get t a = Some e \<Longrightarrow> a \<noteq> b \<Longrightarrow> fd_get (dup2 a b t) = (fd_get t)(b \<mapsto> e\<lparr>cloexec := False\<rparr>)"
  by (simp add: dup2_def fd.get_put)

lemma fd_get_exec [fd_simps]:
  "fd_get (exec_table t) n = (case fd_get t n of Some d \<Rightarrow> if cloexec d then None else Some d | None \<Rightarrow> None)"
  by (simp add: fd_get_def exec_table_def split: option.split)

text \<open>A pipe takes two closed descriptors and changes nothing else.\<close>

lemma make_pipe_fresh:
  assumes "make_pipe ce k t = ((r, w), t')"
  shows "fd_get t r = None" and "fd_get t w = None" and "r \<noteq> w"
    and "fd_get t' = (fd_get t)(r \<mapsto> \<lparr>refers = Pipe_Read k, cloexec = ce\<rparr>, w \<mapsto> \<lparr>refers = Pipe_Write k, cloexec = ce\<rparr>)"
proof -
  let ?e = "Some \<lparr>refers = Pipe_Read k, cloexec = ce\<rparr>"
  have r: "r = fd_lowest t" and w: "w = fd_lowest (fd_put r ?e t)"
    and t': "t' = fd_put w (Some \<lparr>refers = Pipe_Write k, cloexec = ce\<rparr>) (fd_put r ?e t)"
    using assms by (auto simp: make_pipe_def fd_alloc_def Let_def)
  show "fd_get t r = None" unfolding r by (rule fd.get_lowest)
  show "fd_get t w = None" unfolding w r by (rule fd.lowest_twice(2)) simp
  show "r \<noteq> w" unfolding w r by (rule fd.lowest_twice(1) [THEN not_sym]) simp
  show "fd_get t' = (fd_get t)(r \<mapsto> \<lparr>refers = Pipe_Read k, cloexec = ce\<rparr>, w \<mapsto> \<lparr>refers = Pipe_Write k, cloexec = ce\<rparr>)"
    unfolding t' by (simp add: fd.get_put)
qed

lemma fd_alloc_fresh:
  assumes "fd_alloc f ce t = (n, t')"
  shows "fd_get t n = None" and "fd_get t' = (fd_get t)(n \<mapsto> \<lparr>refers = f, cloexec = ce\<rparr>)"
  using assms by (auto simp: fd_alloc_def fd.get_lowest fd.get_put)

text \<open>Opening, duplicating onto \<open>b\<close> and closing again is an assignment of \<open>b\<close>.\<close>

lemma redirect:
  assumes "fd_alloc f False t = (n, t')" and "fd_get t b \<noteq> None"
  shows "fd_get (fd_close n (dup2 n b t')) = (fd_get t)(b \<mapsto> \<lparr>refers = f, cloexec = False\<rparr>)"
proof -
  have "n \<noteq> b" using fd_alloc_fresh(1) [OF assms(1)] assms(2) by auto
  with fd_alloc_fresh [OF assms(1)] show ?thesis
    by (auto simp: fd_simps fun_eq_iff)
qed

text \<open>The standard descriptors of a process started normally are open and survive \<open>execvp\<close>.\<close>

definition std_open :: "fd_table \<Rightarrow> bool" where
  "std_open t \<longleftrightarrow> (\<forall>n < 3. \<exists>e. fd_get t n = Some e \<and> \<not> cloexec e)"

lemma std_openD:
  assumes "std_open t"
  shows "fd_get t 0 \<noteq> None" and "fd_get t (Suc 0) \<noteq> None"
  using assms unfolding std_open_def by (force dest: spec [of _ 0], force dest: spec [of _ "Suc 0"])

lemma std_open_not_fresh: "std_open t \<Longrightarrow> fd_get t n = None \<Longrightarrow> n \<noteq> 0 \<and> n \<noteq> Suc 0"
  using std_openD by metis

definition login_table :: fd_table where
  "login_table = [Some \<lparr>refers = Tty 0, cloexec = False\<rparr>, Some \<lparr>refers = Tty 0, cloexec = False\<rparr>, Some \<lparr>refers = Tty 0, cloexec = False\<rparr>]"

lemma std_open_login: "std_open login_table"
  by (auto simp: std_open_def login_table_def fd_get_def nth_Cons' numeral_3_eq_3)


definition plain :: "open_file \<Rightarrow> fd_entry" where
  "plain f = \<lparr>refers = f, cloexec = False\<rparr>"

lemma plain_simps [simp]: "plain f\<lparr>cloexec := False\<rparr> = plain f" "cloexec (plain f) = False" "refers (plain f) = f"
  by (simp_all add: plain_def)

text \<open>\<open>execvp\<close> keeps what was assigned to the standard descriptors.\<close>

lemma exec_table_upd:
  "fd_get t' = (fd_get t)(0 := x, 1 := y) \<Longrightarrow>
   (\<And>e. x = Some e \<Longrightarrow> \<not> cloexec e) \<Longrightarrow> (\<And>e. y = Some e \<Longrightarrow> \<not> cloexec e) \<Longrightarrow>
   fd_get (exec_table t') = (fd_get (exec_table t))(0 := x, 1 := y)"
  by (rule ext) (auto simp: fd_get_exec split: option.splits)

lemma std_open_no_cloexec: "std_open t \<Longrightarrow> n < 2 \<Longrightarrow> fd_get t n = Some e \<Longrightarrow> \<not> cloexec e"
  unfolding std_open_def by (drule spec [of _ n]) simp

definition no_pipes_from :: "nat \<Rightarrow> fd_table \<Rightarrow> bool" where
  "no_pipes_from b t \<longleftrightarrow> (\<forall>n e. fd_get t n = Some e \<longrightarrow> (\<forall>m \<ge> b. refers e \<noteq> Pipe_Read m \<and> refers e \<noteq> Pipe_Write m))"

lemma no_pipes_exec: "no_pipes_from b t \<Longrightarrow> no_pipes_from b (exec_table t)"
  by (force simp: no_pipes_from_def fd_get_exec split: option.splits if_splits)

lemma login_no_pipes: "no_pipes_from b login_table"
  by (auto simp: no_pipes_from_def fd_get_def login_table_def nth_Cons' split: if_splits)

end
