(* ===== verification/Stsh_Jobs.thy ===== *)
theory Stsh_Jobs
  imports Stsh_Parse Posix_Fd
begin

text \<open>
  The shell of \<open>stsh.cc\<close>: processes, jobs and the job list, the signal handlers, the built-ins, the
  launch of a pipeline and the read-eval loop. \<open>pid_t\<close> is an \<^typ>\<open>int\<close>; the job list's
  \<open>map<size_t, Job>\<close> is the list of its jobs in key order (each job carries its own key). What the
  kernel answers to one command line is a record \<open>kernel\<close>; what the shell has asked of it (signals
  sent, processes started, the terminal's owner) and printed is part of the \<open>shell\<close> state, and so is the kernel's own
  table of the children that \<open>waitpid\<close> has not reported dead. SIGCHLD is
  blocked inside each section that touches the job list, so such a section is one function, and the
  handlers run between them (relation \<open>shell_step\<close>); \<open>Stsh_Signals\<close> shows, statement by statement, that the masks make it so.
\<close>

section \<open>Jobs\<close>

datatype proc_state = kRunning | kStopped | kTerminated
datatype job_state = kForeground | kBackground

record process =
  pid :: int
  pstate :: proc_state

record job =
  num :: nat
  pgid :: int
  jstate :: job_state
  cmdline :: string
  processes :: "process list"

definition allTerminated :: "job \<Rightarrow> bool" where
  "allTerminated j \<longleftrightarrow> (\<forall>p \<in> set (processes j). pstate p = kTerminated)"

definition anyRunning :: "job \<Rightarrow> bool" where
  "anyRunning j \<longleftrightarrow> (\<exists>p \<in> set (processes j). pstate p = kRunning)"

definition allStopped :: "job \<Rightarrow> bool" where
  "allStopped j \<longleftrightarrow> \<not> (\<exists>p \<in> set (processes j). pstate p = kRunning) \<and> \<not> allTerminated j"

record job_list =
  jobs :: "job list"
  counter :: nat

text \<open>\<open>map::emplace\<close> keeps an existing entry.\<close>

primrec emplace :: "nat \<Rightarrow> job \<Rightarrow> job list \<Rightarrow> job list" where
  "emplace n j [] = [j]"
| "emplace n j (x # xs) = (if n < num x then j # x # xs else if n = num x then x # xs else x # emplace n j xs)"

definition addJob :: "int \<Rightarrow> string \<Rightarrow> job_state \<Rightarrow> job_list \<Rightarrow> nat \<times> job_list" where
  "addJob pg cmd st jl =
     (let n = Suc (counter jl);
          j = \<lparr>num = n, pgid = pg, jstate = st, cmdline = cmd, processes = []\<rparr>
      in (n, jl\<lparr>counter := n, jobs := emplace n j (jobs jl)\<rparr>))"

definition getForegroundJob :: "job_list \<Rightarrow> job option" where
  "getForegroundJob jl = find (\<lambda>j. jstate j = kForeground) (jobs jl)"

definition getJob :: "nat \<Rightarrow> job_list \<Rightarrow> job option" where
  "getJob n jl = find (\<lambda>j. num j = n) (jobs jl)"

definition getJobByPgid :: "int \<Rightarrow> job_list \<Rightarrow> job option" where
  "getJobByPgid pg jl = find (\<lambda>j. pgid j = pg) (jobs jl)"

definition getJobWithProcess :: "int \<Rightarrow> job_list \<Rightarrow> job option" where
  "getJobWithProcess q jl = find (\<lambda>j. q \<in> pid ` set (processes j)) (jobs jl)"

definition remove_job :: "nat \<Rightarrow> job_list \<Rightarrow> job_list" where
  "remove_job n jl = jl\<lparr>jobs := filter (\<lambda>j. num j \<noteq> n) (jobs jl)\<rparr>"

text \<open>Writing through a pointer to a job of the list.\<close>

definition with_job :: "nat \<Rightarrow> (job \<Rightarrow> job) \<Rightarrow> job_list \<Rightarrow> job_list" where
  "with_job n f jl = jl\<lparr>jobs := map (\<lambda>j. if num j = n then f j else j) (jobs jl)\<rparr>"

definition job_line :: "job \<Rightarrow> string" where
  "job_line j = ''['' @ show_nat (num j) @ ''] '' @ (if allStopped j then ''Stopped'' else ''Running'')
     @ ''    '' @ cmdline j @ [CHR 0x0A]"

definition print_jobs :: "job_list \<Rightarrow> string" where
  "print_jobs jl = concat (map job_line (jobs jl))"

definition maybeResetCounter :: "job_list \<Rightarrow> job_list" where
  "maybeResetCounter jl = (if jobs jl = [] then jl\<lparr>counter := 0\<rparr> else jl)"

section \<open>The shell's state\<close>

datatype sig = SIGINT | SIGTSTP | SIGKILL | SIGCONT

record child =
  child_pid :: int
  child_group :: int
  child_does :: child_outcome

text \<open>
  \<open>unreaped\<close>: the children that exist, as pid and process group; a zombie is one of them until \<open>waitpid\<close> has reported it.
  \<open>reused\<close> only records whether \<open>fork\<close> has ever returned a pid that the job list still showed, for a process that was dead and
  reaped; POSIX allows it.
\<close>

record shell =
  joblist :: job_list
  fgPgid :: int
  interactive :: bool
  tty_owner :: int
  own_group :: int
  cout :: string
  cerr :: string
  kills :: "(int \<times> sig) list"
  fds :: fd_table
  pipes_made :: nat
  children :: "child list"
  unreaped :: "(int \<times> int) list"
  reused :: bool

definition puts :: "string \<Rightarrow> shell \<Rightarrow> shell" where
  "puts s sh = sh\<lparr>cout := cout sh @ s\<rparr>"

definition eputs :: "string \<Rightarrow> shell \<Rightarrow> shell" where
  "eputs s sh = sh\<lparr>cerr := cerr sh @ s @ [CHR 0x0A]\<rparr>"

definition send_signal :: "int \<Rightarrow> sig \<Rightarrow> shell \<Rightarrow> shell" where
  "send_signal target sg sh = sh\<lparr>kills := kills sh @ [(target, sg)]\<rparr>"

section \<open>Signal handlers\<close>

datatype wait_status = W_Exited | W_Signaled | W_Stopped | W_Continued

definition new_state :: "wait_status \<Rightarrow> proc_state" where
  "new_state st = (case st of W_Exited \<Rightarrow> kTerminated | W_Signaled \<Rightarrow> kTerminated
     | W_Stopped \<Rightarrow> kStopped | W_Continued \<Rightarrow> kRunning)"

definition mark_process :: "int \<Rightarrow> wait_status \<Rightarrow> job \<Rightarrow> job" where
  "mark_process q st j = j\<lparr>processes :=
     map (\<lambda>p. if pid p \<noteq> q then p else p\<lparr>pstate := new_state st\<rparr>) (processes j)\<rparr>"

text \<open>One turn of the \<open>waitpid\<close> loop, then the loop: \<open>reports\<close> is what \<open>waitpid\<close> returns until it returns 0.\<close>

definition handle_report :: "int \<times> wait_status \<Rightarrow> job_list \<Rightarrow> job_list" where
  "handle_report r jl = (case getJobWithProcess (fst r) jl of
       None \<Rightarrow> jl
     | Some j \<Rightarrow>
         (let jl = with_job (num j) (mark_process (fst r) (snd r)) jl
          in if allTerminated (mark_process (fst r) (snd r) j) then remove_job (num j) jl else jl))"

text \<open>The kernel's half of a report: a child reported dead is gone. Only existing children are reported.\<close>

definition reap :: "int \<times> wait_status \<Rightarrow> (int \<times> int) list \<Rightarrow> (int \<times> int) list" where
  "reap r U = (if new_state (snd r) = kTerminated then filter (\<lambda>c. fst c \<noteq> fst r) U else U)"

primrec reports_ok :: "(int \<times> wait_status) list \<Rightarrow> (int \<times> int) list \<Rightarrow> bool" where
  "reports_ok [] U \<longleftrightarrow> True"
| "reports_ok (r # rs) U \<longleftrightarrow> fst r \<in> fst ` set U \<and> reports_ok rs (reap r U)"

definition handleSIGCHLD :: "(int \<times> wait_status) list \<Rightarrow> shell \<Rightarrow> shell" where
  "handleSIGCHLD reports sh =
     sh\<lparr>joblist := fold handle_report reports (joblist sh), unreaped := fold reap reports (unreaped sh)\<rparr>"

definition forwardToForeground :: "sig \<Rightarrow> shell \<Rightarrow> shell" where
  "forwardToForeground sg sh = (if fgPgid sh > 0 then send_signal (- fgPgid sh) sg sh else sh)"

text \<open>\<open>tcsetpgrp\<close> fails, unnoticed, when no process is left in the group.\<close>

definition group_exists :: "int \<Rightarrow> shell \<Rightarrow> bool" where
  "group_exists pg sh \<longleftrightarrow> pg = own_group sh \<or> pg \<in> snd ` set (unreaped sh)"

definition giveTerminalTo :: "int \<Rightarrow> shell \<Rightarrow> shell" where
  "giveTerminalTo pg sh = (if interactive sh \<and> group_exists pg sh then sh\<lparr>tty_owner := pg\<rparr> else sh)"

section \<open>Waiting for the foreground job\<close>

text \<open>
  The loop's test, the code after the loop up to \<open>restoreMask\<close>, and the rest. A signal wakes
  \<open>sigsuspend\<close>; \<open>waitForForegroundJob\<close> is given the signals that arrive and is \<^term>\<open>None\<close> when it is
  still suspended after the last of them.
\<close>

datatype signal = Child "(int \<times> wait_status) list" | Key sig

definition signal_ok :: "signal \<Rightarrow> shell \<Rightarrow> bool" where
  "signal_ok e sh \<longleftrightarrow> (case e of Child reports \<Rightarrow> reports_ok reports (unreaped sh) | Key sg \<Rightarrow> True)"

definition deliver :: "signal \<Rightarrow> shell \<Rightarrow> shell" where
  "deliver e sh = (case e of Child reports \<Rightarrow> handleSIGCHLD reports sh | Key sg \<Rightarrow> forwardToForeground sg sh)"

definition must_wait :: "int \<Rightarrow> shell \<Rightarrow> bool" where
  "must_wait pg sh = (case getJobByPgid pg (joblist sh) of None \<Rightarrow> False | Some j \<Rightarrow> anyRunning j)"

definition stopped_line :: "job \<Rightarrow> string" where
  "stopped_line j = ''['' @ show_nat (num j) @ ''] Stopped    '' @ cmdline j @ [CHR 0x0A]"

definition demote :: "int \<Rightarrow> shell \<Rightarrow> shell" where
  "demote pg sh = (case getJobByPgid pg (joblist sh) of
       None \<Rightarrow> sh
     | Some j \<Rightarrow> if allStopped j
         then puts (stopped_line j) (sh\<lparr>joblist := with_job (num j) (jstate_update (\<lambda>_. kBackground)) (joblist sh)\<rparr>)
         else sh)"

definition wait_ends :: "int \<Rightarrow> shell \<Rightarrow> shell" where
  "wait_ends pg sh = (demote pg sh)\<lparr>fgPgid := 0\<rparr>"

definition wait_returns :: "shell \<Rightarrow> shell" where
  "wait_returns sh = (let sh = giveTerminalTo (own_group sh) sh in sh\<lparr>joblist := maybeResetCounter (joblist sh)\<rparr>)"

primrec waitForForegroundJob :: "int \<Rightarrow> signal list \<Rightarrow> shell \<Rightarrow> shell option" where
  "waitForForegroundJob pg [] sh = (if must_wait pg sh then None else Some (wait_returns (wait_ends pg sh)))"
| "waitForForegroundJob pg (e # es) sh =
     (if must_wait pg sh then waitForForegroundJob pg es (deliver e sh) else Some (wait_returns (wait_ends pg sh)))"

section \<open>Built-ins\<close>

definition to_pid :: "int \<Rightarrow> int" where
  "to_pid i = signed_take_bit 31 i"

definition resolveTarget :: "string \<Rightarrow> job_list \<Rightarrow> (int \<times> bool) option" where
  "resolveTarget arg jl = (case arg of
       [] \<Rightarrow> None
     | c # rest \<Rightarrow>
         if c = CHR ''%'' then map_option (\<lambda>j. (pgid j, True)) (getJob (strtoul rest) jl)
         else if to_pid (strtol arg) > 0 then Some (to_pid (strtol arg), False) else None)"

definition markGroupRunning :: "job \<Rightarrow> job" where
  "markGroupRunning j = j\<lparr>processes :=
     map (\<lambda>p. if pstate p = kStopped then p\<lparr>pstate := kRunning\<rparr> else p) (processes j)\<rparr>"

text \<open>
  Where the shell is between two sections: reading a line, in \<open>fg\<close> before it hands over the terminal (SIGCHLD
  open), about to wait for a foreground job (SIGCHLD open), suspended in the wait, woken and about to test again (SIGCHLD blocked, the keys not), back from
  the wait before it has taken the terminal back, or gone.
\<close>

datatype control = Prompt | Granting int | Launched int | Suspended int | Woken int | Returning | Exited

definition fg_bg :: "string \<Rightarrow> string \<Rightarrow> shell \<Rightarrow> control \<times> shell" where
  "fg_bg cmd arg sh = (case getJob (strtoul arg) (joblist sh) of
       None \<Rightarrow> (Prompt, eputs (cmd @ '': no such job '' @ arg) sh)
     | Some j \<Rightarrow>
         (let sh = send_signal (- pgid j) SIGCONT (sh\<lparr>joblist := with_job (num j) markGroupRunning (joblist sh)\<rparr>)
          in if cmd = ''bg''
             then (Prompt, sh\<lparr>joblist := with_job (num j) (jstate_update (\<lambda>_. kBackground)) (joblist sh)\<rparr>)
             else (Granting (pgid j),
                     sh\<lparr>joblist := with_job (num j) (jstate_update (\<lambda>_. kForeground)) (joblist sh), fgPgid := pgid j\<rparr>)))"

definition slay_halt_cont :: "string \<Rightarrow> string \<Rightarrow> shell \<Rightarrow> shell" where
  "slay_halt_cont cmd arg sh = (case resolveTarget arg (joblist sh) of
       None \<Rightarrow> eputs (cmd @ '': no such process/job '' @ arg) sh
     | Some (target, wholeGroup) \<Rightarrow>
         send_signal (if wholeGroup then - target else target)
           (if cmd = ''slay'' then SIGKILL else if cmd = ''halt'' then SIGTSTP else SIGCONT) sh)"

text \<open>\<^term>\<open>None\<close>: not a built-in.\<close>

definition runBuiltin :: "string list \<Rightarrow> shell \<Rightarrow> (control \<times> shell) option" where
  "runBuiltin argv sh =
     (let cmd = hd argv
      in if cmd = ''quit'' \<or> cmd = ''exit'' then Some (Exited, sh)
         else if cmd = ''jobs'' then Some (Prompt, puts (print_jobs (joblist sh)) sh)
         else if cmd = ''fg'' \<or> cmd = ''bg'' then
           (if length argv \<noteq> 2 then Some (Prompt, eputs (''Usage: '' @ cmd @ '' <jobid>'') sh)
            else Some (fg_bg cmd (argv ! 1) sh))
         else if cmd = ''slay'' \<or> cmd = ''halt'' \<or> cmd = ''cont'' then
           (if length argv \<noteq> 2 then Some (Prompt, eputs (''Usage: '' @ cmd @ '' <pid | %jobid>'') sh)
            else Some (Prompt, slay_halt_cont cmd (argv ! 1) sh))
         else None)"

section \<open>Launching a pipeline\<close>

text \<open>
  The kernel's answers while one pipeline is launched: whether the pipe of stage \<open>i\<close> can be made, the
  pid that \<open>fork\<close> returns for it (\<open>-1\<close>: it fails), which files open and which programs run.
\<close>

record kernel =
  pipe_ok :: "nat \<Rightarrow> bool"
  fork_pid :: "nat \<Rightarrow> int"
  open_ok :: "open_file \<Rightarrow> bool"
  exec_ok :: "string \<Rightarrow> bool"
  errno_text :: string

definition execChild :: "kernel \<Rightarrow> string list \<Rightarrow> fd_table \<Rightarrow> child_outcome" where
  "execChild k argv t = (if exec_ok k (hd argv) then Execs argv (exec_table t) else Exits 127)"

definition redirect_to :: "open_file \<Rightarrow> nat \<Rightarrow> fd_table \<Rightarrow> fd_table" where
  "redirect_to f n t = (let (fd, t) = fd_alloc f False t in fd_close fd (dup2 fd n t))"

definition child_stage ::
  "kernel \<Rightarrow> pipeline_t \<Rightarrow> bool \<Rightarrow> bool \<Rightarrow> nat option \<Rightarrow> (nat \<times> nat) option \<Rightarrow> string list \<Rightarrow> fd_table \<Rightarrow> child_outcome"
where
  "child_stage k p isFirst isLast prevRead pfd argv t =
     (let t = (case prevRead of None \<Rightarrow> t | Some r \<Rightarrow> fd_close r (dup2 r 0 t));
          t = (case pfd of None \<Rightarrow> t | Some (r, w) \<Rightarrow> fd_close w (fd_close r (dup2 w 1 t)))
      in if isFirst \<and> infile p \<noteq> [] \<and> \<not> open_ok k (File_Read (infile p)) then Exits 1
         else
           (let t = (if isFirst \<and> infile p \<noteq> [] then redirect_to (File_Read (infile p)) 0 t else t)
            in if isLast \<and> outfile p \<noteq> [] \<and> \<not> open_ok k (File_Write (outfile p)) then Exits 1
               else
                 (let t = (if isLast \<and> outfile p \<noteq> [] then redirect_to (File_Write (outfile p)) 1 t else t)
                  in execChild k argv t)))"

text \<open>The locals of \<open>runPipeline\<close>'s loop, and the parent's descriptors, pipes and children so far.\<close>

record launch =
  l_pgid :: int
  l_pids :: "int list"
  prevRead :: "nat option"
  l_fds :: fd_table
  l_pipes :: nat
  l_children :: "child list"

definition close_prev :: "launch \<Rightarrow> launch" where
  "close_prev l = (case prevRead l of None \<Rightarrow> l | Some r \<Rightarrow> l\<lparr>l_fds := fd_close r (l_fds l)\<rparr>)"

definition stage_pipe :: "bool \<Rightarrow> launch \<Rightarrow> (nat \<times> nat) option \<times> launch" where
  "stage_pipe hasNext l =
     (if hasNext then
        (let (pfd, t) = make_pipe False (l_pipes l) (l_fds l)
         in (Some pfd, l\<lparr>l_fds := t, l_pipes := Suc (l_pipes l)\<rparr>))
      else (None, l))"

text \<open>The parent's half of a turn: \<open>setpgid(pid, pgid)\<close> on both sides puts the child in the group.\<close>

definition stage_parent :: "int \<Rightarrow> child_outcome \<Rightarrow> (nat \<times> nat) option \<Rightarrow> launch \<Rightarrow> launch" where
  "stage_parent q does pfd l =
     (let pg = (if l_pgid l = 0 then q else l_pgid l);
          l = l\<lparr>l_pgid := pg, l_pids := l_pids l @ [q],
                l_children := l_children l @ [\<lparr>child_pid = q, child_group = pg, child_does = does\<rparr>]\<rparr>;
          l = close_prev l
      in case pfd of None \<Rightarrow> l | Some (r, w) \<Rightarrow> l\<lparr>l_fds := fd_close w (l_fds l), prevRead := Some r\<rparr>)"

text \<open>The loop over the stages from the \<open>i\<close>-th on; \<open>Inl\<close> is the early return with its message.\<close>

primrec launch_loop :: "kernel \<Rightarrow> pipeline_t \<Rightarrow> nat \<Rightarrow> string list list \<Rightarrow> launch \<Rightarrow> (string \<times> launch) + launch" where
  "launch_loop k p i [] l = Inr l"
| "launch_loop k p i (argv # rest) l =
     (if rest \<noteq> [] \<and> \<not> pipe_ok k i then Inl (''pipe'', l)
      else
        (let (pfd, l) = stage_pipe (rest \<noteq> []) l
         in if fork_pid k i = -1 then Inl (''fork'', l)
            else launch_loop k p (Suc i) rest
                   (stage_parent (fork_pid k i)
                     (child_stage k p (i = 0) (rest = []) (prevRead l) pfd argv (l_fds l)) pfd l)))"

text \<open>What the shell and the kernel have after some turns of the loop.\<close>

definition listed_pids :: "job_list \<Rightarrow> int set" where
  "listed_pids jl = (\<Union>j \<in> set (jobs jl). pid ` set (processes j))"

definition launched :: "launch \<Rightarrow> shell \<Rightarrow> shell" where
  "launched l sh = sh\<lparr>fds := l_fds l, pipes_made := l_pipes l, children := children sh @ l_children l,
     unreaped := unreaped sh @ map (\<lambda>c. (child_pid c, child_group c)) (l_children l),
     reused := reused sh \<or> (\<exists>c \<in> set (l_children l). child_pid c \<in> listed_pids (joblist sh))\<rparr>"

definition background_line :: "nat \<Rightarrow> int list \<Rightarrow> string" where
  "background_line n qs = ''['' @ show_nat n @ '']'' @ concat (map (\<lambda>q. '' '' @ show_int q) qs) @ [CHR 0x0A]"

definition start_launch :: "shell \<Rightarrow> launch" where
  "start_launch sh = \<lparr>l_pgid = 0, l_pids = [], prevRead = None, l_fds = fds sh, l_pipes = pipes_made sh, l_children = []\<rparr>"

definition register_job :: "pipeline_t \<Rightarrow> string \<Rightarrow> launch \<Rightarrow> shell \<Rightarrow> nat \<times> shell" where
  "register_job p cmd l sh =
     (let (n, jl) = addJob (l_pgid l) cmd (if background p then kBackground else kForeground) (joblist sh);
          jl = with_job n (processes_update (\<lambda>ps. ps @ map (\<lambda>q. \<lparr>pid = q, pstate = kRunning\<rparr>) (l_pids l))) jl
      in (n, sh\<lparr>joblist := jl\<rparr>))"

definition runPipeline :: "kernel \<Rightarrow> pipeline_t \<Rightarrow> string \<Rightarrow> shell \<Rightarrow> control \<times> shell" where
  "runPipeline k p cmd sh =
     (case launch_loop k p 0 (commands p) (start_launch sh) of
        Inl (call, l) \<Rightarrow> (Prompt, eputs (call @ '': '' @ errno_text k) (launched l sh))
      | Inr l \<Rightarrow>
          (let (n, sh) = register_job p cmd l (launched (close_prev l) sh)
           in if background p then (Prompt, puts (background_line n (l_pids l)) sh)
              else (Launched (l_pgid l), giveTerminalTo (l_pgid l) (sh\<lparr>fgPgid := l_pgid l\<rparr>))))"

section \<open>The read-eval loop\<close>

definition prompt :: "shell \<Rightarrow> shell" where
  "prompt sh = (if interactive sh then puts ''stsh> '' sh else sh)"

definition end_of_input :: "shell \<Rightarrow> shell" where
  "end_of_input sh = (let sh = prompt sh in if interactive sh then puts [CHR 0x0A] sh else sh)"

text \<open>The body of \<open>main\<close>'s loop for one line, up to the first point where the shell waits.\<close>

definition run_line :: "kernel \<Rightarrow> string \<Rightarrow> shell \<Rightarrow> control \<times> shell" where
  "run_line k line sh =
     (let sh = prompt sh; p = parsePipeline line
      in if \<not> valid p then (Prompt, eputs (''stsh: parse error: '' @ error p) sh)
         else if commands p = [] then (Prompt, sh)
         else
           (case if length (commands p) = 1 then runBuiltin (hd (commands p)) sh else None of
              Some r \<Rightarrow> r
            | None \<Rightarrow> runPipeline k p line sh))"

definition start_shell :: "bool \<Rightarrow> int \<Rightarrow> fd_table \<Rightarrow> shell" where
  "start_shell tty me t =
     \<lparr>joblist = \<lparr>jobs = [], counter = 0\<rparr>, fgPgid = 0, interactive = tty, tty_owner = me, own_group = me,
      cout = [], cerr = [], kills = [], fds = t, pipes_made = 0, children = [],
      unreaped = [], reused = False\<rparr>"

definition wait_test :: "int \<Rightarrow> shell \<Rightarrow> control \<times> shell" where
  "wait_test pg sh = (if must_wait pg sh then (Suspended pg, sh) else (Returning, wait_ends pg sh))"

text \<open>
  What POSIX promises of \<open>fork\<close>: the pid of no existing process, a zombie included. A pid whose process has been
  reaped may come back.
\<close>

definition fork_ok :: "kernel \<Rightarrow> shell \<Rightarrow> bool" where
  "fork_ok k sh \<longleftrightarrow>
     (\<forall>i. fork_pid k i \<noteq> -1 \<longrightarrow> 0 < fork_pid k i \<and> fork_pid k i \<notin> fst ` set (unreaped sh)) \<and>
     (\<forall>i i'. fork_pid k i \<noteq> -1 \<longrightarrow> fork_pid k i = fork_pid k i' \<longrightarrow> i = i')"

inductive shell_step :: "control \<times> shell \<Rightarrow> control \<times> shell \<Rightarrow> bool" where
  read_line: "fork_ok k sh \<Longrightarrow> shell_step (Prompt, sh) (run_line k line sh)"
| end_of_file: "shell_step (Prompt, sh) (Exited, end_of_input sh)"
| grant: "shell_step (Granting pg, sh) (Launched pg, giveTerminalTo pg sh)"
| enter_wait: "shell_step (Launched pg, sh) (wait_test pg sh)"
| wake: "signal_ok e sh \<Longrightarrow> shell_step (Suspended pg, sh) (Woken pg, deliver e sh)"
| key_after_wake: "shell_step (Woken pg, sh) (Woken pg, deliver (Key sg) sh)"
| test_again: "shell_step (Woken pg, sh) (wait_test pg sh)"
| leave_wait: "shell_step (Returning, sh) (Prompt, wait_returns sh)"
| interrupt: "c \<in> {Prompt, Granting pg, Launched pg, Returning} \<Longrightarrow> signal_ok e sh \<Longrightarrow> shell_step (c, sh) (c, deliver e sh)"

inductive shell_reach :: "bool \<Rightarrow> int \<Rightarrow> fd_table \<Rightarrow> control \<times> shell \<Rightarrow> bool" for tty me t where
  boot: "shell_reach tty me t (Prompt, start_shell tty me t)"
| step: "shell_reach tty me t s \<Longrightarrow> shell_step s s' \<Longrightarrow> shell_reach tty me t s'"

end
