(* ===== verification/Stsh_Plumbing.thy ===== *)
theory Stsh_Plumbing
  imports Stsh_Jobs
begin

text \<open>
  The descriptors of a launched pipeline. The specification (\<open>stage_stdin\<close>, \<open>stage_stdout\<close>,
  \<open>stage_spec\<close>) says what the children of \<open>a | b | c\<close> hold; the lemmas carry the loop invariant of
  \<open>runPipeline\<close> over the contract of the descriptor table. The properties: each stage runs with exactly
  its two ends of the pipes and nothing else of them, and the shell keeps none.
\<close>

section \<open>Specification\<close>

definition stage_stdin :: "pipeline_t \<Rightarrow> fd_table \<Rightarrow> nat \<Rightarrow> nat \<Rightarrow> fd_entry option" where
  "stage_stdin p t b i =
     (if i > 0 then Some (plain (Pipe_Read (b + i - 1)))
      else if infile p \<noteq> [] then Some (plain (File_Read (infile p))) else fd_get t 0)"

definition stage_stdout :: "pipeline_t \<Rightarrow> fd_table \<Rightarrow> nat \<Rightarrow> nat \<Rightarrow> fd_entry option" where
  "stage_stdout p t b i =
     (if i < length (commands p) - 1 then Some (plain (Pipe_Write (b + i)))
      else if outfile p \<noteq> [] then Some (plain (File_Write (outfile p))) else fd_get t 1)"

text \<open>What stage \<open>i\<close> must do when the shell's table is \<open>t\<close> and \<open>b\<close> pipes were made before.\<close>

definition stage_spec :: "kernel \<Rightarrow> pipeline_t \<Rightarrow> fd_table \<Rightarrow> nat \<Rightarrow> nat \<Rightarrow> child_outcome \<Rightarrow> bool" where
  "stage_spec k p t b i does \<longleftrightarrow>
     (if i = 0 \<and> infile p \<noteq> [] \<and> \<not> open_ok k (File_Read (infile p)) \<or>
         i = length (commands p) - 1 \<and> outfile p \<noteq> [] \<and> \<not> open_ok k (File_Write (outfile p))
      then does = Exits 1
      else if \<not> exec_ok k (hd (commands p ! i)) then does = Exits 127
      else \<exists>t'. does = Execs (commands p ! i) t' \<and>
             fd_get t' = (fd_get (exec_table t))(0 := stage_stdin p t b i, 1 := stage_stdout p t b i))"

section \<open>The child's side\<close>

text \<open>The parent's table while stage \<open>i\<close> is set up: its own, the pipe read next and the new pipe.\<close>

definition held :: "nat option \<Rightarrow> nat \<Rightarrow> (nat \<Rightarrow> fd_entry option) \<Rightarrow> nat \<Rightarrow> fd_entry option" where
  "held prev m f = (case prev of None \<Rightarrow> f | Some r \<Rightarrow> f(r \<mapsto> plain (Pipe_Read m)))"

definition held_pipe :: "(nat \<times> nat) option \<Rightarrow> nat \<Rightarrow> (nat \<Rightarrow> fd_entry option) \<Rightarrow> nat \<Rightarrow> fd_entry option" where
  "held_pipe pfd m f = (case pfd of None \<Rightarrow> f
     | Some (r, w) \<Rightarrow> f(r \<mapsto> plain (Pipe_Read m), w \<mapsto> plain (Pipe_Write m)))"

definition prev_fresh :: "nat option \<Rightarrow> fd_table \<Rightarrow> bool" where
  "prev_fresh prev t \<longleftrightarrow> (\<forall>r. prev = Some r \<longrightarrow> fd_get t r = None)"

definition pipe_fresh :: "(nat \<times> nat) option \<Rightarrow> nat option \<Rightarrow> fd_table \<Rightarrow> bool" where
  "pipe_fresh pfd prev t \<longleftrightarrow> (\<forall>r w. pfd = Some (r, w) \<longrightarrow>
     fd_get t r = None \<and> fd_get t w = None \<and> r \<noteq> w \<and> prev \<noteq> Some r \<and> prev \<noteq> Some w)"

lemma take_prev:
  assumes "std_open t" and "prev_fresh prev t" and "pipe_fresh pfd prev t"
    and "fd_get c = held_pipe pfd m' (held prev m (fd_get t))"
  shows "fd_get (case prev of None \<Rightarrow> c | Some r \<Rightarrow> fd_close r (dup2 r 0 c))
    = held_pipe pfd m' ((fd_get t)(0 := if prev = None then fd_get t 0 else Some (plain (Pipe_Read m))))"
proof (cases prev)
  case None
  then show ?thesis using assms(4) by (simp add: held_def)
next
  case (Some r)
  then have r: "fd_get t r = None" "r \<noteq> 0" using assms(1,2) std_open_not_fresh by (auto simp: prev_fresh_def)
  have rp: "fd_get c r = Some (plain (Pipe_Read m))"
    using assms(3,4) Some by (cases pfd) (auto simp: held_def held_pipe_def pipe_fresh_def)
  have z: "pfd = Some (a, b) \<Longrightarrow> a \<noteq> 0 \<and> b \<noteq> 0 \<and> a \<noteq> r \<and> b \<noteq> r" for a b
    using assms(1,3) Some std_open_not_fresh by (auto simp: pipe_fresh_def)
  show ?thesis
    using r z Some assms(4) by (cases pfd) (auto simp: fd_get_dup2 [OF rp] fd_simps held_def held_pipe_def fun_eq_iff)
qed

lemma give_pipe:
  assumes "std_open t" and "pipe_fresh pfd prev t" and "fd_get c = held_pipe pfd m ((fd_get t)(0 := x))"
  shows "fd_get (case pfd of None \<Rightarrow> c | Some (r, w) \<Rightarrow> fd_close w (fd_close r (dup2 w 1 c)))
    = (fd_get t)(0 := x, 1 := if pfd = None then fd_get t 1 else Some (plain (Pipe_Write m)))"
proof (cases pfd)
  case None
  then show ?thesis using assms(3) by (auto simp: held_pipe_def)
next
  case (Some rw)
  obtain r w where rw: "rw = (r, w)" by (cases rw)
  have n: "fd_get t r = None" "fd_get t w = None" "r \<noteq> w" "r \<noteq> 0" "w \<noteq> 0" "r \<noteq> 1" "w \<noteq> 1"
    using assms(1,2) Some rw std_open_not_fresh by (auto simp: pipe_fresh_def)
  have wp: "fd_get c w = Some (plain (Pipe_Write m))"
    using assms(3) Some rw n by (auto simp: held_pipe_def)
  show ?thesis
    using n Some rw assms(3) by (auto simp: fd_get_dup2 [OF wp] fd_simps held_pipe_def fun_eq_iff)
qed

lemma redirect_to_get:
  "fd_get t n \<noteq> None \<Longrightarrow> fd_get (redirect_to f n t) = (fd_get t)(n \<mapsto> plain f)"
  unfolding redirect_to_def plain_def Let_def by (cases "fd_alloc f False t") (simp add: redirect)

lemma child_stage_spec:
  assumes t: "std_open t" and fresh: "prev_fresh prev t" "pipe_fresh pfd prev t"
    and c: "fd_get c = held_pipe pfd (b + i) (held prev (b + i - 1) (fd_get t))"
    and i: "i < length (commands p)" "prev = None \<longleftrightarrow> i = 0" "pfd = None \<longleftrightarrow> i = length (commands p) - 1"
  shows "stage_spec k p t b i
    (child_stage k p (i = 0) (i = length (commands p) - 1) prev pfd (commands p ! i) c)"
proof -
  let ?x = "if prev = None then fd_get t 0 else Some (plain (Pipe_Read (b + i - 1)))"
  let ?y = "if pfd = None then fd_get t 1 else Some (plain (Pipe_Write (b + i)))"
  let ?last = "i = length (commands p) - 1"
  define c1 where "c1 = (case prev of None \<Rightarrow> c | Some r \<Rightarrow> fd_close r (dup2 r 0 c))"
  define c2 where "c2 = (case pfd of None \<Rightarrow> c1 | Some (r, w) \<Rightarrow> fd_close w (fd_close r (dup2 w 1 c1)))"
  define c3 where "c3 = (if i = 0 \<and> infile p \<noteq> [] then redirect_to (File_Read (infile p)) 0 c2 else c2)"
  define c4 where "c4 = (if ?last \<and> outfile p \<noteq> [] then redirect_to (File_Write (outfile p)) 1 c3 else c3)"
  have o: "fd_get t 0 \<noteq> None" "fd_get t 1 \<noteq> None" using std_openD [OF t] by auto
  have c2: "fd_get c2 = (fd_get t)(0 := ?x, 1 := ?y)"
    unfolding c2_def by (rule give_pipe [OF t fresh(2)]) (unfold c1_def, rule take_prev [OF t fresh c])
  then have n2: "fd_get c2 0 \<noteq> None" using o by simp
  have c3: "fd_get c3 = (fd_get t)(0 := stage_stdin p t b i, 1 := ?y)"
    unfolding c3_def using i(2) redirect_to_get [OF n2] c2
    by (cases "i = 0") (auto simp: stage_stdin_def fun_upd_twist)
  then have n3: "fd_get c3 1 \<noteq> None" using o by simp
  have e: "i \<noteq> length (commands p) - 1 \<Longrightarrow> i < length (commands p) - 1" using i(1) by linarith
  have c4: "fd_get c4 = (fd_get t)(0 := stage_stdin p t b i, 1 := stage_stdout p t b i)"
    unfolding c4_def using i(3) e redirect_to_get [OF n3, of "File_Write (outfile p)"] c3
    by (cases ?last) (auto simp: stage_stdout_def)
  have ex: "fd_get (exec_table c4) = (fd_get (exec_table t))(0 := stage_stdin p t b i, 1 := stage_stdout p t b i)"
  proof (rule exec_table_upd [OF c4])
    fix e assume "stage_stdin p t b i = Some e"
    then show "\<not> cloexec e" using std_open_no_cloexec [OF t, of 0 e] by (auto simp: stage_stdin_def split: if_splits)
  next
    fix e assume "stage_stdout p t b i = Some e"
    then show "\<not> cloexec e" using std_open_no_cloexec [OF t, of 1 e] by (auto simp: stage_stdout_def split: if_splits)
  qed
  have def: "child_stage k p (i = 0) ?last prev pfd (commands p ! i) c =
    (if i = 0 \<and> infile p \<noteq> [] \<and> \<not> open_ok k (File_Read (infile p)) then Exits 1
     else if ?last \<and> outfile p \<noteq> [] \<and> \<not> open_ok k (File_Write (outfile p)) then Exits 1
     else execChild k (commands p ! i) c4)"
    unfolding child_stage_def Let_def c1_def c2_def c3_def c4_def by (rule refl)
  show ?thesis unfolding def stage_spec_def execChild_def using ex by auto
qed

section \<open>The parent's side\<close>

definition launch_inv :: "kernel \<Rightarrow> pipeline_t \<Rightarrow> fd_table \<Rightarrow> nat \<Rightarrow> nat \<Rightarrow> launch \<Rightarrow> bool" where
  "launch_inv k p t b i l \<longleftrightarrow>
     prev_fresh (prevRead l) t \<and> l_pipes l = b + i \<and>
     l_pids l = map (fork_pid k) [0..<i] \<and> (i > 0 \<longrightarrow> l_pgid l = fork_pid k 0) \<and> (i = 0 \<longrightarrow> l_pgid l = 0) \<and>
     map child_pid (l_children l) = map (fork_pid k) [0..<i] \<and>
     (\<forall>c \<in> set (l_children l). child_group c = fork_pid k 0) \<and>
     (\<forall>j < i. stage_spec k p t b j (child_does (l_children l ! j)))"

lemma launch_inv_children: "launch_inv k p t b i l \<Longrightarrow> length (l_children l) = i"
  unfolding launch_inv_def by (metis length_map length_upt diff_zero)

lemma launch_inv_same: "l_pipes l = m \<Longrightarrow> launch_inv k p t b i (l\<lparr>l_pipes := m\<rparr>) \<Longrightarrow> launch_inv k p t b i l"
  by (simp add: launch_inv_def)

lemma stage_parent_children:
  assumes "launch_inv k p t b i l" and "fork_pid k i \<noteq> 0" and "fork_pid k 0 \<noteq> 0"
    and "stage_spec k p t b i does" and "prev_fresh (prevRead (stage_parent (fork_pid k i) does pfd l)) t"
    and "m = b + Suc i"
  shows "launch_inv k p t b (Suc i) ((stage_parent (fork_pid k i) does pfd l)\<lparr>l_pipes := m\<rparr>)"
proof -
  have len: "length (l_children l) = i" using launch_inv_children [OF assms(1)] .
  let ?pg = "if l_pgid l = 0 then fork_pid k i else l_pgid l"
  have pg: "?pg = fork_pid k 0" using assms(1,3) by (cases i) (auto simp: launch_inv_def)
  have f: "l_pgid (stage_parent q d pfd l) = (if l_pgid l = 0 then q else l_pgid l)"
    "l_pids (stage_parent q d pfd l) = l_pids l @ [q]"
    "l_children (stage_parent q d pfd l) = l_children l @
       [\<lparr>child_pid = q, child_group = if l_pgid l = 0 then q else l_pgid l, child_does = d\<rparr>]" for q d
    by (auto simp: stage_parent_def close_prev_def Let_def split: option.splits prod.splits)
  show ?thesis
    using assms(1,4,5,6) pg len unfolding launch_inv_def f
    by (auto simp: f nth_append less_Suc_eq)
qed

lemma stage_parent_fds:
  assumes "prev_fresh (prevRead l) t" "pipe_fresh pfd (prevRead l) t"
    and "fd_get (l_fds l) = held_pipe pfd m (held (prevRead l) m' (fd_get t))"
  shows "pfd = Some (r, w) \<Longrightarrow> prevRead (stage_parent q does pfd l) = Some r \<and>
      fd_get (l_fds (stage_parent q does pfd l)) = held (Some r) m (fd_get t) \<and> fd_get t r = None"
    and "pfd = None \<Longrightarrow> prevRead (stage_parent q does pfd l) = prevRead l \<and>
      fd_get (l_fds (stage_parent q does pfd l)) = fd_get t"
  using assms
  by (cases "prevRead l"; auto simp: stage_parent_def close_prev_def Let_def held_def held_pipe_def
      prev_fresh_def pipe_fresh_def fd_simps fun_eq_iff)+

lemma close_prev_fds:
  assumes "prev_fresh (prevRead l) t" and "fd_get (l_fds l) = fd_get t"
  shows "fd_get (l_fds (close_prev l)) = fd_get t"
  using assms by (cases "prevRead l") (auto simp: close_prev_def prev_fresh_def fd_simps)

lemma make_pipe_held:
  assumes "make_pipe False m t' = ((r, w), t'')" and "fd_get t' = held prev m' (fd_get t)"
  shows "fd_get t'' = held_pipe (Some (r, w)) m (held prev m' (fd_get t))" and "pipe_fresh (Some (r, w)) prev t"
proof -
  note f = make_pipe_fresh [OF assms(1)]
  show "fd_get t'' = held_pipe (Some (r, w)) m (held prev m' (fd_get t))"
    using f(4) assms(2) by (simp add: held_pipe_def plain_def)
  show "pipe_fresh (Some (r, w)) prev t"
    using f(1-3) assms(2) by (cases prev) (auto simp: pipe_fresh_def held_def split: if_splits)
qed

definition forks_succeed :: "kernel \<Rightarrow> nat \<Rightarrow> bool" where
  "forks_succeed k n \<longleftrightarrow> (\<forall>i < n. pipe_ok k i \<and> fork_pid k i > 0)"

lemma stage_parent_pipes: "l_pipes (stage_parent q d pfd l) = l_pipes l"
  by (auto simp: stage_parent_def close_prev_def Let_def split: option.splits prod.splits)

text \<open>One turn of the loop, for the last stage and for one that a pipe leaves.\<close>

lemma last_stage:
  assumes "std_open t" and k: "pipe_ok k i" "fork_pid k i > 0" "fork_pid k 0 > 0"
    and inv: "launch_inv k p t b i l" and "prevRead l = None \<longleftrightarrow> i = 0" and last: "Suc i = length (commands p)"
    and fd: "fd_get (l_fds l) = held (prevRead l) (b + i - 1) (fd_get t)"
  defines "l' \<equiv> stage_parent (fork_pid k i) (child_stage k p (i = 0) True (prevRead l) None (commands p ! i) (l_fds l)) None l"
  shows "launch_inv k p t b (Suc i) (l'\<lparr>l_pipes := b + Suc i\<rparr>)" and "l_pipes l' = b + i" and "fd_get (l_fds l') = fd_get t"
proof -
  have fresh: "prev_fresh (prevRead l) t" and pipes: "l_pipes l = b + i" using inv by (simp_all add: launch_inv_def)
  have c: "fd_get (l_fds l) = held_pipe None (b + i) (held (prevRead l) (b + i - 1) (fd_get t))"
    using fd by (simp add: held_pipe_def)
  have pf: "pipe_fresh None (prevRead l) t" by (simp add: pipe_fresh_def)
  have n: "length (commands p) = Suc i" using last by simp
  have spec: "stage_spec k p t b i (child_stage k p (i = 0) True (prevRead l) None (commands p ! i) (l_fds l))"
    using child_stage_spec [OF assms(1) fresh pf c _ assms(6), where p = p and k = k] n by simp
  note fds = stage_parent_fds(2) [OF fresh pf c refl]
  show "launch_inv k p t b (Suc i) (l'\<lparr>l_pipes := b + Suc i\<rparr>)"
    unfolding l'_def using k fds fresh by (intro stage_parent_children [OF inv _ _ spec]) auto
  show "l_pipes l' = b + i" using pipes by (simp add: l'_def stage_parent_pipes)
  show "fd_get (l_fds l') = fd_get t" using fds by (simp add: l'_def)
qed

lemma middle_stage:
  assumes "std_open t" and k: "pipe_ok k i" "fork_pid k i > 0" "fork_pid k 0 > 0"
    and inv: "launch_inv k p t b i l" and "prevRead l = None \<longleftrightarrow> i = 0" and nl: "Suc i < length (commands p)"
    and fd: "fd_get (l_fds l) = held (prevRead l) (b + i - 1) (fd_get t)"
    and mp: "make_pipe False (b + i) (l_fds l) = ((r, w), t')"
  defines "l1 \<equiv> l\<lparr>l_fds := t', l_pipes := Suc (b + i)\<rparr>"
  defines "l' \<equiv> stage_parent (fork_pid k i)
    (child_stage k p (i = 0) False (prevRead l) (Some (r, w)) (commands p ! i) t') (Some (r, w)) l1"
  shows "launch_inv k p t b (Suc i) l'" and "prevRead l' = Some r" and "fd_get (l_fds l') = held (Some r) (b + i) (fd_get t)"
proof -
  have fresh: "prev_fresh (prevRead l) t" using inv by (simp add: launch_inv_def)
  note h = make_pipe_held [OF mp fd]
  have spec: "stage_spec k p t b i (child_stage k p (i = 0) False (prevRead l) (Some (r, w)) (commands p ! i) t')"
    using child_stage_spec [OF assms(1) fresh h(2,1) _ assms(6), where p = p and k = k] nl by simp
  have fds: "prevRead l' = Some r" "fd_get (l_fds l') = held (Some r) (b + i) (fd_get t)" "fd_get t r = None"
    using stage_parent_fds(1) [of l1 t "Some (r, w)" "b + i" "b + i - 1" r w] fresh h by (auto simp: l'_def l1_def)
  have same: "(stage_parent q d pf l1)\<lparr>l_pipes := m\<rparr> = (stage_parent q d pf (l\<lparr>l_fds := t'\<rparr>))\<lparr>l_pipes := m\<rparr>"
    "prevRead (stage_parent q d pf (l\<lparr>l_fds := t'\<rparr>)) = prevRead (stage_parent q d pf l1)" for q d pf m
    by (auto simp: l1_def stage_parent_def close_prev_def Let_def split: option.splits)
  have "launch_inv k p t b i (l\<lparr>l_fds := t'\<rparr>)" using inv by (simp add: launch_inv_def)
  then have "launch_inv k p t b (Suc i) (l'\<lparr>l_pipes := b + Suc i\<rparr>)"
    unfolding l'_def same(1) using k fds same(2)
    by (intro stage_parent_children [OF _ _ _ spec]) (auto simp: prev_fresh_def l'_def)
  then show "launch_inv k p t b (Suc i) l'"
    by (rule launch_inv_same [rotated]) (simp add: l'_def l1_def stage_parent_pipes)
  show "prevRead l' = Some r" and "fd_get (l_fds l') = held (Some r) (b + i) (fd_get t)" by (rule fds)+
qed

lemma launch_loop_spec:
  assumes "std_open t" and "forks_succeed k (length (commands p))"
    and "launch_inv k p t b i l" and "prevRead l = None \<longleftrightarrow> i = 0" and "i < length (commands p)"
    and "fd_get (l_fds l) = held (prevRead l) (b + i - 1) (fd_get t)"
  shows "\<exists>l'. launch_loop k p i (drop i (commands p)) l = Inr l' \<and>
    launch_inv k p t b (length (commands p)) (l'\<lparr>l_pipes := b + length (commands p)\<rparr>) \<and>
    l_pipes l' = b + length (commands p) - 1 \<and> fd_get (l_fds l') = fd_get t"
  using assms
proof (induction "length (commands p) - i" arbitrary: i l)
  case 0
  then show ?case by simp
next
  case (Suc d)
  let ?n = "length (commands p)" and ?argv = "commands p ! i" and ?rest = "drop (Suc i) (commands p)"
  have split: "drop i (commands p) = ?argv # ?rest" using Suc.prems(5) by (simp add: Cons_nth_drop_Suc)
  have k: "pipe_ok k i" "fork_pid k i > 0" "fork_pid k 0 > 0"
    using Suc.prems(2,5) unfolding forks_succeed_def by auto (metis gr_zeroI less_trans)
  show ?case
  proof (cases "Suc i = ?n")
    case True
    note st = last_stage [OF Suc.prems(1) k Suc.prems(3,4) True Suc.prems(6)]
    have "launch_loop k p i (drop i (commands p)) l =
        Inr (stage_parent (fork_pid k i) (child_stage k p (i = 0) True (prevRead l) None ?argv (l_fds l)) None l)"
      unfolding split using True k by (simp add: stage_pipe_def)
    then show ?thesis using st True [symmetric] by (intro exI) (rule conjI, assumption, simp)
  next
    case False
    then have nl: "Suc i < ?n" using Suc.prems(5) by simp
    obtain r w t' where mp: "make_pipe False (b + i) (l_fds l) = ((r, w), t')" by (metis surj_pair)
    let ?l' = "stage_parent (fork_pid k i) (child_stage k p (i = 0) False (prevRead l) (Some (r, w)) ?argv t')
      (Some (r, w)) (l\<lparr>l_fds := t', l_pipes := Suc (b + i)\<rparr>)"
    note st = middle_stage [OF Suc.prems(1) k Suc.prems(3,4) nl Suc.prems(6) mp]
    have "l_pipes l = b + i" using Suc.prems(3) by (simp add: launch_inv_def)
    then have loop: "launch_loop k p i (drop i (commands p)) l = launch_loop k p (Suc i) ?rest ?l'"
      unfolding split using k mp nl by (simp add: stage_pipe_def)
    show ?thesis
      unfolding loop by (rule Suc.hyps(1)) (use Suc.hyps(2) Suc.prems(1,2) st nl in auto)
  qed
qed

lemma start_launch_inv: "launch_inv k p (fds sh) (pipes_made sh) 0 (start_launch sh)"
  by (simp add: launch_inv_def start_launch_def prev_fresh_def)

lemma launch_spec:
  assumes "std_open (fds sh)" and "commands p \<noteq> []" and "forks_succeed k (length (commands p))"
  shows "\<exists>l. launch_loop k p 0 (commands p) (start_launch sh) = Inr l \<and>
    launch_inv k p (fds sh) (pipes_made sh) (length (commands p)) (l\<lparr>l_pipes := pipes_made sh + length (commands p)\<rparr>) \<and>
    fd_get (l_fds (close_prev l)) = fd_get (fds sh)"
proof -
  have "\<exists>l. launch_loop k p 0 (drop 0 (commands p)) (start_launch sh) = Inr l \<and>
    launch_inv k p (fds sh) (pipes_made sh) (length (commands p)) (l\<lparr>l_pipes := pipes_made sh + length (commands p)\<rparr>) \<and>
    l_pipes l = pipes_made sh + length (commands p) - 1 \<and> fd_get (l_fds l) = fd_get (fds sh)"
    by (rule launch_loop_spec) (use assms start_launch_inv in \<open>auto simp: start_launch_def held_def\<close>)
  then obtain l where l: "launch_loop k p 0 (commands p) (start_launch sh) = Inr l"
    and inv: "launch_inv k p (fds sh) (pipes_made sh) (length (commands p)) (l\<lparr>l_pipes := pipes_made sh + length (commands p)\<rparr>)"
    and fd: "fd_get (l_fds l) = fd_get (fds sh)" by auto
  have "fd_get (l_fds (close_prev l)) = fd_get (fds sh)"
    using inv fd by (intro close_prev_fds) (auto simp: launch_inv_def)
  with l inv show ?thesis by blast
qed

lemma runPipeline_launch:
  assumes "launch_loop k p 0 (commands p) (start_launch sh) = Inr l"
  shows "fds (snd (runPipeline k p cmd sh)) = l_fds (close_prev l)"
    and "children (snd (runPipeline k p cmd sh)) = children sh @ l_children l"
    and "pipes_made (snd (runPipeline k p cmd sh)) = l_pipes l"
  using assms
  by (auto simp: runPipeline_def register_job_def launched_def puts_def giveTerminalTo_def close_prev_def Let_def
      split: prod.splits option.splits)

section \<open>Properties\<close>

text \<open>
  C21: a pipeline of any length whose pipes and forks succeed runs every stage with its standard input
  on the read end of the pipe before it (the first: the redirection or the shell's own), its standard
  output on the write end of the pipe after it (the last: the redirection or the shell's own), the
  shell's other descriptors and nothing else; a stage whose redirection cannot be opened exits with 1
  and one that cannot be run with 127; all are in the process group of the first; and the shell is left
  with exactly the descriptors it had.
\<close>
theorem pipeline_plumbing:
  assumes "std_open (fds sh)" and "commands p \<noteq> []" and "forks_succeed k (length (commands p))"
  shows "\<exists>kids. children (snd (runPipeline k p cmd sh)) = children sh @ kids \<and>
     map child_pid kids = map (fork_pid k) [0..<length (commands p)] \<and>
     (\<forall>c \<in> set kids. child_group c = fork_pid k 0) \<and>
     (\<forall>i < length (commands p). stage_spec k p (fds sh) (pipes_made sh) i (child_does (kids ! i))) \<and>
     fd_get (fds (snd (runPipeline k p cmd sh))) = fd_get (fds sh)"
proof -
  obtain l where l: "launch_loop k p 0 (commands p) (start_launch sh) = Inr l"
    and inv: "launch_inv k p (fds sh) (pipes_made sh) (length (commands p)) (l\<lparr>l_pipes := pipes_made sh + length (commands p)\<rparr>)"
    and fd: "fd_get (l_fds (close_prev l)) = fd_get (fds sh)"
    using launch_spec [OF assms] by blast
  show ?thesis
    unfolding runPipeline_launch [OF l] using inv fd by (intro exI [of _ "l_children l"]) (auto simp: launch_inv_def)
qed

definition example_kernel :: kernel where
  "example_kernel = \<lparr>pipe_ok = (\<lambda>_. True), fork_pid = (\<lambda>i. 100 + int i), open_ok = (\<lambda>_. True), exec_ok = (\<lambda>_. True),
     errno_text = ''Resource temporarily unavailable''\<rparr>"

definition example_shell :: shell where
  "example_shell = start_shell True 50 login_table"

lemma pipeline_plumbing_witness:
  "\<exists>kids. children (snd (runPipeline example_kernel example_pipeline ''x'' example_shell)) = children example_shell @ kids \<and>
     map child_pid kids = map (fork_pid example_kernel) [0..<length (commands example_pipeline)] \<and>
     (\<forall>c \<in> set kids. child_group c = fork_pid example_kernel 0) \<and>
     (\<forall>i < length (commands example_pipeline).
        stage_spec example_kernel example_pipeline (fds example_shell) (pipes_made example_shell) i (child_does (kids ! i))) \<and>
     fd_get (fds (snd (runPipeline example_kernel example_pipeline ''x'' example_shell))) = fd_get (fds example_shell)"
  by (rule pipeline_plumbing)
    (simp_all add: example_shell_def start_shell_def std_open_login example_pipeline_def example_kernel_def forks_succeed_def)

text \<open>A failing \<open>fork\<close> returns early: the read end of the last pipe stays open in the shell, and the
  children already started belong to no job.\<close>

definition failing_kernel :: kernel where
  "failing_kernel = example_kernel\<lparr>fork_pid := (\<lambda>i. if i = 1 then -1 else 100)\<rparr>"

lemma fork_failure_leaks:
  "(let sh = snd (runPipeline failing_kernel example_pipeline ''x'' example_shell)
    in fd_get (fds sh) 3 = Some (plain (Pipe_Read 0)) \<and> fd_get (fds example_shell) 3 = None \<and>
       map child_pid (children sh) = [100] \<and> jobs (joblist sh) = [])"
  by (simp add: failing_kernel_def example_kernel_def example_pipeline_def example_shell_def start_shell_def
      login_table_def runPipeline_def launch_loop.simps start_launch_def stage_pipe_def make_pipe_def fd_alloc_def
      fd_lowest_def fd_put_def fd_get_def stage_parent_def close_prev_def launched_def eputs_def fd_close_def plain_def)

end
