(* ===== verification/Stsh_Control.thy ===== *)
theory Stsh_Control
  imports Stsh_Plumbing
begin

text \<open>
  Job control: the invariant of the job list. \<open>jl_ok\<close> holds whatever pids the kernel gives out;
  \<open>jl_unique\<close> and \<open>agrees\<close> (the list shows as alive just the children that exist) hold as long as \<open>fork\<close> has not
  returned a pid that the list still showed.
\<close>

section \<open>The job list's invariant\<close>

definition job_pids :: "job \<Rightarrow> int list" where
  "job_pids j = map pid (processes j)"

definition job_ok :: "job \<Rightarrow> bool" where
  "job_ok j \<longleftrightarrow> job_pids j \<noteq> [] \<and> pgid j = hd (job_pids j) \<and> 0 < pgid j \<and> \<not> allTerminated j"

definition jl_ok :: "job_list \<Rightarrow> bool" where
  "jl_ok jl \<longleftrightarrow> sorted_wrt (<) (map num (jobs jl)) \<and> (\<forall>j \<in> set (jobs jl). 0 < num j \<and> num j \<le> counter jl \<and> job_ok j)"

definition jl_unique :: "job_list \<Rightarrow> bool" where
  "jl_unique jl \<longleftrightarrow> distinct (concat (map job_pids (jobs jl)))"

lemma jl_ok_sorted: "jl_ok jl \<Longrightarrow> sorted_wrt (<) (map num (jobs jl))"
  and jl_ok_job: "jl_ok jl \<Longrightarrow> j \<in> set (jobs jl) \<Longrightarrow> job_ok j"
  and jl_ok_num: "jl_ok jl \<Longrightarrow> j \<in> set (jobs jl) \<Longrightarrow> 0 < num j \<and> num j \<le> counter jl"
  by (auto simp: jl_ok_def)

lemma jl_ok_nums_distinct: "jl_ok jl \<Longrightarrow> distinct (map num (jobs jl))"
  using jl_ok_sorted strict_sorted_iff by blast

lemma jl_ok_num_inj: "jl_ok jl \<Longrightarrow> j \<in> set (jobs jl) \<Longrightarrow> j' \<in> set (jobs jl) \<Longrightarrow> num j = num j' \<Longrightarrow> j = j'"
  using jl_ok_nums_distinct by (auto simp: distinct_map inj_on_def)

lemma distinct_concat_same:
  "distinct (concat (map f xs)) \<Longrightarrow> x \<in> set xs \<Longrightarrow> y \<in> set xs \<Longrightarrow> a \<in> set (f x) \<Longrightarrow> a \<in> set (f y) \<Longrightarrow> x = y"
  by (induction xs) auto

lemma jl_unique_pid_inj:
  "jl_unique jl \<Longrightarrow> j \<in> set (jobs jl) \<Longrightarrow> j' \<in> set (jobs jl) \<Longrightarrow> q \<in> set (job_pids j) \<Longrightarrow> q \<in> set (job_pids j') \<Longrightarrow> j = j'"
  unfolding jl_unique_def by (rule distinct_concat_same)

lemma jl_unique_pgid_inj:
  assumes "jl_ok jl" and "jl_unique jl" and "j \<in> set (jobs jl)" "j' \<in> set (jobs jl)" and "pgid j = pgid j'"
  shows "j = j'"
proof -
  have "pgid j \<in> set (job_pids j)" "pgid j' \<in> set (job_pids j')"
    using jl_ok_job [OF assms(1)] assms(3,4) by (simp_all add: job_ok_def)
  with assms show ?thesis using jl_unique_pid_inj by metis
qed

lemma find_unique:
  assumes "\<And>x y. x \<in> set xs \<Longrightarrow> y \<in> set xs \<Longrightarrow> P x \<Longrightarrow> P y \<Longrightarrow> x = y"
  shows "find P xs = Some j \<longleftrightarrow> j \<in> set xs \<and> P j"
proof
  assume "find P xs = Some j"
  then show "j \<in> set xs \<and> P j" by (auto simp: find_Some_iff)
next
  assume j: "j \<in> set xs \<and> P j"
  then obtain j' where j': "find P xs = Some j'" by (metis find_None_iff not_Some_eq)
  then have "j' \<in> set xs \<and> P j'" by (auto simp: find_Some_iff)
  with j j' assms show "find P xs = Some j" by auto
qed

lemma getJob_iff: "jl_ok jl \<Longrightarrow> getJob n jl = Some j \<longleftrightarrow> j \<in> set (jobs jl) \<and> num j = n"
  unfolding getJob_def by (rule find_unique) (rule jl_ok_num_inj, simp_all)

lemma getJobByPgid_Some: "getJobByPgid pg jl = Some j \<Longrightarrow> j \<in> set (jobs jl) \<and> pgid j = pg"
  by (auto simp: getJobByPgid_def find_Some_iff)

lemma getJobWithProcess_Some: "getJobWithProcess q jl = Some j \<Longrightarrow> j \<in> set (jobs jl) \<and> q \<in> set (job_pids j)"
  by (auto simp: getJobWithProcess_def find_Some_iff job_pids_def)

lemma getJobByPgid_iff:
  "jl_ok jl \<Longrightarrow> jl_unique jl \<Longrightarrow> getJobByPgid pg jl = Some j \<longleftrightarrow> j \<in> set (jobs jl) \<and> pgid j = pg"
  unfolding getJobByPgid_def by (rule find_unique) (rule jl_unique_pgid_inj, simp_all)

lemma getJobWithProcess_iff:
  "jl_unique jl \<Longrightarrow> getJobWithProcess q jl = Some j \<longleftrightarrow> j \<in> set (jobs jl) \<and> q \<in> set (job_pids j)"
  unfolding getJobWithProcess_def job_pids_def set_map
  by (rule find_unique) (rule jl_unique_pid_inj [unfolded job_pids_def set_map])

section \<open>Operations on the list\<close>

definition same_identity :: "(job \<Rightarrow> job) \<Rightarrow> bool" where
  "same_identity f \<longleftrightarrow> (\<forall>j. num (f j) = num j \<and> pgid (f j) = pgid j \<and> job_pids (f j) = job_pids j)"

lemma same_identity_map: "(\<And>p. pid (g p) = pid p) \<Longrightarrow> same_identity (\<lambda>j. j\<lparr>processes := map g (processes j)\<rparr>)"
  by (simp add: same_identity_def job_pids_def)

lemma same_identity_ops:
  "same_identity (mark_process q st)" "same_identity markGroupRunning" "same_identity (jstate_update (\<lambda>_. s))"
  by (simp_all add: same_identity_def job_pids_def mark_process_def markGroupRunning_def)

lemma with_job_counter [simp]: "counter (with_job n f jl) = counter jl"
  by (simp add: with_job_def)

lemma with_job_jobs: "jobs (with_job n f jl) = map (\<lambda>j. if num j = n then f j else j) (jobs jl)"
  by (simp add: with_job_def)

lemma with_job_pids: "same_identity f \<Longrightarrow> map job_pids (jobs (with_job n f jl)) = map job_pids (jobs jl)"
  by (simp add: with_job_jobs same_identity_def)

lemma with_job_ok:
  assumes "jl_ok jl" and "same_identity f"
    and "\<And>j. j \<in> set (jobs jl) \<Longrightarrow> num j = n \<Longrightarrow> \<not> allTerminated (f j)"
  shows "jl_ok (with_job n f jl)"
proof -
  let ?g = "\<lambda>j. if num j = n then f j else j"
  have "map num (map ?g (jobs jl)) = map num (jobs jl)" using assms(2) by (simp add: same_identity_def)
  moreover have "\<forall>j \<in> set (map ?g (jobs jl)). 0 < num j \<and> num j \<le> counter jl \<and> job_ok j"
    using assms unfolding jl_ok_def job_ok_def by (auto simp: same_identity_def)
  ultimately show ?thesis
    using assms(1) unfolding jl_ok_def with_job_jobs by (simp only: with_job_counter)
qed

lemma with_job_unique: "jl_unique jl \<Longrightarrow> same_identity f \<Longrightarrow> jl_unique (with_job n f jl)"
  by (simp only: jl_unique_def with_job_pids)

lemma filter_after_with:
  "same_identity f \<Longrightarrow>
   filter (\<lambda>j. num j \<noteq> n) (map (\<lambda>j. if num j = n then f j else j) xs) = filter (\<lambda>j. num j \<noteq> n) xs"
  by (induction xs) (auto simp: same_identity_def)

lemma remove_after_with: "same_identity f \<Longrightarrow> remove_job n (with_job n f jl) = remove_job n jl"
  by (simp add: remove_job_def with_job_def filter_after_with)

lemma distinct_concat_filter: "distinct (concat (map f xs)) \<Longrightarrow> distinct (concat (map f (filter P xs)))"
  by (induction xs) auto

lemma remove_job_ok: "jl_ok jl \<Longrightarrow> jl_ok (remove_job n jl)"
  by (auto simp: jl_ok_def remove_job_def sorted_wrt_map intro: sorted_wrt_filter)

lemma remove_job_unique: "jl_unique jl \<Longrightarrow> jl_unique (remove_job n jl)"
  by (simp add: jl_unique_def remove_job_def distinct_concat_filter)

lemma allTerminated_mark_other: "pid ` set (processes j) \<inter> {q} = {} \<Longrightarrow> mark_process q st j = j"
  by (cases j) (auto simp: mark_process_def intro!: map_idI)

lemma handle_report_ok:
  assumes "jl_ok jl"
  shows "jl_ok (handle_report r jl)"
proof (cases "getJobWithProcess (fst r) jl")
  case None
  then show ?thesis using assms by (simp add: handle_report_def)
next
  case (Some j)
  then have j: "j \<in> set (jobs jl)" using getJobWithProcess_Some by blast
  show ?thesis
  proof (cases "allTerminated (mark_process (fst r) (snd r) j)")
    case True
    with Some assms show ?thesis
      by (simp add: handle_report_def remove_after_with same_identity_ops remove_job_ok)
  next
    case False
    with j assms have "jl_ok (with_job (num j) (mark_process (fst r) (snd r)) jl)"
      by (intro with_job_ok) (auto simp: same_identity_ops dest: jl_ok_num_inj)
    with Some False show ?thesis by (simp add: handle_report_def Let_def)
  qed
qed

lemma handle_report_unique: "jl_unique jl \<Longrightarrow> jl_unique (handle_report r jl)"
  by (simp add: handle_report_def Let_def remove_job_unique with_job_unique same_identity_ops split: option.split)

lemma fold_reports_unique: "jl_unique jl \<Longrightarrow> jl_unique (fold handle_report rs jl)"
  by (induction rs arbitrary: jl) (auto intro: handle_report_unique)

lemma fold_reports_ok: "jl_ok jl \<Longrightarrow> jl_ok (fold handle_report rs jl)"
  by (induction rs arbitrary: jl) (auto intro: handle_report_ok)

lemma emplace_last: "\<forall>x \<in> set xs. num x < n \<Longrightarrow> emplace n j xs = xs @ [j]"
  by (induction xs) auto

lemma register_job_jobs:
  assumes "jl_ok (joblist sh)"
  shows "register_job p cmd l sh = (Suc (counter (joblist sh)), sh\<lparr>joblist :=
     \<lparr>jobs = jobs (joblist sh) @ [\<lparr>num = Suc (counter (joblist sh)), pgid = l_pgid l,
         jstate = if background p then kBackground else kForeground, cmdline = cmd,
         processes = map (\<lambda>q. \<lparr>pid = q, pstate = kRunning\<rparr>) (l_pids l)\<rparr>],
      counter = Suc (counter (joblist sh))\<rparr>\<rparr>)"
proof -
  have "\<forall>x \<in> set (jobs (joblist sh)). num x < Suc (counter (joblist sh))"
    using jl_ok_num [OF assms] by (auto simp: less_Suc_eq_le)
  moreover from this have "map (\<lambda>j. if num j = Suc (counter (joblist sh)) then f j else j) (jobs (joblist sh)) = jobs (joblist sh)" for f
    by (intro map_idI) auto
  ultimately show ?thesis
    by (cases "joblist sh") (simp add: register_job_def addJob_def emplace_last with_job_def Let_def)
qed

lemma append_job_ok:
  assumes "jl_ok jl" and "job_ok j" and "num j = Suc (counter jl)"
  shows "jl_ok \<lparr>jobs = jobs jl @ [j], counter = Suc (counter jl)\<rparr>"
proof -
  have "\<forall>x \<in> set (jobs jl). num x < num j" using jl_ok_num [OF assms(1)] assms(3) by (auto simp: less_Suc_eq_le)
  then show ?thesis using assms by (auto simp: jl_ok_def sorted_wrt_append le_SucI)
qed

lemma append_job_unique:
  assumes "jl_unique jl" and "distinct (job_pids j)" and "set (job_pids j) \<inter> listed_pids jl = {}"
  shows "jl_unique \<lparr>jobs = jobs jl @ [j], counter = c\<rparr>"
proof -
  have "set (concat (map job_pids (jobs jl))) = listed_pids jl" by (simp add: listed_pids_def job_pids_def)
  then show ?thesis using assms by (auto simp: jl_unique_def)
qed

section \<open>What a launch leaves behind\<close>

lemma stage_parent_pids:
  "l_pids (stage_parent q d pfd l) = l_pids l @ [q]"
  "l_pgid (stage_parent q d pfd l) = (if l_pgid l = 0 then q else l_pgid l)"
  by (auto simp: stage_parent_def close_prev_def Let_def split: option.splits prod.splits)

lemma stage_pipe_pids: "l_pids (snd (stage_pipe h l)) = l_pids l" "l_pgid (snd (stage_pipe h l)) = l_pgid l"
  by (auto simp: stage_pipe_def split: prod.splits)

lemma launch_loop_pids:
  assumes "launch_loop k p i stages l = Inr l'" and "\<And>i. fork_pid k i \<noteq> 0"
  shows "l_pids l' = l_pids l @ map (fork_pid k) [i..<i + length stages]"
    and "\<forall>j \<in> {i..<i + length stages}. fork_pid k j \<noteq> -1"
    and "stages \<noteq> [] \<Longrightarrow> l_pgid l' = (if l_pgid l = 0 then fork_pid k i else l_pgid l)"
proof -
  have "l_pids l' = l_pids l @ map (fork_pid k) [i..<i + length stages] \<and>
    (\<forall>j \<in> {i..<i + length stages}. fork_pid k j \<noteq> -1) \<and>
    (stages \<noteq> [] \<longrightarrow> l_pgid l' = (if l_pgid l = 0 then fork_pid k i else l_pgid l)) \<and>
    (stages = [] \<longrightarrow> l_pgid l' = l_pgid l)"
    using assms(1)
  proof (induction stages arbitrary: i l)
    case (Cons argv rest)
    obtain pfd l1 where sp: "stage_pipe (rest \<noteq> []) l = (pfd, l1)" by (cases "stage_pipe (rest \<noteq> []) l")
    let ?l2 = "stage_parent (fork_pid k i)
        (child_stage k p (i = 0) (rest = []) (prevRead l1) pfd argv (l_fds l1)) pfd l1"
    have l1: "l_pids l1 = l_pids l" "l_pgid l1 = l_pgid l"
      using stage_pipe_pids [of "rest \<noteq> []" l] sp by simp_all
    have f: "fork_pid k i \<noteq> -1" and loop: "launch_loop k p (Suc i) rest ?l2 = Inr l'"
      using Cons.prems sp by (auto split: if_splits)
    have dom: "{i..<i + length (argv # rest)} = insert i {Suc i..<Suc i + length rest}" by auto
    have upt: "[i..<i + length (argv # rest)] = i # [Suc i..<Suc i + length rest]"
      by (metis add_Suc_right add_Suc length_Cons less_add_Suc1 upt_conv_Cons)
    show ?case
      using Cons.IH [OF loop] f l1 assms(2) unfolding dom upt
      by (cases "rest = []") (auto simp: stage_parent_pids)
  qed simp
  then show "l_pids l' = l_pids l @ map (fork_pid k) [i..<i + length stages]"
    and "\<forall>j \<in> {i..<i + length stages}. fork_pid k j \<noteq> -1"
    and "stages \<noteq> [] \<Longrightarrow> l_pgid l' = (if l_pgid l = 0 then fork_pid k i else l_pgid l)" by auto
qed

lemma stage_parent_child:
  "l_children (stage_parent q d pfd l) =
     l_children l @ [\<lparr>child_pid = q, child_group = (if l_pgid l = 0 then q else l_pgid l), child_does = d\<rparr>]"
  by (auto simp: stage_parent_def close_prev_def Let_def split: option.splits prod.splits)

lemma stage_pipe_children: "l_children (snd (stage_pipe h l)) = l_children l"
  by (auto simp: stage_pipe_def split: prod.splits)

text \<open>The children of a launch, whether it succeeds or not: the pids asked for, in the group of the first.\<close>

definition forked :: "int \<Rightarrow> int list \<Rightarrow> (int \<times> int) list" where
  "forked pg qs = map (\<lambda>q. (q, pg)) qs"

definition kids :: "launch \<Rightarrow> (int \<times> int) list" where
  "kids l = map (\<lambda>c. (child_pid c, child_group c)) (l_children l)"

lemma stage_kids:
  assumes "kids l = forked (l_pgid l) (l_pids l)" and "l_pgid l = (if l_pids l = [] then 0 else hd (l_pids l))"
    and "\<forall>q \<in> set (l_pids l). q \<noteq> 0" and "q \<noteq> 0" and "stage_pipe h l = (pfd, l1)"
  shows "kids (stage_parent q d pfd l1) = forked (l_pgid (stage_parent q d pfd l1)) (l_pids (stage_parent q d pfd l1))"
    and "l_pgid (stage_parent q d pfd l1) =
      (if l_pids (stage_parent q d pfd l1) = [] then 0 else hd (l_pids (stage_parent q d pfd l1)))"
proof -
  have l1: "l_pids l1 = l_pids l" "l_pgid l1 = l_pgid l" "l_children l1 = l_children l"
    using stage_pipe_pids [of h l] stage_pipe_children [of h l] assms(5) by simp_all
  have z: "l_pgid l = 0 \<longleftrightarrow> l_pids l = []" using assms(2,3) by (cases "l_pids l") auto
  show "kids (stage_parent q d pfd l1) = forked (l_pgid (stage_parent q d pfd l1)) (l_pids (stage_parent q d pfd l1))"
    using assms(1) z unfolding kids_def stage_parent_child stage_parent_pids l1 by (auto simp: forked_def)
  show "l_pgid (stage_parent q d pfd l1) =
      (if l_pids (stage_parent q d pfd l1) = [] then 0 else hd (l_pids (stage_parent q d pfd l1)))"
    using assms(2) z unfolding stage_parent_pids l1 by (cases "l_pids l") auto
qed

definition loop_end :: "(string \<times> launch) + launch \<Rightarrow> launch" where
  "loop_end r = (case r of Inl (call, l) \<Rightarrow> l | Inr l \<Rightarrow> l)"

lemma hd_first: "0 < i \<Longrightarrow> hd (map f [0..<i]) = f 0"
  by (simp add: upt_conv_Cons)

lemma loop_kids:
  assumes "kids l = forked (l_pgid l) (l_pids l)" and "l_pgid l = (if l_pids l = [] then 0 else hd (l_pids l))"
    and "l_pids l = map (fork_pid k) [0..<i]" and "\<And>i. fork_pid k i \<noteq> 0" and "\<forall>j < i. fork_pid k j \<noteq> -1"
  shows "\<exists>m. (\<forall>j < m. fork_pid k j \<noteq> -1) \<and> i \<le> m \<and> m \<le> i + length stages \<and>
    kids (loop_end (launch_loop k p i stages l)) = forked (l_pgid (loop_end (launch_loop k p i stages l))) (map (fork_pid k) [0..<m]) \<and>
    l_pids (loop_end (launch_loop k p i stages l)) = map (fork_pid k) [0..<m] \<and>
    (m = 0 \<or> l_pgid (loop_end (launch_loop k p i stages l)) = fork_pid k 0)"
  using assms
proof (induction stages arbitrary: i l)
  case Nil
  then have "i = 0 \<or> l_pgid l = fork_pid k 0" using hd_first [of i "fork_pid k"] by auto
  with Nil show ?case by (intro exI [of _ i]) (auto simp: loop_end_def)
next
  case (Cons argv rest)
  obtain pfd l1 where sp: "stage_pipe (rest \<noteq> []) l = (pfd, l1)" by (cases "stage_pipe (rest \<noteq> []) l")
  then have l1: "l_pids l1 = l_pids l" "l_pgid l1 = l_pgid l" "l_children l1 = l_children l"
    using stage_pipe_pids [of "rest \<noteq> []" l] stage_pipe_children [of "rest \<noteq> []" l] by simp_all
  have pg: "i = 0 \<or> l_pgid l = fork_pid k 0" using Cons.prems(2,3) hd_first [of i "fork_pid k"] by auto
  let ?l2 = "stage_parent (fork_pid k i) (child_stage k p (i = 0) (rest = []) (prevRead l1) pfd argv (l_fds l1)) pfd l1"
  show ?case
  proof (cases "rest \<noteq> [] \<and> \<not> pipe_ok k i \<or> fork_pid k i = -1")
    case True
    then have "loop_end (launch_loop k p i (argv # rest) l) \<in> {l, l1}" using sp by (auto simp: loop_end_def)
    moreover have "kids l1 = kids l" using l1(3) by (simp add: kids_def)
    ultimately show ?thesis using Cons.prems l1 pg by (intro exI [of _ i]) auto
  next
    case False
    have nz: "\<forall>q \<in> set (l_pids l). q \<noteq> 0" using Cons.prems(3,4) by auto
    note sk = stage_kids [OF Cons.prems(1,2) nz Cons.prems(4) sp]
    have pids: "l_pids ?l2 = map (fork_pid k) [0..<Suc i]" using Cons.prems(3) l1(1) by (simp add: stage_parent_pids)
    have "\<forall>j < Suc i. fork_pid k j \<noteq> -1" using Cons.prems(5) False by (auto simp: less_Suc_eq)
    from Cons.IH [OF sk pids Cons.prems(4) this] obtain m where
      m: "\<forall>j < m. fork_pid k j \<noteq> -1" "Suc i \<le> m" "m \<le> Suc i + length rest"
        "kids (loop_end (launch_loop k p (Suc i) rest ?l2)) = forked (l_pgid (loop_end (launch_loop k p (Suc i) rest ?l2))) (map (fork_pid k) [0..<m])"
        "l_pids (loop_end (launch_loop k p (Suc i) rest ?l2)) = map (fork_pid k) [0..<m]"
        "m = 0 \<or> l_pgid (loop_end (launch_loop k p (Suc i) rest ?l2)) = fork_pid k 0" by blast
    have eq: "launch_loop k p i (argv # rest) l = launch_loop k p (Suc i) rest ?l2" using False sp by auto
    show ?thesis unfolding eq using m by (intro exI [of _ m] conjI) simp_all
  qed
qed

lemma fork_okD:
  assumes "fork_ok k sh"
  shows "fork_pid k i \<noteq> 0" and "fork_pid k i \<noteq> -1 \<Longrightarrow> 0 < fork_pid k i \<and> fork_pid k i \<notin> fst ` set (unreaped sh)"
    and "fork_pid k i \<noteq> -1 \<Longrightarrow> fork_pid k i = fork_pid k i' \<Longrightarrow> i = i'"
proof -
  show *: "fork_pid k i \<noteq> -1 \<Longrightarrow> 0 < fork_pid k i \<and> fork_pid k i \<notin> fst ` set (unreaped sh)" for i
    using assms by (auto simp: fork_ok_def)
  show "fork_pid k i \<noteq> 0" using * [of i] by auto
  show "fork_pid k i \<noteq> -1 \<Longrightarrow> fork_pid k i = fork_pid k i' \<Longrightarrow> i = i'"
    using assms unfolding fork_ok_def by blast
qed

text \<open>The children a launch has made, failed or not.\<close>

lemma launch_kids:
  assumes "fork_ok k sh"
  shows "\<exists>pg qs. kids (loop_end (launch_loop k p 0 stages (start_launch sh))) = forked pg qs \<and> distinct qs \<and>
    (\<forall>q \<in> set qs. 0 < q \<and> q \<notin> fst ` set (unreaped sh)) \<and>
    l_pids (loop_end (launch_loop k p 0 stages (start_launch sh))) = qs \<and>
    (qs \<noteq> [] \<longrightarrow> pg = hd qs \<and> l_pgid (loop_end (launch_loop k p 0 stages (start_launch sh))) = pg)"
proof -
  let ?e = "loop_end (launch_loop k p 0 stages (start_launch sh))"
  obtain m where m: "\<forall>j < m. fork_pid k j \<noteq> -1" "kids ?e = forked (l_pgid ?e) (map (fork_pid k) [0..<m])"
    "l_pids ?e = map (fork_pid k) [0..<m]" "m = 0 \<or> l_pgid ?e = fork_pid k 0"
    using loop_kids [of "start_launch sh" k 0 stages p] fork_okD(1) [OF assms]
    by (auto simp: start_launch_def kids_def forked_def)
  have "distinct (map (fork_pid k) [0..<m])"
    using fork_okD(3) [OF assms] m(1) by (auto simp: distinct_map inj_on_def)
  moreover have "\<forall>q \<in> set (map (fork_pid k) [0..<m]). 0 < q \<and> q \<notin> fst ` set (unreaped sh)"
    using fork_okD(2) [OF assms] m(1) by auto
  ultimately show ?thesis using m(2,3,4) by (intro exI conjI) (auto simp: hd_map upt_conv_Cons)
qed

lemma launched_job:
  assumes "fork_ok k sh" and "commands p \<noteq> []" and "launch_loop k p 0 (commands p) (start_launch sh) = Inr l"
  shows "l_pids l \<noteq> []" and "l_pgid l = hd (l_pids l)" and "0 < l_pgid l" and "distinct (l_pids l)"
    and "kids l = forked (l_pgid l) (l_pids l)"
proof -
  note ll = launch_loop_pids [OF assms(3) fork_okD(1) [OF assms(1)]]
  obtain pg qs where q: "kids l = forked pg qs" "distinct qs" "\<forall>q \<in> set qs. 0 < q" "l_pids l = qs"
      "qs \<noteq> [] \<longrightarrow> pg = hd qs \<and> l_pgid l = pg"
    using launch_kids [OF assms(1), of p "commands p"] assms(3) by (auto simp: loop_end_def)
  have "l_pids l = map (fork_pid k) [0..<length (commands p)]" using ll(1) by (simp add: start_launch_def)
  then show ne: "l_pids l \<noteq> []" using assms(2) by simp
  show "l_pgid l = hd (l_pids l)" "distinct (l_pids l)" "kids l = forked (l_pgid l) (l_pids l)" using q ne by auto
  show "0 < l_pgid l" using q ne by (metis hd_in_set)
qed

section \<open>The list and the kernel\<close>

text \<open>Every process in the list is shown dead just when it is gone, and else is in its job's group.\<close>

definition agrees :: "job_list \<Rightarrow> (int \<times> int) list \<Rightarrow> bool" where
  "agrees jl U \<longleftrightarrow> (\<forall>j \<in> set (jobs jl). \<forall>p \<in> set (processes j).
     if pstate p = kTerminated then pid p \<notin> fst ` set U else (pid p, pgid j) \<in> set U)"

lemma agrees_remove: "agrees jl U \<Longrightarrow> agrees (remove_job n jl) U"
proof -
  have "set (jobs (remove_job n jl)) \<subseteq> set (jobs jl)" by (auto simp: remove_job_def)
  then show "agrees jl U \<Longrightarrow> agrees (remove_job n jl) U" unfolding agrees_def by (meson subsetD)
qed

lemma reap_other: "c \<in> set U \<Longrightarrow> fst c \<noteq> fst r \<Longrightarrow> c \<in> set (reap r U)"
  and reap_subset: "set (reap r U) \<subseteq> set U"
  and reap_gone: "new_state (snd r) = kTerminated \<Longrightarrow> fst r \<notin> fst ` set (reap r U)"
  and reap_stays: "new_state (snd r) \<noteq> kTerminated \<Longrightarrow> reap r U = U"
  by (auto simp: reap_def)

lemma agrees_report:
  assumes ok: "jl_ok jl" and un: "jl_unique jl" and ag: "agrees jl U" and r: "fst r \<in> fst ` set U"
  shows "agrees (handle_report r jl) (reap r U)"
proof -
  let ?m = "mark_process (fst r) (snd r)"
  have marked: "if pstate p' = kTerminated then pid p' \<notin> fst ` set (reap r U) else (pid p', pgid j) \<in> set (reap r U)"
    if j: "j \<in> set (jobs jl)" and p: "p \<in> set (processes j)" and p': "p' = (if pid p \<noteq> fst r then p else p\<lparr>pstate := new_state (snd r)\<rparr>)"
    for j p p'
  proof -
    have a: "if pstate p = kTerminated then pid p \<notin> fst ` set U else (pid p, pgid j) \<in> set U"
      using ag j p by (simp add: agrees_def)
    show ?thesis
    proof (cases "pid p = fst r")
      case True
      then have "(pid p, pgid j) \<in> set U" using a r by (auto split: if_splits)
      then show ?thesis using True p' reap_gone [of r U] reap_stays [of r U] by auto
    next
      case False
      then show ?thesis using a p' reap_other [of "(pid p, pgid j)" U r] reap_subset [of r U] by (auto split: if_splits)
    qed
  qed
  show ?thesis
  proof (cases "getJobWithProcess (fst r) jl")
    case None
    then have "pid p \<noteq> fst r" if "j \<in> set (jobs jl)" "p \<in> set (processes j)" for j p
    proof -
      have "fst r \<notin> pid ` set (processes j)" using None that(1) by (simp add: getJobWithProcess_def find_None_iff)
      then show ?thesis using that(2) by (metis image_eqI)
    qed
    then show ?thesis using None marked by (fastforce simp: agrees_def handle_report_def)
  next
    case (Some j0)
    then have j0: "j0 \<in> set (jobs jl)" "fst r \<in> set (job_pids j0)" using getJobWithProcess_Some by blast+
    have "agrees (with_job (num j0) ?m jl) (reap r U)"
      unfolding agrees_def with_job_jobs
    proof (intro ballI)
      fix j' p' assume "j' \<in> set (map (\<lambda>j. if num j = num j0 then ?m j else j) (jobs jl))" and p': "p' \<in> set (processes j')"
      then obtain j where j: "j \<in> set (jobs jl)" "j' = (if num j = num j0 then ?m j else j)" by auto
      then have pg: "pgid j' = pgid j" by (simp add: mark_process_def)
      obtain p where p: "p \<in> set (processes j)" "p' = (if pid p \<noteq> fst r then p else p\<lparr>pstate := new_state (snd r)\<rparr>)"
      proof (cases "num j = num j0")
        case True
        then show ?thesis using that p' j(2) by (auto simp: mark_process_def)
      next
        case False
        then have "fst r \<notin> set (job_pids j)" using jl_unique_pid_inj [OF un j(1) j0(1) _ j0(2)] by auto
        moreover have "pid p' \<in> set (job_pids j)" using False p' j(2) by (simp add: job_pids_def)
        ultimately have "pid p' \<noteq> fst r" by auto
        then show ?thesis using that p' j(2) False by auto
      qed
      show "if pstate p' = kTerminated then pid p' \<notin> fst ` set (reap r U) else (pid p', pgid j') \<in> set (reap r U)"
        unfolding pg by (rule marked [OF j(1) p])
    qed
    then show ?thesis using Some by (simp add: handle_report_def Let_def agrees_remove)
  qed
qed

lemma agrees_reports:
  "jl_ok jl \<Longrightarrow> jl_unique jl \<Longrightarrow> agrees jl U \<Longrightarrow> reports_ok rs U \<Longrightarrow> agrees (fold handle_report rs jl) (fold reap rs U)"
  by (induction rs arbitrary: jl U) (auto intro: agrees_report handle_report_ok handle_report_unique)

lemma fold_reap_subset: "set (fold reap rs U) \<subseteq> set U"
  using reap_subset by (induction rs arbitrary: U) (simp, fastforce)

lemma fold_reap_distinct: "distinct (map fst U) \<Longrightarrow> distinct (map fst (fold reap rs U))"
  by (induction rs arbitrary: U) (auto simp: reap_def distinct_map_filter)

text \<open>The states of processes may change as long as nobody dies or comes back.\<close>

lemma agrees_with:
  assumes "agrees jl U" and "\<And>j. pgid (f j) = pgid j"
    and "\<And>j p'. p' \<in> set (processes (f j)) \<Longrightarrow> \<exists>p \<in> set (processes j). pid p' = pid p \<and> (pstate p' = kTerminated \<longleftrightarrow> pstate p = kTerminated)"
  shows "agrees (with_job n f jl) U"
  unfolding agrees_def with_job_jobs
proof (intro ballI)
  fix j' p' assume "j' \<in> set (map (\<lambda>j. if num j = n then f j else j) (jobs jl))" and p': "p' \<in> set (processes j')"
  then obtain j where j: "j \<in> set (jobs jl)" "j' = (if num j = n then f j else j)" by auto
  have pg: "pgid j' = pgid j" using j(2) assms(2) by simp
  obtain p where "p \<in> set (processes j)" "pid p' = pid p" "pstate p' = kTerminated \<longleftrightarrow> pstate p = kTerminated"
    using assms(3) [of p' j] p' j(2) by (cases "num j = n") auto
  then show "if pstate p' = kTerminated then pid p' \<notin> fst ` set U else (pid p', pgid j') \<in> set U"
    using assms(1) j(1) pg by (fastforce simp: agrees_def)
qed

lemma agrees_ops:
  "agrees jl U \<Longrightarrow> agrees (with_job n markGroupRunning jl) U"
  "agrees jl U \<Longrightarrow> agrees (with_job n (jstate_update (\<lambda>_. s)) jl) U"
  by (erule agrees_with; force simp: markGroupRunning_def)+

text \<open>New children that the list does not show.\<close>

lemma agrees_more:
  assumes "agrees jl U" and "fst ` set V \<inter> listed_pids jl = {}"
  shows "agrees jl (U @ V)"
  using assms by (force simp: agrees_def listed_pids_def)

lemma agrees_append:
  assumes "agrees jl U" and "\<forall>p \<in> set (processes j). pstate p \<noteq> kTerminated \<and> (pid p, pgid j) \<in> set U"
  shows "agrees \<lparr>jobs = jobs jl @ [j], counter = c\<rparr> U"
  using assms by (auto simp: agrees_def)

end
