(* ===== verification/Stsh_Reach.thy ===== *)
theory Stsh_Reach
  imports Stsh_Control
begin

text \<open>
  The shell's invariant over every reachable state, whatever the lines, child reports and key presses
  and wherever they fall. One part holds whatever pids \<open>fork\<close> returns; the other (\<open>clean\<close>) as long as none of
  them was still in the job list.
\<close>

section \<open>The invariant\<close>

definition fg_ok :: "int \<Rightarrow> job_list \<Rightarrow> bool" where
  "fg_ok pg jl \<longleftrightarrow> (\<forall>j \<in> set (jobs jl). jstate j = kForeground \<longrightarrow> pgid j = pg)"

definition control_ok :: "control \<Rightarrow> shell \<Rightarrow> bool" where
  "control_ok c sh = (case c of Granting pg \<Rightarrow> 0 < pg \<and> fgPgid sh = pg
     | Launched pg \<Rightarrow> 0 < pg \<and> fgPgid sh = pg
     | Woken pg \<Rightarrow> 0 < pg \<and> fgPgid sh = pg
     | Suspended pg \<Rightarrow> 0 < pg \<and> fgPgid sh = pg \<and> must_wait pg sh
     | _ \<Rightarrow> fgPgid sh = 0)"

text \<open>The terminal: with the group waited for, if that still existed when it was handed over, else with the shell.\<close>

definition tty_ok :: "control \<Rightarrow> shell \<Rightarrow> bool" where
  "tty_ok c sh \<longleftrightarrow> (interactive sh \<longrightarrow>
     (let given = (\<lambda>pg. tty_owner sh = pg \<or> tty_owner sh = own_group sh \<and> pg \<notin> snd ` set (unreaped sh))
      in case c of Returning \<Rightarrow> True | Launched pg \<Rightarrow> given pg | Suspended pg \<Rightarrow> given pg | Woken pg \<Rightarrow> given pg
         | _ \<Rightarrow> tty_owner sh = own_group sh))"

definition clean :: "shell \<Rightarrow> bool" where
  "clean sh \<longleftrightarrow> jl_unique (joblist sh) \<and> fg_ok (fgPgid sh) (joblist sh) \<and> agrees (joblist sh) (unreaped sh)"

definition shell_inv :: "control \<Rightarrow> shell \<Rightarrow> bool" where
  "shell_inv c sh \<longleftrightarrow> jl_ok (joblist sh) \<and> control_ok c sh \<and> tty_ok c sh \<and> distinct (map fst (unreaped sh)) \<and>
     (\<not> reused sh \<longrightarrow> clean sh)"

lemma fg_ok_with: "fg_ok pg jl \<Longrightarrow> same_identity f \<Longrightarrow> (\<And>j. jstate (f j) = jstate j) \<Longrightarrow> fg_ok pg (with_job n f jl)"
  by (auto simp: fg_ok_def with_job_jobs same_identity_def split: if_splits)

lemma fg_ok_remove: "fg_ok pg jl \<Longrightarrow> fg_ok pg (remove_job n jl)"
  by (auto simp: fg_ok_def remove_job_def)

lemma fg_ok_report: "fg_ok pg jl \<Longrightarrow> fg_ok pg (handle_report r jl)"
  by (auto simp: handle_report_def Let_def same_identity_ops mark_process_def [abs_def] split: option.splits
      intro!: fg_ok_remove fg_ok_with same_identity_map)

lemma fg_ok_reports: "fg_ok pg jl \<Longrightarrow> fg_ok pg (fold handle_report rs jl)"
  by (induction rs arbitrary: jl) (auto intro: fg_ok_report)

lemma deliver_frame:
  "fgPgid (deliver e sh) = fgPgid sh" "interactive (deliver e sh) = interactive sh"
  "tty_owner (deliver e sh) = tty_owner sh" "own_group (deliver e sh) = own_group sh" "reused (deliver e sh) = reused sh"
  by (cases e; simp add: deliver_def handleSIGCHLD_def forwardToForeground_def send_signal_def)+

lemma deliver_lists:
  "jl_ok (joblist sh) \<Longrightarrow> jl_ok (joblist (deliver e sh))"
  "distinct (map fst (unreaped sh)) \<Longrightarrow> distinct (map fst (unreaped (deliver e sh)))"
  "set (unreaped (deliver e sh)) \<subseteq> set (unreaped sh)"
  using fold_reap_subset
  by (cases e; simp add: deliver_def handleSIGCHLD_def forwardToForeground_def send_signal_def fold_reports_ok
      fold_reap_distinct)+

lemma deliver_clean:
  assumes "jl_ok (joblist sh)" and "signal_ok e sh" and "clean sh"
  shows "clean (deliver e sh)"
proof (cases e)
  case (Child rs)
  then have "agrees (fold handle_report rs (joblist sh)) (fold reap rs (unreaped sh))"
    using assms by (intro agrees_reports) (simp_all add: clean_def signal_ok_def)
  then show ?thesis
    using assms(3) Child by (simp add: clean_def deliver_def handleSIGCHLD_def fold_reports_unique fg_ok_reports)
qed (use assms(3) in \<open>simp add: clean_def deliver_def forwardToForeground_def send_signal_def\<close>)

lemma deliver_inv:
  assumes "shell_inv c sh" and "signal_ok e sh" and "\<And>pg. c \<noteq> Suspended pg"
  shows "shell_inv c (deliver e sh)"
proof -
  have "tty_ok c sh \<Longrightarrow> tty_ok c (deliver e sh)"
    using image_mono [OF deliver_lists(3) [of e sh], of snd]
    by (cases c) (auto simp: tty_ok_def deliver_frame Let_def)
  then show ?thesis
    using assms deliver_lists(1,2) deliver_clean [OF _ assms(2)]
    by (cases c) (auto simp: shell_inv_def control_ok_def deliver_frame)
qed

section \<open>The wait\<close>

lemma getJobByPgid_None: "getJobByPgid pg jl = None \<longleftrightarrow> (\<forall>j \<in> set (jobs jl). pgid j \<noteq> pg)"
  by (auto simp: getJobByPgid_def find_None_iff)

lemma must_wait_iff:
  "jl_ok (joblist sh) \<Longrightarrow> jl_unique (joblist sh) \<Longrightarrow>
   must_wait pg sh \<longleftrightarrow> (\<exists>j \<in> set (jobs (joblist sh)). pgid j = pg \<and> anyRunning j)"
proof (cases "getJobByPgid pg (joblist sh)")
  case None
  then have "\<forall>j \<in> set (jobs (joblist sh)). pgid j \<noteq> pg" by (simp add: getJobByPgid_None)
  with None show ?thesis by (auto simp: must_wait_def)
next
  case (Some j)
  assume ok: "jl_ok (joblist sh)" "jl_unique (joblist sh)"
  with Some have "j \<in> set (jobs (joblist sh)) \<and> pgid j = pg" using getJobByPgid_Some by blast
  with Some ok show ?thesis by (auto simp: must_wait_def dest: jl_unique_pgid_inj)
qed

lemma not_running_stopped: "job_ok j \<Longrightarrow> \<not> anyRunning j \<Longrightarrow> allStopped j"
  by (simp add: job_ok_def anyRunning_def allStopped_def)

lemma demote_lists:
  assumes ok: "jl_ok (joblist sh)" and un: "jl_unique (joblist sh)" and "fg_ok pg (joblist sh)" and "\<not> must_wait pg sh"
    and "j \<in> set (jobs (joblist (demote pg sh)))"
  shows "jstate j = kBackground"
proof (cases "getJobByPgid pg (joblist sh)")
  case None
  then have "pgid j' \<noteq> pg" if "j' \<in> set (jobs (joblist sh))" for j'
    using that by (simp add: getJobByPgid_None)
  with None assms(3,5) show ?thesis by (cases "jstate j") (auto simp: demote_def fg_ok_def)
next
  case (Some j1)
  then have j1: "j1 \<in> set (jobs (joblist sh))" "pgid j1 = pg" using getJobByPgid_Some by blast+
  then have "allStopped j1"
    using Some assms(4) not_running_stopped jl_ok_job [OF ok] by (simp add: must_wait_def)
  with Some have "jobs (joblist (demote pg sh)) = jobs (with_job (num j1) (jstate_update (\<lambda>_. kBackground)) (joblist sh))"
    by (simp add: demote_def puts_def)
  with assms(5) obtain j0 where j0: "j0 \<in> set (jobs (joblist sh))"
    "j = (if num j0 = num j1 then j0\<lparr>jstate := kBackground\<rparr> else j0)" by (auto simp: with_job_jobs)
  show ?thesis
  proof (cases "num j0 = num j1")
    case False
    then have "pgid j0 \<noteq> pg" using jl_unique_pgid_inj [OF ok un j0(1) j1(1)] j1(2) by auto
    with False j0 assms(3) show ?thesis by (cases "jstate j0") (auto simp: fg_ok_def)
  qed (simp add: j0)
qed

lemma jstate_with_ok: "jl_ok jl \<Longrightarrow> jl_ok (with_job n (jstate_update (\<lambda>_. s)) jl)"
  by (rule with_job_ok) (auto simp: same_identity_ops allTerminated_def dest: jl_ok_job simp: job_ok_def)

lemma demote_ok: "jl_ok (joblist sh) \<Longrightarrow> jl_ok (joblist (demote pg sh))"
  by (auto simp: demote_def puts_def jstate_with_ok split: option.splits)

lemma demote_same:
  "jl_unique (joblist sh) \<Longrightarrow> jl_unique (joblist (demote pg sh))"
  "agrees (joblist sh) U \<Longrightarrow> agrees (joblist (demote pg sh)) U"
  by (auto simp: demote_def puts_def with_job_unique same_identity_ops agrees_ops split: option.splits)

lemma demote_frame:
  "fgPgid (demote pg sh) = fgPgid sh" "interactive (demote pg sh) = interactive sh"
  "tty_owner (demote pg sh) = tty_owner sh" "own_group (demote pg sh) = own_group sh"
  "unreaped (demote pg sh) = unreaped sh" "reused (demote pg sh) = reused sh"
  by (auto simp: demote_def puts_def split: option.splits)

lemma wait_ends_inv:
  assumes "jl_ok (joblist sh)" and "distinct (map fst (unreaped sh))" and "\<not> reused sh \<longrightarrow> clean sh"
    and "fgPgid sh = pg" and "\<not> must_wait pg sh"
  shows "shell_inv Returning (wait_ends pg sh)"
proof -
  have "clean (wait_ends pg sh)" if "clean sh"
    using that demote_lists [OF assms(1) _ _ assms(5)] demote_same [of sh] assms(4)
    by (auto simp: clean_def wait_ends_def fg_ok_def demote_frame)
  then show ?thesis
    using assms demote_ok [OF assms(1)]
    by (auto simp: shell_inv_def wait_ends_def control_ok_def tty_ok_def Let_def demote_frame)
qed

lemma wait_test_inv:
  assumes "jl_ok (joblist sh)" and "distinct (map fst (unreaped sh))" and "\<not> reused sh \<longrightarrow> clean sh"
    and "0 < pg" and "fgPgid sh = pg" and "tty_ok (Launched pg) sh" and "wait_test pg sh = (c, sh')"
  shows "shell_inv c sh'"
  using assms wait_ends_inv [OF assms(1-3,5)]
  by (auto simp: wait_test_def shell_inv_def control_ok_def tty_ok_def Let_def split: if_splits)

lemma maybeReset_ok: "jl_ok jl \<Longrightarrow> jl_ok (maybeResetCounter jl)"
  by (auto simp: maybeResetCounter_def jl_ok_def)

lemma maybeReset_same [simp]:
  "jl_unique (maybeResetCounter jl) = jl_unique jl" "fg_ok pg (maybeResetCounter jl) = fg_ok pg jl"
  "agrees (maybeResetCounter jl) U = agrees jl U"
  by (simp_all add: maybeResetCounter_def jl_unique_def fg_ok_def agrees_def)

lemma wait_returns_inv: "shell_inv Returning sh \<Longrightarrow> shell_inv Prompt (wait_returns sh)"
  by (auto simp: shell_inv_def wait_returns_def giveTerminalTo_def group_exists_def control_ok_def tty_ok_def clean_def
      maybeReset_ok Let_def)

section \<open>Commands\<close>

lemma frames [simp]:
  "joblist (puts s sh) = joblist sh" "joblist (eputs s sh) = joblist sh" "joblist (send_signal t sg sh) = joblist sh"
  "fgPgid (puts s sh) = fgPgid sh" "fgPgid (eputs s sh) = fgPgid sh" "fgPgid (send_signal t sg sh) = fgPgid sh"
  "interactive (puts s sh) = interactive sh" "interactive (eputs s sh) = interactive sh" "interactive (send_signal t sg sh) = interactive sh"
  "tty_owner (puts s sh) = tty_owner sh" "tty_owner (eputs s sh) = tty_owner sh" "tty_owner (send_signal t sg sh) = tty_owner sh"
  "own_group (puts s sh) = own_group sh" "own_group (eputs s sh) = own_group sh" "own_group (send_signal t sg sh) = own_group sh"
  "unreaped (puts s sh) = unreaped sh" "unreaped (eputs s sh) = unreaped sh" "unreaped (send_signal t sg sh) = unreaped sh"
  "reused (puts s sh) = reused sh" "reused (eputs s sh) = reused sh" "reused (send_signal t sg sh) = reused sh"
  by (simp_all add: puts_def eputs_def send_signal_def)

lemma launched_frames [simp]:
  "joblist (launched l sh) = joblist sh" "fgPgid (launched l sh) = fgPgid sh" "interactive (launched l sh) = interactive sh"
  "tty_owner (launched l sh) = tty_owner sh" "own_group (launched l sh) = own_group sh"
  by (simp_all add: launched_def)

lemma launched_kernel:
  "unreaped (launched l sh) = unreaped sh @ kids l"
  "reused (launched l sh) \<longleftrightarrow> reused sh \<or> \<not> fst ` set (kids l) \<inter> listed_pids (joblist sh) = {}"
  by (simp add: launched_def kids_def)
    (simp add: launched_def kids_def image_image disjoint_iff image_iff, blast)

lemma close_prev_kids [simp]: "kids (close_prev l) = kids l"
  by (simp add: close_prev_def kids_def split: option.split)

text \<open>States that differ in nothing the invariant looks at.\<close>

definition same_view :: "shell \<Rightarrow> shell \<Rightarrow> bool" where
  "same_view sh sh' \<longleftrightarrow> joblist sh' = joblist sh \<and> fgPgid sh' = fgPgid sh \<and> interactive sh' = interactive sh \<and>
     tty_owner sh' = tty_owner sh \<and> own_group sh' = own_group sh \<and> unreaped sh' = unreaped sh \<and> reused sh' = reused sh"

lemma shell_inv_same: "same_view sh sh' \<Longrightarrow> shell_inv Prompt sh \<Longrightarrow> shell_inv Prompt sh'"
  by (auto simp: same_view_def shell_inv_def control_ok_def tty_ok_def clean_def)

lemma same_view_prints: "same_view sh (puts s sh)" "same_view sh (eputs s sh)" "same_view sh (send_signal t sg sh)" "same_view sh sh"
  by (simp_all add: same_view_def)

lemma mark_running_ok: "jl_ok jl \<Longrightarrow> jl_ok (with_job n markGroupRunning jl)"
proof (rule with_job_ok)
  show "\<not> allTerminated (markGroupRunning j)" if j: "jl_ok jl" "j \<in> set (jobs jl)" for j
  proof -
    obtain p where p: "p \<in> set (processes j)" "pstate p \<noteq> kTerminated"
      using jl_ok_job [OF j] by (auto simp: job_ok_def allTerminated_def)
    let ?p = "if pstate p = kStopped then p\<lparr>pstate := kRunning\<rparr> else p"
    have "?p \<in> set (processes (markGroupRunning j))" "pstate ?p \<noteq> kTerminated"
      using p by (auto simp: markGroupRunning_def)
    then show ?thesis unfolding allTerminated_def by blast
  qed
qed (simp_all add: same_identity_ops)

lemma no_foreground: "jl_ok jl \<Longrightarrow> fg_ok 0 jl \<Longrightarrow> j \<in> set (jobs jl) \<Longrightarrow> jstate j = kBackground"
  by (cases "jstate j") (auto simp: fg_ok_def dest: jl_ok_job simp: job_ok_def)

lemma fg_ok_foreground:
  assumes "jl_ok jl" and "fg_ok 0 jl" and "j \<in> set (jobs jl)"
  shows "fg_ok (pgid j) (with_job (num j) (jstate_update (\<lambda>_. kForeground)) jl)"
  using no_foreground [OF assms(1,2)] jl_ok_num_inj [OF assms(1) _ assms(3)]
  by (force simp: fg_ok_def with_job_jobs split: if_splits)

lemma fg_bg_inv:
  assumes "shell_inv Prompt sh" and "fg_bg cmd arg sh = (c, sh')"
  shows "shell_inv c sh'"
proof (cases "getJob (strtoul arg) (joblist sh)")
  case None
  with assms show ?thesis using shell_inv_same [OF same_view_prints(2)] by (auto simp: fg_bg_def)
next
  case (Some j)
  have inv: "jl_ok (joblist sh)" "fgPgid sh = 0" "distinct (map fst (unreaped sh))" "\<not> reused sh \<longrightarrow> clean sh"
    and tty: "interactive sh \<longrightarrow> tty_owner sh = own_group sh"
    using assms(1) by (auto simp: shell_inv_def control_ok_def tty_ok_def)
  have j: "j \<in> set (jobs (joblist sh))" "0 < pgid j"
    using Some getJob_iff [OF inv(1)] jl_ok_job [OF inv(1), unfolded job_ok_def] by metis+
  define jl where "jl = with_job (num j) markGroupRunning (joblist sh)"
  define j' where "j' = markGroupRunning j"
  have jl: "jl_ok jl" "j' \<in> set (jobs jl)" "pgid j' = pgid j" "num j' = num j"
    unfolding jl_def j'_def using inv j
    by (auto simp: mark_running_ok same_identity_ops markGroupRunning_def with_job_jobs)
  have cl: "jl_unique jl" "fg_ok 0 jl" "agrees jl (unreaped sh)" if "clean sh"
    using that inv(2) unfolding jl_def clean_def
    by (auto simp: same_identity_ops markGroupRunning_def with_job_unique agrees_ops intro!: fg_ok_with)
  have fg: "fg_ok (pgid j) (with_job (num j) (jstate_update (\<lambda>_. kForeground)) jl)" if "clean sh"
    using fg_ok_foreground [OF jl(1) cl(2) jl(2)] jl(3,4) that by simp
  have bg: "fg_ok 0 (with_job (num j) (jstate_update (\<lambda>_. kBackground)) jl)" if "clean sh"
    using no_foreground [OF jl(1) cl(2)] that by (auto simp: fg_ok_def with_job_jobs split: if_splits)
  have st: "jl_ok (with_job (num j) (jstate_update (\<lambda>_. st)) jl)" for st using jl(1) by (rule jstate_with_ok)
  have un: "jl_unique (with_job (num j) (jstate_update (\<lambda>_. st)) jl) \<and> agrees (with_job (num j) (jstate_update (\<lambda>_. st)) jl) (unreaped sh)"
    if "clean sh" for st using cl [OF that] by (simp add: with_job_unique same_identity_ops agrees_ops)
  let ?sh = "send_signal (- pgid j) SIGCONT (sh\<lparr>joblist := jl\<rparr>)"
  show ?thesis
  proof (cases "cmd = ''bg''")
    case True
    then have "c = Prompt" "sh' = ?sh\<lparr>joblist := with_job (num j) (jstate_update (\<lambda>_. kBackground)) jl\<rparr>"
      using assms(2) Some by (auto simp: fg_bg_def Let_def jl_def)
    then show ?thesis using bg st un tty inv by (auto simp: shell_inv_def control_ok_def tty_ok_def clean_def)
  next
    case False
    then have "c = Granting (pgid j)"
      "sh' = ?sh\<lparr>joblist := with_job (num j) (jstate_update (\<lambda>_. kForeground)) jl, fgPgid := pgid j\<rparr>"
      using assms(2) Some by (auto simp: fg_bg_def Let_def jl_def)
    then show ?thesis using fg st un tty inv j(2) by (auto simp: shell_inv_def control_ok_def tty_ok_def clean_def)
  qed
qed

lemma runBuiltin_inv:
  assumes "shell_inv Prompt sh" and "runBuiltin argv sh = Some (c, sh')"
  shows "shell_inv c sh'"
proof -
  have "same_view sh (slay_halt_cont cmd arg sh)" for cmd arg
    using same_view_prints by (simp add: slay_halt_cont_def split: option.split)
  then have p: "shell_inv Prompt (slay_halt_cont cmd arg sh)" "shell_inv Prompt (eputs s sh)" "shell_inv Prompt (puts s sh)" for cmd arg s
    using shell_inv_same [OF _ assms(1)] same_view_prints by blast+
  have e: "shell_inv Exited sh" using assms(1) by (auto simp: shell_inv_def control_ok_def tty_ok_def)
  show ?thesis
    using assms(2) p e fg_bg_inv [OF assms(1), of "hd argv" "argv ! 1"]
    unfolding runBuiltin_def Let_def by (simp split: if_splits) (cases "fg_bg (hd argv) (argv ! 1) sh", auto)+
qed

text \<open>The children of a launch join the kernel's table.\<close>

lemma launched_inv:
  assumes "shell_inv Prompt sh" and "fork_ok k sh" and l: "l = loop_end (launch_loop k p 0 stages (start_launch sh))"
  shows "shell_inv Prompt (launched l sh)"
proof -
  obtain pg qs where q: "kids l = forked pg qs" "distinct qs" "\<forall>q \<in> set qs. q \<notin> fst ` set (unreaped sh)"
    using launch_kids [OF assms(2)] unfolding l by blast
  then have "distinct (map fst (unreaped sh @ kids l))"
    using assms(1) by (auto simp: shell_inv_def forked_def comp_def)
  moreover have "clean (launched l sh)" if "clean sh" "\<not> reused (launched l sh)"
    using that agrees_more [of "joblist sh" "unreaped sh" "kids l"] by (simp add: clean_def launched_kernel)
  ultimately show ?thesis
    using assms(1) by (auto simp: shell_inv_def control_ok_def tty_ok_def launched_kernel)
qed

lemma runPipeline_inv:
  assumes "shell_inv Prompt sh" and "fork_ok k sh" and "commands p \<noteq> []" and "runPipeline k p cmd sh = (c, sh')"
  shows "shell_inv c sh'"
proof (cases "launch_loop k p 0 (commands p) (start_launch sh)")
  case (Inl cl)
  then have "shell_inv Prompt (launched (snd cl) sh)"
    by (intro launched_inv [OF assms(1,2), of _ p "commands p"]) (simp add: loop_end_def split: prod.split)
  then have "shell_inv Prompt (eputs s (launched (snd cl) sh))" for s by (rule shell_inv_same [OF same_view_prints(2)])
  with Inl assms(4) show ?thesis by (cases cl) (auto simp: runPipeline_def)
next
  case (Inr l)
  note lj = launched_job [OF assms(2,3) Inr]
  have kids: "kids (close_prev l) = forked (l_pgid l) (l_pids l)" using lj(5) by simp
  let ?sh = "launched (close_prev l) sh"
  have "shell_inv Prompt (launched l sh)"
    using Inr by (intro launched_inv [OF assms(1,2), of _ p "commands p"]) (simp add: loop_end_def)
  moreover have "same_view (launched l sh) ?sh" by (simp add: same_view_def launched_kernel)
  ultimately have sh: "shell_inv Prompt ?sh" using shell_inv_same by blast
  let ?j = "\<lparr>num = Suc (counter (joblist sh)), pgid = l_pgid l,
      jstate = if background p then kBackground else kForeground, cmdline = cmd,
      processes = map (\<lambda>q. \<lparr>pid = q, pstate = kRunning\<rparr>) (l_pids l)\<rparr>"
  let ?jl = "\<lparr>jobs = jobs (joblist sh) @ [?j], counter = Suc (counter (joblist sh))\<rparr>"
  have inv: "jl_ok (joblist sh)" "fgPgid sh = 0" "distinct (map fst (unreaped ?sh))" and tty: "interactive sh \<longrightarrow> tty_owner sh = own_group sh"
    and cl: "\<not> reused ?sh \<longrightarrow> clean ?sh"
    using sh by (auto simp: shell_inv_def control_ok_def tty_ok_def)
  have reg: "register_job p cmd l ?sh = (Suc (counter (joblist sh)), ?sh\<lparr>joblist := ?jl\<rparr>)"
    using register_job_jobs [of ?sh p cmd l] inv(1) by simp
  have pids: "job_pids ?j = l_pids l" by (simp add: job_pids_def o_def)
  have "job_ok ?j" using lj(1-3) unfolding job_ok_def pids by (cases "l_pids l") (auto simp: allTerminated_def)
  then have jl: "jl_ok ?jl" by (intro append_job_ok [OF inv(1)]) auto
  have clean: "jl_unique ?jl" "fg_ok (if background p then 0 else l_pgid l) ?jl" "agrees ?jl (unreaped ?sh)" if "\<not> reused ?sh"
  proof -
    have c: "jl_unique (joblist sh)" "fg_ok 0 (joblist sh)" "agrees (joblist sh) (unreaped ?sh)"
      using cl that inv(2) by (auto simp: clean_def)
    have "fst ` set (kids l) \<inter> listed_pids (joblist sh) = {}" using that by (simp add: launched_kernel)
    then have "set (l_pids l) \<inter> listed_pids (joblist sh) = {}" unfolding lj(5) by (simp add: forked_def image_image)
    then show "jl_unique ?jl" using lj(4) pids by (intro append_job_unique [OF c(1)]) simp_all
    show "fg_ok (if background p then 0 else l_pgid l) ?jl" using no_foreground [OF inv(1) c(2)] by (auto simp: fg_ok_def)
    show "agrees ?jl (unreaped ?sh)"
      using kids by (intro agrees_append [OF c(3)]) (auto simp: launched_kernel forked_def)
  qed
  have group: "group_exists (l_pgid l) (?sh\<lparr>joblist := ?jl, fgPgid := l_pgid l\<rparr>)"
    using kids lj(1) by (cases "l_pids l") (auto simp: group_exists_def launched_kernel forked_def)
  show ?thesis
  proof (cases "background p")
    case True
    then have "c = Prompt" "sh' = puts (background_line (Suc (counter (joblist sh))) (l_pids l)) (?sh\<lparr>joblist := ?jl\<rparr>)"
      using assms(4) Inr reg by (auto simp: runPipeline_def)
    then show ?thesis using True jl clean inv tty by (auto simp: shell_inv_def control_ok_def tty_ok_def clean_def)
  next
    case False
    then have "c = Launched (l_pgid l)" "sh' = giveTerminalTo (l_pgid l) (?sh\<lparr>joblist := ?jl, fgPgid := l_pgid l\<rparr>)"
      using assms(4) Inr reg by (auto simp: runPipeline_def)
    then show ?thesis using False jl clean inv lj(3) group
      by (auto simp: shell_inv_def control_ok_def tty_ok_def clean_def giveTerminalTo_def)
  qed
qed

lemma run_line_inv:
  assumes "shell_inv Prompt sh" and "fork_ok k sh" and "run_line k line sh = (c, sh')"
  shows "shell_inv c sh'"
proof -
  let ?p = "parsePipeline line"
  have "same_view sh (prompt sh)" using same_view_prints by (simp add: prompt_def)
  then have pr: "shell_inv Prompt (prompt sh)" using assms(1) shell_inv_same by blast
  have ff: "fork_ok k (prompt sh)" using assms(2) by (simp add: prompt_def fork_ok_def)
  have e: "shell_inv Prompt (eputs s (prompt sh))" for s using shell_inv_same [OF same_view_prints(2) pr] .
  consider "\<not> valid ?p" | "valid ?p" "commands ?p = []" | r where "valid ?p" "commands ?p \<noteq> []"
      "runBuiltin (hd (commands ?p)) (prompt sh) = Some r" "run_line k line sh = r"
    | "valid ?p" "commands ?p \<noteq> []" "run_line k line sh = runPipeline k ?p line (prompt sh)"
    unfolding run_line_def Let_def
    by (cases "if length (commands ?p) = 1 then runBuiltin (hd (commands ?p)) (prompt sh) else None")
      (force split: if_splits)+
  then show ?thesis
  proof cases
    case 1
    then show ?thesis using assms(3) e by (auto simp: run_line_def Let_def)
  next
    case 2
    then show ?thesis using assms(3) pr by (auto simp: run_line_def Let_def)
  next
    case 3
    then show ?thesis using assms(3) runBuiltin_inv [OF pr] by simp
  next
    case 4
    then show ?thesis using assms(3) runPipeline_inv [OF pr ff] by simp
  qed
qed

lemma step_inv:
  assumes "shell_step (c, sh) (c', sh')" and "shell_inv c sh"
  shows "shell_inv c' sh'"
  using assms
proof (cases rule: shell_step.cases)
  case (grant pg)
  with assms(2) show ?thesis
    by (auto simp: shell_inv_def control_ok_def tty_ok_def giveTerminalTo_def group_exists_def clean_def)
next
  case (enter_wait pg)
  with assms(2) show ?thesis by (intro wait_test_inv [of sh pg]) (auto simp: shell_inv_def control_ok_def)
next
  case (test_again pg)
  with assms(2) show ?thesis by (intro wait_test_inv [of sh pg]) (auto simp: shell_inv_def control_ok_def tty_ok_def)
next
  case (wake e pg)
  have "shell_inv (Woken pg) sh" using assms(2) wake by (auto simp: shell_inv_def control_ok_def tty_ok_def)
  with wake show ?thesis by (auto intro: deliver_inv)
next
  case (key_after_wake pg sg)
  with assms(2) show ?thesis by (auto intro: deliver_inv simp: signal_ok_def)
next
  case end_of_file
  have "same_view sh (end_of_input sh)" by (simp add: same_view_def end_of_input_def prompt_def Let_def)
  with end_of_file assms(2) have "shell_inv Prompt sh'" using shell_inv_same by blast
  with end_of_file show ?thesis by (auto simp: shell_inv_def control_ok_def tty_ok_def)
next
  case (interrupt pg e)
  with assms(2) show ?thesis by (auto intro: deliver_inv)
qed (use assms(2) run_line_inv wait_returns_inv in auto)

lemma reach_inv: "shell_reach tty me t s \<Longrightarrow> shell_inv (fst s) (snd s)"
proof (induction rule: shell_reach.induct)
  case boot
  then show ?case
    by (simp add: start_shell_def shell_inv_def jl_ok_def jl_unique_def fg_ok_def control_ok_def tty_ok_def clean_def agrees_def)
next
  case (step s s')
  then show ?case using step_inv [of "fst s" "snd s" "fst s'" "snd s'"] by simp
qed

end
