(* ===== verification/Stsh_Props.thy ===== *)
theory Stsh_Props
  imports Stsh_Reach
begin

text \<open>
  The properties of the shell's job control: what a SIGCHLD does to the job list, the foreground wait,
  the discipline of the foreground job, the terminal and the keyboard signals, and who holds the ends
  of a pipeline's pipes.
\<close>

section \<open>The effect of child reports\<close>

definition settle :: "(int \<times> wait_status) list \<Rightarrow> process \<Rightarrow> process" where
  "settle rs p = fold (\<lambda>r p. if pid p \<noteq> fst r then p else p\<lparr>pstate := new_state (snd r)\<rparr>) rs p"

definition settle_job :: "(int \<times> wait_status) list \<Rightarrow> job \<Rightarrow> job" where
  "settle_job rs j = j\<lparr>processes := map (settle rs) (processes j)\<rparr>"

text \<open>
  Reports that come from the kernel's table (\<open>reports_ok\<close>) never name a child again that they have reported dead
  (\<open>exits_final\<close>), nor, while the list agrees with the table, one that the list shows dead (\<open>dead_silent\<close>).
\<close>

primrec exits_final :: "(int \<times> wait_status) list \<Rightarrow> bool" where
  "exits_final [] \<longleftrightarrow> True"
| "exits_final (r # rs) \<longleftrightarrow> (new_state (snd r) = kTerminated \<longrightarrow> fst r \<notin> fst ` set rs) \<and> exits_final rs"

definition silent :: "(int \<times> wait_status) list \<Rightarrow> process \<Rightarrow> bool" where
  "silent rs p \<longleftrightarrow> (pstate p = kTerminated \<longrightarrow> pid p \<notin> fst ` set rs)"

definition dead_silent :: "(int \<times> wait_status) list \<Rightarrow> job_list \<Rightarrow> bool" where
  "dead_silent rs jl \<longleftrightarrow> (\<forall>j \<in> set (jobs jl). \<forall>p \<in> set (processes j). silent rs p)"

lemma reports_listed: "reports_ok rs U \<Longrightarrow> fst ` set rs \<subseteq> fst ` set U"
proof (induction rs arbitrary: U)
  case (Cons r rs)
  then have "fst ` set rs \<subseteq> fst ` set (reap r U)" by simp
  then show ?case using Cons.prems image_mono [OF reap_subset [of r U], of fst] by auto
qed simp

lemma reports_exits: "reports_ok rs U \<Longrightarrow> exits_final rs"
proof (induction rs arbitrary: U)
  case (Cons r rs)
  then show ?case using reports_listed [of rs "reap r U"] reap_gone [of r U] by auto
qed simp

lemma reports_silent: "agrees jl U \<Longrightarrow> reports_ok rs U \<Longrightarrow> dead_silent rs jl"
  using reports_listed [of rs U] unfolding agrees_def dead_silent_def silent_def by (metis in_mono)

lemma reports_append: "reports_ok (rs @ rs') U \<longleftrightarrow> reports_ok rs U \<and> reports_ok rs' (fold reap rs U)"
  by (induction rs arbitrary: U) auto

lemma settle_simps [simp]:
  "settle [] p = p"
  "settle (r # rs) p = settle rs (if pid p \<noteq> fst r then p else p\<lparr>pstate := new_state (snd r)\<rparr>)"
  by (simp_all add: settle_def)

lemma settle_append: "settle (rs @ rs') p = settle rs' (settle rs p)"
  by (simp add: settle_def)

lemma pid_settle [simp]: "pid (settle rs p) = pid p"
  by (induction rs arbitrary: p) auto

lemma settle_unreported: "pid p \<notin> fst ` set rs \<Longrightarrow> settle rs p = p"
  by (induction rs arbitrary: p) auto

lemma settle_job_one: "settle_job [r] = mark_process (fst r) (snd r)"
  by (rule ext) (simp add: settle_job_def mark_process_def)

lemma settle_job_append: "settle_job (rs @ rs') j = settle_job rs' (settle_job rs j)"
  by (simp add: settle_job_def settle_append o_def)

lemma silent_later:
  "exits_final (rs @ rs') \<Longrightarrow> silent (rs @ rs') p \<Longrightarrow> silent rs' (settle rs p)"
proof (induction rs arbitrary: p)
  case (Cons r rs)
  let ?p = "if pid p \<noteq> fst r then p else p\<lparr>pstate := new_state (snd r)\<rparr>"
  have "silent (rs @ rs') ?p" using Cons.prems by (auto simp: silent_def)
  with Cons show ?case by simp
qed simp

lemma dead_settled:
  assumes "allTerminated j" and "\<forall>p \<in> set (processes j). silent rs p"
  shows "settle_job rs j = j"
  using assms by (cases j) (auto simp: settle_job_def allTerminated_def silent_def intro!: map_idI settle_unreported)

lemma mark_not_mine: "q \<notin> set (job_pids j) \<Longrightarrow> mark_process q st j = j"
  by (rule allTerminated_mark_other) (auto simp: job_pids_def)

lemma handle_report_spec:
  assumes "jl_ok jl" and "jl_unique jl"
  shows "handle_report r jl = jl\<lparr>jobs := filter (\<lambda>j. \<not> allTerminated j) (map (settle_job [r]) (jobs jl))\<rparr>"
proof (cases "getJobWithProcess (fst r) jl")
  case None
  then have "\<forall>j \<in> set (jobs jl). mark_process (fst r) (snd r) j = j \<and> \<not> allTerminated j"
    using jl_ok_job [OF assms(1)] by (auto simp: getJobWithProcess_def find_None_iff job_ok_def job_pids_def intro!: mark_not_mine)
  then have "filter (\<lambda>j. \<not> allTerminated j) (map (settle_job [r]) (jobs jl)) = jobs jl"
    by (auto simp: settle_job_one filter_map o_def intro!: map_idI filter_True [THEN trans])
  then show ?thesis using None by (simp add: handle_report_def)
next
  case (Some j)
  then have j: "j \<in> set (jobs jl)" "fst r \<in> set (job_pids j)" using getJobWithProcess_Some by blast+
  let ?m = "mark_process (fst r) (snd r)"
  have other: "j' \<in> set (jobs jl) \<Longrightarrow> j' \<noteq> j \<Longrightarrow> ?m j' = j' \<and> \<not> allTerminated j' \<and> num j' \<noteq> num j" for j'
    using jl_unique_pid_inj [OF assms(2) _ j(1)] j jl_ok_job [OF assms(1)] jl_ok_num_inj [OF assms(1)]
    by (auto simp: job_ok_def intro!: mark_not_mine)
  have "num x \<noteq> num j \<Longrightarrow> x \<in> set (jobs jl) \<Longrightarrow> ?m x = x" for x
    using other [of x] by (cases "x = j") simp_all
  then have w: "map (\<lambda>x. if num x = num j then ?m x else x) (jobs jl) = map ?m (jobs jl)"
    by (intro map_cong [OF refl]) simp
  have m: "num (?m x) = num x" for x by (simp add: mark_process_def)
  have k: "x \<in> set (jobs jl) \<Longrightarrow> x \<noteq> j \<Longrightarrow> \<not> allTerminated (?m x) \<and> num (?m x) \<noteq> num j" for x
    using other [of x] by simp
  have f: "filter (\<lambda>x. num x \<noteq> num j) (map ?m (jobs jl)) = filter (\<lambda>x. \<not> allTerminated x) (map ?m (jobs jl))"
    if "allTerminated (?m j)"
  proof (rule filter_cong [OF refl])
    fix y assume "y \<in> set (map ?m (jobs jl))"
    then obtain x where x: "x \<in> set (jobs jl)" "y = ?m x" by auto
    then show "(num y \<noteq> num j) = (\<not> allTerminated y)" using k [of x] m [of j] that by (cases "x = j") simp_all
  qed
  have n: "filter (\<lambda>x. \<not> allTerminated x) (map ?m (jobs jl)) = map ?m (jobs jl)" if "\<not> allTerminated (?m j)"
  proof (rule filter_True)
    show "\<forall>y \<in> set (map ?m (jobs jl)). \<not> allTerminated y" using k that by auto
  qed
  have wj: "with_job (num j) ?m jl = jl\<lparr>jobs := map ?m (jobs jl)\<rparr>"
    unfolding with_job_def w by (rule refl)
  show ?thesis
    using Some f n by (cases "allTerminated (?m j)")
      (simp_all add: handle_report_def wj remove_job_def settle_job_one)
qed

lemma settled_filter:
  assumes "\<forall>j \<in> set js. \<forall>p \<in> set (processes j). silent rs p"
  shows "filter (\<lambda>j. \<not> allTerminated j) (map (settle_job rs) (filter (\<lambda>j. \<not> allTerminated j) js)) =
    filter (\<lambda>j. \<not> allTerminated j) (map (settle_job rs) js)"
  using assms by (induction js) (auto simp: dead_settled)

lemma fold_reports_spec:
  assumes "jl_ok jl" and "jl_unique jl" and "exits_final rs" and "dead_silent rs jl"
  shows "fold handle_report rs jl = jl\<lparr>jobs := filter (\<lambda>j. \<not> allTerminated j) (map (settle_job rs) (jobs jl))\<rparr>"
  using assms
proof (induction rs arbitrary: jl)
  case Nil
  have "settle [] = id" by (rule ext) simp
  then have "settle_job [] = id" by (intro ext) (simp add: settle_job_def)
  then have "filter (\<lambda>j. \<not> allTerminated j) (map (settle_job []) (jobs jl)) = jobs jl"
    using jl_ok_job [OF Nil(1)] by (simp add: job_ok_def)
  then show ?case by simp
next
  case (Cons r rs)
  let ?js = "map (settle_job [r]) (jobs jl)"
  have s: "\<forall>j \<in> set ?js. \<forall>p \<in> set (processes j). silent rs p"
    using Cons.prems(3,4) silent_later [of "[r]" rs]
    by (auto simp: dead_silent_def settle_job_def simp del: settle_simps exits_final.simps)
  have *: "handle_report r jl = jl\<lparr>jobs := filter (\<lambda>j. \<not> allTerminated j) ?js\<rparr>"
    by (rule handle_report_spec [OF Cons.prems(1,2)])
  have "dead_silent rs (handle_report r jl)" using s by (auto simp: * dead_silent_def)
  then have "fold handle_report rs (handle_report r jl) =
      (handle_report r jl)\<lparr>jobs := filter (\<lambda>j. \<not> allTerminated j) (map (settle_job rs) (jobs (handle_report r jl)))\<rparr>"
    using Cons handle_report_ok handle_report_unique by simp
  also have "\<dots> = jl\<lparr>jobs := filter (\<lambda>j. \<not> allTerminated j) (map (settle_job rs) ?js)\<rparr>"
    using settled_filter [OF s] by (simp add: *)
  also have "map (settle_job rs) ?js = map (settle_job (r # rs)) (jobs jl)"
    using settle_job_append [of "[r]" rs] by (simp add: o_def)
  finally show ?case by simp
qed

section \<open>The wait returns\<close>

fun all_reports :: "signal list \<Rightarrow> (int \<times> wait_status) list" where
  "all_reports [] = []"
| "all_reports (Child rs # es) = rs @ all_reports es"
| "all_reports (Key sg # es) = all_reports es"

lemma exits_final_append: "exits_final (rs @ rs') \<Longrightarrow> exits_final rs \<and> exits_final rs'"
  by (induction rs) auto

lemma dead_silent_append: "dead_silent (rs @ rs') jl \<Longrightarrow> dead_silent rs jl"
  by (auto simp: dead_silent_def silent_def)

definition settles :: "(int \<times> wait_status) list \<Rightarrow> int \<Rightarrow> job_list \<Rightarrow> bool" where
  "settles rs pg jl \<longleftrightarrow> (\<forall>j \<in> set (jobs jl). pgid j = pg \<longrightarrow> (\<forall>p \<in> set (processes j). pstate (settle rs p) \<noteq> kRunning))"

lemma after_reports:
  assumes "jl_ok jl" and "jl_unique jl" and "exits_final (rs @ rs')" and "dead_silent (rs @ rs') jl"
  shows "dead_silent rs' (fold handle_report rs jl)"
    and "settles (rs @ rs') pg jl \<Longrightarrow> settles rs' pg (fold handle_report rs jl)"
proof -
  have js: "jobs (fold handle_report rs jl) = filter (\<lambda>j. \<not> allTerminated j) (map (settle_job rs) (jobs jl))"
    using fold_reports_spec [OF assms(1,2)] exits_final_append [OF assms(3)] dead_silent_append [OF assms(4)] by simp
  show "dead_silent rs' (fold handle_report rs jl)"
    using silent_later [OF assms(3)] assms(4) unfolding dead_silent_def js by (auto simp: settle_job_def)
  show "settles (rs @ rs') pg jl \<Longrightarrow> settles rs' pg (fold handle_report rs jl)"
    unfolding settles_def js by (auto simp: settle_job_def settle_append)
qed

lemma wait_returns_some:
  assumes "jl_ok (joblist sh)" and "jl_unique (joblist sh)" and "exits_final (all_reports es)"
    and "dead_silent (all_reports es) (joblist sh)" and "settles (all_reports es) pg (joblist sh)"
  shows "\<exists>sh'. waitForForegroundJob pg es sh = Some sh'"
  using assms
proof (induction es arbitrary: sh rule: all_reports.induct)
  case 1
  then have "\<not> must_wait pg sh"
    by (simp add: must_wait_iff settles_def anyRunning_def)
  then show ?case by simp
next
  case (2 rs es)
  note a = after_reports [of "joblist sh" rs "all_reports es"]
  have "joblist (deliver (Child rs) sh) = fold handle_report rs (joblist sh)"
    by (simp add: deliver_def handleSIGCHLD_def)
  moreover from this have "jl_ok (joblist (deliver (Child rs) sh))" "jl_unique (joblist (deliver (Child rs) sh))"
    using 2 by (simp_all add: fold_reports_ok fold_reports_unique)
  ultimately show ?case
    using 2 a exits_final_append [of rs "all_reports es"] by auto
next
  case (3 sg es)
  moreover have "joblist (deliver (Key sg) sh) = joblist sh"
    by (simp add: deliver_def forwardToForeground_def send_signal_def)
  ultimately show ?case by auto
qed

lemma reports_first: "reports_ok (all_reports (e # es)) (unreaped sh) \<Longrightarrow>
    signal_ok e sh \<and> reports_ok (all_reports es) (unreaped (deliver e sh))"
  by (cases e) (auto simp: signal_ok_def reports_append deliver_def handleSIGCHLD_def forwardToForeground_def send_signal_def)

lemma wait_steps:
  "waitForForegroundJob pg es sh = Some sh' \<Longrightarrow> reports_ok (all_reports es) (unreaped sh) \<Longrightarrow> c \<in> {Launched pg, Woken pg} \<Longrightarrow>
   shell_step\<^sup>*\<^sup>* (c, sh) (Prompt, sh')"
proof (induction es arbitrary: sh c)
  case Nil
  have one: "shell_step (c, sh) (wait_test pg sh)" using Nil.prems(3) by (auto intro: enter_wait test_again)
  with Nil.prems(1) have "shell_step (c, sh) (Returning, wait_ends pg sh)" "sh' = wait_returns (wait_ends pg sh)"
    by (auto simp: wait_test_def split: if_splits)
  then show ?case using leave_wait by (metis rtranclp.simps)
next
  case (Cons e es)
  have one: "shell_step (c, sh) (wait_test pg sh)" using Cons.prems(3) by (auto intro: enter_wait test_again)
  note ok = reports_first [OF Cons.prems(2)]
  show ?case
  proof (cases "must_wait pg sh")
    case True
    then have "shell_step (c, sh) (Suspended pg, sh)" using one by (simp add: wait_test_def)
    moreover have "shell_step (Suspended pg, sh) (Woken pg, deliver e sh)" using ok wake by blast
    moreover have "shell_step\<^sup>*\<^sup>* (Woken pg, deliver e sh) (Prompt, sh')" using Cons True ok by simp
    ultimately show ?thesis by (blast intro: converse_rtranclp_into_rtranclp)
  next
    case False
    with one Cons.prems(1) have "shell_step (c, sh) (Returning, wait_ends pg sh)" "sh' = wait_returns (wait_ends pg sh)"
      by (auto simp: wait_test_def)
    then show ?thesis using leave_wait by (metis rtranclp.simps)
  qed
qed

lemma wait_over_reused: "reused (wait_returns (wait_ends pg sh)) = reused sh"
proof -
  have "reused (giveTerminalTo g s) = reused s" for g s by (simp add: giveTerminalTo_def)
  then show ?thesis by (simp add: wait_returns_def wait_ends_def demote_frame Let_def)
qed

lemma wait_keeps_reused: "waitForForegroundJob pg es sh = Some sh' \<Longrightarrow> reused sh' = reused sh"
proof (induction es arbitrary: sh)
  case Nil
  then show ?case using wait_over_reused by (auto split: if_splits)
next
  case (Cons e es)
  show ?case
  proof (cases "must_wait pg sh")
    case True
    then show ?thesis using Cons by (simp add: deliver_frame)
  next
    case False
    then show ?thesis using Cons.prems wait_over_reused by auto
  qed
qed

section \<open>Who holds a pipe\<close>

lemma stage_spec_ends:
  assumes "stage_spec k p t b i (Execs argv t')" and "no_pipes_from b t" and "fd_get t' n = Some e"
  shows "refers e = Pipe_Write (b + m) \<Longrightarrow> n = 1 \<and> m = i"
    and "refers e = Pipe_Read (b + m) \<Longrightarrow> n = 0 \<and> i = Suc m"
proof -
  have t': "fd_get t' = (fd_get (exec_table t))(0 := stage_stdin p t b i, 1 := stage_stdout p t b i)"
    using assms(1) by (auto simp: stage_spec_def split: if_splits)
  have old: "fd_get (exec_table t) n = Some e \<Longrightarrow> refers e \<noteq> Pipe_Write (b + m) \<and> refers e \<noteq> Pipe_Read (b + m)"
    and std: "fd_get t n' = Some e \<Longrightarrow> refers e \<noteq> Pipe_Write (b + m) \<and> refers e \<noteq> Pipe_Read (b + m)" for n'
    using no_pipes_exec [OF assms(2)] assms(2) unfolding no_pipes_from_def by (meson le_add1)+
  consider "n = 0" "stage_stdin p t b i = Some e" | "n = 1" "stage_stdout p t b i = Some e"
    | "fd_get (exec_table t) n = Some e"
    using assms(3) unfolding t' by (auto split: if_splits)
  then show "refers e = Pipe_Write (b + m) \<Longrightarrow> n = 1 \<and> m = i"
    and "refers e = Pipe_Read (b + m) \<Longrightarrow> n = 0 \<and> i = Suc m"
    by (cases; use std [of 0] std [of 1] old in \<open>force simp: stage_stdin_def stage_stdout_def split: if_splits\<close>)+
qed

section \<open>Failing launches\<close>

definition stage_fails :: "kernel \<Rightarrow> nat \<Rightarrow> nat \<Rightarrow> bool" where
  "stage_fails k n i \<longleftrightarrow> Suc i < n \<and> \<not> pipe_ok k i \<or> fork_pid k i = -1"

definition failing_call :: "kernel \<Rightarrow> nat \<Rightarrow> nat \<Rightarrow> string" where
  "failing_call k n i = (if Suc i < n \<and> \<not> pipe_ok k i then ''pipe'' else ''fork'')"

lemma launch_loop_fails:
  assumes "i + length stages = n" and "i \<le> f" "f < n" and "stage_fails k n f"
    and "\<forall>j \<in> {i..<f}. \<not> stage_fails k n j"
  shows "\<exists>l'. launch_loop k p i stages l = Inl (failing_call k n f, l') \<and>
    map child_pid (l_children l') = map child_pid (l_children l) @ map (fork_pid k) [i..<f]"
  using assms
proof (induction stages arbitrary: i l)
  case (Cons argv rest)
  obtain pfd l1 where sp: "stage_pipe (rest \<noteq> []) l = (pfd, l1)" by (cases "stage_pipe (rest \<noteq> []) l")
  then have kids: "l_children l1 = l_children l" using stage_pipe_children [of "rest \<noteq> []" l] by simp
  have rest: "rest \<noteq> [] \<longleftrightarrow> Suc i < n" using Cons.prems(1) by auto
  show ?case
  proof (cases "f = i")
    case True
    then show ?thesis using Cons.prems(4) sp kids rest by (auto simp: stage_fails_def failing_call_def)
  next
    case False
    then have "\<not> stage_fails k n i" and f: "[i..<f] = i # [Suc i..<f]"
      using Cons.prems(2,5) by (auto simp: upt_conv_Cons)
    let ?l2 = "stage_parent (fork_pid k i)
        (child_stage k p (i = 0) (rest = []) (prevRead l1) pfd argv (l_fds l1)) pfd l1"
    have "\<exists>l'. launch_loop k p (Suc i) rest ?l2 = Inl (failing_call k n f, l') \<and>
      map child_pid (l_children l') = map child_pid (l_children ?l2) @ map (fork_pid k) [Suc i..<f]"
      using Cons.prems False by (intro Cons.IH) auto
    moreover have "launch_loop k p i (argv # rest) l = launch_loop k p (Suc i) rest ?l2"
      using sp rest \<open>\<not> stage_fails k n i\<close> by (auto simp: stage_fails_def)
    ultimately show ?thesis using kids by (simp add: stage_parent_child f)
  qed
qed simp

section \<open>An example run\<close>

definition example_run :: "control \<times> shell" where
  "example_run = run_line example_kernel ''ls | wc'' example_shell"

lemma example_fresh: "fork_ok example_kernel example_shell"
  by (simp add: fork_ok_def example_kernel_def example_shell_def start_shell_def)

lemma example_reach: "shell_reach True 50 login_table (fst example_run, snd example_run)"
  unfolding example_run_def prod.collapse
  using shell_reach.step [OF shell_reach.boot read_line [OF example_fresh, unfolded example_shell_def]]
  by (simp add: example_shell_def)


lemma example_parsed: "parsePipeline ''ls | wc'' =
    \<lparr>commands = [[''ls''], [''wc'']], infile = [], outfile = [], background = False, valid = True, error = []\<rparr>"
  by code_simp

definition example_jobs :: job_list where
  "example_jobs = \<lparr>jobs = [\<lparr>num = 1, pgid = 100, jstate = kForeground, cmdline = ''ls | wc'',
     processes = [\<lparr>pid = 100, pstate = kRunning\<rparr>, \<lparr>pid = 101, pstate = kRunning\<rparr>]\<rparr>], counter = 1\<rparr>"

lemma launch_inv_kids:
  assumes "launch_inv k p t b n (l\<lparr>l_pipes := m\<rparr>)"
  shows "kids l = forked (fork_pid k 0) (map (fork_pid k) [0..<n])"
proof -
  have "kids l = map (\<lambda>c. (child_pid c, fork_pid k 0)) (l_children l)"
    using assms by (auto simp: kids_def launch_inv_def)
  also have "\<dots> = forked (fork_pid k 0) (map child_pid (l_children l))" by (simp add: forked_def)
  finally show ?thesis using assms by (simp add: launch_inv_def)
qed

lemma runPipeline_registers:
  assumes "std_open (fds sh)" and "commands p \<noteq> []" and "forks_succeed k (length (commands p))" and "jl_ok (joblist sh)"
  defines "qs \<equiv> map (fork_pid k) [0..<length (commands p)]"
  shows "joblist (snd (runPipeline k p cmd sh)) = \<lparr>jobs = jobs (joblist sh) @ [\<lparr>num = Suc (counter (joblist sh)),
        pgid = fork_pid k 0, jstate = if background p then kBackground else kForeground, cmdline = cmd,
        processes = map (\<lambda>q. \<lparr>pid = q, pstate = kRunning\<rparr>) qs\<rparr>],
      counter = Suc (counter (joblist sh))\<rparr>"
    and "fst (runPipeline k p cmd sh) = (if background p then Prompt else Launched (fork_pid k 0))"
    and "unreaped (snd (runPipeline k p cmd sh)) = unreaped sh @ forked (fork_pid k 0) qs"
    and "reused (snd (runPipeline k p cmd sh)) \<longleftrightarrow> reused sh \<or> set qs \<inter> listed_pids (joblist sh) \<noteq> {}"
    and "fd_get (fds (snd (runPipeline k p cmd sh))) = fd_get (fds sh)"
proof -
  obtain l where l: "launch_loop k p 0 (commands p) (start_launch sh) = Inr l"
    and inv: "launch_inv k p (fds sh) (pipes_made sh) (length (commands p)) (l\<lparr>l_pipes := pipes_made sh + length (commands p)\<rparr>)"
    and fd: "fd_get (l_fds (close_prev l)) = fd_get (fds sh)"
    using launch_spec [OF assms(1-3)] by blast
  then have pids: "l_pids l = qs" and pg: "l_pgid l = fork_pid k 0"
    using assms(2) by (simp_all add: launch_inv_def qs_def)
  have kids: "kids (close_prev l) = forked (fork_pid k 0) qs" using launch_inv_kids [OF inv] by (simp add: qs_def)
  obtain n sh' where r: "register_job p cmd l (launched (close_prev l) sh) = (n, sh')" by (metis surj_pair)
  have sh': "sh' = (launched (close_prev l) sh)\<lparr>joblist := \<lparr>jobs = jobs (joblist sh) @
      [\<lparr>num = Suc (counter (joblist sh)), pgid = fork_pid k 0, jstate = if background p then kBackground else kForeground,
        cmdline = cmd, processes = map (\<lambda>q. \<lparr>pid = q, pstate = kRunning\<rparr>) qs\<rparr>],
      counter = Suc (counter (joblist sh))\<rparr>\<rparr>"
    using register_job_jobs [of "launched (close_prev l) sh" p cmd l] assms(4) pids pg r by auto
  have k: "unreaped sh' = unreaped sh @ forked (fork_pid k 0) qs"
    "reused sh' \<longleftrightarrow> reused sh \<or> set qs \<inter> listed_pids (joblist sh) \<noteq> {}" "fd_get (fds sh') = fd_get (fds sh)"
    using kids fd unfolding sh' by (simp_all add: launched_kernel forked_def image_image, simp add: launched_def)
  note run = l r pg sh' k
  show "joblist (snd (runPipeline k p cmd sh)) = \<lparr>jobs = jobs (joblist sh) @ [\<lparr>num = Suc (counter (joblist sh)),
        pgid = fork_pid k 0, jstate = if background p then kBackground else kForeground, cmdline = cmd,
        processes = map (\<lambda>q. \<lparr>pid = q, pstate = kRunning\<rparr>) qs\<rparr>],
      counter = Suc (counter (joblist sh))\<rparr>"
    using l r sh' by (simp add: runPipeline_def giveTerminalTo_def)
  show "fst (runPipeline k p cmd sh) = (if background p then Prompt else Launched (fork_pid k 0))"
    using l r pg by (simp add: runPipeline_def)
  show "unreaped (snd (runPipeline k p cmd sh)) = unreaped sh @ forked (fork_pid k 0) qs"
    "reused (snd (runPipeline k p cmd sh)) \<longleftrightarrow> reused sh \<or> set qs \<inter> listed_pids (joblist sh) \<noteq> {}"
    "fd_get (fds (snd (runPipeline k p cmd sh))) = fd_get (fds sh)"
    using l r k by (auto simp: runPipeline_def giveTerminalTo_def puts_def)
qed

lemma example_run_state: "fst example_run = Launched 100" "joblist (snd example_run) = example_jobs"
  "unreaped (snd example_run) = [(100, 100), (101, 100)]" "\<not> reused (snd example_run)"
proof -
  let ?p = "\<lparr>commands = [[''ls''], [''wc'']], infile = [], outfile = [], background = False, valid = True, error = []\<rparr> :: pipeline_t"
  have run: "example_run = runPipeline example_kernel ?p ''ls | wc'' (prompt example_shell)"
    unfolding example_run_def run_line_def example_parsed Let_def by simp
  have sh: "fds (prompt example_shell) = login_table" "joblist (prompt example_shell) = \<lparr>jobs = [], counter = 0\<rparr>"
    "unreaped (prompt example_shell) = []" "\<not> reused (prompt example_shell)"
    by (simp_all add: prompt_def example_shell_def start_shell_def puts_def)
  have k: "forks_succeed example_kernel 2" "fork_pid example_kernel 0 = 100" "fork_pid example_kernel (Suc 0) = 101"
    by (simp_all add: forks_succeed_def example_kernel_def)
  have "jl_ok (joblist (prompt example_shell))" by (simp add: sh jl_ok_def)
  note r = runPipeline_registers [of "prompt example_shell" ?p example_kernel, OF _ _ _ this, of "''ls | wc''"]
  show "fst example_run = Launched 100" "joblist (snd example_run) = example_jobs"
    "unreaped (snd example_run) = [(100, 100), (101, 100)]" "\<not> reused (snd example_run)"
    unfolding run using r k
    by (simp_all add: sh std_open_login example_jobs_def upt_rec numeral_2_eq_2 forked_def listed_pids_def)
qed

section \<open>Properties\<close>






text \<open>
  C19: one run of the SIGCHLD handler, on any reports that \<open>waitpid\<close> can make of the existing children and in whatever
  order, leaves every process of the list in the state of its last report, keeps the other processes and the order of the
  jobs, and removes exactly the jobs all of whose processes have died. This is so as long as \<open>fork\<close> has
  returned no pid that the job list still showed for a dead process (POSIX allows it to: \<open>reused_pid_hangs\<close>).
\<close>
theorem sigchld_settles_jobs:
  assumes "shell_reach tty me t (c, sh)" and "\<not> reused sh" and "reports_ok rs (unreaped sh)"
  shows "handleSIGCHLD rs sh = sh\<lparr>joblist := (joblist sh)\<lparr>jobs :=
    filter (\<lambda>j. \<not> allTerminated j) (map (settle_job rs) (jobs (joblist sh)))\<rparr>, unreaped := fold reap rs (unreaped sh)\<rparr>"
proof -
  have "jl_ok (joblist sh)" "clean sh" using reach_inv [OF assms(1)] assms(2) by (simp_all add: shell_inv_def)
  then show ?thesis
    using fold_reports_spec [of "joblist sh" rs] reports_exits [OF assms(3)] reports_silent [OF _ assms(3)]
    by (simp add: handleSIGCHLD_def clean_def)
qed

lemma sigchld_settles_jobs_witness:
  "handleSIGCHLD [(101, W_Exited), (100, W_Stopped)] (snd example_run) =
    (snd example_run)\<lparr>joblist := (joblist (snd example_run))\<lparr>jobs := filter (\<lambda>j. \<not> allTerminated j)
      (map (settle_job [(101, W_Exited), (100, W_Stopped)]) (jobs (joblist (snd example_run))))\<rparr>,
      unreaped := fold reap [(101, W_Exited), (100, W_Stopped)] (unreaped (snd example_run))\<rparr>"
  by (rule sigchld_settles_jobs [OF example_reach example_run_state(4)])
    (simp add: example_run_state(3) reap_def new_state_def)

text \<open>
  C18: a foreground wait returns. It only blocks while some process of the awaited group exists. And whenever the reports
  that arrive leave no process of the awaited job running, in whatever batches and with whatever key presses between them,
  the wait comes back to the prompt by steps of the shell, with no foreground job, no keyboard target and the terminal
  taken back. This is so as long as \<open>fork\<close> has returned no pid that the job list still showed for a dead process;
  otherwise the wait may block for ever (\<open>reused_pid_hangs\<close>).
\<close>
theorem foreground_wait_returns:
  assumes "shell_reach tty me t (Launched pg, sh)" and "\<not> reused sh"
    and "reports_ok (all_reports es) (unreaped sh)" and "settles (all_reports es) pg (joblist sh)"
  shows "(must_wait pg sh \<longrightarrow> pg \<in> snd ` set (unreaped sh)) \<and>
    (\<exists>sh'. waitForForegroundJob pg es sh = Some sh' \<and> shell_step\<^sup>*\<^sup>* (Launched pg, sh) (Prompt, sh') \<and>
       fgPgid sh' = 0 \<and> (\<forall>j \<in> set (jobs (joblist sh')). jstate j = kBackground) \<and>
       (interactive sh' \<longrightarrow> tty_owner sh' = own_group sh'))"
proof -
  have inv: "shell_inv (Launched pg) sh" using reach_inv [OF assms(1)] by simp
  then have ok: "jl_ok (joblist sh)" "jl_unique (joblist sh)" "agrees (joblist sh) (unreaped sh)"
    using assms(2) by (simp_all add: shell_inv_def clean_def)
  have exists: "pg \<in> snd ` set (unreaped sh)" if w: "must_wait pg sh"
  proof -
    obtain j p where "j \<in> set (jobs (joblist sh))" "pgid j = pg" "p \<in> set (processes j)" "pstate p = kRunning"
      using w must_wait_iff [OF ok(1,2)] by (auto simp: anyRunning_def)
    then have "(pid p, pg) \<in> set (unreaped sh)" using ok(3) by (fastforce simp: agrees_def)
    then show ?thesis by force
  qed
  obtain sh' where sh': "waitForForegroundJob pg es sh = Some sh'"
    using wait_returns_some [OF ok(1,2) reports_exits [OF assms(3)] reports_silent [OF ok(3) assms(3)] assms(4)] by blast
  have steps: "shell_step\<^sup>*\<^sup>* (Launched pg, sh) (Prompt, sh')"
    by (rule wait_steps [OF sh' assms(3)]) simp
  have "shell_inv c' s'" if "shell_step\<^sup>*\<^sup>* (Launched pg, sh) (c', s')" for c' s'
    using that by (induction rule: rtranclp_induct2) (auto intro: inv step_inv)
  then have "shell_inv Prompt sh'" using steps by blast
  moreover have "\<not> reused sh'" using wait_keeps_reused [OF sh'] assms(2) by simp
  ultimately have "fgPgid sh' = 0" "jl_ok (joblist sh')" "fg_ok 0 (joblist sh')" "interactive sh' \<longrightarrow> tty_owner sh' = own_group sh'"
    by (auto simp: shell_inv_def control_ok_def tty_ok_def clean_def)
  with sh' steps no_foreground exists show ?thesis by blast
qed

definition example_signals :: "signal list" where
  "example_signals = [Key SIGINT, Child [(101, W_Exited)], Child [(100, W_Stopped)]]"

lemma foreground_wait_returns_witness:
  "\<exists>sh'. waitForForegroundJob 100 example_signals (snd example_run) = Some sh' \<and>
    shell_step\<^sup>*\<^sup>* (Launched 100, snd example_run) (Prompt, sh') \<and>
    fgPgid sh' = 0 \<and> (\<forall>j \<in> set (jobs (joblist sh')). jstate j = kBackground) \<and>
    (interactive sh' \<longrightarrow> tty_owner sh' = own_group sh')"
proof -
  have "reports_ok (all_reports example_signals) (unreaped (snd example_run))"
    by (simp add: example_signals_def example_run_state reap_def new_state_def)
  moreover have "settles (all_reports example_signals) 100 (joblist (snd example_run))"
    by (simp add: example_signals_def settles_def new_state_def example_run_state example_jobs_def)
  ultimately show ?thesis
    using foreground_wait_returns [OF example_reach [unfolded example_run_state(1)] example_run_state(4), of example_signals] by blast
qed

text \<open>
  End of file travels through a pipeline. When no descriptor of the shell refers to the pipes about
  to be made, each new pipe's write end is held only by the stage before it, as standard output, its read
  end only by the stage after it, as standard input, and the shell itself holds neither once the pipeline
  runs: a reader sees end of file exactly when its writer is gone.
\<close>
theorem pipe_ends_unique:
  assumes "std_open (fds sh)" and "no_pipes_from (pipes_made sh) (fds sh)"
    and "commands p \<noteq> []" and "forks_succeed k (length (commands p))"
  shows "\<exists>kids. children (snd (runPipeline k p cmd sh)) = children sh @ kids \<and>
    (\<forall>i < length kids. \<forall>argv t n e m. child_does (kids ! i) = Execs argv t \<longrightarrow> fd_get t n = Some e \<longrightarrow>
       (refers e = Pipe_Write (pipes_made sh + m) \<longrightarrow> n = 1 \<and> m = i) \<and>
       (refers e = Pipe_Read (pipes_made sh + m) \<longrightarrow> n = 0 \<and> i = Suc m)) \<and>
    no_pipes_from (pipes_made sh) (fds (snd (runPipeline k p cmd sh)))"
proof -
  obtain l where l: "launch_loop k p 0 (commands p) (start_launch sh) = Inr l"
    and inv: "launch_inv k p (fds sh) (pipes_made sh) (length (commands p)) (l\<lparr>l_pipes := pipes_made sh + length (commands p)\<rparr>)"
    and fd: "fd_get (l_fds (close_prev l)) = fd_get (fds sh)"
    using launch_spec [OF assms(1,3,4)] by blast
  have spec: "i < length (l_children l) \<Longrightarrow> stage_spec k p (fds sh) (pipes_made sh) i (child_does (l_children l ! i))" for i
    using inv launch_inv_children [OF inv] by (simp add: launch_inv_def)
  show ?thesis
    unfolding runPipeline_launch [OF l]
  proof (intro exI conjI allI impI)
    show "children sh @ l_children l = children sh @ l_children l" ..
    show "no_pipes_from (pipes_made sh) (l_fds (close_prev l))" using assms(2) by (simp add: no_pipes_from_def fd)
    fix i argv t n e m
    assume "i < length (l_children l)" "child_does (l_children l ! i) = Execs argv t" and g: "fd_get t n = Some e"
    then have s: "stage_spec k p (fds sh) (pipes_made sh) i (Execs argv t)" using spec [of i] by simp
    note ends = stage_spec_ends [OF s assms(2) g]
    show "n = 1" "m = i" if "refers e = Pipe_Write (pipes_made sh + m)" using ends(1) [OF that] by simp_all
    show "n = 0" "i = Suc m" if "refers e = Pipe_Read (pipes_made sh + m)" using ends(2) [OF that] by simp_all
  qed
qed

lemma pipe_ends_unique_witness:
  "\<exists>kids. children (snd (runPipeline example_kernel example_pipeline ''x'' example_shell)) = children example_shell @ kids \<and>
    (\<forall>i < length kids. \<forall>argv t n e m. child_does (kids ! i) = Execs argv t \<longrightarrow> fd_get t n = Some e \<longrightarrow>
       (refers e = Pipe_Write (pipes_made example_shell + m) \<longrightarrow> n = 1 \<and> m = i) \<and>
       (refers e = Pipe_Read (pipes_made example_shell + m) \<longrightarrow> n = 0 \<and> i = Suc m)) \<and>
    no_pipes_from (pipes_made example_shell) (fds (snd (runPipeline example_kernel example_pipeline ''x'' example_shell)))"
  by (rule pipe_ends_unique)
    (simp_all add: example_shell_def start_shell_def std_open_login login_no_pipes example_pipeline_def example_kernel_def
      forks_succeed_def)

text \<open>
  C23: when a \<open>pipe\<close> or a \<open>fork\<close> fails, the shell is back at the prompt with its job list, foreground
  state and terminal untouched and the message of the call that failed printed (of \<open>pipe\<close>, which comes first, if both would
  fail at that stage); the children started are exactly those of the stages before the failure, in the group of the first,
  and none of them is in the job list.
\<close>
theorem launch_failure:
  assumes "f < length (commands p)" and "stage_fails k (length (commands p)) f"
    and "\<forall>j < f. \<not> stage_fails k (length (commands p)) j"
  shows "\<exists>l. runPipeline k p cmd sh =
      (Prompt, eputs ((if Suc f < length (commands p) \<and> \<not> pipe_ok k f then ''pipe'' else ''fork'') @ '': '' @ errno_text k) (launched l sh)) \<and>
    map child_pid (l_children l) = map (fork_pid k) [0..<f] \<and>
    joblist (snd (runPipeline k p cmd sh)) = joblist sh \<and> fgPgid (snd (runPipeline k p cmd sh)) = fgPgid sh \<and>
    tty_owner (snd (runPipeline k p cmd sh)) = tty_owner sh"
proof -
  obtain l where "launch_loop k p 0 (commands p) (start_launch sh) = Inl (failing_call k (length (commands p)) f, l)"
    and "map child_pid (l_children l) = map (fork_pid k) [0..<f]"
    using launch_loop_fails [of 0 "commands p" "length (commands p)" f k p "start_launch sh"] assms
    by (auto simp: start_launch_def)
  then show ?thesis by (intro exI [of _ l]) (simp add: runPipeline_def failing_call_def)
qed

text \<open>The \<open>fork\<close> of the second stage fails; the \<open>pipe\<close> of the first.\<close>

definition pipeless_kernel :: kernel where
  "pipeless_kernel = example_kernel\<lparr>pipe_ok := (\<lambda>_. False)\<rparr>"

lemma launch_failure_witness:
  "cerr (snd (runPipeline failing_kernel example_pipeline ''x'' example_shell)) =
      ''fork: Resource temporarily unavailable'' @ [CHR 0x0A] \<and>
    cerr (snd (runPipeline pipeless_kernel example_pipeline ''x'' example_shell)) =
      ''pipe: Resource temporarily unavailable'' @ [CHR 0x0A]"
proof
  have e: "cerr (launched l example_shell) = []" for l by (simp add: launched_def example_shell_def start_shell_def)
  have n: "1 < length (commands example_pipeline)" "length (commands example_pipeline) = 3" by (simp_all add: example_pipeline_def)
  have "stage_fails failing_kernel (length (commands example_pipeline)) 1"
    "\<forall>j<1. \<not> stage_fails failing_kernel (length (commands example_pipeline)) j"
    by (simp_all add: stage_fails_def failing_kernel_def example_kernel_def)
  from launch_failure [OF n(1) this, of "''x''" example_shell]
  show "cerr (snd (runPipeline failing_kernel example_pipeline ''x'' example_shell)) =
      ''fork: Resource temporarily unavailable'' @ [CHR 0x0A]"
    using n(2) e by (auto simp: failing_kernel_def example_kernel_def eputs_def)
  have "0 < length (commands example_pipeline)" "stage_fails pipeless_kernel (length (commands example_pipeline)) 0"
    "\<forall>j<0. \<not> stage_fails pipeless_kernel (length (commands example_pipeline)) j"
    using n by (simp_all add: stage_fails_def pipeless_kernel_def)
  from launch_failure [OF this, of "''x''" example_shell]
  show "cerr (snd (runPipeline pipeless_kernel example_pipeline ''x'' example_shell)) =
      ''pipe: Resource temporarily unavailable'' @ [CHR 0x0A]"
    using n(2) e by (auto simp: pipeless_kernel_def example_kernel_def eputs_def)
qed

text \<open>
  The built-ins \<open>slay\<close>, \<open>halt\<close> and \<open>cont\<close> with \<open>%N\<close> signal the whole process group of job \<open>N\<close>, and
  with a number the one process; a job number not in the list only prints an error.
\<close>
lemma job_signals:
  assumes "shell_reach tty me t (c, sh)" and n: "n < 2 ^ 64"
  shows "slay_halt_cont cmd (CHR ''%'' # show_nat n) sh = (case getJob n (joblist sh) of
       None \<Rightarrow> eputs (cmd @ '': no such process/job '' @ CHR ''%'' # show_nat n) sh
     | Some j \<Rightarrow> send_signal (- pid (hd (processes j)))
         (if cmd = ''slay'' then SIGKILL else if cmd = ''halt'' then SIGTSTP else SIGCONT) sh)"
proof -
  have ok: "jl_ok (joblist sh)" using reach_inv [OF assms(1)] by (simp add: shell_inv_def)
  show ?thesis
  proof (cases "getJob n (joblist sh)")
    case None
    then show ?thesis using n by (simp add: slay_halt_cont_def resolveTarget_def strtoul_show_nat)
  next
    case (Some j)
    then have "pgid j = pid (hd (processes j))"
      using getJob_iff [OF ok] jl_ok_job [OF ok] by (auto simp: job_ok_def job_pids_def hd_map)
    then show ?thesis using Some n by (simp add: slay_halt_cont_def resolveTarget_def strtoul_show_nat)
  qed
qed

section \<open>A reused pid\<close>

text \<open>
  POSIX lets \<open>fork\<close> return the pid of a child that has been reaped. When that child belongs to a job with another
  process still alive, the reports about the new child go to the old job. Here \<open>b\<close> of \<open>a | b &\<close> dies, \<open>c\<close> gets its pid
  101, and both \<open>c\<close> and \<open>a\<close> die: no child is left, job 2 is still shown as running, and the shell waits for it whatever
  signals arrive.
\<close>

definition second_kernel :: kernel where
  "second_kernel = example_kernel\<lparr>fork_pid := (\<lambda>i. 101 + int i)\<rparr>"

lemma waits_for_nobody: "must_wait pg sh \<Longrightarrow> unreaped sh = [] \<Longrightarrow> reports_ok (all_reports es) (unreaped sh) \<Longrightarrow>
    waitForForegroundJob pg es sh = None"
proof (induction es arbitrary: sh)
  case (Cons e es)
  show ?case
  proof (cases e)
    case (Child rs)
    then have "rs = []" using Cons.prems(2,3) by (cases rs) auto
    then have "deliver e sh = sh" using Child by (simp add: deliver_def handleSIGCHLD_def)
    then show ?thesis using Cons Child \<open>rs = []\<close> by simp
  next
    case (Key sg)
    then have "unreaped (deliver e sh) = unreaped sh" "joblist (deliver e sh) = joblist sh"
      by (simp_all add: deliver_def forwardToForeground_def)
    then show ?thesis using Cons Key by (simp add: must_wait_def)
  qed
qed simp

lemma reused_pid_hangs:
  "\<exists>sh. shell_reach True 50 login_table (Launched 101, sh) \<and> reused sh \<and> unreaped sh = [] \<and>
    (\<forall>es. reports_ok (all_reports es) (unreaped sh) \<longrightarrow> waitForForegroundJob 101 es sh = None)"
proof -
  let ?p = "\<lparr>commands = [[''a''], [''b'']], infile = [], outfile = [], background = True, valid = True, error = []\<rparr> :: pipeline_t"
  let ?q = "\<lparr>commands = [[''c'']], infile = [], outfile = [], background = False, valid = True, error = []\<rparr> :: pipeline_t"
  have parsed: "parsePipeline ''a | b &'' = ?p" "parsePipeline ''c'' = ?q" by code_simp+
  have one: "[0..<length [[''a''], [''b'']]] = [0, 1]" "[0..<length [[''c'']]] = [0]" by (simp_all add: upt_rec)
  define s1 where "s1 = run_line example_kernel ''a | b &'' example_shell"
  have run1: "s1 = runPipeline example_kernel ?p ''a | b &'' (prompt example_shell)"
    unfolding s1_def run_line_def parsed Let_def by simp
  have sh: "std_open (fds (prompt example_shell))" "joblist (prompt example_shell) = \<lparr>jobs = [], counter = 0\<rparr>"
    "unreaped (prompt example_shell) = []" "fds (prompt example_shell) = login_table"
    by (simp_all add: prompt_def example_shell_def start_shell_def puts_def std_open_login)
  have "forks_succeed example_kernel (length (commands ?p))" "jl_ok (joblist (prompt example_shell))"
    by (simp_all add: forks_succeed_def example_kernel_def sh(2) jl_ok_def)
  note r1 = runPipeline_registers [OF sh(1) _ this, of "''a | b &''", folded run1]
  let ?job = "\<lambda>st. \<lparr>num = 1, pgid = 100, jstate = kBackground, cmdline = ''a | b &'',
      processes = [\<lparr>pid = 100, pstate = kRunning\<rparr>, \<lparr>pid = 101, pstate = st\<rparr>]\<rparr>"
  have s1: "fst s1 = Prompt" "joblist (snd s1) = \<lparr>jobs = [?job kRunning], counter = 1\<rparr>" "unreaped (snd s1) = [(100, 100), (101, 100)]"
    "std_open (fds (snd s1))"
    using r1 one(1) sh by (simp_all add: example_kernel_def forked_def std_open_def)
  have reach1: "shell_reach True 50 login_table (Prompt, snd s1)"
    using shell_reach.step [OF shell_reach.boot read_line [OF example_fresh, unfolded example_shell_def], of "''a | b &''"] s1(1)
    unfolding s1_def example_shell_def by (metis prod.collapse)
  define sh2 where "sh2 = deliver (Child [(101, W_Exited)]) (snd s1)"
  have sh2: "joblist sh2 = \<lparr>jobs = [?job kTerminated], counter = 1\<rparr>" "unreaped sh2 = [(100, 100)]" "fds sh2 = fds (snd s1)"
    by (simp_all add: sh2_def deliver_def handleSIGCHLD_def s1 handle_report_def getJobWithProcess_def mark_process_def new_state_def
        allTerminated_def with_job_def reap_def)
  have reach2: "shell_reach True 50 login_table (Prompt, sh2)"
    unfolding sh2_def using s1(3) by (intro shell_reach.step [OF reach1 interrupt]) (simp_all add: signal_ok_def reap_def)
  define s3 where "s3 = run_line second_kernel ''c'' sh2"
  have "runBuiltin [''c''] (prompt sh2) = None" by (simp add: runBuiltin_def)
  then have run3: "s3 = runPipeline second_kernel ?q ''c'' (prompt sh2)"
    unfolding s3_def run_line_def parsed Let_def by simp
  have p2: "joblist (prompt sh2) = joblist sh2" "unreaped (prompt sh2) = unreaped sh2" "fds (prompt sh2) = fds sh2"
    by (simp_all add: prompt_def puts_def)
  have "std_open (fds (prompt sh2))" "forks_succeed second_kernel (length (commands ?q))" "jl_ok (joblist (prompt sh2))"
    using s1(4) by (simp_all add: p2 sh2 forks_succeed_def second_kernel_def example_kernel_def jl_ok_def job_ok_def job_pids_def allTerminated_def)
  note r3 = runPipeline_registers [OF this(1) _ this(2,3), of "''c''", folded run3]
  let ?new = "\<lparr>num = 2, pgid = 101, jstate = kForeground, cmdline = ''c'', processes = [\<lparr>pid = 101, pstate = kRunning\<rparr>]\<rparr>"
  have s3: "fst s3 = Launched 101" "joblist (snd s3) = \<lparr>jobs = [?job kTerminated, ?new], counter = 2\<rparr>"
    "unreaped (snd s3) = [(100, 100), (101, 101)]" "reused (snd s3)"
    using r3 one(2) by (simp_all add: p2 sh2 second_kernel_def forked_def listed_pids_def)
  have "fork_ok second_kernel sh2" by (simp add: fork_ok_def second_kernel_def sh2(2))
  then have reach3: "shell_reach True 50 login_table (Launched 101, snd s3)"
    using shell_reach.step [OF reach2 read_line, of second_kernel "''c''"] s3(1) unfolding s3_def by (metis prod.collapse)
  define sh4 where "sh4 = deliver (Child [(101, W_Exited), (100, W_Exited)]) (snd s3)"
  have sh4: "joblist sh4 = \<lparr>jobs = [?new], counter = 2\<rparr>" "unreaped sh4 = []" "reused sh4"
    by (simp_all add: sh4_def deliver_def handleSIGCHLD_def s3 handle_report_def getJobWithProcess_def mark_process_def new_state_def
        allTerminated_def with_job_def remove_job_def reap_def)
  have reach4: "shell_reach True 50 login_table (Launched 101, sh4)"
    unfolding sh4_def using s3(3) by (intro shell_reach.step [OF reach3 interrupt]) (simp_all add: signal_ok_def reap_def new_state_def)
  have "must_wait 101 sh4" by (simp add: must_wait_def getJobByPgid_def sh4(1) anyRunning_def)
  then show ?thesis using waits_for_nobody sh4 reach4 by blast
qed

end
