(* ===== verification/Stsh_Signals.thy ===== *)
theory Stsh_Signals
  imports Stsh_Props
begin

text \<open>
  The signal plumbing of \<open>stsh.cc\<close>: which handlers \<open>main\<close> installs and with which masks, \<open>blockSIGCHLD\<close>,
  \<open>restoreMask\<close> and \<open>sigsuspend\<close>, against a kernel that keeps pending signals, a mask and the stack of running
  handlers. Here the main thread takes one statement at a time, inside the sections too, and a signal may arrive and be delivered
  between any two of them. The result is that with these masks it behaves as \<open>shell_step\<close> says, where a section is one
  step: the handlers never nest, and the one for SIGCHLD never runs inside a section.
\<close>

section \<open>Dispositions and masks\<close>

datatype signo = N_CHLD | N_INT | N_TSTP | N_TTOU | N_TTIN

datatype handler = H_child | H_forward

datatype disposition = Default | Ignore | Handler handler "signo set"

definition installHandler :: "signo \<Rightarrow> handler \<Rightarrow> (signo \<Rightarrow> disposition) \<Rightarrow> signo \<Rightarrow> disposition" where
  "installHandler sg h d = d(sg := Handler h {N_CHLD, N_INT, N_TSTP})"

definition main_dispositions :: "signo \<Rightarrow> disposition" where
  "main_dispositions = (let d = (\<lambda>_. Default);
       d = d(N_TTOU := Ignore);
       d = d(N_TTIN := Ignore);
       d = installHandler N_CHLD H_child d;
       d = installHandler N_INT H_forward d
     in installHandler N_TSTP H_forward d)"

text \<open>What a child of \<open>runPipeline\<close> sets up before it runs its program.\<close>

definition child_dispositions :: "(signo \<Rightarrow> disposition) \<Rightarrow> signo \<Rightarrow> disposition" where
  "child_dispositions d = d(N_INT := Default, N_TSTP := Default, N_CHLD := Default, N_TTOU := Default, N_TTIN := Default)"

definition blockSIGCHLD :: "signo set \<Rightarrow> signo set \<times> signo set" where
  "blockSIGCHLD m = (m, m \<union> {N_CHLD})"

definition restoreMask :: "signo set \<Rightarrow> signo set \<Rightarrow> signo set" where
  "restoreMask saved m = saved"

definition key_of :: "signo \<Rightarrow> sig" where
  "key_of g = (if g = N_INT then SIGINT else SIGTSTP)"

section \<open>Sections, statement by statement\<close>

text \<open>
  What is left to do between \<open>blockSIGCHLD\<close> and \<open>restoreMask\<close>: \<open>jobs\<close>; \<open>fg\<close> and \<open>bg\<close>, from the search for the job to the last store;
  \<open>slay\<close>, \<open>halt\<close> and \<open>cont\<close>; and \<open>runPipeline\<close>, with one \<open>pipe\<close> and one \<open>fork\<close> at a time. \<open>W_done\<close>: only the mask is left to restore.
\<close>

datatype work =
    W_print
  | W_find string string | W_cont string nat int | W_state string nat int | W_fg int
  | W_resolve string string | W_kill int sig
  | W_pipe kernel pipeline_t string nat "string list list" launch
  | W_fork kernel pipeline_t string nat "string list" "string list list" "(nat \<times> nat) option" launch
  | W_perror kernel string
  | W_add pipeline_t string launch | W_fill pipeline_t nat launch | W_announce nat "int list" | W_own int | W_grant int
  | W_done control

text \<open>The newest child of the launch comes to exist.\<close>

definition child_starts :: "launch \<Rightarrow> shell \<Rightarrow> shell" where
  "child_starts l sh = (let c = last (l_children l) in
     sh\<lparr>fds := l_fds l, pipes_made := l_pipes l, children := children sh @ [c],
       unreaped := unreaped sh @ [(child_pid c, child_group c)],
       reused := reused sh \<or> child_pid c \<in> listed_pids (joblist sh)\<rparr>)"

definition pipe_step :: "kernel \<Rightarrow> pipeline_t \<Rightarrow> string \<Rightarrow> nat \<Rightarrow> string list list \<Rightarrow> launch \<Rightarrow> shell \<Rightarrow> work \<times> shell" where
  "pipe_step k p cmd i stages l sh = (case stages of
       [] \<Rightarrow> (W_add p cmd (close_prev l), sh\<lparr>fds := l_fds (close_prev l)\<rparr>)
     | argv # rest \<Rightarrow>
         if rest \<noteq> [] \<and> \<not> pipe_ok k i then (W_perror k ''pipe'', sh)
         else (case stage_pipe (rest \<noteq> []) l of (pfd, l) \<Rightarrow>
           (W_fork k p cmd i argv rest pfd l, sh\<lparr>fds := l_fds l, pipes_made := l_pipes l\<rparr>)))"

definition fork_step ::
  "kernel \<Rightarrow> pipeline_t \<Rightarrow> string \<Rightarrow> nat \<Rightarrow> string list \<Rightarrow> string list list \<Rightarrow> (nat \<times> nat) option \<Rightarrow> launch \<Rightarrow> shell \<Rightarrow> work \<times> shell"
where
  "fork_step k p cmd i argv rest pfd l sh =
     (if fork_pid k i = -1 then (W_perror k ''fork'', sh)
      else (let l' = stage_parent (fork_pid k i) (child_stage k p (i = 0) (rest = []) (prevRead l) pfd argv (l_fds l)) pfd l
        in (W_pipe k p cmd (Suc i) rest l', child_starts l' sh)))"

definition add_step :: "pipeline_t \<Rightarrow> string \<Rightarrow> launch \<Rightarrow> shell \<Rightarrow> work \<times> shell" where
  "add_step p cmd l sh = (case addJob (l_pgid l) cmd (if background p then kBackground else kForeground) (joblist sh) of
     (n, jl) \<Rightarrow> (W_fill p n l, sh\<lparr>joblist := jl\<rparr>))"

definition fill_step :: "pipeline_t \<Rightarrow> nat \<Rightarrow> launch \<Rightarrow> shell \<Rightarrow> work \<times> shell" where
  "fill_step p n l sh =
     (if background p then W_announce n (l_pids l) else W_own (l_pgid l),
      sh\<lparr>joblist := with_job n (processes_update (\<lambda>ps. ps @ map (\<lambda>q. \<lparr>pid = q, pstate = kRunning\<rparr>) (l_pids l))) (joblist sh)\<rparr>)"

definition find_step :: "string \<Rightarrow> string \<Rightarrow> shell \<Rightarrow> work \<times> shell" where
  "find_step cmd arg sh = (case getJob (strtoul arg) (joblist sh) of
       None \<Rightarrow> (W_done Prompt, eputs (cmd @ '': no such job '' @ arg) sh)
     | Some j \<Rightarrow> (W_cont cmd (num j) (pgid j), sh\<lparr>joblist := with_job (num j) markGroupRunning (joblist sh)\<rparr>))"

definition resolve_step :: "string \<Rightarrow> string \<Rightarrow> shell \<Rightarrow> work \<times> shell" where
  "resolve_step cmd arg sh = (case resolveTarget arg (joblist sh) of
       None \<Rightarrow> (W_done Prompt, eputs (cmd @ '': no such process/job '' @ arg) sh)
     | Some (target, wholeGroup) \<Rightarrow> (W_kill (if wholeGroup then - target else target)
         (if cmd = ''slay'' then SIGKILL else if cmd = ''halt'' then SIGTSTP else SIGCONT), sh))"

primrec work_step :: "work \<Rightarrow> shell \<Rightarrow> work \<times> shell" where
  "work_step W_print sh = (W_done Prompt, puts (print_jobs (joblist sh)) sh)"
| "work_step (W_find cmd arg) sh = find_step cmd arg sh"
| "work_step (W_cont cmd n pg) sh = (W_state cmd n pg, send_signal (- pg) SIGCONT sh)"
| "work_step (W_state cmd n pg) sh =
     (if cmd = ''bg'' then (W_done Prompt, sh\<lparr>joblist := with_job n (jstate_update (\<lambda>_. kBackground)) (joblist sh)\<rparr>)
      else (W_fg pg, sh\<lparr>joblist := with_job n (jstate_update (\<lambda>_. kForeground)) (joblist sh)\<rparr>))"
| "work_step (W_fg pg) sh = (W_done (Granting pg), sh\<lparr>fgPgid := pg\<rparr>)"
| "work_step (W_resolve cmd arg) sh = resolve_step cmd arg sh"
| "work_step (W_kill target sg) sh = (W_done Prompt, send_signal target sg sh)"
| "work_step (W_pipe k p cmd i stages l) sh = pipe_step k p cmd i stages l sh"
| "work_step (W_fork k p cmd i argv rest pfd l) sh = fork_step k p cmd i argv rest pfd l sh"
| "work_step (W_perror k call) sh = (W_done Prompt, eputs (call @ '': '' @ errno_text k) sh)"
| "work_step (W_add p cmd l) sh = add_step p cmd l sh"
| "work_step (W_fill p n l) sh = fill_step p n l sh"
| "work_step (W_announce n qs) sh = (W_done Prompt, puts (background_line n qs) sh)"
| "work_step (W_own pg) sh = (W_grant pg, sh\<lparr>fgPgid := pg\<rparr>)"
| "work_step (W_grant pg) sh = (W_done (Launched pg), giveTerminalTo pg sh)"
| "work_step (W_done c) sh = (W_done c, sh)"

text \<open>What a line that has been read leads to: code without a section, or a section.\<close>

definition start_builtin :: "string list \<Rightarrow> shell \<Rightarrow> ((control \<times> shell) + work) option" where
  "start_builtin argv sh =
     (let cmd = hd argv
      in if cmd = ''quit'' \<or> cmd = ''exit'' then Some (Inl (Exited, sh))
         else if cmd = ''jobs'' then Some (Inr W_print)
         else if cmd = ''fg'' \<or> cmd = ''bg'' then
           (if length argv \<noteq> 2 then Some (Inl (Prompt, eputs (''Usage: '' @ cmd @ '' <jobid>'') sh))
            else Some (Inr (W_find cmd (argv ! 1))))
         else if cmd = ''slay'' \<or> cmd = ''halt'' \<or> cmd = ''cont'' then
           (if length argv \<noteq> 2 then Some (Inl (Prompt, eputs (''Usage: '' @ cmd @ '' <pid | %jobid>'') sh))
            else Some (Inr (W_resolve cmd (argv ! 1))))
         else None)"

definition start_line :: "kernel \<Rightarrow> string \<Rightarrow> shell \<Rightarrow> (control \<times> shell) + work" where
  "start_line k line sh =
     (let p = parsePipeline line
      in if \<not> valid p then Inl (Prompt, eputs (''stsh: parse error: '' @ error p) sh)
         else if commands p = [] then Inl (Prompt, sh)
         else (case if length (commands p) = 1 then start_builtin (hd (commands p)) sh else None of
             Some r \<Rightarrow> r
           | None \<Rightarrow> Inr (W_pipe k p line 0 (commands p) (start_launch sh))))"

section \<open>The shell under its masks\<close>

text \<open>
  Where the main thread is. Sections carry the mask they will restore; \<open>Wait_asleep\<close> also the one
  \<open>sigsuspend\<close> has replaced.
\<close>

datatype place =
    At control
  | Reading                                \<comment> \<open>the prompt is printed\<close>
  | Section work "signo set"
  | Wait_testing bool int "signo set"      \<comment> \<open>after a wake-up or not\<close>
  | Wait_asleep int "signo set" "signo set"
  | Wait_over bool int "signo set"         \<comment> \<open>a stopped job is demoted\<close>
  | Wait_done "signo set"
  | Resetting                              \<comment> \<open>the terminal is back\<close>

text \<open>How far a handler is; \<open>Running\<close> remembers, for the proofs only, the children that the SIGCHLD handler has been told of.\<close>

datatype progress = Running "(int \<times> wait_status) list" | Finished

record masked =
  place :: place
  body :: shell
  sigmask :: "signo set"
  pending :: "signo set"
  frames :: "(signo \<times> signo set \<times> progress) list"   \<comment> \<open>the mask to go back to; how far the handler is\<close>

definition masked_init :: "bool \<Rightarrow> int \<Rightarrow> fd_table \<Rightarrow> masked" where
  "masked_init tty me t = \<lparr>place = At Prompt, body = start_shell tty me t, sigmask = {}, pending = {}, frames = []\<rparr>"

inductive shell_thread :: "masked \<Rightarrow> masked \<Rightarrow> bool" where
  prompts: "place s = At Prompt \<Longrightarrow> shell_thread s (s\<lparr>place := Reading, body := prompt (body s)\<rparr>)"
| line_plain: "place s = Reading \<Longrightarrow> start_line k line (body s) = Inl (c, sh) \<Longrightarrow>
    shell_thread s (s\<lparr>place := At c, body := sh\<rparr>)"
| line_blocks: "place s = Reading \<Longrightarrow> start_line k line (body s) = Inr w \<Longrightarrow> fork_ok k (body s) \<Longrightarrow>
    blockSIGCHLD (sigmask s) = (saved, m) \<Longrightarrow> shell_thread s (s\<lparr>place := Section w saved, sigmask := m\<rparr>)"
| line_works: "place s = Section w saved \<Longrightarrow> (\<And>c. w \<noteq> W_done c) \<Longrightarrow> work_step w (body s) = (w', sh) \<Longrightarrow>
    shell_thread s (s\<lparr>place := Section w' saved, body := sh\<rparr>)"
| line_restores: "place s = Section (W_done c) saved \<Longrightarrow>
    shell_thread s (s\<lparr>place := At c, sigmask := restoreMask saved (sigmask s)\<rparr>)"
| eof: "place s = Reading \<Longrightarrow>
    shell_thread s (s\<lparr>place := At Exited, body := if interactive (body s) then puts [CHR 0x0A] (body s) else body s\<rparr>)"
| grants: "place s = At (Granting pg) \<Longrightarrow> shell_thread s (s\<lparr>place := At (Launched pg), body := giveTerminalTo pg (body s)\<rparr>)"
| wait_blocks: "place s = At (Launched pg) \<Longrightarrow> blockSIGCHLD (sigmask s) = (saved, m) \<Longrightarrow>
    shell_thread s (s\<lparr>place := Wait_testing False pg saved, sigmask := m\<rparr>)"
| wait_suspends: "place s = Wait_testing again pg saved \<Longrightarrow> must_wait pg (body s) \<Longrightarrow>
    shell_thread s (s\<lparr>place := Wait_asleep pg saved (sigmask s), sigmask := {}\<rparr>)"
| wait_through: "place s = Wait_testing again pg saved \<Longrightarrow> \<not> must_wait pg (body s) \<Longrightarrow>
    shell_thread s (s\<lparr>place := Wait_over again pg saved, body := demote pg (body s)\<rparr>)"
| wait_forgets: "place s = Wait_over again pg saved \<Longrightarrow>
    shell_thread s (s\<lparr>place := Wait_done saved, body := (body s)\<lparr>fgPgid := 0\<rparr>\<rparr>)"
| wait_restores: "place s = Wait_done saved \<Longrightarrow> shell_thread s (s\<lparr>place := At Returning, sigmask := restoreMask saved (sigmask s)\<rparr>)"
| takes_back: "place s = At Returning \<Longrightarrow>
    shell_thread s (s\<lparr>place := Resetting, body := giveTerminalTo (own_group (body s)) (body s)\<rparr>)"
| resets: "place s = Resetting \<Longrightarrow>
    shell_thread s (s\<lparr>place := At Prompt, body := (body s)\<lparr>joblist := maybeResetCounter (joblist (body s))\<rparr>\<rparr>)"

text \<open>
  The kernel: a signal arrives; an ignored one is dropped; a caught one that is not blocked starts its
  handler, with the masked signals of the action and itself blocked; the handler for SIGCHLD makes one turn of its loop at a time;
  a handler returns. Whatever is not blocked can be delivered in between.
\<close>

inductive masked_step :: "masked \<Rightarrow> masked \<Rightarrow> bool" where
  main: "frames s = [] \<Longrightarrow> shell_thread s s' \<Longrightarrow> masked_step s s'"
| arrives: "masked_step s (s\<lparr>pending := insert g (pending s)\<rparr>)"
| drops: "g \<in> pending s \<Longrightarrow> g \<notin> sigmask s \<Longrightarrow> main_dispositions g = Ignore \<Longrightarrow> masked_step s (s\<lparr>pending := pending s - {g}\<rparr>)"
| delivers: "g \<in> pending s \<Longrightarrow> g \<notin> sigmask s \<Longrightarrow> main_dispositions g = Handler h m \<Longrightarrow> place s \<noteq> At Exited \<Longrightarrow>
    masked_step s (s\<lparr>pending := pending s - {g}, sigmask := sigmask s \<union> m \<union> {g},
      frames := (g, case place s of Wait_asleep _ _ old \<Rightarrow> old | _ \<Rightarrow> sigmask s, Running []) # frames s\<rparr>)"
| child_turn: "frames s = (g, old, Running rs) # fs \<Longrightarrow> main_dispositions g = Handler H_child m \<Longrightarrow>
    fst r \<in> fst ` set (unreaped (body s)) \<Longrightarrow>
    masked_step s (s\<lparr>body := handleSIGCHLD [r] (body s), frames := (g, old, Running (rs @ [r])) # fs\<rparr>)"
| child_ends: "frames s = (g, old, Running rs) # fs \<Longrightarrow> main_dispositions g = Handler H_child m \<Longrightarrow>
    masked_step s (s\<lparr>frames := (g, old, Finished) # fs\<rparr>)"
| forward_runs: "frames s = (g, old, Running rs) # fs \<Longrightarrow> main_dispositions g = Handler H_forward m \<Longrightarrow>
    masked_step s (s\<lparr>body := forwardToForeground (key_of g) (body s), frames := (g, old, Finished) # fs\<rparr>)"
| returns: "frames s = (g, old, Finished) # fs \<Longrightarrow>
    masked_step s (s\<lparr>frames := fs, sigmask := old,
      place := (case place s of Wait_asleep pg saved _ \<Rightarrow> Wait_testing True pg saved | p \<Rightarrow> p)\<rparr>)"

inductive masked_reach :: "bool \<Rightarrow> int \<Rightarrow> fd_table \<Rightarrow> masked \<Rightarrow> bool" for tty me t where
  boot: "masked_reach tty me t (masked_init tty me t)"
| step: "masked_reach tty me t s \<Longrightarrow> masked_step s s' \<Longrightarrow> masked_reach tty me t s'"

section \<open>The masks hold\<close>

lemma dispositions:
  "main_dispositions N_CHLD = Handler H_child {N_CHLD, N_INT, N_TSTP}"
  "main_dispositions N_INT = Handler H_forward {N_CHLD, N_INT, N_TSTP}"
  "main_dispositions N_TSTP = Handler H_forward {N_CHLD, N_INT, N_TSTP}"
  "main_dispositions N_TTOU = Ignore" "main_dispositions N_TTIN = Ignore"
  by (simp_all add: main_dispositions_def installHandler_def)

lemma handled:
  "main_dispositions g = Handler h m \<longleftrightarrow> m = {N_CHLD, N_INT, N_TSTP} \<and> (g = N_CHLD \<and> h = H_child \<or> g \<in> {N_INT, N_TSTP} \<and> h = H_forward)"
  by (cases g) (auto simp: dispositions)

text \<open>The mask of the main thread while no handler runs, and what it keeps for later.\<close>

definition own_mask :: "place \<Rightarrow> signo set" where
  "own_mask p = (case p of At _ \<Rightarrow> {} | Reading \<Rightarrow> {} | Resetting \<Rightarrow> {} | Wait_asleep _ _ _ \<Rightarrow> {} | _ \<Rightarrow> {N_CHLD})"

definition work_ok :: "work \<Rightarrow> bool" where
  "work_ok w \<longleftrightarrow> (case w of W_done c \<Rightarrow> c \<in> {Prompt} \<union> range Granting \<union> range Launched | _ \<Rightarrow> True)"

definition saved_ok :: "place \<Rightarrow> bool" where
  "saved_ok p = (case p of
       At c \<Rightarrow> (case c of Suspended _ \<Rightarrow> False | Woken _ \<Rightarrow> False | _ \<Rightarrow> True)
     | Section w saved \<Rightarrow> saved = {} \<and> work_ok w
     | Wait_testing _ _ saved \<Rightarrow> saved = {}
     | Wait_asleep _ saved old \<Rightarrow> saved = {} \<and> old = {N_CHLD}
     | Wait_over _ _ saved \<Rightarrow> saved = {}
     | Wait_done saved \<Rightarrow> saved = {}
     | _ \<Rightarrow> True)"

definition frames_ok :: "masked \<Rightarrow> bool" where
  "frames_ok s = (case frames s of
       [] \<Rightarrow> sigmask s = own_mask (place s)
     | (g, old, pr) # fs \<Rightarrow> fs = [] \<and> (g \<noteq> N_CHLD \<longrightarrow> pr \<in> {Running [], Finished}) \<and> g \<in> {N_CHLD, N_INT, N_TSTP} \<and> g \<notin> own_mask (place s) \<and>
         sigmask s = {N_CHLD, N_INT, N_TSTP} \<and> place s \<noteq> At Exited \<and>
         old = (case place s of Wait_asleep _ _ old \<Rightarrow> old | p \<Rightarrow> own_mask p))"

definition masks_ok :: "masked \<Rightarrow> bool" where
  "masks_ok s \<longleftrightarrow> saved_ok (place s) \<and> frames_ok s"

lemmas work_steps = pipe_step_def fork_step_def add_step_def fill_step_def find_step_def resolve_step_def

lemma work_step_ok: "(\<And>c. w \<noteq> W_done c) \<Longrightarrow> work_step w sh = (w', sh') \<Longrightarrow> work_ok w'"
  by (cases w) (auto simp: work_steps work_ok_def Let_def split: if_splits option.splits list.splits prod.splits)

lemma start_builtin_ok: "start_builtin argv sh = Some (Inl (c, sh')) \<Longrightarrow> c \<in> {Prompt, Exited}"
  "start_builtin argv sh = Some (Inr w) \<Longrightarrow> (\<forall>c. w \<noteq> W_done c) \<and> (\<forall>pg. w \<noteq> W_grant pg)"
  by (auto simp: start_builtin_def Let_def split: if_splits)

lemma start_line_ok: "start_line k line sh = Inl (c, sh') \<Longrightarrow> c \<in> {Prompt, Exited}"
  "start_line k line sh = Inr w \<Longrightarrow> (\<forall>c. w \<noteq> W_done c) \<and> (\<forall>pg. w \<noteq> W_grant pg)"
  using start_builtin_ok
  by (auto simp: start_line_def Let_def split: if_splits option.splits)

lemma main_masks_ok:
  assumes "shell_thread s s'" and "masks_ok s" and "frames s = []"
  shows "masks_ok s'" and "frames s' = []"
proof -
  have "masks_ok s' \<and> frames s' = []"
    using assms(1)
  proof cases
    case (line_plain k line c sh)
    then have "saved_ok (At c)" using start_line_ok(1) by (fastforce simp: saved_ok_def)
    then show ?thesis using line_plain(1,2) assms(2,3) by (simp add: masks_ok_def frames_ok_def own_mask_def)
  next
    case (line_blocks k line w saved m)
    then have "work_ok w" using start_line_ok(2) by (cases w) (fastforce simp: work_ok_def)+
    then show ?thesis using line_blocks assms(2,3)
      by (auto simp: masks_ok_def saved_ok_def frames_ok_def own_mask_def blockSIGCHLD_def)
  next
    case (line_works w saved w' sh)
    then have "work_ok w'" using work_step_ok by blast
    then show ?thesis using line_works(1,2) assms(2,3) by (simp add: masks_ok_def saved_ok_def frames_ok_def own_mask_def)
  next
    case (line_restores c saved)
    then have "saved_ok (At c)" using assms(2) by (auto simp: masks_ok_def saved_ok_def work_ok_def)
    then show ?thesis using line_restores assms(2,3)
      by (simp add: masks_ok_def saved_ok_def frames_ok_def own_mask_def restoreMask_def)
  qed (use assms(2,3) in \<open>simp_all add: masks_ok_def saved_ok_def frames_ok_def own_mask_def blockSIGCHLD_def restoreMask_def\<close>)
  then show "masks_ok s'" and "frames s' = []" by simp_all
qed

lemma deliver_needs:
  "masks_ok s \<Longrightarrow> g \<notin> sigmask s \<Longrightarrow> main_dispositions g = Handler h m \<Longrightarrow>
   frames s = [] \<and> m = {N_CHLD, N_INT, N_TSTP} \<and> g \<in> m \<and> sigmask s = own_mask (place s)"
  by (cases "frames s") (auto simp: masks_ok_def frames_ok_def handled)

lemma step_masks_ok:
  assumes "masked_step s s'" and "masks_ok s"
  shows "masks_ok s'"
  using assms(1)
proof cases
  case (delivers g h m)
  note d = deliver_needs [OF assms(2) delivers(3,4)]
  have "own_mask (place s) \<subseteq> {N_CHLD}" by (simp add: own_mask_def split: place.split)
  then show ?thesis
    using d delivers assms(2) by (auto simp: masks_ok_def frames_ok_def split: place.splits)
next
  case (returns g old fs)
  then show ?thesis using assms(2)
    by (auto simp: masks_ok_def frames_ok_def saved_ok_def own_mask_def split: place.splits)
next
  case main
  then show ?thesis using assms(2) main_masks_ok by blast
next
  case (child_turn g old rs fs m r)
  then have "g = N_CHLD" by (simp add: handled)
  then show ?thesis using assms(2) child_turn by (simp add: masks_ok_def frames_ok_def)
next
  case (child_ends g old rs fs m)
  then show ?thesis using assms(2) by (simp add: masks_ok_def frames_ok_def)
next
  case (forward_runs g old rs fs m)
  then show ?thesis using assms(2) by (simp add: masks_ok_def frames_ok_def)
next
  case arrives
  then show ?thesis using assms(2) by (cases "frames s") (auto simp: masks_ok_def frames_ok_def)
next
  case drops
  then show ?thesis using assms(2) by (cases "frames s") (auto simp: masks_ok_def frames_ok_def)
qed

lemma reach_masks_ok: "masked_reach tty me t s \<Longrightarrow> masks_ok s"
proof (induction rule: masked_reach.induct)
  case boot
  show ?case by (simp add: masked_init_def masks_ok_def saved_ok_def frames_ok_def own_mask_def)
qed (rule step_masks_ok)

section \<open>What a section does in the end\<close>

inductive finishes :: "work \<Rightarrow> shell \<Rightarrow> control \<times> shell \<Rightarrow> bool" where
  over: "finishes (W_done c) sh (c, sh)"
| more: "(\<And>c. w \<noteq> W_done c) \<Longrightarrow> work_step w sh = (w', sh') \<Longrightarrow> finishes w' sh' r \<Longrightarrow> finishes w sh r"

inductive_cases finishesE: "finishes w sh r"

lemma finishes_done [simp]: "finishes (W_done c) sh r \<longleftrightarrow> r = (c, sh)"
  by (auto intro: over elim: finishesE)

lemma finishes_step: "finishes w sh r \<Longrightarrow> (\<And>c. w \<noteq> W_done c) \<Longrightarrow> work_step w sh = (w', sh') \<Longrightarrow> finishes w' sh' r"
  by (erule finishesE) auto

lemma finishes_unfold: "(\<And>c. w \<noteq> W_done c) \<Longrightarrow> finishes w sh r \<longleftrightarrow> finishes (fst (work_step w sh)) (snd (work_step w sh)) r"
  using more [OF _ prod.collapse [symmetric]] finishes_step [OF _ _ prod.collapse [symmetric]] by blast

lemma finishes_simps:
  "finishes W_print sh r \<longleftrightarrow> r = (Prompt, puts (print_jobs (joblist sh)) sh)"
  "finishes (W_find cmd arg) sh r \<longleftrightarrow> finishes (fst (find_step cmd arg sh)) (snd (find_step cmd arg sh)) r"
  "finishes (W_cont cmd n pg) sh r \<longleftrightarrow> finishes (W_state cmd n pg) (send_signal (- pg) SIGCONT sh) r"
  "finishes (W_state cmd n pg) sh r \<longleftrightarrow>
     (if cmd = ''bg'' then r = (Prompt, sh\<lparr>joblist := with_job n (jstate_update (\<lambda>_. kBackground)) (joblist sh)\<rparr>)
      else finishes (W_fg pg) (sh\<lparr>joblist := with_job n (jstate_update (\<lambda>_. kForeground)) (joblist sh)\<rparr>) r)"
  "finishes (W_fg pg) sh r \<longleftrightarrow> r = (Granting pg, sh\<lparr>fgPgid := pg\<rparr>)"
  "finishes (W_resolve cmd arg) sh r \<longleftrightarrow> finishes (fst (resolve_step cmd arg sh)) (snd (resolve_step cmd arg sh)) r"
  "finishes (W_kill target sg) sh r \<longleftrightarrow> r = (Prompt, send_signal target sg sh)"
  "finishes (W_pipe k p cmd i stages l) sh r \<longleftrightarrow> finishes (fst (pipe_step k p cmd i stages l sh)) (snd (pipe_step k p cmd i stages l sh)) r"
  "finishes (W_fork k p cmd i argv rest pfd l) sh r \<longleftrightarrow>
     finishes (fst (fork_step k p cmd i argv rest pfd l sh)) (snd (fork_step k p cmd i argv rest pfd l sh)) r"
  "finishes (W_perror k call) sh r \<longleftrightarrow> r = (Prompt, eputs (call @ '': '' @ errno_text k) sh)"
  "finishes (W_add p cmd l) sh r \<longleftrightarrow> finishes (fst (add_step p cmd l sh)) (snd (add_step p cmd l sh)) r"
  "finishes (W_fill p n l) sh r \<longleftrightarrow> finishes (fst (fill_step p n l sh)) (snd (fill_step p n l sh)) r"
  "finishes (W_announce n qs) sh r \<longleftrightarrow> r = (Prompt, puts (background_line n qs) sh)"
  "finishes (W_own pg) sh r \<longleftrightarrow> finishes (W_grant pg) (sh\<lparr>fgPgid := pg\<rparr>) r"
  "finishes (W_grant pg) sh r \<longleftrightarrow> r = (Launched pg, giveTerminalTo pg sh)"
  by (subst finishes_unfold; simp)+

lemma close_prev_same: "l_pgid (close_prev l) = l_pgid l" "l_pids (close_prev l) = l_pids l" "l_pipes (close_prev l) = l_pipes l"
    "l_children (close_prev l) = l_children l"
  by (simp_all add: close_prev_def split: option.split)

text \<open>Piece by piece, the pipeline is launched as \<^const>\<open>runPipeline\<close> says.\<close>

definition after_launch :: "kernel \<Rightarrow> pipeline_t \<Rightarrow> string \<Rightarrow> shell \<Rightarrow> (string \<times> launch) + launch \<Rightarrow> control \<times> shell" where
  "after_launch k p cmd sh r = (case r of
        Inl (call, l) \<Rightarrow> (Prompt, eputs (call @ '': '' @ errno_text k) (launched l sh))
      | Inr l \<Rightarrow>
          (let (n, sh) = register_job p cmd l (launched (close_prev l) sh)
           in if background p then (Prompt, puts (background_line n (l_pids l)) sh)
              else (Launched (l_pgid l), giveTerminalTo (l_pgid l) (sh\<lparr>fgPgid := l_pgid l\<rparr>))))"

lemma runPipeline_after: "runPipeline k p cmd sh = after_launch k p cmd sh (launch_loop k p 0 (commands p) (start_launch sh))"
  by (simp add: runPipeline_def after_launch_def)

lemma register_finishes: "finishes (W_add p cmd (close_prev l)) (launched (close_prev l) sh) (after_launch k p cmd sh (Inr l))"
proof -
  obtain n jl where a: "addJob (l_pgid l) cmd (if background p then kBackground else kForeground) (joblist (launched (close_prev l) sh)) = (n, jl)"
    by (cases "addJob (l_pgid l) cmd (if background p then kBackground else kForeground) (joblist (launched (close_prev l) sh))")
  have "add_step p cmd (close_prev l) (launched (close_prev l) sh) = (W_fill p n (close_prev l), (launched (close_prev l) sh)\<lparr>joblist := jl\<rparr>)"
    using a by (simp add: add_step_def close_prev_same)
  moreover have "register_job p cmd l (launched (close_prev l) sh) = (n, (launched (close_prev l) sh)\<lparr>joblist :=
      with_job n (processes_update (\<lambda>ps. ps @ map (\<lambda>q. \<lparr>pid = q, pstate = kRunning\<rparr>) (l_pids l))) jl\<rparr>)"
    using a by (simp add: register_job_def)
  ultimately show ?thesis
    by (simp add: finishes_simps fill_step_def after_launch_def close_prev_same)
qed

lemma stage_started:
  "l_children l' = l_children l @ [c] \<Longrightarrow> child_starts l' (launched l sh) = launched l' sh"
  by (cases sh) (auto simp: child_starts_def launched_def Let_def)

lemma pipe_made: "stage_pipe h l = (pfd, l') \<Longrightarrow> (launched l sh)\<lparr>fds := l_fds l', pipes_made := l_pipes l'\<rparr> = launched l' sh"
  using stage_pipe_children [of h l] by (simp add: launched_def)

lemma launch_finishes:
  "finishes (W_pipe k p cmd i stages l) (launched l sh) (after_launch k p cmd sh (launch_loop k p i stages l))"
proof (induction stages arbitrary: i l)
  case Nil
  have "(launched l sh)\<lparr>fds := l_fds (close_prev l)\<rparr> = launched (close_prev l) sh"
    by (simp add: launched_def close_prev_same)
  then show ?case using register_finishes by (subst finishes_simps) (simp add: pipe_step_def)
next
  case (Cons argv rest)
  obtain pfd l1 where sp: "stage_pipe (rest \<noteq> []) l = (pfd, l1)" by (cases "stage_pipe (rest \<noteq> []) l")
  show ?case
  proof (cases "rest \<noteq> [] \<and> \<not> pipe_ok k i")
    case True
    then show ?thesis by (subst finishes_simps) (simp add: pipe_step_def after_launch_def finishes_simps)
  next
    case ok: False
    let ?l2 = "stage_parent (fork_pid k i) (child_stage k p (i = 0) (rest = []) (prevRead l1) pfd argv (l_fds l1)) pfd l1"
    have one: "finishes (W_pipe k p cmd i (argv # rest) l) (launched l sh) r \<longleftrightarrow>
        finishes (W_fork k p cmd i argv rest pfd l1) (launched l1 sh) r" for r
      using ok sp pipe_made [OF sp, of sh] by (subst finishes_simps) (auto simp: pipe_step_def)
    show ?thesis
    proof (cases "fork_pid k i = -1")
      case True
      then have "launch_loop k p i (argv # rest) l = Inl (''fork'', l1)" using ok sp by auto
      then show ?thesis using True by (simp add: one) (simp add: finishes_simps fork_step_def after_launch_def)
    next
      case False
      then have loop: "launch_loop k p i (argv # rest) l = launch_loop k p (Suc i) rest ?l2" using ok sp by auto
      have "fork_step k p cmd i argv rest pfd l1 (launched l1 sh) = (W_pipe k p cmd (Suc i) rest ?l2, launched ?l2 sh)"
        using False stage_started [OF stage_parent_child] by (simp add: fork_step_def Let_def)
      then have "finishes (W_fork k p cmd i argv rest pfd l1) (launched l1 sh) r \<longleftrightarrow>
          finishes (W_pipe k p cmd (Suc i) rest ?l2) (launched ?l2 sh) r" for r
        by (subst finishes_simps) simp
      then show ?thesis unfolding one loop using Cons.IH by simp
    qed
  qed
qed

lemma pipeline_finishes: "finishes (W_pipe k p cmd 0 (commands p) (start_launch sh)) sh (runPipeline k p cmd sh)"
proof -
  have "launched (start_launch sh) sh = sh" by (cases sh) (simp add: launched_def start_launch_def)
  then show ?thesis unfolding runPipeline_after using launch_finishes [of k p cmd 0 "commands p" "start_launch sh" sh] by simp
qed

lemma fg_bg_finishes: "finishes (W_find cmd arg) sh (fg_bg cmd arg sh)"
  by (cases "getJob (strtoul arg) (joblist sh)") (simp_all add: finishes_simps find_step_def fg_bg_def Let_def send_signal_def)

lemma resolve_finishes: "finishes (W_resolve cmd arg) sh (Prompt, slay_halt_cont cmd arg sh)"
  by (cases "resolveTarget arg (joblist sh)") (auto simp: finishes_simps resolve_step_def slay_halt_cont_def split: prod.split)

text \<open>Either way a line does what \<^const>\<open>run_line\<close> says.\<close>

lemma builtin_starts:
  "start_builtin argv sh = None \<Longrightarrow> runBuiltin argv sh = None"
  "start_builtin argv sh = Some (Inl r) \<Longrightarrow> runBuiltin argv sh = Some r"
  "start_builtin argv sh = Some (Inr w) \<Longrightarrow> \<exists>r. runBuiltin argv sh = Some r \<and> finishes w sh r"
proof -
  show "start_builtin argv sh = None \<Longrightarrow> runBuiltin argv sh = None" "start_builtin argv sh = Some (Inl r) \<Longrightarrow> runBuiltin argv sh = Some r"
    unfolding start_builtin_def runBuiltin_def Let_def by (simp_all split: if_splits) (elim disjE; simp)+
  assume "start_builtin argv sh = Some (Inr w)"
  then consider "hd argv = ''jobs''" "w = W_print"
    | "hd argv \<in> {''fg'', ''bg''}" "length argv = 2" "w = W_find (hd argv) (argv ! 1)"
    | "hd argv \<in> {''slay'', ''halt'', ''cont''}" "length argv = 2" "w = W_resolve (hd argv) (argv ! 1)"
    unfolding start_builtin_def Let_def by (simp split: if_splits)
  then show "\<exists>r. runBuiltin argv sh = Some r \<and> finishes w sh r"
  proof cases
    case 1
    then show ?thesis by (simp add: runBuiltin_def finishes_simps)
  next
    case 2
    then have "runBuiltin argv sh = Some (fg_bg (hd argv) (argv ! 1) sh)" by (auto simp: runBuiltin_def)
    then show ?thesis using 2(3) fg_bg_finishes by simp
  next
    case 3
    then have "runBuiltin argv sh = Some (Prompt, slay_halt_cont (hd argv) (argv ! 1) sh)" by (auto simp: runBuiltin_def)
    then show ?thesis using 3(3) resolve_finishes by simp
  qed
qed

lemma line_starts:
  "start_line k line (prompt sh) = Inl r \<Longrightarrow> run_line k' line sh = r"
  "start_line k line (prompt sh) = Inr w \<Longrightarrow> finishes w (prompt sh) (run_line k line sh)"
proof -
  let ?p = "parsePipeline line"
  let ?b = "if length (commands ?p) = 1 then start_builtin (hd (commands ?p)) (prompt sh) else None"
  have cases: "(start_line k line (prompt sh) = Inl r \<longrightarrow> run_line k' line sh = r) \<and>
      (start_line k line (prompt sh) = Inr w \<longrightarrow> finishes w (prompt sh) (run_line k line sh))"
    if v: "valid ?p" "commands ?p \<noteq> []"
  proof (cases ?b)
    case None
    then have n: "(if length (commands ?p) = 1 then runBuiltin (hd (commands ?p)) (prompt sh) else None) = None"
      using builtin_starts(1) by (simp split: if_splits)
    have "start_line k line (prompt sh) = Inr (W_pipe k ?p line 0 (commands ?p) (start_launch (prompt sh)))"
      unfolding start_line_def Let_def None using v by simp
    moreover have "run_line k line sh = runPipeline k ?p line (prompt sh)"
      unfolding run_line_def Let_def n using v by simp
    ultimately show ?thesis
      using pipeline_finishes by auto
  next
    case (Some b)
    then have one: "length (commands ?p) = 1" and b: "start_builtin (hd (commands ?p)) (prompt sh) = Some b" by (simp_all split: if_splits)
    have sl: "start_line k line (prompt sh) = b" unfolding start_line_def Let_def Some using v by simp
    obtain r' where r': "runBuiltin (hd (commands ?p)) (prompt sh) = Some r'" "b = Inl r \<Longrightarrow> r' = r" "b = Inr w \<Longrightarrow> finishes w (prompt sh) r'"
      using builtin_starts(2,3) [of "hd (commands ?p)" "prompt sh"] b by (cases b) auto
    have "run_line q line sh = r'" for q
      unfolding run_line_def Let_def using v one r'(1) by simp
    then show ?thesis
      using r'(2,3) sl by auto
  qed
  have "start_line k line (prompt sh) = Inl (run_line k' line sh)" if "\<not> (valid ?p \<and> commands ?p \<noteq> [])"
    using that by (auto simp: start_line_def run_line_def Let_def)
  then show "start_line k line (prompt sh) = Inl r \<Longrightarrow> run_line k' line sh = r"
    "start_line k line (prompt sh) = Inr w \<Longrightarrow> finishes w (prompt sh) (run_line k line sh)"
    using cases by auto
qed

section \<open>Refinement\<close>

text \<open>From here the section's effect is already visible to the handlers: \<open>fgPgid\<close> is set.\<close>

definition committed :: "work \<Rightarrow> bool" where
  "committed w \<longleftrightarrow> (case w of W_grant pg \<Rightarrow> True | W_done c \<Rightarrow> c \<noteq> Prompt | _ \<Rightarrow> False)"

text \<open>
  A place of the masked machine, with the shell's data, against a state of \<^const>\<open>shell_step\<close>. A section is still to be done
  there until \<^const>\<open>committed\<close>; a wait that is over has not yet been tested there.
\<close>

definition at_place :: "place \<Rightarrow> bool \<Rightarrow> shell \<Rightarrow> control \<times> shell \<Rightarrow> bool" where
  "at_place p woken sh a \<longleftrightarrow> (case p of
       At c \<Rightarrow> a = (c, sh)
     | Reading \<Rightarrow> \<exists>sh0. a = (Prompt, sh0) \<and> sh = prompt sh0
     | Section w _ \<Rightarrow> if committed w then finishes w sh a
         else \<exists>k line sh0. a = (Prompt, sh0) \<and> fork_ok k sh0 \<and> fgPgid sh = 0 \<and> finishes w sh (run_line k line sh0)
     | Wait_testing again pg _ \<Rightarrow> a = (if again then Woken pg else Launched pg, sh)
     | Wait_asleep pg _ _ \<Rightarrow> a = (if woken then Woken pg else Suspended pg, sh)
     | Wait_over again pg _ \<Rightarrow> \<exists>sh0. a = (if again then Woken pg else Launched pg, sh0) \<and> \<not> must_wait pg sh0 \<and> sh = demote pg sh0
     | Wait_done _ \<Rightarrow> a = (Returning, sh)
     | Resetting \<Rightarrow> \<exists>sh0. a = (Returning, sh0) \<and> sh = giveTerminalTo (own_group sh0) sh0)"

definition sim :: "masked \<Rightarrow> control \<times> shell \<Rightarrow> bool" where
  "sim s a \<longleftrightarrow> (case frames s of
       [] \<Rightarrow> at_place (place s) False (body s) a
     | (g, old, Finished) # fs \<Rightarrow> at_place (place s) True (body s) a
     | (g, old, Running rs) # fs \<Rightarrow>
         \<exists>sh. at_place (place s) False sh a \<and> body s = handleSIGCHLD rs sh \<and> reports_ok rs (unreaped sh))"

lemma uncommitted_fg:
  "work_step w sh = (w', sh') \<Longrightarrow> \<not> committed w \<Longrightarrow> \<not> committed w' \<Longrightarrow> fgPgid sh = 0 \<Longrightarrow> fgPgid sh' = 0"
  by (cases w) (auto simp: work_steps committed_def Let_def child_starts_def puts_def eputs_def send_signal_def
      split: if_splits option.splits list.splits prod.splits)

lemma committed_step: "committed w \<Longrightarrow> (\<And>c. w \<noteq> W_done c) \<Longrightarrow> work_step w sh = (w', sh') \<Longrightarrow> committed w'"
  by (cases w) (auto simp: committed_def)

lemma fork_ok_prompt [simp]: "fork_ok k (prompt sh) = fork_ok k sh"
  by (simp add: fork_ok_def prompt_def puts_def)

lemma some_kernel: "\<exists>k. fork_ok k sh"
  by (rule exI [of _ "\<lparr>pipe_ok = \<lambda>_. False, fork_pid = \<lambda>_. -1, open_ok = \<lambda>_. False, exec_ok = \<lambda>_. False, errno_text = []\<rparr>"])
    (simp add: fork_ok_def)

text \<open>A statement of the main thread does nothing there, or takes one step.\<close>

lemma work_sim:
  assumes "at_place (Section w saved) False sh a" and "\<And>c. w \<noteq> W_done c" and "work_step w sh = (w', sh')"
  shows "\<exists>a'. at_place (Section w' saved) False sh' a' \<and> (a' = a \<or> shell_step a a')"
proof (cases "committed w")
  case True
  then have "finishes w' sh' a" using assms(1) finishes_step [OF _ assms(2,3)] by (simp add: at_place_def)
  then have "at_place (Section w' saved) False sh' a" using committed_step [OF True assms(2,3)] by (simp add: at_place_def)
  then show ?thesis by blast
next
  case False
  then obtain k line sh0 where a: "a = (Prompt, sh0)" "fork_ok k sh0" "fgPgid sh = 0" "finishes w sh (run_line k line sh0)"
    using assms(1) by (auto simp: at_place_def)
  have f: "finishes w' sh' (run_line k line sh0)" by (rule finishes_step [OF a(4) assms(2,3)])
  show ?thesis
  proof (cases "committed w'")
    case True
    then have "at_place (Section w' saved) False sh' (run_line k line sh0)" using f by (simp add: at_place_def)
    then show ?thesis using shell_step.read_line [OF a(2)] a(1) by blast
  next
    case n: False
    then have "at_place (Section w' saved) False sh' a"
      using f a uncommitted_fg [OF assms(3) False n a(3)] by (auto simp: at_place_def)
    then show ?thesis by blast
  qed
qed

lemma main_sim:
  assumes "shell_thread s s'" and "at_place (place s) False (body s) a" and "shell_reach tty me t a"
  shows "\<exists>a'. at_place (place s') False (body s') a' \<and> (a' = a \<or> shell_step a a')"
  using assms(1)
proof cases
  case (line_plain k line c sh)
  then obtain sh0 where a: "a = (Prompt, sh0)" "body s = prompt sh0" using assms(2) by (auto simp: at_place_def)
  obtain k' where "fork_ok k' sh0" using some_kernel by blast
  from shell_step.read_line [OF this, of line] line_starts(1) [of k line sh0 "(c, sh)" k'] line_plain a
  have "shell_step a (c, sh)" by simp
  then show ?thesis using line_plain(1) by (auto simp: at_place_def)
next
  case (line_blocks k line w saved m)
  then obtain sh0 where a: "a = (Prompt, sh0)" "body s = prompt sh0" using assms(2) by (auto simp: at_place_def)
  have "fgPgid sh0 = 0" using reach_inv assms(3) a(1) by (fastforce simp: shell_inv_def control_ok_def)
  moreover have "\<not> committed w" using start_line_ok(2) [OF line_blocks(3)] by (cases w) (simp_all add: committed_def)
  moreover have "finishes w (prompt sh0) (run_line k line sh0)" using line_starts(2) line_blocks(3) a(2) by simp
  moreover have "fork_ok k sh0" using line_blocks(4) a(2) by simp
  moreover have "fgPgid (prompt sh0) = fgPgid sh0" by (simp add: prompt_def puts_def)
  ultimately have "at_place (Section w saved) False (prompt sh0) a" using a(1) by (simp add: at_place_def) blast
  then have "at_place (place s') False (body s') a" using line_blocks(1) a(2) by simp
  then show ?thesis by blast
next
  case (line_works w saved w' sh)
  then show ?thesis using work_sim [of w saved "body s" a w' sh] assms(2) by simp
next
  case (line_restores c saved)
  show ?thesis
  proof (cases "c = Prompt")
    case True
    then obtain k line sh0 where a: "a = (Prompt, sh0)" "fork_ok k sh0" "run_line k line sh0 = (Prompt, body s)"
      using assms(2) line_restores by (auto simp: at_place_def committed_def)
    then have "shell_step a (Prompt, body s)" using shell_step.read_line [OF a(2), of line] by simp
    then show ?thesis using line_restores(1) True by (auto simp: at_place_def)
  next
    case False
    then show ?thesis using assms(2) line_restores by (auto simp: at_place_def committed_def)
  qed
next
  case eof
  then obtain sh0 where a: "a = (Prompt, sh0)" "body s = prompt sh0" using assms(2) by (auto simp: at_place_def)
  have "interactive (prompt sh0) = interactive sh0" by (simp add: prompt_def puts_def)
  then have "body s' = end_of_input sh0" using eof(1) a(2) by (simp add: end_of_input_def Let_def)
  then show ?thesis using shell_step.end_of_file [of sh0] a(1) eof(1) by (auto simp: at_place_def)
next
  case (grants pg)
  then show ?thesis using assms(2) shell_step.grant [of pg "body s"] by (auto simp: at_place_def)
next
  case (wait_suspends again pg saved)
  then have "wait_test pg (body s) = (Suspended pg, body s)" by (simp add: wait_test_def)
  then show ?thesis
    using wait_suspends assms(2) shell_step.enter_wait [of pg "body s"] shell_step.test_again [of pg "body s"]
    by (cases again) (auto simp: at_place_def)
next
  case (wait_forgets again pg saved)
  then obtain sh0 where a: "a = (if again then Woken pg else Launched pg, sh0)" "\<not> must_wait pg sh0" "body s = demote pg sh0"
    using assms(2) by (auto simp: at_place_def)
  then have "wait_test pg sh0 = (Returning, body s')" using wait_forgets(1) by (simp add: wait_test_def wait_ends_def)
  then show ?thesis
    using wait_forgets(1) a(1) shell_step.enter_wait [of pg sh0] shell_step.test_again [of pg sh0]
    by (cases again) (auto simp: at_place_def)
next
  case resets
  then obtain sh0 where a: "a = (Returning, sh0)" "body s = giveTerminalTo (own_group sh0) sh0"
    using assms(2) by (auto simp: at_place_def)
  then have "body s' = wait_returns sh0" using resets(1) by (simp add: wait_returns_def Let_def)
  then show ?thesis using a(1) resets(1) shell_step.leave_wait [of sh0] by (auto simp: at_place_def)
qed (use assms(2) in \<open>auto simp: at_place_def\<close>)

text \<open>A handler's effect does not depend on which side of these statements it falls.\<close>

lemma deliver_prompt: "deliver e (prompt sh) = prompt (deliver e sh)" "signal_ok e (prompt sh) = signal_ok e sh"
  by (auto simp: deliver_def prompt_def puts_def handleSIGCHLD_def forwardToForeground_def send_signal_def signal_ok_def split: signal.split)

lemma deliver_give:
  "deliver e (giveTerminalTo (own_group sh) sh) = giveTerminalTo (own_group (deliver e sh)) (deliver e sh)"
  "signal_ok e (giveTerminalTo pg sh) = signal_ok e sh"
  by (auto simp: deliver_def giveTerminalTo_def group_exists_def handleSIGCHLD_def forwardToForeground_def send_signal_def
      signal_ok_def split: signal.split)

lemma key_give: "deliver (Key sg) (giveTerminalTo pg sh) = giveTerminalTo pg (deliver (Key sg) sh)"
  by (auto simp: deliver_def giveTerminalTo_def group_exists_def forwardToForeground_def send_signal_def)

lemma key_demote: "deliver (Key sg) (demote pg sh) = demote pg (deliver (Key sg) sh)" "must_wait pg (deliver (Key sg) sh) = must_wait pg sh"
  by (auto simp: deliver_def demote_def must_wait_def forwardToForeground_def send_signal_def puts_def split: option.split)

lemma key_nobody: "fgPgid sh = 0 \<Longrightarrow> deliver (Key sg) sh = sh"
  by (simp add: deliver_def forwardToForeground_def)

lemma key_committed:
  assumes "committed w" and "work_ok w" and "finishes w sh a"
  obtains c sh0 where "a = (c, sh0)" "c \<in> range Granting \<union> range Launched" "finishes w (deliver (Key sg) sh) (c, deliver (Key sg) sh0)"
proof (cases w)
  case (W_grant pg)
  then show ?thesis using that [of "Launched pg"] assms(3) by (simp add: finishes_simps key_give)
next
  case (W_done c)
  then show ?thesis using that [of c] assms by (auto simp: committed_def work_ok_def)
qed (use assms(1) in \<open>simp_all add: committed_def\<close>)

text \<open>A handler that runs when SIGCHLD, or only a key, may be handled.\<close>

lemma handler_sim:
  assumes at: "at_place p False sh a" and sv: "saved_ok p" and p: "p \<noteq> At Exited"
    and ok: "signal_ok e sh" and key: "N_CHLD \<in> own_mask p \<Longrightarrow> \<exists>sg. e = Key sg"
  shows "\<exists>a'. at_place p True (deliver e sh) a' \<and> (a' = a \<or> shell_step a a')"
proof -
  have int: "shell_step (c, x) (c, deliver e x)"
    if "c \<in> {Prompt, Returning} \<union> range Launched \<union> range Granting" "signal_ok e x" for c x
    using that shell_step.interrupt [of c _ e x] by auto
  show ?thesis
  proof (cases p)
    case (At c)
    then show ?thesis using at sv p int [of c sh] ok by (cases c) (auto simp: at_place_def saved_ok_def)
  next
    case Reading
    then obtain sh0 where "a = (Prompt, sh0)" "sh = prompt sh0" using at by (auto simp: at_place_def)
    then show ?thesis using Reading ok int [of Prompt sh0] by (auto simp: at_place_def deliver_prompt)
  next
    case (Section w saved)
    then obtain sg where e: "e = Key sg" using key by (auto simp: own_mask_def)
    show ?thesis
    proof (cases "committed w")
      case True
      then have "finishes w sh a" "work_ok w" using at sv Section by (auto simp: at_place_def saved_ok_def)
      then obtain c sh0 where "a = (c, sh0)" "c \<in> range Granting \<union> range Launched" "finishes w (deliver e sh) (c, deliver e sh0)"
        using key_committed [OF True] e by metis
      then show ?thesis using Section True int [of c sh0] e by (auto simp: at_place_def signal_ok_def)
    next
      case False
      then have "fgPgid sh = 0" using at Section by (auto simp: at_place_def)
      then have "at_place p True (deliver e sh) a" using at Section e key_nobody by (simp add: at_place_def)
      then show ?thesis by blast
    qed
  next
    case (Wait_testing again pg saved)
    then obtain sg where "e = Key sg" using key by (auto simp: own_mask_def)
    then show ?thesis
      using Wait_testing at ok int [of "Launched pg" sh] shell_step.key_after_wake [of pg sh sg] by (cases again) (auto simp: at_place_def)
  next
    case (Wait_asleep pg saved old)
    then show ?thesis using at shell_step.wake [OF ok, of pg] by (auto simp: at_place_def)
  next
    case (Wait_over again pg saved)
    then obtain sg sh0 where "e = Key sg" "a = (if again then Woken pg else Launched pg, sh0)" "\<not> must_wait pg sh0" "sh = demote pg sh0"
      using key at by (auto simp: own_mask_def at_place_def)
    moreover from this have "at_place p True (deliver e sh) (if again then Woken pg else Launched pg, deliver e sh0)"
      using Wait_over by (simp add: at_place_def key_demote)
    ultimately show ?thesis
      using int [of "Launched pg" sh0] shell_step.key_after_wake [of pg sh0 sg] by (cases again) (auto simp: signal_ok_def)
  next
    case (Wait_done saved)
    then show ?thesis using at ok int [of Returning sh] by (auto simp: at_place_def)
  next
    case Resetting
    then obtain sh0 where "a = (Returning, sh0)" "sh = giveTerminalTo (own_group sh0) sh0" using at by (auto simp: at_place_def)
    then show ?thesis using Resetting ok int [of Returning sh0] by (auto simp: at_place_def deliver_give)
  qed
qed

lemma handleSIGCHLD_none [simp]: "handleSIGCHLD [] sh = sh"
  by (simp add: handleSIGCHLD_def)

lemma handleSIGCHLD_more: "handleSIGCHLD [r] (handleSIGCHLD rs sh) = handleSIGCHLD (rs @ [r]) sh"
  by (simp add: handleSIGCHLD_def)

lemma reports_ok_more: "reports_ok (rs @ [r]) U \<longleftrightarrow> reports_ok rs U \<and> fst r \<in> fst ` set (fold reap rs U)"
  by (induction rs arbitrary: U) auto

lemma frame_facts:
  assumes "masks_ok s" and "frames s = (g, old, pr) # fs"
  shows "fs = []" "saved_ok (place s)" "place s \<noteq> At Exited" "g \<notin> own_mask (place s)" "g \<noteq> N_CHLD \<Longrightarrow> pr \<in> {Running [], Finished}"
  using assms by (simp_all add: masks_ok_def frames_ok_def)

lemma handler_ends:
  assumes "masks_ok s" and "frames s = (g, old, Running rs) # fs" and "sim s a"
    and "e = (if g = N_CHLD then Child rs else Key (key_of g))"
    and "sh' = (if g = N_CHLD then body s else deliver e (body s))"
  shows "\<exists>a'. sim (s\<lparr>body := sh', frames := (g, old, Finished) # fs\<rparr>) a' \<and> (a' = a \<or> shell_step a a')"
proof -
  note f = frame_facts [OF assms(1,2)]
  obtain sh where sh: "at_place (place s) False sh a" "body s = handleSIGCHLD rs sh" "reports_ok rs (unreaped sh)"
    using assms(2,3) by (auto simp: sim_def)
  have "N_CHLD \<in> own_mask (place s) \<Longrightarrow> \<exists>sg. e = Key sg" using f(4) assms(4) by auto
  moreover have "signal_ok e sh" using sh(3) assms(4) by (simp add: signal_ok_def)
  ultimately obtain a' where a': "at_place (place s) True (deliver e sh) a'" "a' = a \<or> shell_step a a'"
    using handler_sim [OF sh(1) f(2,3)] by blast
  have "sh' = deliver e sh"
  proof (cases "g = N_CHLD")
    case True
    then show ?thesis using assms(4,5) sh(2) by (simp add: deliver_def)
  next
    case False
    then have "rs = []" using f(5) by auto
    then show ?thesis using False assms(5) sh(2) by simp
  qed
  then have "sim (s\<lparr>body := sh', frames := (g, old, Finished) # fs\<rparr>) a'" using a'(1) by (simp add: sim_def)
  then show ?thesis using a'(2) by blast
qed

lemma step_sim:
  assumes "masked_step s s'" and "masks_ok s" and "sim s a" and "shell_reach tty me t a"
  shows "\<exists>a'. sim s' a' \<and> (a' = a \<or> shell_step a a')"
  using assms(1)
proof cases
  case main
  then have "at_place (place s) False (body s) a" "frames s' = []"
    using assms(2,3) main_masks_ok(2) by (simp_all add: sim_def)
  then show ?thesis using main_sim [OF main(2) _ assms(4)] by (simp add: sim_def)
next
  case (delivers g h m)
  have "frames s = []" using deliver_needs [OF assms(2) delivers(3,4)] by simp
  then have "sim s' a" using delivers(1) assms(3) by (auto simp: sim_def)
  then show ?thesis by blast
next
  case (child_turn g old rs fs m r)
  then obtain sh where "at_place (place s) False sh a" "body s = handleSIGCHLD rs sh" "reports_ok rs (unreaped sh)"
    using assms(3) by (auto simp: sim_def)
  moreover have "unreaped (handleSIGCHLD rs sh) = fold reap rs (unreaped sh)" for sh by (simp add: handleSIGCHLD_def)
  ultimately have "sim s' a" using child_turn(1,4) handleSIGCHLD_more by (auto simp: sim_def reports_ok_more)
  then show ?thesis by blast
next
  case (child_ends g old rs fs m)
  then have "g = N_CHLD" by (auto simp: handled)
  then show ?thesis using handler_ends [OF assms(2) child_ends(2) assms(3) refl refl] child_ends(1) by simp
next
  case (forward_runs g old rs fs m)
  then have "g \<noteq> N_CHLD" by (auto simp: handled)
  then show ?thesis using handler_ends [OF assms(2) forward_runs(2) assms(3) refl refl] forward_runs(1) by (simp add: deliver_def)
next
  case (returns g old fs)
  have "fs = []" using frame_facts [OF assms(2) returns(2)] by simp
  moreover have "at_place (place s) True (body s) a" using returns(2) assms(3) by (simp add: sim_def)
  ultimately have "sim s' a" using returns(1) by (auto simp: sim_def at_place_def split: place.splits)
  then show ?thesis by blast
next
  case arrives
  then have "sim s' a" using assms(3) by (auto simp: sim_def split: list.splits progress.splits)
  then show ?thesis by blast
next
  case drops
  then have "sim s' a" using assms(3) by (auto simp: sim_def split: list.splits progress.splits)
  then show ?thesis by blast
qed

lemma reach_sim: "masked_reach tty me t s \<Longrightarrow> \<exists>a. sim s a \<and> shell_reach tty me t a"
proof (induction rule: masked_reach.induct)
  case boot
  have "sim (masked_init tty me t) (Prompt, start_shell tty me t)" by (simp add: sim_def at_place_def masked_init_def)
  then show ?case using shell_reach.boot by blast
next
  case (step s s')
  then obtain a where a: "sim s a" "shell_reach tty me t a" by blast
  from step_sim [OF step(2) reach_masks_ok [OF step(1)] a] obtain a' where "sim s' a'" "a' = a \<or> shell_step a a'" by blast
  then show ?case using a(2) shell_reach.step by blast
qed

text \<open>Between sections the shell's data are those of a state of \<^const>\<open>shell_step\<close>, in the middle of a handler too.\<close>

lemma at_reaches:
  assumes "masked_reach tty me t s" and "place s = At c"
  shows "shell_reach tty me t (c, body s)"
proof -
  obtain a where a: "sim s a" "shell_reach tty me t a" using reach_sim [OF assms(1)] by blast
  have ok: "masks_ok s" using reach_masks_ok [OF assms(1)] .
  show ?thesis
  proof (cases "frames s")
    case Nil
    then show ?thesis using a assms(2) by (simp add: sim_def at_place_def)
  next
    case (Cons fr fs)
    obtain g old pr where fr: "fr = (g, old, pr)" by (cases fr) auto
    note f = frame_facts [OF ok Cons [unfolded fr]]
    show ?thesis
    proof (cases pr)
      case (Running rs)
      then obtain sh where sh: "a = (c, sh)" "body s = handleSIGCHLD rs sh" "reports_ok rs (unreaped sh)"
        using a(1) Cons fr assms(2) by (auto simp: sim_def at_place_def)
      have "c \<in> {Prompt, Returning} \<union> range Granting \<union> range Launched"
        using f(2,3) assms(2) by (cases c) (auto simp: saved_ok_def)
      then have "shell_step (c, sh) (c, deliver (Child rs) sh)"
        using sh(3) shell_step.interrupt [of c _ "Child rs" sh] by (auto simp: signal_ok_def)
      then show ?thesis using shell_reach.step a(2) sh(1,2) by (auto simp: deliver_def)
    next
      case Finished
      then show ?thesis using a Cons fr assms(2) by (simp add: sim_def at_place_def)
    qed
  qed
qed

text \<open>With SIGCHLD blocked no handler is in the middle of its reports.\<close>

lemma blocked_at:
  assumes "masks_ok s" and "sim s a" and "N_CHLD \<in> own_mask (place s)"
  shows "\<exists>woken. at_place (place s) woken (body s) a"
proof (cases "frames s")
  case Nil
  then show ?thesis using assms(2) by (auto simp: sim_def)
next
  case (Cons fr fs)
  obtain g old pr where fr: "fr = (g, old, pr)" by (cases fr) auto
  note f = frame_facts [OF assms(1) Cons [unfolded fr]]
  then have "pr \<in> {Running [], Finished}" using assms(3) by blast
  then show ?thesis using assms(2) Cons fr by (auto simp: sim_def)
qed

lemma blocked_reaches:
  assumes "masked_reach tty me t s" and "N_CHLD \<in> own_mask (place s)"
  shows "\<exists>a woken. shell_reach tty me t a \<and> at_place (place s) woken (body s) a"
  using reach_sim [OF assms(1)] blocked_at [OF reach_masks_ok [OF assms(1)] _ assms(2)] by blast

text \<open>A section ends in one way only, which is that of a whole line.\<close>

lemma finishes_same: "finishes w sh r \<Longrightarrow> finishes w sh r' \<Longrightarrow> r' = r"
proof (induction rule: finishes.induct)
  case (more w sh w' sh' r)
  then show ?case using finishes_step [OF more.prems more.hyps(1,2)] by blast
qed simp

lemma section_reaches:
  assumes "masked_reach tty me t s" and "place s = Section w saved"
  shows "\<exists>r. finishes w (body s) r \<and> shell_reach tty me t r"
proof -
  obtain a woken where a: "shell_reach tty me t a" "at_place (Section w saved) woken (body s) a"
    using blocked_reaches [OF assms(1)] assms(2) by (auto simp: own_mask_def)
  show ?thesis
  proof (cases "committed w")
    case True
    then have "finishes w (body s) a" using a(2) by (simp add: at_place_def)
    then show ?thesis using a(1) by blast
  next
    case False
    then obtain k line sh0 where "a = (Prompt, sh0)" "fork_ok k sh0" "finishes w (body s) (run_line k line sh0)"
      using a(2) by (auto simp: at_place_def)
    then show ?thesis using shell_reach.step [OF a(1)] shell_step.read_line by blast
  qed
qed

section \<open>Properties\<close>

text \<open>
  C40: the masks make the sections atomic. One statement of a section, one \<open>pipe\<close> or \<open>fork\<close> and one turn of the SIGCHLD handler's loop at a
  time, with signals arriving and delivered whenever a mask lets them, the shell is between two sections always in a state that
  \<^const>\<open>shell_step\<close> reaches, where a section and a handler are one step. Inside a section SIGCHLD is blocked, and the one outcome
  the section can have from where it is is such a state; the same holds before each test of a wait and in
  \<open>sigsuspend\<close>. At most one handler runs at a time; the one for SIGCHLD never runs between \<open>blockSIGCHLD\<close> and \<open>restoreMask\<close>, except inside
  \<open>sigsuspend\<close>; a SIGCHLD that came after the last test of a wait is not lost, as it can be delivered as soon
  as the shell is asleep; and the stops for terminal use are ignored. The kernel is the one of \<open>shell_step\<close>: it reports only children
  that exist, and \<open>fork\<close> returns no pid of an existing child.
\<close>

theorem sections_atomic:
  assumes "masked_reach tty me t s"
  shows "(\<forall>c. place s = At c \<longrightarrow> shell_reach tty me t (c, body s)) \<and>
    (\<forall>w saved. place s = Section w saved \<longrightarrow>
       N_CHLD \<in> sigmask s \<and> (\<exists>r. finishes w (body s) r \<and> (\<forall>r'. finishes w (body s) r' \<longrightarrow> r' = r) \<and> shell_reach tty me t r)) \<and>
    (\<forall>again pg saved. place s = Wait_testing again pg saved \<longrightarrow>
       N_CHLD \<in> sigmask s \<and> shell_reach tty me t (if again then Woken pg else Launched pg, body s)) \<and>
    (\<forall>pg saved old. place s = Wait_asleep pg saved old \<and> frames s = [] \<longrightarrow> sigmask s = {} \<and> shell_reach tty me t (Suspended pg, body s)) \<and>
    length (frames s) \<le> 1 \<and>
    (\<forall>old pr. (N_CHLD, old, pr) \<in> set (frames s) \<longrightarrow>
       (\<exists>c. place s = At c) \<or> place s = Reading \<or> place s = Resetting \<or> (\<exists>pg saved old. place s = Wait_asleep pg saved old)) \<and>
    (\<forall>pg saved old. place s = Wait_asleep pg saved old \<and> frames s = [] \<and> N_CHLD \<in> pending s \<longrightarrow>
       masked_step s (s\<lparr>pending := pending s - {N_CHLD}, sigmask := {N_CHLD, N_INT, N_TSTP}, frames := [(N_CHLD, {N_CHLD}, Running [])]\<rparr>)) \<and>
    (\<forall>g. main_dispositions g \<noteq> Default \<and> (main_dispositions g = Ignore \<longleftrightarrow> g \<in> {N_TTOU, N_TTIN}))"
proof -
  have ok: "masks_ok s" using reach_masks_ok [OF assms] .
  obtain a where a: "sim s a" "shell_reach tty me t a" using reach_sim [OF assms] by blast
  have blocked: "N_CHLD \<in> sigmask s" if "N_CHLD \<in> own_mask (place s)"
    using ok that by (cases "frames s") (auto simp: masks_ok_def frames_ok_def)
  have "N_CHLD \<in> sigmask s \<and> (\<exists>r. finishes w (body s) r \<and> (\<forall>r'. finishes w (body s) r' \<longrightarrow> r' = r) \<and> shell_reach tty me t r)"
    if "place s = Section w saved" for w saved
    using section_reaches [OF assms that] finishes_same blocked that by (simp add: own_mask_def) blast
  moreover have "N_CHLD \<in> sigmask s \<and> shell_reach tty me t (if again then Woken pg else Launched pg, body s)"
    if "place s = Wait_testing again pg saved" for again pg saved
    using blocked_reaches [OF assms] blocked that by (auto simp: own_mask_def at_place_def)
  moreover have "sigmask s = {} \<and> shell_reach tty me t (Suspended pg, body s)"
    if "place s = Wait_asleep pg saved old \<and> frames s = []" for pg saved old
    using a ok that by (auto simp: sim_def at_place_def masks_ok_def frames_ok_def own_mask_def)
  moreover have "length (frames s) \<le> 1" using ok by (cases "frames s") (auto simp: masks_ok_def frames_ok_def)
  moreover have "(\<exists>c. place s = At c) \<or> place s = Reading \<or> place s = Resetting \<or> (\<exists>pg saved old. place s = Wait_asleep pg saved old)"
    if "(N_CHLD, old, pr) \<in> set (frames s)" for old pr
    using that ok by (cases "frames s"; cases "place s") (auto simp: masks_ok_def frames_ok_def own_mask_def)
  moreover have "masked_step s (s\<lparr>pending := pending s - {N_CHLD}, sigmask := {N_CHLD, N_INT, N_TSTP}, frames := [(N_CHLD, {N_CHLD}, Running [])]\<rparr>)"
    if "place s = Wait_asleep pg saved old \<and> frames s = [] \<and> N_CHLD \<in> pending s" for pg saved old
    using masked_step.delivers [of N_CHLD s, OF _ _ dispositions(1)] that ok
    by (simp add: masks_ok_def frames_ok_def own_mask_def saved_ok_def insert_commute)
  moreover have "main_dispositions g \<noteq> Default \<and> (main_dispositions g = Ignore \<longleftrightarrow> g \<in> {N_TTOU, N_TTIN})" for g
    by (cases g) (simp_all add: dispositions)
  ultimately show ?thesis using at_reaches [OF assms] by blast
qed

text \<open>
  In the middle of \<open>runPipeline\<close>: the one child of the line has been forked, SIGCHLD has already come for it and waits, and the
  job is not in the list yet.
\<close>

definition one_kernel :: kernel where
  "one_kernel = \<lparr>pipe_ok = \<lambda>_. True, fork_pid = \<lambda>i. 51 + int i, open_ok = \<lambda>_. True, exec_ok = \<lambda>_. True, errno_text = []\<rparr>"

definition one_launch :: launch where
  "one_launch = stage_parent 51 (child_stage one_kernel (parsePipeline ''ls'') True True None None [''ls''] login_table) None
     (start_launch (start_shell True 50 login_table))"

definition midway :: masked where
  "midway = \<lparr>place = Section (W_pipe one_kernel (parsePipeline ''ls'') ''ls'' 1 [] one_launch) {},
     body = child_starts one_launch (prompt (start_shell True 50 login_table)), sigmask = {N_CHLD}, pending = {N_CHLD}, frames = []\<rparr>"

lemma midway_reach: "masked_reach True 50 login_table midway"
proof -
  let ?sh = "prompt (start_shell True 50 login_table)" and ?p = "parsePipeline ''ls''"
  let ?s = "\<lambda>pl m sh. \<lparr>place = pl, body = sh, sigmask = m, pending = {}, frames = []\<rparr>"
  have p: "valid ?p" "commands ?p = [[''ls'']]" by code_simp+
  have st: "start_launch ?sh = start_launch (start_shell True 50 login_table)" by (simp add: start_launch_def prompt_def puts_def)
  have main: "masked_reach True 50 login_table (?s pl' m' sh')"
    if "masked_reach True 50 login_table (?s pl m sh)" "shell_thread (?s pl m sh) (?s pl' m' sh')" for pl m sh pl' m' sh'
    using masked_reach.step [OF that(1)] masked_step.main [OF _ that(2)] by simp
  have "masked_reach True 50 login_table (?s (At Prompt) {} (start_shell True 50 login_table))"
    using masked_reach.boot [of True 50 login_table] by (simp add: masked_init_def)
  then have 1: "masked_reach True 50 login_table (?s Reading {} ?sh)"
    by (rule main) (use shell_thread.prompts [of "?s (At Prompt) {} (start_shell True 50 login_table)"] in simp)
  have "start_line one_kernel ''ls'' ?sh = Inr (W_pipe one_kernel ?p ''ls'' 0 [[''ls'']] (start_launch ?sh))"
    using p by (simp add: start_line_def start_builtin_def Let_def)
  moreover have "fork_ok one_kernel ?sh" by (auto simp: fork_ok_def one_kernel_def prompt_def puts_def start_shell_def)
  ultimately have 2: "masked_reach True 50 login_table (?s (Section (W_pipe one_kernel ?p ''ls'' 0 [[''ls'']] (start_launch ?sh)) {}) {N_CHLD} ?sh)"
    using shell_thread.line_blocks [of "?s Reading {} ?sh" one_kernel "''ls''" _ "{}" "{N_CHLD}"] main [OF 1] by (simp add: blockSIGCHLD_def)
  have "pipe_step one_kernel ?p ''ls'' 0 [[''ls'']] (start_launch ?sh) ?sh = (W_fork one_kernel ?p ''ls'' 0 [''ls''] [] None (start_launch ?sh), ?sh)"
    by (simp add: pipe_step_def stage_pipe_def start_launch_def)
  then have 3: "masked_reach True 50 login_table (?s (Section (W_fork one_kernel ?p ''ls'' 0 [''ls''] [] None (start_launch ?sh)) {}) {N_CHLD} ?sh)"
    using main [OF 2] shell_thread.line_works [of "?s (Section (W_pipe one_kernel ?p ''ls'' 0 [[''ls'']] (start_launch ?sh)) {}) {N_CHLD} ?sh"] by simp
  have "fork_step one_kernel ?p ''ls'' 0 [''ls''] [] None (start_launch ?sh) ?sh =
      (W_pipe one_kernel ?p ''ls'' 1 [] one_launch, child_starts one_launch ?sh)"
    unfolding st by (simp add: fork_step_def one_launch_def one_kernel_def Let_def start_launch_def start_shell_def)
  then have "masked_reach True 50 login_table
      (?s (Section (W_pipe one_kernel ?p ''ls'' 1 [] one_launch) {}) {N_CHLD} (child_starts one_launch ?sh))"
    using main [OF 3] shell_thread.line_works [of "?s (Section (W_fork one_kernel ?p ''ls'' 0 [''ls''] [] None (start_launch ?sh)) {}) {N_CHLD} ?sh"] by simp
  from masked_reach.step [OF this masked_step.arrives [of _ N_CHLD]] show ?thesis by (simp add: midway_def)
qed

lemma midway_state: "unreaped (body midway) = [(51, 51)]" "jobs (joblist (body midway)) = []"
  by (simp_all add: midway_def child_starts_def one_launch_def stage_parent_child Let_def start_launch_def start_shell_def prompt_def puts_def)

theorem sections_atomic_witness:
  "unreaped (body midway) = [(51, 51)] \<and> jobs (joblist (body midway)) = [] \<and> N_CHLD \<in> pending midway \<and> N_CHLD \<in> sigmask midway \<and>
   (\<exists>r. finishes (W_pipe one_kernel (parsePipeline ''ls'') ''ls'' 1 [] one_launch) (body midway) r \<and> shell_reach True 50 login_table r)"
  using sections_atomic [OF midway_reach] midway_state by (simp add: midway_def) blast

text \<open>A program started by the shell has the default dispositions.\<close>

lemma child_defaults: "child_dispositions main_dispositions = (\<lambda>_. Default)"
proof
  fix g
  show "child_dispositions main_dispositions g = Default" by (cases g) (simp_all add: child_dispositions_def)
qed

end
