(* ===== verification/Subprocess.thy ===== *)
theory Subprocess
  imports Posix_Fd
begin

text \<open>
  \<open>subprocess\<close> and \<open>pipeline\<close> of the \<open>multiprocessing\<close> directory, over the descriptor tables: what the
  caller and the children hold afterwards, on every path. A parent's state is its table, the number of
  pipes made so far and the children started; the kernel's answers are a record.
\<close>

section \<open>Model\<close>

record subprocess_t =
  sp_pid :: int
  supplyfd :: "nat option"
  ingestfd :: "nat option"

record parent =
  p_fds :: fd_table
  p_pipes :: nat
  p_kids :: "(int \<times> child_outcome) list"

record answers =
  supply_ok :: bool
  ingest_ok :: bool
  forked :: int
  runs :: "string \<Rightarrow> bool"
  strerror :: string

definition closeIfOpen :: "nat option \<Rightarrow> fd_table \<Rightarrow> fd_table" where
  "closeIfOpen fd t = (case fd of None \<Rightarrow> t | Some n \<Rightarrow> fd_close n t)"

definition open_pipe :: "bool \<Rightarrow> parent \<Rightarrow> (nat \<times> nat) option \<times> parent" where
  "open_pipe wanted s =
     (if wanted then
        (let (fds, t) = make_pipe False (p_pipes s) (p_fds s)
         in (Some fds, s\<lparr>p_fds := t, p_pipes := Suc (p_pipes s)\<rparr>))
      else (None, s))"

text \<open>The child's moves before \<open>execvp\<close>; a program that cannot be run exits with 127.\<close>

definition take_supply :: "(nat \<times> nat) option \<Rightarrow> fd_table \<Rightarrow> fd_table" where
  "take_supply pfd t = (case pfd of None \<Rightarrow> t | Some (r, w) \<Rightarrow> fd_close w (fd_close r (dup2 r 0 t)))"

definition take_ingest :: "(nat \<times> nat) option \<Rightarrow> fd_table \<Rightarrow> fd_table" where
  "take_ingest pfd t = (case pfd of None \<Rightarrow> t | Some (r, w) \<Rightarrow> fd_close w (fd_close r (dup2 w 1 t)))"

definition run_program :: "(string \<Rightarrow> bool) \<Rightarrow> string list \<Rightarrow> fd_table \<Rightarrow> child_outcome" where
  "run_program ok argv t = (if ok (hd argv) then Execs argv (exec_table t) else Exits 127)"

definition subprocess ::
  "answers \<Rightarrow> string list \<Rightarrow> bool \<Rightarrow> bool \<Rightarrow> parent \<Rightarrow> (string + subprocess_t) \<times> parent" where
  "subprocess k argv supplyChildInput supplyChildOutput s =
     (if supplyChildInput \<and> \<not> supply_ok k then (Inl (''pipe(supply) failed: '' @ strerror k), s)
      else
        (let (supply, s) = open_pipe supplyChildInput s
         in if supplyChildOutput \<and> \<not> ingest_ok k then (Inl (''pipe(ingest) failed: '' @ strerror k), s)
            else
              (let (ingest, s) = open_pipe supplyChildOutput s
               in if forked k = -1 then (Inl (''fork failed: '' @ strerror k), s)
                  else
                    (let child = run_program (runs k) argv (take_ingest ingest (take_supply supply (p_fds s)));
                         t = closeIfOpen (map_option snd ingest) (closeIfOpen (map_option fst supply) (p_fds s))
                     in (Inr \<lparr>sp_pid = forked k, supplyfd = map_option snd supply, ingestfd = map_option fst ingest\<rparr>,
                         s\<lparr>p_fds := t, p_kids := p_kids s @ [(forked k, child)]\<rparr>)))))"

text \<open>\<open>pipeline\<close>: two children joined by one pipe; the second fork's answer is a parameter of its own.\<close>

definition pipeline ::
  "answers \<Rightarrow> int \<Rightarrow> string list \<Rightarrow> string list \<Rightarrow> parent \<Rightarrow> (string + int \<times> int) \<times> parent" where
  "pipeline k forked2 argv1 argv2 s =
     (if \<not> supply_ok k then (Inl (''pipe failed: '' @ strerror k), s)
      else
        (let ((r, w), t) = make_pipe False (p_pipes s) (p_fds s);
             s = s\<lparr>p_fds := t, p_pipes := Suc (p_pipes s)\<rparr>
         in if forked k = -1 then (Inl (''fork failed: '' @ strerror k), s)
            else
              (let c1 = run_program (runs k) argv1 (fd_close w (fd_close r (dup2 w 1 t)));
                   s = s\<lparr>p_kids := p_kids s @ [(forked k, c1)]\<rparr>
               in if forked2 = -1 then (Inl (''fork failed: '' @ strerror k), s)
                  else
                    (let c2 = run_program (runs k) argv2 (fd_close w (fd_close r (dup2 r 0 t)))
                     in (Inr (forked k, forked2),
                         s\<lparr>p_fds := fd_close w (fd_close r t), p_kids := p_kids s @ [(forked2, c2)]\<rparr>)))))"

section \<open>Moving pipe ends\<close>

text \<open>A pipe's two descriptors are fresh for the table \<open>t\<close> and different from the standard ones.\<close>

definition fresh_ends :: "(nat \<times> nat) option \<Rightarrow> fd_table \<Rightarrow> bool" where
  "fresh_ends pfd t \<longleftrightarrow> (\<forall>r w. pfd = Some (r, w) \<longrightarrow> fd_get t r = None \<and> fd_get t w = None \<and> r \<noteq> w)"

definition with_pipe :: "(nat \<times> nat) option \<Rightarrow> nat \<Rightarrow> (nat \<Rightarrow> fd_entry option) \<Rightarrow> nat \<Rightarrow> fd_entry option" where
  "with_pipe pfd m f = (case pfd of None \<Rightarrow> f
     | Some (r, w) \<Rightarrow> f(r \<mapsto> plain (Pipe_Read m), w \<mapsto> plain (Pipe_Write m)))"

lemma open_pipe_spec:
  assumes "open_pipe wanted s = (pfd, s')"
  shows "fresh_ends pfd (p_fds s)" and "fd_get (p_fds s') = with_pipe pfd (p_pipes s) (fd_get (p_fds s))"
    and "pfd = None \<longleftrightarrow> \<not> wanted" and "p_pipes s' = (if wanted then Suc (p_pipes s) else p_pipes s)"
    and "p_kids s' = p_kids s"
proof -
  obtain r w t where mp: "make_pipe False (p_pipes s) (p_fds s) = ((r, w), t)" by (metis surj_pair)
  note f = make_pipe_fresh [OF mp]
  show "fresh_ends pfd (p_fds s)" and "fd_get (p_fds s') = with_pipe pfd (p_pipes s) (fd_get (p_fds s))"
    and "pfd = None \<longleftrightarrow> \<not> wanted" and "p_pipes s' = (if wanted then Suc (p_pipes s) else p_pipes s)"
    and "p_kids s' = p_kids s"
    using assms f mp by (auto simp: open_pipe_def fresh_ends_def with_pipe_def plain_def split: if_splits)
qed

lemma take_supply_get:
  assumes "fd_get c = with_pipe pfd m (fd_get t)" and "fresh_ends pfd t" and "fd_get t 0 \<noteq> None"
  shows "fd_get (take_supply pfd c) = (fd_get t)(0 := if pfd = None then fd_get t 0 else Some (plain (Pipe_Read m)))"
proof (cases pfd)
  case None
  then show ?thesis using assms by (auto simp: take_supply_def with_pipe_def)
next
  case (Some rw)
  then obtain r w where rw: "pfd = Some (r, w)" by (cases rw) auto
  then have n: "fd_get t r = None" "fd_get t w = None" "r \<noteq> w" using assms(2) by (auto simp: fresh_ends_def)
  then have z: "r \<noteq> 0" "w \<noteq> 0" using assms(3) by metis+
  have g: "fd_get c r = Some (plain (Pipe_Read m))" using assms(1) rw n by (simp add: with_pipe_def)
  show ?thesis
    using n z rw assms(1) by (auto simp: take_supply_def fd_get_dup2 [OF g] fd_simps with_pipe_def fun_eq_iff)
qed

lemma take_ingest_get:
  assumes "fd_get c = with_pipe pfd m (fd_get t)" and "fresh_ends pfd t" and "fd_get t 1 \<noteq> None"
  shows "fd_get (take_ingest pfd c) = (fd_get t)(1 := if pfd = None then fd_get t 1 else Some (plain (Pipe_Write m)))"
proof (cases pfd)
  case None
  then show ?thesis using assms by (auto simp: take_ingest_def with_pipe_def)
next
  case (Some rw)
  then obtain r w where rw: "pfd = Some (r, w)" by (cases rw) auto
  then have n: "fd_get t r = None" "fd_get t w = None" "r \<noteq> w" using assms(2) by (auto simp: fresh_ends_def)
  then have z: "r \<noteq> 1" "w \<noteq> 1" using assms(3) by metis+
  have g: "fd_get c w = Some (plain (Pipe_Write m))" using assms(1) rw n by (simp add: with_pipe_def)
  show ?thesis
    using n z rw assms(1) by (auto simp: take_ingest_def fd_get_dup2 [OF g] fd_simps with_pipe_def fun_eq_iff)
qed

text \<open>The child's moves commute with a pipe that is not theirs.\<close>

lemma take_supply_other:
  assumes "fd_get c = with_pipe ing m' (with_pipe sp m (fd_get t))" and "fresh_ends sp t"
    and "fresh_ends ing c'" "fd_get c' = with_pipe sp m (fd_get t)" and "fd_get t 0 \<noteq> None"
  shows "fd_get (take_supply sp c) =
    with_pipe ing m' ((fd_get t)(0 := if sp = None then fd_get t 0 else Some (plain (Pipe_Read m))))"
proof (cases sp)
  case None
  then show ?thesis using assms by (auto simp: take_supply_def with_pipe_def split: option.split)
next
  case (Some rw)
  then obtain r w where rw: "sp = Some (r, w)" by (cases rw) auto
  then have n: "fd_get t r = None" "fd_get t w = None" "r \<noteq> w" using assms(2) by (auto simp: fresh_ends_def)
  then have z: "r \<noteq> 0" "w \<noteq> 0" using assms(5) by metis+
  have "ing = Some (a, b) \<Longrightarrow> a \<notin> {r, w} \<and> b \<notin> {r, w} \<and> a \<noteq> b \<and> fd_get t a = None \<and> fd_get t b = None" for a b
    using assms(3,4) rw n by (auto simp: fresh_ends_def with_pipe_def split: if_splits)
  then have o: "ing = Some (a, b) \<Longrightarrow> a \<notin> {0, r, w} \<and> b \<notin> {0, r, w} \<and> a \<noteq> b" for a b
    using assms(5) by (metis insert_iff)
  have g: "fd_get c r = Some (plain (Pipe_Read m))"
    using assms(1) rw n o by (cases ing) (auto simp: with_pipe_def)
  have taken: "fd_get (take_supply sp c) = (fd_get c)(0 := Some (plain (Pipe_Read m)), r := None, w := None)"
    using z rw by (auto simp: take_supply_def fd_get_dup2 [OF g] fd_simps fun_eq_iff)
  show ?thesis
  proof (cases ing)
    case None
    then show ?thesis unfolding taken using n z rw assms(1) by (simp add: with_pipe_def fun_eq_iff)
  next
    case (Some ab)
    then obtain a b where "ing = Some (a, b)" by (cases ab) simp
    then show ?thesis unfolding taken using n z o [of a b] rw assms(1) by (simp add: with_pipe_def fun_eq_iff)
  qed
qed

lemma fresh_after:
  assumes "fresh_ends ing c" and "fd_get c = with_pipe sp m (fd_get t)" and "fd_get t z \<noteq> None"
    and "fd_get t1 = (fd_get t)(z := x)"
  shows "fresh_ends ing t1"
  unfolding fresh_ends_def
proof (intro allI impI)
  fix r w assume "ing = Some (r, w)"
  with assms(1) have c: "fd_get c r = None" "fd_get c w = None" "r \<noteq> w" by (auto simp: fresh_ends_def)
  have "fd_get t n = None" if "fd_get c n = None" for n
    using that assms(2) by (cases sp) (auto simp: with_pipe_def split: if_splits)
  with c assms(3,4) show "fd_get t1 r = None \<and> fd_get t1 w = None \<and> r \<noteq> w" by auto
qed

lemma close_others_ends:
  assumes "fresh_ends sp t" and "fresh_ends ing c" and "fd_get c = with_pipe sp m (fd_get t)"
    and "fd_get c' = with_pipe ing m' (fd_get c)"
  shows "fd_get (closeIfOpen (map_option snd ing) (closeIfOpen (map_option fst sp) c')) n =
    (if map_option snd sp = Some n then Some (plain (Pipe_Write m))
     else if map_option fst ing = Some n then Some (plain (Pipe_Read m')) else fd_get t n)"
  using assms
  by (cases sp; cases ing) (auto simp: closeIfOpen_def fd_simps with_pipe_def fresh_ends_def split: if_splits)

text \<open>What the child runs with when the parent's table was \<open>t\<close> and the pipes are \<open>m\<close> and \<open>m'\<close>.\<close>

definition connected_child ::
  "answers \<Rightarrow> string list \<Rightarrow> fd_table \<Rightarrow> nat option \<Rightarrow> nat option \<Rightarrow> child_outcome \<Rightarrow> bool" where
  "connected_child k argv t from to does \<longleftrightarrow>
     (if runs k (hd argv)
      then \<exists>t'. does = Execs argv t' \<and> fd_get t' = (fd_get (exec_table t))
             (0 := (case from of None \<Rightarrow> fd_get t 0 | Some m \<Rightarrow> Some (plain (Pipe_Read m))),
              1 := (case to of None \<Rightarrow> fd_get t 1 | Some m \<Rightarrow> Some (plain (Pipe_Write m))))
      else does = Exits 127)"

lemma connected_childI:
  assumes "std_open t" and "fd_get c = (fd_get t)
       (0 := (case from of None \<Rightarrow> fd_get t 0 | Some m \<Rightarrow> Some (plain (Pipe_Read m))),
        1 := (case to of None \<Rightarrow> fd_get t 1 | Some m \<Rightarrow> Some (plain (Pipe_Write m))))"
  shows "connected_child k argv t from to (run_program (runs k) argv c)"
proof -
  have "fd_get (exec_table c) = (fd_get (exec_table t))
       (0 := (case from of None \<Rightarrow> fd_get t 0 | Some m \<Rightarrow> Some (plain (Pipe_Read m))),
        1 := (case to of None \<Rightarrow> fd_get t 1 | Some m \<Rightarrow> Some (plain (Pipe_Write m))))"
    using std_open_no_cloexec [OF assms(1), of 0] std_open_no_cloexec [OF assms(1), of 1]
    by (intro exec_table_upd [OF assms(2)]) (auto split: option.splits)
  then show ?thesis by (auto simp: connected_child_def run_program_def)
qed

section \<open>Properties\<close>

text \<open>
  C26: a successful \<open>subprocess\<close> call starts one child whose standard input and output are the pipes that
  were asked for (else the parent's own) and which holds nothing else of them, hands the caller the
  opposite ends, and changes no other descriptor of the parent.
\<close>
theorem subprocess_connects:
  assumes "std_open (p_fds s)" and "subprocess k argv si so s = (Inr sp, s')"
  shows "sp_pid sp = forked k \<and> (supplyfd sp = None \<longleftrightarrow> \<not> si) \<and> (ingestfd sp = None \<longleftrightarrow> \<not> so) \<and>
    (\<exists>child. p_kids s' = p_kids s @ [(forked k, child)] \<and>
       connected_child k argv (p_fds s) (if si then Some (p_pipes s) else None)
         (if so then Some (p_pipes s + (if si then 1 else 0)) else None) child) \<and>
    (\<forall>n. fd_get (p_fds s') n = (if supplyfd sp = Some n then Some (plain (Pipe_Write (p_pipes s)))
       else if ingestfd sp = Some n then Some (plain (Pipe_Read (p_pipes s + (if si then 1 else 0))))
       else fd_get (p_fds s) n))"
proof -
  obtain sup s1 where s1: "open_pipe si s = (sup, s1)" by (cases "open_pipe si s")
  obtain ing s2 where s2: "open_pipe so s1 = (ing, s2)" by (cases "open_pipe so s1")
  note a = open_pipe_spec [OF s1] and b = open_pipe_spec [OF s2]
  let ?t = "p_fds s" and ?m = "p_pipes s" and ?m' = "p_pipes s + (if si then 1 else 0)"
  let ?c = "take_ingest ing (take_supply sup (p_fds s2))"
  have m': "p_pipes s1 = ?m'" using a(4) by simp
  have sp: "sp = \<lparr>sp_pid = forked k, supplyfd = map_option snd sup, ingestfd = map_option fst ing\<rparr>"
    and s': "s' = s2\<lparr>p_fds := closeIfOpen (map_option snd ing) (closeIfOpen (map_option fst sup) (p_fds s2)),
      p_kids := p_kids s2 @ [(forked k, run_program (runs k) argv ?c)]\<rparr>"
    using assms(2) s1 s2 by (auto simp: subprocess_def Let_def split: if_splits)
  have o: "fd_get ?t 0 \<noteq> None" "fd_get ?t 1 \<noteq> None" using std_openD [OF assms(1)] by simp_all
  let ?x = "if sup = None then fd_get ?t 0 else Some (plain (Pipe_Read ?m))"
  have "fd_get (p_fds s2) = with_pipe ing ?m' (with_pipe sup ?m (fd_get ?t))" using a(2) b(2) m' by simp
  then have sup: "fd_get (take_supply sup (p_fds s2)) = with_pipe ing ?m' ((fd_get ?t)(0 := ?x))"
    by (rule take_supply_other [OF _ a(1) b(1) a(2) o(1)])
  define t1 where "t1 = fd_put 0 ?x ?t"
  have t1: "fd_get t1 = (fd_get ?t)(0 := ?x)" by (simp add: t1_def fd.get_put)
  have "fresh_ends ing t1"
    by (rule fresh_after [OF b(1) a(2) o(1) t1])
  then have "fd_get ?c = (fd_get t1)(1 := if ing = None then fd_get t1 1 else Some (plain (Pipe_Write ?m')))"
    by (intro take_ingest_get) (simp_all add: sup t1 o(2) [simplified])
  then have child: "connected_child k argv ?t (if si then Some ?m else None) (if so then Some ?m' else None)
      (run_program (runs k) argv ?c)"
    using a(3) b(3) by (intro connected_childI [OF assms(1)]) (simp add: t1)
  show ?thesis
    using child a(3,5) b(3,5) close_others_ends [OF a(1) b(1) a(2) b(2)] m' by (auto simp: sp s')
qed

definition example_answers :: answers where
  "example_answers = \<lparr>supply_ok = True, ingest_ok = True, forked = 200, runs = (\<lambda>_. True), strerror = ''Too many open files''\<rparr>"

definition example_parent :: parent where
  "example_parent = \<lparr>p_fds = login_table, p_pipes = 0, p_kids = []\<rparr>"

lemma example_subprocess_ok: "\<exists>sp s'. subprocess example_answers [''sort''] True True example_parent = (Inr sp, s')"
  by (simp add: subprocess_def example_answers_def Let_def split: prod.split)

lemma subprocess_connects_witness:
  "\<exists>sp s'. subprocess example_answers [''sort''] True True example_parent = (Inr sp, s') \<and>
    (sp_pid sp = forked example_answers \<and> (supplyfd sp = None \<longleftrightarrow> \<not> True) \<and> (ingestfd sp = None \<longleftrightarrow> \<not> True) \<and>
    (\<exists>child. p_kids s' = p_kids example_parent @ [(forked example_answers, child)] \<and>
       connected_child example_answers [''sort''] (p_fds example_parent) (if True then Some (p_pipes example_parent) else None)
         (if True then Some (p_pipes example_parent + (if True then 1 else 0)) else None) child) \<and>
    (\<forall>n. fd_get (p_fds s') n = (if supplyfd sp = Some n then Some (plain (Pipe_Write (p_pipes example_parent)))
       else if ingestfd sp = Some n then Some (plain (Pipe_Read (p_pipes example_parent + (if True then 1 else 0))))
       else fd_get (p_fds example_parent) n)))"
proof -
  obtain sp s' where "subprocess example_answers [''sort''] True True example_parent = (Inr sp, s')"
    using example_subprocess_ok by blast
  moreover have "std_open (p_fds example_parent)" by (simp add: example_parent_def std_open_login)
  ultimately show ?thesis by (intro exI) (rule conjI, assumption, rule subprocess_connects)
qed

text \<open>
  C27: a successful \<open>pipeline\<close> call leaves the caller's descriptors as they were; the first child writes
  the pipe as its standard output, the second reads it as its standard input, and neither holds another
  copy of an end, so the second sees end of file when the first is done.
\<close>
theorem pipeline_connects:
  assumes "std_open (p_fds s)" and "pipeline k q argv1 argv2 s = (Inr pids, s')"
  shows "pids = (forked k, q) \<and> fd_get (p_fds s') = fd_get (p_fds s) \<and>
    (\<exists>c1 c2. p_kids s' = p_kids s @ [(forked k, c1), (q, c2)] \<and>
       connected_child k argv1 (p_fds s) None (Some (p_pipes s)) c1 \<and>
       connected_child k argv2 (p_fds s) (Some (p_pipes s)) None c2)"
proof -
  obtain r w t where mp: "make_pipe False (p_pipes s) (p_fds s) = ((r, w), t)" by (metis surj_pair)
  note f = make_pipe_fresh [OF mp, folded plain_def]
  have fresh: "fresh_ends (Some (r, w)) (p_fds s)" using f by (simp add: fresh_ends_def)
  have t: "fd_get t = with_pipe (Some (r, w)) (p_pipes s) (fd_get (p_fds s))" using f(4) by (simp add: with_pipe_def)
  have o: "fd_get (p_fds s) 0 \<noteq> None" "fd_get (p_fds s) 1 \<noteq> None" using std_openD [OF assms(1)] by simp_all
  let ?c1 = "run_program (runs k) argv1 (take_ingest (Some (r, w)) t)"
  let ?c2 = "run_program (runs k) argv2 (take_supply (Some (r, w)) t)"
  have res: "pids = (forked k, q)" "p_kids s' = p_kids s @ [(forked k, ?c1), (q, ?c2)]" "p_fds s' = fd_close w (fd_close r t)"
    using assms(2) mp by (auto simp: pipeline_def take_ingest_def take_supply_def Let_def split: if_splits)
  have "connected_child k argv1 (p_fds s) None (Some (p_pipes s)) ?c1"
    by (rule connected_childI [OF assms(1)]) (simp add: take_ingest_get [OF t fresh o(2)])
  moreover have "connected_child k argv2 (p_fds s) (Some (p_pipes s)) None ?c2"
    by (rule connected_childI [OF assms(1)]) (auto simp: take_supply_get [OF t fresh o(1)])
  moreover have "fd_get (p_fds s') = fd_get (p_fds s)"
    using f by (auto simp: res(3) fd_simps fun_eq_iff)
  ultimately show ?thesis using res by blast
qed

lemma pipeline_connects_witness:
  "\<exists>pids s'. pipeline example_answers 201 [''ls''] [''wc''] example_parent = (Inr pids, s') \<and>
    (pids = (forked example_answers, 201) \<and> fd_get (p_fds s') = fd_get (p_fds example_parent) \<and>
    (\<exists>c1 c2. p_kids s' = p_kids example_parent @ [(forked example_answers, c1), (201, c2)] \<and>
       connected_child example_answers [''ls''] (p_fds example_parent) None (Some (p_pipes example_parent)) c1 \<and>
       connected_child example_answers [''wc''] (p_fds example_parent) (Some (p_pipes example_parent)) None c2))"
proof -
  obtain pids s' where "pipeline example_answers 201 [''ls''] [''wc''] example_parent = (Inr pids, s')"
    by (fastforce simp: pipeline_def example_answers_def Let_def split: prod.split)
  moreover have "std_open (p_fds example_parent)" by (simp add: example_parent_def std_open_login)
  ultimately show ?thesis by (intro exI) (rule conjI, assumption, rule pipeline_connects)
qed

section \<open>Leaks\<close>

text \<open>
  The pipes are not close-on-exec: a child started by a second call inherits the first call's supply end,
  so the first child sees no end of file while the second lives. And a failed call closes nothing.
\<close>

definition second_child :: child_outcome where
  "second_child = snd (last (p_kids (snd (subprocess example_answers [''b''] True False
     (snd (subprocess example_answers [''a''] True False example_parent))))))"

lemma second_child_holds_first_supply:
  "(case second_child of Execs argv t \<Rightarrow> fd_get t 4 | Exits _ \<Rightarrow> None) = Some (plain (Pipe_Write 0))"
  by code_simp

lemma failed_fork_leaks_pipes:
  "fd_get (p_fds (snd (subprocess (example_answers\<lparr>forked := -1\<rparr>) [''a''] True True example_parent))) 6 =
     Some (plain (Pipe_Write 1))"
  by code_simp

end
