(* ===== verification/Subprocess_Tests.thy ===== *)
theory Subprocess_Tests
  imports Subprocess Run_Filter "HOL-Library.Multiset"
begin

text \<open>
  The two drivers \<open>pipeline-test.cc\<close> and \<open>subprocess-test.cc\<close>. The second writes all of a word list to
  \<open>sort\<close> before it reads anything back, so whether it ends depends on the capacity of the pipes; driver and
  child are interleaved. The child is any filter of \<open>Run_Filter\<close>; \<open>sort\<close> as its manual describes it is one.
\<close>

section \<open>A pipeline of two\<close>

datatype driver_end = Verdict int string | Uncaught string

text \<open>\<open>exited\<close>: whether the reported status of each child is that of a normal exit.\<close>

definition pipeline_test :: "answers \<Rightarrow> int \<Rightarrow> bool \<times> bool \<Rightarrow> parent \<Rightarrow> driver_end" where
  "pipeline_test k forked2 exited s =
     (case fst (pipeline k forked2 [''sort''] [''uniq'', ''-c''] s) of
        Inl msg \<Rightarrow> Uncaught msg
      | Inr _ \<Rightarrow> Verdict (if fst exited \<and> snd exited then 0 else 1) [])"

section \<open>Words through sort\<close>

definition LF_line :: "string \<Rightarrow> string" where
  "LF_line w = w @ [CHR 0x0A]"

definition test_words :: "string list" where
  "test_words = [''felicity'', ''umbrage'', ''susurrus'', ''halcyon'', ''pulchritude'',
     ''ablution'', ''somnambulist'', ''pettifogger'', ''quixotic'', ''ephemeral'']"

definition expectedStr :: string where
  "expectedStr = concat (map LF_line (sort test_words))"

text \<open>The end: \<open>status\<close> is the child's exit code, or none when a signal ended it.\<close>

definition judge :: "int option \<Rightarrow> string \<Rightarrow> driver_end" where
  "judge status received =
     (let ok = (received = expectedStr \<and> status = Some 0) in
      Verdict (if ok then 0 else 1)
        (LF_line ''sort said:'' @ received @
         LF_line (if ok then ''PASS: output is correctly sorted'' else ''FAIL: output mismatch'')))"

datatype driver_pc = Feeding "string list" | Ingesting | Awaiting | Judged driver_end

record 'c driver =
  drv :: driver_pc
  to_sort :: string
  sorter_proc :: "'c option"
  from_sort :: string
  received :: string
  broken :: bool

definition driver_start :: "'c \<Rightarrow> 'c driver" where
  "driver_start c = \<lparr>drv = Feeding test_words, to_sort = [], sorter_proc = Some c, from_sort = [], received = [], broken = False\<rparr>"

text \<open>
  A write of a line, shorter than \<open>PIPE_BUF\<close>, waits until all of it fits; without a reader it raises
  \<open>SIGPIPE\<close>. A read takes at most 256 bytes.
\<close>

inductive driver_step :: "nat \<Rightarrow> ('c \<Rightarrow> 'c action) \<Rightarrow> int option \<Rightarrow> 'c driver \<Rightarrow> 'c driver \<Rightarrow> bool" for cap b status where
  feeds: "\<not> broken s \<Longrightarrow> drv s = Feeding (w # ws) \<Longrightarrow> sorter_proc s \<noteq> None \<Longrightarrow> length (to_sort s) + length (LF_line w) \<le> cap \<Longrightarrow>
    driver_step cap b status s (s\<lparr>drv := Feeding ws, to_sort := to_sort s @ LF_line w\<rparr>)"
| breaks: "\<not> broken s \<Longrightarrow> drv s = Feeding (w # ws) \<Longrightarrow> sorter_proc s = None \<Longrightarrow> driver_step cap b status s (s\<lparr>broken := True\<rparr>)"
| fed: "\<not> broken s \<Longrightarrow> drv s = Feeding [] \<Longrightarrow> driver_step cap b status s (s\<lparr>drv := Ingesting\<rparr>)"
| sort_reads: "\<not> broken s \<Longrightarrow> sorter_proc s = Some c \<Longrightarrow> b c = Wants f \<Longrightarrow> to_sort s = x # more_in \<Longrightarrow>
    driver_step cap b status s (s\<lparr>to_sort := more_in, sorter_proc := Some (f (Some x))\<rparr>)"
| sort_eof: "\<not> broken s \<Longrightarrow> sorter_proc s = Some c \<Longrightarrow> b c = Wants f \<Longrightarrow> to_sort s = [] \<Longrightarrow> \<forall>ws. drv s \<noteq> Feeding ws \<Longrightarrow>
    driver_step cap b status s (s\<lparr>sorter_proc := Some (f None)\<rparr>)"
| sort_emits: "\<not> broken s \<Longrightarrow> sorter_proc s = Some c \<Longrightarrow> b c = Emits x c' \<Longrightarrow> length (from_sort s) < cap \<Longrightarrow>
    driver_step cap b status s (s\<lparr>from_sort := from_sort s @ [x], sorter_proc := Some c'\<rparr>)"
| sort_exits: "\<not> broken s \<Longrightarrow> sorter_proc s = Some c \<Longrightarrow> b c = Exits_now \<Longrightarrow> driver_step cap b status s (s\<lparr>sorter_proc := None\<rparr>)"
| ingests: "\<not> broken s \<Longrightarrow> drv s = Ingesting \<Longrightarrow> 0 < k \<Longrightarrow> k \<le> 256 \<Longrightarrow> k \<le> length (from_sort s) \<Longrightarrow>
    driver_step cap b status s (s\<lparr>received := received s @ take k (from_sort s), from_sort := drop k (from_sort s)\<rparr>)"
| ingested: "\<not> broken s \<Longrightarrow> drv s = Ingesting \<Longrightarrow> from_sort s = [] \<Longrightarrow> sorter_proc s = None \<Longrightarrow>
    driver_step cap b status s (s\<lparr>drv := Awaiting\<rparr>)"
| reaped: "\<not> broken s \<Longrightarrow> drv s = Awaiting \<Longrightarrow> sorter_proc s = None \<Longrightarrow>
    driver_step cap b status s (s\<lparr>drv := Judged (judge status (received s))\<rparr>)"

text \<open>The program: an exception of \<open>subprocess\<close> ends it, else the driver runs to its end.\<close>

definition subprocess_test ::
  "answers \<Rightarrow> parent \<Rightarrow> nat \<Rightarrow> ('c \<Rightarrow> 'c action) \<Rightarrow> int option \<Rightarrow> 'c \<Rightarrow> driver_end \<Rightarrow> bool" where
  "subprocess_test k s cap b status c e =
     (case fst (subprocess k [''sort''] True True s) of
        Inl msg \<Rightarrow> e = Uncaught msg
      | Inr _ \<Rightarrow> (\<exists>s'. (driver_step cap b status)\<^sup>*\<^sup>* (driver_start c) s' \<and> drv s' = Judged e))"

section \<open>The driver ends\<close>

definition unfed :: "'c driver \<Rightarrow> string" where
  "unfed s = (case drv s of Feeding ws \<Rightarrow> concat (map LF_line ws) | _ \<Rightarrow> [])"

definition driver_inv :: "('c \<Rightarrow> 'c action) \<Rightarrow> int option \<Rightarrow> string \<Rightarrow> nat \<Rightarrow> string \<Rightarrow> 'c driver \<Rightarrow> bool" where
  "driver_inv b status result n rest s \<longleftrightarrow> \<not> broken s \<and>
     (case sorter_proc s of
        Some c \<Rightarrow> filters b c (to_sort s @ unfed s) n rest \<and> (drv s = Ingesting \<or> (\<exists>ws. drv s = Feeding ws))
      | None \<Rightarrow> n = 0 \<and> rest = [] \<and> to_sort s @ unfed s = []) \<and>
     received s @ from_sort s @ rest = result \<and>
     (case drv s of
        Feeding ws \<Rightarrow> received s = [] \<and> set ws \<subseteq> set test_words
      | Ingesting \<Rightarrow> True
      | Awaiting \<Rightarrow> from_sort s = []
      | Judged e \<Rightarrow> e = judge status result)"

definition driver_work :: "nat \<Rightarrow> string \<Rightarrow> 'c driver \<Rightarrow> nat" where
  "driver_work n rest s = n + length (from_sort s) + length rest +
     (case drv s of Feeding ws \<Rightarrow> 3 + length ws | Ingesting \<Rightarrow> 2 | Awaiting \<Rightarrow> 1 | Judged e \<Rightarrow> 0)"

lemma unfed_simps:
  "drv s = Feeding (w # ws) \<Longrightarrow> unfed s = LF_line w @ concat (map LF_line ws)"
  "drv s = Feeding [] \<Longrightarrow> unfed s = []" "\<forall>ws. drv s \<noteq> Feeding ws \<Longrightarrow> unfed s = []"
  by (simp_all add: unfed_def split: driver_pc.split)

lemma driver_step_inv:
  assumes "driver_step cap b status s s'" and "driver_inv b status result n rest s"
  shows "\<exists>n' rest'. driver_inv b status result n' rest' s' \<and> driver_work n' rest' s' < driver_work n rest s"
  using assms
proof (induction rule: driver_step.induct)
  case (breaks s w ws)
  then show ?case by (simp add: driver_inv_def unfed_def LF_line_def)
next
  case (sort_reads s c f x more_in)
  then obtain n' where "n = Suc n'" "filters b (f (Some x)) (more_in @ unfed s) n' rest"
    using filters_reads [of b c f x "more_in @ unfed s" n rest] by (auto simp: driver_inv_def)
  with sort_reads show ?case
    by (intro exI [of _ n'] exI [of _ rest], cases "drv s") (auto simp: driver_inv_def driver_work_def unfed_def)
next
  case (sort_eof s c f)
  then obtain n' where "n = Suc n'" "filters b (f None) [] n' rest"
    using filters_sees_eof [of b c f n rest] unfed_simps(3) [of s] by (auto simp: driver_inv_def)
  with sort_eof unfed_simps(3) [of s] show ?case
    by (intro exI [of _ n'] exI [of _ rest], cases "drv s") (auto simp: driver_inv_def driver_work_def unfed_def)
next
  case (sort_emits s c x c')
  then obtain n' rest' where "n = Suc n'" "rest = x # rest'" "filters b c' (to_sort s @ unfed s) n' rest'"
    using filters_Emits [of b c x c' "to_sort s @ unfed s" n rest] by (auto simp: driver_inv_def)
  with sort_emits show ?case
    by (intro exI [of _ n'] exI [of _ rest'], cases "drv s") (auto simp: driver_inv_def driver_work_def unfed_def)
next
  case (sort_exits s c)
  then have "n = 1" "rest = []" "to_sort s @ unfed s = []"
    using filters_Exits [of b c "to_sort s @ unfed s" n rest] by (auto simp: driver_inv_def)
  with sort_exits show ?case
    by (intro exI [of _ 0] exI [of _ "[]"], cases "drv s") (auto simp: driver_inv_def driver_work_def unfed_def)
next
  case (ingests s k)
  have "take k (from_sort s) @ drop k (from_sort s) @ rest = from_sort s @ rest" by (simp flip: append_assoc)
  with ingests show ?case
    by (intro exI [of _ n] exI [of _ rest], cases "sorter_proc s") (auto simp: driver_inv_def driver_work_def unfed_def)
next
  case (ingested s)
  then show ?case by (intro exI [of _ 0] exI [of _ "[]"], cases "drv s") (auto simp: driver_inv_def driver_work_def unfed_def)
next
  case (reaped s)
  then show ?case by (intro exI [of _ 0] exI [of _ "[]"], cases "drv s") (auto simp: driver_inv_def driver_work_def unfed_def)
qed (intro exI [of _ n] exI [of _ rest], auto simp: driver_inv_def driver_work_def unfed_def split: option.splits)+

text \<open>The child can move when it has input, or has seen its end, and room for its output.\<close>

lemma child_moves:
  assumes "driver_inv b status result n rest s" and c: "sorter_proc s = Some c" and cap: "0 < cap"
    and room: "length (from_sort s) < cap \<or> drv s = Ingesting \<or> rest = []" and inp: "to_sort s \<noteq> [] \<or> drv s = Ingesting"
  shows "\<exists>s'. driver_step cap b status s s'"
proof -
  have nb: "\<not> broken s" using assms(1) by (simp add: driver_inv_def)
  show ?thesis
  proof (cases "b c")
    case (Wants f)
    then show ?thesis
      using driver_step.sort_reads [where b = b and f = f, OF nb c Wants]
        driver_step.sort_eof [where b = b and f = f, OF nb c Wants] inp by (cases "to_sort s") auto
  next
    case (Emits x c')
    have f: "filters b c (to_sort s @ unfed s) n rest" using assms(1) c by (simp add: driver_inv_def)
    have "rest \<noteq> []" using filters_Emits [OF Emits f] by blast
    then consider "length (from_sort s) < cap" | "drv s = Ingesting" "from_sort s \<noteq> []" using room cap by fastforce
    then show ?thesis
    proof cases
      case 1
      then show ?thesis using driver_step.sort_emits [where b = b and c' = c', OF nb c Emits] by blast
    next
      case 2
      then show ?thesis using driver_step.ingests [OF nb 2(1), of 1] by (cases "from_sort s") (auto simp: Suc_le_eq)
    qed
  next
    case Exits_now
    then show ?thesis using driver_step.sort_exits [where b = b, OF nb c Exits_now] by blast
  qed
qed

text \<open>With room for a line in one pipe and for the result in the other, nothing blocks for good.\<close>

lemma driver_progress:
  assumes "driver_inv b status result n rest s" and "\<forall>e. drv s \<noteq> Judged e"
    and "\<forall>w \<in> set test_words. length (LF_line w) \<le> cap" and "length result \<le> cap" and "0 < cap"
  shows "\<exists>s'. driver_step cap b status s s'"
proof -
  have nb: "\<not> broken s" using assms(1) by (simp add: driver_inv_def)
  show ?thesis
  proof (cases "drv s")
    case (Feeding ws)
    show ?thesis
    proof (cases ws)
      case Nil
      then show ?thesis using driver_step.fed [OF nb] Feeding by blast
    next
      case (Cons w ws')
      then have d: "drv s = Feeding (w # ws')" using Feeding by simp
      have w: "length (LF_line w) \<le> cap" using assms(1,3) d by (simp add: driver_inv_def)
      obtain c where c: "sorter_proc s = Some c"
        using assms(1) d by (cases "sorter_proc s") (auto simp: driver_inv_def unfed_def LF_line_def)
      show ?thesis
      proof (cases "length (to_sort s) + length (LF_line w) \<le> cap")
        case True
        then show ?thesis using driver_step.feeds [OF nb d] c by blast
      next
        case False
        then have "to_sort s \<noteq> []" using w by auto
        moreover have "from_sort s @ rest = result" using assms(1) d by (auto simp: driver_inv_def)
        then have "length (from_sort s) + length rest \<le> cap" using assms(4) by (metis length_append)
        then have "length (from_sort s) < cap \<or> rest = []" by (cases rest) auto
        ultimately show ?thesis using child_moves [OF assms(1) c assms(5)] by blast
      qed
    qed
  next
    case Ingesting
    show ?thesis
    proof (cases "sorter_proc s")
      case None
      show ?thesis
      proof (cases "from_sort s")
        case Nil
        then show ?thesis using driver_step.ingested [OF nb Ingesting _ None] by blast
      next
        case (Cons x xs)
        then show ?thesis using driver_step.ingests [OF nb Ingesting, of 1] by auto
      qed
    next
      case (Some c)
      then show ?thesis using child_moves [OF assms(1) Some assms(5)] Ingesting by blast
    qed
  next
    case Awaiting
    then have "sorter_proc s = None" using assms(1) by (auto simp: driver_inv_def split: option.splits)
    then show ?thesis using driver_step.reaped [OF nb Awaiting] by blast
  next
    case (Judged e)
    then show ?thesis using assms(2) by blast
  qed
qed

section \<open>sort\<close>

datatype sorter = Gathering string | Printing string

definition sorted_lines :: "string \<Rightarrow> string" where
  "sorted_lines txt = concat (map LF_line (sort (getlines CHR 0x0A txt)))"

fun sorter_action :: "sorter \<Rightarrow> sorter action" where
  "sorter_action (Gathering s) = Wants (\<lambda>r. case r of Some x \<Rightarrow> Gathering (s @ [x]) | None \<Rightarrow> Printing (sorted_lines s))"
| "sorter_action (Printing []) = Exits_now"
| "sorter_action (Printing (x # xs)) = Emits x (Printing xs)"

lemma sorter_prints: "\<exists>n. filters sorter_action (Printing out) [] n out"
proof (induction out)
  case Nil
  have "filters sorter_action (Printing []) [] 1 []" by (rule filters.exits) simp
  then show ?case by blast
next
  case (Cons x xs)
  then obtain n where "filters sorter_action (Printing xs) [] n xs" by blast
  then have "filters sorter_action (Printing (x # xs)) [] (Suc n) (x # xs)" by (intro filters.emits [where c' = "Printing xs"]) simp_all
  then show ?case by blast
qed

lemma sorter_gathers: "\<exists>n. filters sorter_action (Gathering s) inp n (sorted_lines (s @ inp))"
proof (induction inp arbitrary: s)
  case Nil
  obtain n where n: "filters sorter_action (Printing (sorted_lines s)) [] n (sorted_lines s)" using sorter_prints by blast
  have "filters sorter_action (Gathering s) [] (Suc n) (sorted_lines s)"
    by (rule filters.sees_eof, rule sorter_action.simps) (simp add: n)
  then show ?case by auto
next
  case (Cons x inp)
  obtain n where n: "filters sorter_action (Gathering (s @ [x])) inp n (sorted_lines ((s @ [x]) @ inp))" using Cons.IH by blast
  then have n': "filters sorter_action (Gathering (s @ [x])) inp n (sorted_lines (s @ x # inp))" by simp
  have "filters sorter_action (Gathering s) (x # inp) (Suc n) (sorted_lines (s @ x # inp))"
    by (rule filters.reads, rule sorter_action.simps) (simp add: n')
  then show ?case by blast
qed

lemma no_LF: "\<forall>w \<in> set test_words. CHR 0x0A \<notin> set w"
  by (simp add: test_words_def)

lemma sorter_sorts: "\<exists>n. filters sorter_action (Gathering []) (concat (map LF_line test_words)) n expectedStr"
proof -
  have "getlines CHR 0x0A (concat (map LF_line test_words)) = test_words"
    using getlines_concat [OF no_LF, of "[]"] by (simp add: LF_line_def [abs_def])
  then show ?thesis
    using sorter_gathers [of "[]" "concat (map LF_line test_words)"] by (simp add: sorted_lines_def expectedStr_def)
qed

lemma expected_length: "length expectedStr = length (concat (map LF_line test_words))"
proof -
  have "mset (map (length \<circ> LF_line) (sort test_words)) = mset (map (length \<circ> LF_line) test_words)"
    by (simp only: mset_map mset_sort)
  then have "sum_list (map (length \<circ> LF_line) (sort test_words)) = sum_list (map (length \<circ> LF_line) test_words)"
    by (metis sum_mset_sum_list)
  then show ?thesis by (simp add: expectedStr_def length_concat comp_def)
qed

section \<open>What the drivers show\<close>

text \<open>
  The driver of \<open>subprocess\<close> passes. On pipes of at least 512 bytes, the least that POSIX allows, with any
  child that turns the words into their sorted list, however driver and child interleave: each move lowers a
  bound, no write raises \<open>SIGPIPE\<close>, some move is possible until the verdict, and the verdict is
  PASS with status 0 exactly if the child exited with status 0.
\<close>

theorem subprocess_test_passes:
  assumes "filters b c (concat (map LF_line test_words)) n expectedStr" and "512 \<le> cap"
  shows "\<exists>bound. \<forall>k s. (driver_step cap b status ^^ k) (driver_start c) s \<longrightarrow>
    k \<le> bound \<and> \<not> broken s \<and>
    (\<forall>e. drv s = Judged e \<longrightarrow> e = judge status expectedStr) \<and>
    ((\<forall>e. drv s \<noteq> Judged e) \<longrightarrow> (\<exists>s'. driver_step cap b status s s'))"
proof (intro exI [of _ "driver_work n expectedStr (driver_start c)"] allI impI)
  let ?I = "\<lambda>w s. \<exists>n rest. driver_inv b status expectedStr n rest s \<and> driver_work n rest s = w"
  fix k and s :: "'a driver"
  assume "(driver_step cap b status ^^ k) (driver_start c) s"
  then have "\<exists>w'. ?I w' s \<and> w' + k \<le> driver_work n expectedStr (driver_start c)"
  proof (rule runs_bounded [where I = ?I])
    have "driver_inv b status expectedStr n expectedStr (driver_start c)"
      using assms(1) by (simp add: driver_inv_def driver_start_def unfed_def)
    then show "?I (driver_work n expectedStr (driver_start c)) (driver_start c)" by blast
  qed (use driver_step_inv in blast)
  then obtain n' rest' where inv: "driver_inv b status expectedStr n' rest' s"
    and w: "driver_work n' rest' s + k \<le> driver_work n expectedStr (driver_start c)" by blast
  have lens: "\<forall>w \<in> set test_words. length (LF_line w) \<le> 512" "length (concat (map LF_line test_words)) \<le> 512"
    by (simp_all add: test_words_def LF_line_def)
  have "\<exists>s'. driver_step cap b status s s'" if "\<forall>e. drv s \<noteq> Judged e"
    using driver_progress [OF inv that] lens expected_length assms(2) by (metis (no_types, lifting) le_trans less_le_trans zero_less_numeral)
  then show "k \<le> driver_work n expectedStr (driver_start c) \<and> \<not> broken s \<and>
      (\<forall>e. drv s = Judged e \<longrightarrow> e = judge status expectedStr) \<and>
      ((\<forall>e. drv s \<noteq> Judged e) \<longrightarrow> (\<exists>s'. driver_step cap b status s s'))"
    using inv w by (auto simp: driver_inv_def)
qed

text \<open>The driver of \<open>pipeline\<close>: its children are \<open>sort\<close> and \<open>uniq\<close>, joined by one pipe.\<close>

lemma pipeline_test_verdict:
  "pipeline_test k q exited s = Verdict status out \<Longrightarrow>
     (status = 0 \<longleftrightarrow> fst exited \<and> snd exited) \<and>
     supply_ok k \<and> forked k \<noteq> - 1 \<and> q \<noteq> - 1"
  by (auto simp: pipeline_test_def pipeline_def Let_def split: sum.splits if_splits prod.splits)

end
