(* ===== verification/ThreadPool_Bag.thy ===== *)
theory ThreadPool_Bag
  imports ThreadPool_Live
begin

text \<open>
  What the thread pool promises, as an abstract machine: a bag of waiting thunks, at most \<open>n\<close> running ones and a
  bag of those that have returned. The pool refines it, step by step, and it does not hold work back: when its
  threads have nothing to do but to return from thunks, nothing waits or all \<open>n\<close> workers run one. So a program
  may take the pool for the abstract machine, as the models of the aggregator and the proxy do.
\<close>

section \<open>The abstract pool\<close>

record 'a bag =
  b_waiting :: "'a multiset"
  b_running :: "'a multiset"
  b_returned :: "'a multiset"

inductive bag_step :: "nat \<Rightarrow> 'a bag \<Rightarrow> 'a bag \<Rightarrow> bool" for n where
  submits: "bag_step n b (b\<lparr>b_waiting := add_mset t (b_waiting b)\<rparr>)"
| starts: "t \<in># b_waiting b \<Longrightarrow> size (b_running b) < n \<Longrightarrow>
    bag_step n b (b\<lparr>b_waiting := b_waiting b - {#t#}, b_running := add_mset t (b_running b)\<rparr>)"
| returns: "t \<in># b_running b \<Longrightarrow>
    bag_step n b (b\<lparr>b_running := b_running b - {#t#}, b_returned := add_mset t (b_returned b)\<rparr>)"

section \<open>The abstraction\<close>

definition opt_mset :: "'a option \<Rightarrow> 'a multiset" where
  "opt_mset q = (case q of None \<Rightarrow> {#} | Some t \<Rightarrow> {#t#})"

lemma opt_mset_simps [simp]: "opt_mset None = {#}" "opt_mset (Some t) = {#t#}"
  by (simp_all add: opt_mset_def)

text \<open>A worker has been given a thunk and has not called it; a worker is in the middle of its thunk.\<close>

definition given :: "'a worker_t \<Rightarrow> 'a multiset" where
  "given w = (if 0 < ready w \<or> wpc w = W_check_done then opt_mset (thunk w) else {#})"

definition in_call :: "'a worker_t \<Rightarrow> 'a multiset" where
  "in_call w = (if wpc w = W_run then opt_mset (thunk w) else {#})"

definition waiting_of :: "'a pool \<Rightarrow> 'a multiset" where
  "waiting_of s = mset (pushing s) + mset (tasks s) + opt_mset (in_hand (wts s) (dpc s)) + sum_list (map given (wts s))"

text \<open>Once \<open>done\<close> is set nothing is left; the thunks that idle workers still hold are old ones.\<close>

definition bag_of :: "'a pool \<Rightarrow> 'a bag" where
  "bag_of s = \<lparr>b_waiting = (if pool_done s then {#} else waiting_of s), b_running = sum_list (map in_call (wts s)),
     b_returned = mset (ran s)\<rparr>"

lemma worker_ok_bound: "worker_ok d i w \<Longrightarrow> to_run w + of_bool (wpc w = W_set_available) + claim_of d i \<le> 1"
  by (simp add: worker_ok_def)

lemma sum_empty:
  fixes f :: "'b \<Rightarrow> 'a multiset"
  assumes "\<And>i. i < length ws \<Longrightarrow> f (ws ! i) = {#}"
  shows "sum_list (map f ws) = {#}"
proof -
  have "\<forall>w \<in> set ws. f w = {#}" using assms by (auto simp: in_set_conv_nth)
  then show ?thesis by (induction ws) simp_all
qed

lemma bag_of_same:
  "pool_done s' = pool_done s \<Longrightarrow> wts s' = wts s \<Longrightarrow> dpc s' = dpc s \<Longrightarrow> pushing s' = pushing s \<Longrightarrow> tasks s' = tasks s \<Longrightarrow>
   ran s' = ran s \<Longrightarrow> bag_of s' = bag_of s"
  by (simp add: bag_of_def waiting_of_def)

section \<open>The dispatcher\<close>

lemma dispatcher_keeps_bag:
  assumes "live_inv s" and "\<not> pool_done s" and "dispatcher_step s = Some s'"
  shows "bag_of s' = bag_of s"
proof -
  note ok = live_worker_ok [OF assms(1)]
  note claim = live_facts(1) [OF assms(1)]
  show ?thesis
  proof (cases "dpc s")
    case D_claim
    obtain i where i: "first_available (wts s) = Some i" "i < length (wts s)"
      using claim_finds_worker [OF assms(1) D_claim] .
    then have s': "s' = update_worker i (\<lambda>w. w\<lparr>available := False\<rparr>) (s\<lparr>dpc := D_pop i\<rparr>)"
      using assms(3) D_claim by (simp add: dispatcher_step_def)
    have "map given (wts s') = map given (wts s)" "map in_call (wts s') = map in_call (wts s)"
      unfolding s' using i(2) by (simp_all add: map_update_same given_def in_call_def)
    then show ?thesis using D_claim by (simp add: bag_of_def waiting_of_def s' in_hand_def)
  next
    case (D_pop i)
    obtain t ts where t: "tasks s = t # ts" "i < length (wts s)" using pop_finds_task [OF assms(1) D_pop] .
    then have s': "s' = s\<lparr>tasks := ts, dpc := D_assign i t\<rparr>" using assms(3) D_pop by (simp add: dispatcher_step_def)
    show ?thesis using t(1) D_pop by (simp add: bag_of_def waiting_of_def s' in_hand_def)
  next
    case (D_assign i t)
    then have i: "i < length (wts s)" using claim by (simp add: claim_ok_def)
    then have s': "s' = update_worker i (\<lambda>w. w\<lparr>thunk := Some t\<rparr>) (s\<lparr>dpc := D_signal_ready i\<rparr>)"
      using assms(3) D_assign by (simp add: dispatcher_step_def)
    have "to_run (wts s ! i) = 0" using worker_ok_bound [OF ok [OF i]] D_assign by (simp add: claim_of_def)
    then have "given (wts s ! i) = {#}" "in_call (wts s ! i) = {#}" "given ((wts s ! i)\<lparr>thunk := Some t\<rparr>) = {#}"
        "in_call ((wts s ! i)\<lparr>thunk := Some t\<rparr>) = {#}"
      by (auto simp: given_def in_call_def to_run_def)
    then have "map given (wts s') = map given (wts s)" "map in_call (wts s') = map in_call (wts s)"
      unfolding s' using i by (simp_all add: map_update_same)
    then show ?thesis using D_assign i by (simp add: bag_of_def waiting_of_def s' in_hand_def)
  next
    case (D_signal_ready i)
    then have i: "i < length (wts s)" using claim by (simp add: claim_ok_def)
    let ?w = "(wts s ! i)\<lparr>ready := ready (wts s ! i) + 1\<rparr>"
    have s': "s' = update_worker i (\<lambda>w. w\<lparr>ready := ready w + 1\<rparr>) (s\<lparr>dpc := D_wait_queued\<rparr>)"
      using assms(3) D_signal_ready by (simp add: dispatcher_step_def)
    have "to_run (wts s ! i) = 0" using worker_ok_bound [OF ok [OF i]] D_signal_ready by (simp add: claim_of_def)
    then have g: "given (wts s ! i) = {#}" "given ?w = opt_mset (thunk (wts s ! i))" "in_call ?w = in_call (wts s ! i)"
      by (auto simp: given_def in_call_def to_run_def)
    have "sum_list (map given (wts s')) = sum_list (map given (wts s)) + opt_mset (thunk (wts s ! i))"
      using sum_map_update [OF i, of given ?w] g by (simp add: s')
    moreover have "map in_call (wts s') = map in_call (wts s)" unfolding s' using i g(3) by (simp add: map_update_same)
    ultimately show ?thesis using D_signal_ready by (simp add: bag_of_def waiting_of_def s' in_hand_def)
  qed (use assms(2,3) in \<open>auto simp: dispatcher_step_def bag_of_def waiting_of_def in_hand_def split: if_splits\<close>)
qed

section \<open>The workers\<close>

text \<open>A step of worker \<open>i\<close> that the abstract pool does not see.\<close>

lemma worker_keeps_bag:
  assumes "i < length (wts s)" and "wts s' = (wts s)[i := w]" and "thunk w = thunk (wts s ! i)"
    and "given w = given (wts s ! i)" and "in_call w = in_call (wts s ! i)"
    and "pool_done s' = pool_done s" "dpc s' = dpc s" "pushing s' = pushing s" "tasks s' = tasks s" "ran s' = ran s"
  shows "bag_of s' = bag_of s"
proof -
  have "in_hand (wts s') (dpc s') = in_hand (wts s) (dpc s)"
    using assms(1-3,7) by (auto simp: in_hand_def nth_list_update split: dispatcher_pc.split)
  moreover have "map given (wts s') = map given (wts s)" "map in_call (wts s') = map in_call (wts s)"
    unfolding assms(2) using assms(1,4,5) by (simp_all add: map_update_same)
  ultimately show ?thesis using assms by (simp add: bag_of_def waiting_of_def)
qed

lemma running_bound:
  assumes "i < length (wts s)" and "in_call (wts s ! i) = {#}"
  shows "size (sum_list (map in_call (wts s))) < length (wts s)"
proof -
  have one: "size (in_call w) \<le> 1" for w :: "'a worker_t" by (cases "thunk w") (simp_all add: in_call_def)
  have all: "size (sum_list (map in_call ws)) \<le> length ws" for ws :: "'a worker_t list"
  proof (induction ws)
    case (Cons w ws)
    then show ?case using one [of w] by simp
  qed simp
  have "size (sum_list (map in_call ws)) < length ws" if "i < length ws" "in_call (ws ! i) = {#}" for ws :: "'a worker_t list" and i
    using that
  proof (induction ws arbitrary: i)
    case (Cons w ws)
    then show ?case using one [of w] all [of ws] by (cases i) fastforce+
  qed simp
  then show ?thesis using assms by blast
qed

lemma in_hand_update: "i < length (wts s) \<Longrightarrow> thunk w = thunk (wts s ! i) \<Longrightarrow> in_hand ((wts s)[i := w]) d = in_hand (wts s) d"
  by (auto simp: in_hand_def nth_list_update split: dispatcher_pc.split)

lemma worker_starts:
  assumes "live_inv s" and "\<not> pool_done s" and i: "i < length (wts s)" and "worker_step i s = Some s'" and p: "wpc (wts s ! i) = W_check_done"
  shows "bag_step (length (wts s)) (bag_of s) (bag_of s')"
proof -
  let ?w = "(wts s ! i)\<lparr>wpc := W_run\<rparr>"
  have s': "s' = update_worker i (\<lambda>w. w\<lparr>wpc := W_run\<rparr>) s" using assms(2,4) p by (simp add: worker_step_def)
  obtain t where t: "thunk (wts s ! i) = Some t"
    using to_run_has_thunk [OF assms(1) i] p by (auto simp: to_run_def)
  have r: "ready (wts s ! i) = 0" using worker_ok_bound [OF live_worker_ok [OF assms(1) i]] p by (simp add: to_run_def)
  have g: "given (wts s ! i) = {#t#}" "given ?w = {#}" "in_call (wts s ! i) = {#}" "in_call ?w = {#t#}"
    using p t r by (simp_all add: given_def in_call_def)
  have "sum_list (map given (wts s)) = add_mset t (sum_list (map given (wts s')))"
    using sum_map_update [OF i, of given ?w] g by (simp add: s')
  moreover have "sum_list (map in_call (wts s')) = add_mset t (sum_list (map in_call (wts s)))"
    using sum_map_update [OF i, of in_call ?w] g by (simp add: s')
  moreover have "in_hand (wts s') (dpc s') = in_hand (wts s) (dpc s)" using in_hand_update [OF i, of ?w] by (simp add: s')
  ultimately have b: "bag_of s' = (bag_of s)\<lparr>b_waiting := b_waiting (bag_of s) - {#t#}, b_running := add_mset t (b_running (bag_of s))\<rparr>"
      "t \<in># b_waiting (bag_of s)"
    using assms(2) by (simp_all add: bag_of_def waiting_of_def s')
  show ?thesis
    unfolding b(1) by (rule bag_step.starts [OF b(2)]) (use running_bound [OF i g(3)] in \<open>simp add: bag_of_def\<close>)
qed

lemma worker_returns:
  assumes "live_inv s" and "\<not> pool_done s" and i: "i < length (wts s)" and "worker_step i s = Some s'" and p: "wpc (wts s ! i) = W_run"
  shows "bag_step (length (wts s)) (bag_of s) (bag_of s')"
proof -
  let ?w = "(wts s ! i)\<lparr>wpc := W_set_available\<rparr>"
  obtain t where t: "thunk (wts s ! i) = Some t"
    using to_run_has_thunk [OF assms(1) i] p by (auto simp: to_run_def)
  then have s': "s' = update_worker i (\<lambda>w. w\<lparr>wpc := W_set_available\<rparr>) (s\<lparr>ran := ran s @ [t]\<rparr>)"
    using assms(4) p by (simp add: worker_step_def)
  have g: "given ?w = given (wts s ! i)" "in_call (wts s ! i) = {#t#}" "in_call ?w = {#}"
    using p t by (simp_all add: given_def in_call_def)
  have "map given (wts s') = map given (wts s)" unfolding s' using i g(1) by (simp add: map_update_same)
  moreover have "sum_list (map in_call (wts s)) = add_mset t (sum_list (map in_call (wts s')))"
    using sum_map_update [OF i, of in_call ?w] g by (simp add: s')
  moreover have "in_hand (wts s') (dpc s') = in_hand (wts s) (dpc s)" using in_hand_update [OF i, of ?w] by (simp add: s')
  ultimately have b: "bag_of s' = (bag_of s)\<lparr>b_running := b_running (bag_of s) - {#t#}, b_returned := add_mset t (b_returned (bag_of s))\<rparr>"
      "t \<in># b_running (bag_of s)"
    using assms(2) by (simp_all add: bag_of_def waiting_of_def s')
  show ?thesis unfolding b(1) using bag_step.returns [OF b(2)] by blast
qed

lemma worker_refines:
  assumes "live_inv s" and "\<not> pool_done s" and i: "i < length (wts s)" and st: "worker_step i s = Some s'"
  shows "bag_of s' = bag_of s \<or> bag_step (length (wts s)) (bag_of s) (bag_of s')"
proof (cases "wpc (wts s ! i) \<in> {W_check_done, W_run}")
  case True
  then show ?thesis using worker_starts [OF assms] worker_returns [OF assms] by blast
next
  case False
  obtain w where "wts s' = (wts s)[i := w]" "thunk w = thunk (wts s ! i)" "given w = given (wts s ! i)" "in_call w = in_call (wts s ! i)"
      "pool_done s' = pool_done s" "dpc s' = dpc s" "pushing s' = pushing s" "tasks s' = tasks s" "ran s' = ran s"
    using False st by (cases "wpc (wts s ! i)") (auto simp: worker_step_def Let_def given_def in_call_def split: if_splits)
  then show ?thesis using worker_keeps_bag [OF i] by blast
qed

section \<open>The refinement\<close>

lemma internal_refines:
  assumes "live_inv s" and "\<not> pool_done s" and "internal_step s s'"
  shows "bag_of s' = bag_of s \<or> bag_step (length (wts s)) (bag_of s) (bag_of s')"
  using assms(3)
proof cases
  case dispatch
  then show ?thesis using dispatcher_keeps_bag [OF assms(1,2)] by blast
next
  case (work i)
  then show ?thesis using worker_refines [OF assms(1,2)] by blast
next
  case (push t)
  then have "mset (pushing s) = add_mset t (mset (remove1 t (pushing s)))" by simp
  then have "bag_of s' = bag_of s" using push by (simp add: bag_of_def waiting_of_def schedule_push_def)
  then show ?thesis ..
next
  case signal_queued
  then have "bag_of s' = bag_of s" by (intro bag_of_same) (simp_all add: schedule_signal_def)
  then show ?thesis ..
qed

lemma no_calls: "(\<And>i. i < length (wts s) \<Longrightarrow> wpc (wts s ! i) \<noteq> W_run) \<Longrightarrow> sum_list (map in_call (wts s)) = {#}"
  by (rule sum_empty) (simp add: in_call_def)

lemma stopped_bag: "stopping_inv s \<Longrightarrow> pool_done s \<Longrightarrow> bag_of s = \<lparr>b_waiting = {#}, b_running = {#}, b_returned = mset (ran s)\<rparr>"
  using no_calls [of s] by (fastforce simp: bag_of_def stopping_inv_def)

lemma drained_bag:
  assumes "reachable n s" and "outstanding s = 0"
  shows "bag_of s = \<lparr>b_waiting = {#}, b_running = {#}, b_returned = mset (ran s)\<rparr>"
proof (cases "pool_done s")
  case True
  then show ?thesis using stopped_bag reach_stopping [OF assms(1)] by blast
next
  case False
  note q = quiet [OF reach_live [OF assms(1) False] assms(2)]
  have "given (wts s ! i) = {#}" if "i < length (wts s)" for i using q(7) [OF that] by (simp add: given_def)
  then have "sum_list (map given (wts s)) = {#}" by (rule sum_empty)
  moreover have "sum_list (map in_call (wts s)) = {#}" using q(7) by (intro no_calls) simp
  ultimately show ?thesis using q(1,2,5) by (simp add: bag_of_def waiting_of_def in_hand_def)
qed

text \<open>After \<open>done\<close> the abstract pool stands still.\<close>

lemma stopping_keeps:
  assumes "reachable n s" and "pool_done s" and "pool_step s s'"
  shows "bag_of s' = bag_of s"
proof -
  have st: "stopping_inv s" using reach_stopping [OF assms(1,2)] .
  have r': "reachable n s'" by (rule reach_step [OF assms(1,3)])
  have "pool_done s' \<and> ran s' = ran s"
    using assms(3)
  proof cases
    case internal
    have "ran s' = ran s"
      using internal
    proof cases
      case dispatch
      then show ?thesis by (auto simp: dispatcher_step_def split: dispatcher_pc.splits option.splits list.splits if_splits)
    next
      case (work i)
      then have "wpc (wts s ! i) \<noteq> W_run" using st by (auto simp: stopping_inv_def)
      then show ?thesis using work(2) by (auto simp: worker_step_def Let_def split: worker_pc.splits if_splits)
    qed (simp_all add: schedule_push_def schedule_signal_def)
    then show ?thesis using internal_frame [OF internal] assms(2) by simp
  next
    case (destroy)
    then show ?thesis using dtor_frame [OF destroy] assms(2) by simp
  next
    case (schedule t)
    then show ?thesis using st by (auto simp: stopping_inv_def dtor_ok_def)
  qed (use assms(2) in \<open>auto simp: pool_wait_check_def\<close>)
  then show ?thesis using stopped_bag [OF st assms(2)] stopped_bag [OF reach_stopping [OF r']] by simp
qed

lemma pool_step_refines:
  assumes "reachable n s" and "pool_step s s'"
  shows "bag_of s' = bag_of s \<or> bag_step n (bag_of s) (bag_of s')"
proof (cases "pool_done s")
  case True
  then show ?thesis using stopping_keeps [OF assms(1) _ assms(2)] by blast
next
  case False
  note l = reach_live [OF assms(1) False]
  have n: "length (wts s) = n" using reachable_inv [OF assms(1)] by simp
  show ?thesis
    using assms(2)
  proof cases
    case internal
    then show ?thesis using internal_refines [OF l False] n by blast
  next
    case (schedule t)
    have "bag_of s' = (bag_of s)\<lparr>b_waiting := add_mset t (b_waiting (bag_of s))\<rparr>"
      using schedule False by (simp add: bag_of_def waiting_of_def schedule_enter_def)
    then show ?thesis using bag_step.submits by metis
  next
    case destroy
    show ?thesis
    proof (cases "pool_done s'")
      case True
      then have "outstanding s = 0" using dtor_frame [OF destroy] live_facts(3) [OF l] False by simp
      moreover have "outstanding s' = outstanding s" "ran s' = ran s" using dtor_frame [OF destroy] by simp_all
      ultimately show ?thesis using drained_bag [OF assms(1)] drained_bag [OF reach_step [OF assms]] by simp
    next
      case nd: False
      have "s' = s\<lparr>dtor := T_set_done\<rparr>"
        using destroy nd False live_facts(2) [OF l] by (auto simp: dtor_step_def split: if_splits)
      then have "bag_of s' = bag_of s" by (intro bag_of_same) simp_all
      then show ?thesis ..
    qed
  qed (auto simp: pool_wait_check_def intro!: disjI1 bag_of_same)
qed

section \<open>Work is not held back\<close>

text \<open>The threads' steps that do not return from a thunk are all taken.\<close>

definition only_returns :: "'a pool \<Rightarrow> bool" where
  "only_returns s \<longleftrightarrow> (\<forall>s'. internal_step s s' \<longrightarrow> ran s' \<noteq> ran s)"

lemma only_returns_worker:
  assumes "live_inv s" and "only_returns s" and i: "i < length (wts s)"
  shows "wpc (wts s ! i) = W_run \<or> wpc (wts s ! i) = W_wait_ready \<and> ready (wts s ! i) = 0"
proof (rule ccontr)
  assume c: "\<not> ?thesis"
  have "wpc (wts s ! i) \<noteq> W_exit" "wpc (wts s ! i) \<noteq> W_undefined" using live_worker_ok [OF assms(1) i] by (simp_all add: worker_ok_def)
  then obtain s' where s': "worker_step i s = Some s'" using worker_enabled [of s i] c by auto
  then have "ran s' = ran s" using c by (auto simp: worker_step_def Let_def split: worker_pc.splits if_splits)
  then show False using assms(2) work [OF i s'] by (simp add: only_returns_def)
qed

lemma only_returns_dispatcher:
  assumes "live_inv s" and "only_returns s"
  shows "pushing s = [] \<and> signalling s = 0 \<and>
    (dpc s = D_wait_queued \<and> queued s = 0 \<or> dpc s = D_wait_available \<and> availableWorkers s = 0)"
proof -
  have only: "ran s' \<noteq> ran s" if "internal_step s s'" for s' using assms(2) that by (simp add: only_returns_def)
  have "pushing s = []" using only [OF push] by (cases "pushing s") (auto simp: schedule_push_def)
  moreover have "signalling s = 0" using only [OF signal_queued] by (auto simp: schedule_signal_def)
  moreover have nd: "dispatcher_step s = None"
  proof (rule ccontr)
    assume "dispatcher_step s \<noteq> None"
    then obtain s' where s': "dispatcher_step s = Some s'" by blast
    then have "ran s' = ran s" by (auto simp: dispatcher_step_def split: dispatcher_pc.splits option.splits list.splits if_splits)
    then show False using only [OF dispatch [OF s']] by simp
  qed
  moreover have "dpc s = D_wait_queued \<and> queued s = 0 \<or> dpc s = D_wait_available \<and> availableWorkers s = 0"
    using nd dispatcher_enabled [of s] live_facts(1) [OF assms(1)] by (cases "dpc s") (auto simp: claim_ok_def)
  ultimately show ?thesis by blast
qed

text \<open>When the pool's threads can do nothing but return from thunks, nothing waits or every worker runs a thunk.\<close>

lemma work_conserving:
  assumes "live_inv s" and "\<not> pool_done s" and only: "only_returns s"
  shows "waiting_of s = {#} \<or> size (sum_list (map in_call (wts s))) = length (wts s)"
proof -
  note f = live_facts [OF assms(1)]
  note ok = live_worker_ok [OF assms(1)]
  note busy = only_returns_worker [OF assms(1) only]
  have p: "pushing s = []" and g: "signalling s = 0" using only_returns_dispatcher [OF assms(1) only] by simp_all
  consider "dpc s = D_wait_queued" "queued s = 0" | "dpc s = D_wait_available" "availableWorkers s = 0"
    using only_returns_dispatcher [OF assms(1) only] by auto
  then show ?thesis
  proof cases
    case 1
    then have "tasks s = []" using f(4) g by (simp add: queue_token_def)
    moreover have "given (wts s ! i) = {#}" if "i < length (wts s)" for i
    proof (cases "wpc (wts s ! i) = W_run")
      case True
      then have "ready (wts s ! i) = 0" using worker_ok_bound [OF ok [OF that]] by (simp add: to_run_def)
      then show ?thesis using True by (simp add: given_def)
    qed (use busy [OF that] in \<open>simp add: given_def\<close>)
    then have "sum_list (map given (wts s)) = {#}" by (rule sum_empty)
    ultimately show ?thesis using p 1(1) by (simp add: waiting_of_def in_hand_def)
  next
    case 2
    have "total at_signal s = 0" unfolding total_zero using busy by (fastforce simp: at_signal_def)
    then have idle: "total is_idle s = 0" using f(5) 2 by (simp add: avail_token_def del: sum_list_eq_0_iff)
    have "size (in_call (wts s ! i)) = 1" if i: "i < length (wts s)" for i
    proof -
      have "\<not> available (wts s ! i)" using idle i unfolding total_zero by (simp add: is_idle_def)
      then have "wpc (wts s ! i) = W_run" "thunk (wts s ! i) \<noteq> None"
        using ok [OF i] busy [OF i] 2(1) by (auto simp: worker_ok_def claim_of_def to_run_def)
      then show ?thesis by (auto simp: in_call_def)
    qed
    then have "map (size \<circ> in_call) (wts s) = replicate (length (wts s)) 1" by (intro nth_equalityI) simp_all
    then have "sum_list (map (size \<circ> in_call) (wts s)) = length (wts s)" by (simp add: sum_list_replicate)
    moreover have "size (sum_list (map in_call ws)) = sum_list (map (size \<circ> in_call) ws)" for ws :: "'a worker_t list"
      by (induction ws) simp_all
    ultimately show ?thesis by simp
  qed
qed

text \<open>
  C9: the thread pool implements the abstract pool. In every reachable state each step of a client, of the dispatcher, of
  a worker or of the destructor is a step of the abstract pool of \<open>n\<close> threads or not seen by it, and when \<open>wait\<close>
  returns the abstract pool is empty. Before shutdown the pool makes progress on its own: each step of its threads
  lowers a measure, and when they can only return from thunks, then nothing waits or all \<open>n\<close>
  threads are running one; so without a further call the pool drains and \<open>wait\<close> returns.
\<close>

theorem pool_refines_bag:
  assumes "reachable n s"
  shows "(\<forall>s'. pool_step s s' \<longrightarrow> bag_of s' = bag_of s \<or> bag_step n (bag_of s) (bag_of s')) \<and>
    (fst (pool_wait_check s) \<longrightarrow> b_waiting (bag_of s) = {#} \<and> b_running (bag_of s) = {#}) \<and>
    (\<not> pool_done s \<longrightarrow>
      (\<forall>s'. internal_step s s' \<longrightarrow> drain_measure s' < drain_measure s) \<and>
      ((\<forall>s'. internal_step s s' \<longrightarrow> ran s' \<noteq> ran s) \<longrightarrow> b_waiting (bag_of s) = {#} \<or> size (b_running (bag_of s)) = n) \<and>
      (0 < n \<and> (\<nexists>s'. internal_step s s') \<longrightarrow> outstanding s = 0 \<and> fst (pool_wait_check s)))"
proof -
  have n: "length (wts s) = n" using reachable_inv [OF assms] by simp
  have "b_waiting (bag_of s) = {#} \<and> b_running (bag_of s) = {#}" if "fst (pool_wait_check s)"
    using drained_bag [OF assms] that by (simp add: pool_wait_check_def split: if_splits)
  moreover have "b_waiting (bag_of s) = {#} \<or> size (b_running (bag_of s)) = n"
    if "\<not> pool_done s" "\<forall>s'. internal_step s s' \<longrightarrow> ran s' \<noteq> ran s"
    using work_conserving [OF reach_live [OF assms that(1)] that(1)] that n by (simp add: bag_of_def only_returns_def)
  moreover have "(\<forall>s'. internal_step s s' \<longrightarrow> drain_measure s' < drain_measure s) \<and>
      (0 < n \<and> (\<nexists>s'. internal_step s s') \<longrightarrow> outstanding s = 0 \<and> fst (pool_wait_check s))" if "\<not> pool_done s"
    using drains [OF assms _ that] internal_decreases [OF _ reach_live [OF assms that] that] by blast
  ultimately show ?thesis using pool_step_refines [OF assms] by blast
qed

lemma pool_refines_bag_witness:
  "\<exists>s. s = one_scheduled \<and> bag_of s = \<lparr>b_waiting = {#7#}, b_running = {#}, b_returned = {#}\<rparr> \<and>
    (\<exists>s'. internal_step s s' \<and> drain_measure s' < drain_measure s \<and>
      (bag_of s' = bag_of s \<or> bag_step 1 (bag_of s) (bag_of s')))"
proof -
  note r = pool_refines_bag [OF one_scheduled_reachable]
  let ?s = "one_scheduled\<lparr>queued := 0, dpc := D_check_done\<rparr>"
  have i: "internal_step one_scheduled ?s"
    by (rule internal_step.dispatch)
      (simp add: dispatcher_step_def one_scheduled_def schedule_signal_def schedule_push_def schedule_enter_def pool_init_def)
  have nd: "\<not> pool_done one_scheduled"
    by (simp add: one_scheduled_def schedule_signal_def schedule_push_def schedule_enter_def pool_init_def)
  have b: "bag_of one_scheduled = \<lparr>b_waiting = {#7#}, b_running = {#}, b_returned = {#}\<rparr>"
    by (simp add: bag_of_def waiting_of_def given_def in_call_def in_hand_def one_scheduled_def schedule_signal_def
        schedule_push_def schedule_enter_def pool_init_def)
  have "drain_measure ?s < drain_measure one_scheduled" using r nd i by blast
  moreover have "bag_of ?s = bag_of one_scheduled \<or> bag_step 1 (bag_of one_scheduled) (bag_of ?s)"
    using r pool_step.internal [OF i] by blast
  ultimately show ?thesis using b i by blast
qed

end
