(* ===== verification/Spawn.thy ===== *)
theory Spawn
  imports Subprocess
begin

text \<open>
  \<open>subprocess\<close> as \<open>mapreduce/subprocess.cc\<close> has it, called by many threads of one process at once: the
  descriptor table is shared, each thread is somewhere in its call, and \<open>fork\<close> copies whatever the table
  holds at that moment, the pipes of other calls included. The pipes are opened close-on-exec. Other
  threads open and close files meanwhile, as the reduce tasks of \<open>mr.cc\<close> do.
\<close>

section \<open>Model\<close>

datatype call_pc = At_supply_pipe | At_ingest_pipe | At_fork | At_close_read | At_close_write | Connected | Thrown string

text \<open>
  One call: its arguments, where it is, \<open>supplyPipe\<close> and \<open>ingestPipe\<close>, and, for a returned call, which of the
  two descriptors its caller still has open. The pipes' numbers are only there for the statements.
\<close>

record spawn_call =
  c_argv :: "string list"
  c_in :: bool
  c_out :: bool
  c_pc :: call_pc
  supplyPipe :: "(nat \<times> nat) option"
  ingestPipe :: "(nat \<times> nat) option"
  supply_no :: nat
  ingest_no :: nat
  supply_open :: bool
  ingest_open :: bool
  c_pid :: int

record engine =
  e_fds :: fd_table
  e_pipes :: nat
  e_calls :: "spawn_call list"
  e_kids :: "(nat \<times> child_outcome) list"

definition set_call :: "nat \<Rightarrow> spawn_call \<Rightarrow> engine \<Rightarrow> engine" where
  "set_call i c s = s\<lparr>e_calls := (e_calls s)[i := c]\<rparr>"

definition new_call :: "string list \<Rightarrow> bool \<Rightarrow> bool \<Rightarrow> spawn_call" where
  "new_call argv supplyChildInput supplyChildOutput = \<lparr>c_argv = argv, c_in = supplyChildInput, c_out = supplyChildOutput,
     c_pc = At_supply_pipe, supplyPipe = None, ingestPipe = None, supply_no = 0, ingest_no = 0, supply_open = False,
     ingest_open = False, c_pid = 0\<rparr>"

text \<open>The two \<open>pipe2(O_CLOEXEC)\<close> calls; a call that is not wanted does nothing.\<close>

definition open_supply :: "nat \<Rightarrow> spawn_call \<Rightarrow> engine \<Rightarrow> engine" where
  "open_supply i c s =
     (if c_in c then
        (let (fds, t) = make_pipe True (e_pipes s) (e_fds s)
         in set_call i (c\<lparr>supplyPipe := Some fds, supply_no := e_pipes s, c_pc := At_ingest_pipe\<rparr>)
              (s\<lparr>e_fds := t, e_pipes := Suc (e_pipes s)\<rparr>))
      else set_call i (c\<lparr>c_pc := At_ingest_pipe\<rparr>) s)"

definition open_ingest :: "nat \<Rightarrow> spawn_call \<Rightarrow> engine \<Rightarrow> engine" where
  "open_ingest i c s =
     (if c_out c then
        (let (fds, t) = make_pipe True (e_pipes s) (e_fds s)
         in set_call i (c\<lparr>ingestPipe := Some fds, ingest_no := e_pipes s, c_pc := At_fork\<rparr>)
              (s\<lparr>e_fds := t, e_pipes := Suc (e_pipes s)\<rparr>))
      else set_call i (c\<lparr>c_pc := At_fork\<rparr>) s)"

text \<open>What the child does with its copy of the table.\<close>

definition spawn_child :: "(string \<Rightarrow> bool) \<Rightarrow> spawn_call \<Rightarrow> fd_table \<Rightarrow> child_outcome" where
  "spawn_child ok c t = run_program ok (c_argv c) (take_ingest (ingestPipe c) (take_supply (supplyPipe c) t))"

definition throw :: "nat \<Rightarrow> spawn_call \<Rightarrow> string \<Rightarrow> engine \<Rightarrow> engine" where
  "throw i c msg s = set_call i (c\<lparr>c_pc := Thrown msg\<rparr>) s"

inductive spawn_step :: "(string \<Rightarrow> bool) \<Rightarrow> engine \<Rightarrow> engine \<Rightarrow> bool" for ok where
  call: "spawn_step ok s (s\<lparr>e_calls := e_calls s @ [new_call argv si so]\<rparr>)"
| supply_pipe: "i < length (e_calls s) \<Longrightarrow> c = e_calls s ! i \<Longrightarrow> c_pc c = At_supply_pipe \<Longrightarrow>
    spawn_step ok s (open_supply i c s)"
| supply_fails: "i < length (e_calls s) \<Longrightarrow> c = e_calls s ! i \<Longrightarrow> c_pc c = At_supply_pipe \<Longrightarrow> c_in c \<Longrightarrow>
    spawn_step ok s (throw i c (''pipe(supply) failed: '' @ err) s)"
| ingest_pipe: "i < length (e_calls s) \<Longrightarrow> c = e_calls s ! i \<Longrightarrow> c_pc c = At_ingest_pipe \<Longrightarrow>
    spawn_step ok s (open_ingest i c s)"
| ingest_fails: "i < length (e_calls s) \<Longrightarrow> c = e_calls s ! i \<Longrightarrow> c_pc c = At_ingest_pipe \<Longrightarrow> c_out c \<Longrightarrow>
    spawn_step ok s (throw i c (''pipe(ingest) failed: '' @ err) s)"
| fork: "i < length (e_calls s) \<Longrightarrow> c = e_calls s ! i \<Longrightarrow> c_pc c = At_fork \<Longrightarrow> pid \<noteq> -1 \<Longrightarrow>
    spawn_step ok s (set_call i (c\<lparr>c_pc := At_close_read, c_pid := pid\<rparr>)
      (s\<lparr>e_kids := e_kids s @ [(i, spawn_child ok c (e_fds s))]\<rparr>))"
| fork_fails: "i < length (e_calls s) \<Longrightarrow> c = e_calls s ! i \<Longrightarrow> c_pc c = At_fork \<Longrightarrow>
    spawn_step ok s (throw i c (''fork failed: '' @ err) s)"
| close_read: "i < length (e_calls s) \<Longrightarrow> c = e_calls s ! i \<Longrightarrow> c_pc c = At_close_read \<Longrightarrow>
    spawn_step ok s (set_call i (c\<lparr>c_pc := At_close_write\<rparr>)
      (s\<lparr>e_fds := closeIfOpen (map_option fst (supplyPipe c)) (e_fds s)\<rparr>))"
| close_write: "i < length (e_calls s) \<Longrightarrow> c = e_calls s ! i \<Longrightarrow> c_pc c = At_close_write \<Longrightarrow>
    spawn_step ok s (set_call i (c\<lparr>c_pc := Connected, supply_open := c_in c, ingest_open := c_out c\<rparr>)
      (s\<lparr>e_fds := closeIfOpen (map_option snd (ingestPipe c)) (e_fds s)\<rparr>))"
| caller_closes_supply: "i < length (e_calls s) \<Longrightarrow> c = e_calls s ! i \<Longrightarrow> c_pc c = Connected \<Longrightarrow> supply_open c \<Longrightarrow>
    spawn_step ok s (set_call i (c\<lparr>supply_open := False\<rparr>)
      (s\<lparr>e_fds := closeIfOpen (map_option snd (supplyPipe c)) (e_fds s)\<rparr>))"
| caller_closes_ingest: "i < length (e_calls s) \<Longrightarrow> c = e_calls s ! i \<Longrightarrow> c_pc c = Connected \<Longrightarrow> ingest_open c \<Longrightarrow>
    spawn_step ok s (set_call i (c\<lparr>ingest_open := False\<rparr>)
      (s\<lparr>e_fds := closeIfOpen (map_option fst (ingestPipe c)) (e_fds s)\<rparr>))"
| opens_file: "spawn_step ok s (s\<lparr>e_fds := snd (fd_alloc (File_Write path) False (e_fds s))\<rparr>)"
| closes_file: "fd_get (e_fds s) n = Some e \<Longrightarrow> refers e = File_Write path \<Longrightarrow> n > 2 \<Longrightarrow>
    spawn_step ok s (s\<lparr>e_fds := fd_close n (e_fds s)\<rparr>)"

inductive_cases spawn_stepE: "spawn_step ok s s'"

section \<open>Invariant\<close>

fun is_pipe :: "open_file \<Rightarrow> bool" where
  "is_pipe (Pipe_Read k) = True"
| "is_pipe (Pipe_Write k) = True"
| "is_pipe f = False"

fun pipe_no :: "open_file \<Rightarrow> nat" where
  "pipe_no (Pipe_Read k) = k"
| "pipe_no (Pipe_Write k) = k"
| "pipe_no f = 0"

definition absent :: "open_file \<Rightarrow> fd_table \<Rightarrow> bool" where
  "absent f t \<longleftrightarrow> (\<forall>n e. fd_get t n = Some e \<longrightarrow> refers e \<noteq> f)"

text \<open>Pipe ends in the shared table are close-on-exec, numbered below \<open>p\<close>, and none is there twice.\<close>

definition table_ok :: "nat \<Rightarrow> fd_table \<Rightarrow> bool" where
  "table_ok p t \<longleftrightarrow> std_open t \<and>
     (\<forall>n e. fd_get t n = Some e \<longrightarrow> is_pipe (refers e) \<longrightarrow> cloexec e \<and> pipe_no (refers e) < p) \<and>
     (\<forall>n m e e'. fd_get t n = Some e \<longrightarrow> fd_get t m = Some e' \<longrightarrow> is_pipe (refers e) \<longrightarrow> refers e = refers e' \<longrightarrow> n = m)"

definition held :: "fd_table \<Rightarrow> nat \<Rightarrow> open_file \<Rightarrow> bool" where
  "held t n f \<longleftrightarrow> fd_get t n = Some \<lparr>refers = f, cloexec = True\<rparr>"

text \<open>What the call \<open>c\<close> has in the shared table \<open>t\<close>, by where it is.\<close>

definition supply_ok_at :: "fd_table \<Rightarrow> nat \<Rightarrow> spawn_call \<Rightarrow> bool" where
  "supply_ok_at t p c \<longleftrightarrow> (case supplyPipe c of
       None \<Rightarrow> c_pc c \<in> {At_supply_pipe} \<or> \<not> c_in c \<or> (\<exists>m. c_pc c = Thrown m)
     | Some (r, w) \<Rightarrow> c_in c \<and> supply_no c < p \<and> (case c_pc c of
           At_supply_pipe \<Rightarrow> False
         | At_close_write \<Rightarrow> absent (Pipe_Read (supply_no c)) t \<and> held t w (Pipe_Write (supply_no c))
         | Connected \<Rightarrow> absent (Pipe_Read (supply_no c)) t \<and>
             (if supply_open c then held t w (Pipe_Write (supply_no c)) else absent (Pipe_Write (supply_no c)) t)
         | Thrown m \<Rightarrow> True
         | _ \<Rightarrow> held t r (Pipe_Read (supply_no c)) \<and> held t w (Pipe_Write (supply_no c))))"

definition ingest_ok_at :: "fd_table \<Rightarrow> nat \<Rightarrow> spawn_call \<Rightarrow> bool" where
  "ingest_ok_at t p c \<longleftrightarrow> (case ingestPipe c of
       None \<Rightarrow> c_pc c \<in> {At_supply_pipe, At_ingest_pipe} \<or> \<not> c_out c \<or> (\<exists>m. c_pc c = Thrown m)
     | Some (r, w) \<Rightarrow> c_out c \<and> ingest_no c < p \<and> (case c_pc c of
           At_supply_pipe \<Rightarrow> False
         | At_ingest_pipe \<Rightarrow> False
         | Connected \<Rightarrow> absent (Pipe_Write (ingest_no c)) t \<and>
             (if ingest_open c then held t r (Pipe_Read (ingest_no c)) else absent (Pipe_Read (ingest_no c)) t)
         | Thrown m \<Rightarrow> True
         | _ \<Rightarrow> held t r (Pipe_Read (ingest_no c)) \<and> held t w (Pipe_Write (ingest_no c))))"

definition numbers :: "spawn_call \<Rightarrow> nat list" where
  "numbers c = (if supplyPipe c = None then [] else [supply_no c]) @ (if ingestPipe c = None then [] else [ingest_no c])"

text \<open>The child of a call has pipes only where it should.\<close>

definition isolated :: "spawn_call \<Rightarrow> child_outcome \<Rightarrow> bool" where
  "isolated c child \<longleftrightarrow> (\<forall>argv t. child = Execs argv t \<longrightarrow>
     argv = c_argv c \<and>
     (\<forall>n e. fd_get t n = Some e \<longrightarrow> is_pipe (refers e) \<longrightarrow>
        n = 0 \<and> c_in c \<and> refers e = Pipe_Read (supply_no c) \<or> n = 1 \<and> c_out c \<and> refers e = Pipe_Write (ingest_no c)) \<and>
     (c_in c \<longrightarrow> fd_get t 0 = Some (plain (Pipe_Read (supply_no c)))) \<and>
     (c_out c \<longrightarrow> fd_get t 1 = Some (plain (Pipe_Write (ingest_no c)))))"

definition forked_pc :: "call_pc \<Rightarrow> bool" where
  "forked_pc pc \<longleftrightarrow> pc \<in> {At_close_read, At_close_write, Connected}"

definition spawn_inv :: "engine \<Rightarrow> bool" where
  "spawn_inv s \<longleftrightarrow> table_ok (e_pipes s) (e_fds s) \<and>
     (\<forall>c \<in> set (e_calls s). supply_ok_at (e_fds s) (e_pipes s) c \<and> ingest_ok_at (e_fds s) (e_pipes s) c) \<and>
     (\<forall>i < length (e_calls s). distinct (numbers (e_calls s ! i))) \<and>
     (\<forall>i < length (e_calls s). \<forall>j < length (e_calls s). i \<noteq> j \<longrightarrow> set (numbers (e_calls s ! i)) \<inter> set (numbers (e_calls s ! j)) = {}) \<and>
     (\<forall>(i, child) \<in> set (e_kids s). i < length (e_calls s) \<and> forked_pc (c_pc (e_calls s ! i)) \<and>
        isolated (e_calls s ! i) child)"

definition engine_start :: "fd_table \<Rightarrow> engine" where
  "engine_start t = \<lparr>e_fds = t, e_pipes = 0, e_calls = [], e_kids = []\<rparr>"

section \<open>Changes of the table\<close>

lemma held_not_std: "table_ok p t \<Longrightarrow> held t n f \<Longrightarrow> 2 < n"
proof (rule ccontr)
  assume a: "table_ok p t" "held t n f" "\<not> 2 < n"
  then have "n < 3" "std_open t" by (auto simp: table_ok_def)
  then obtain e where "fd_get t n = Some e" "\<not> cloexec e" unfolding std_open_def by blast
  with a(2) show False by (simp add: held_def)
qed

lemma table_ok_pipe:
  assumes "table_ok p t" and "make_pipe True p t = ((r, w), t')"
  shows "table_ok (Suc p) t'" and "held t' r (Pipe_Read p)" and "held t' w (Pipe_Write p)"
    and "held t n f \<Longrightarrow> held t' n f" and "absent f t \<Longrightarrow> pipe_no f \<noteq> p \<Longrightarrow> absent f t'"
proof -
  note f = make_pipe_fresh [OF assms(2)]
  have nr: "fd_get t n \<noteq> None \<Longrightarrow> n \<noteq> r \<and> n \<noteq> w" for n using f by auto
  show "held t' r (Pipe_Read p)" "held t' w (Pipe_Write p)" using f by (simp_all add: held_def)
  show "held t n f \<Longrightarrow> held t' n f" using nr [of n] by (simp add: held_def f(4))
  show "absent f t \<Longrightarrow> pipe_no f \<noteq> p \<Longrightarrow> absent f t'" by (auto simp: absent_def f(4))
  have "std_open t'"
    using assms(1) nr unfolding table_ok_def std_open_def f(4) by (metis fun_upd_other option.distinct(1))
  moreover have "pipe_no (refers e) \<noteq> p" if "fd_get t n = Some e" "is_pipe (refers e)" for n e
    using assms(1) that unfolding table_ok_def by blast
  then have old: "refers e \<noteq> Pipe_Read p \<and> refers e \<noteq> Pipe_Write p \<and> Pipe_Read p \<noteq> refers e \<and> Pipe_Write p \<noteq> refers e"
    if "fd_get t n = Some e" for n e
    using that by (metis is_pipe.simps(1,2) pipe_no.simps(1,2))
  ultimately show "table_ok (Suc p) t'"
    using assms(1) f(3) unfolding table_ok_def f(4) by (auto simp: less_Suc_eq old dest: old split: if_splits)
qed

lemma table_ok_file:
  assumes "table_ok p t" and "fd_alloc (File_Write path) False t = (m, t')"
  shows "table_ok p t'" and "held t n f \<Longrightarrow> held t' n f" and "absent f t \<Longrightarrow> is_pipe f \<Longrightarrow> absent f t'"
proof -
  note a = fd_alloc_fresh [OF assms(2)]
  show "held t n f \<Longrightarrow> held t' n f" using a by (auto simp: held_def)
  show "absent f t \<Longrightarrow> is_pipe f \<Longrightarrow> absent f t'" by (auto simp: absent_def a(2))
  have "std_open t'" using assms(1) a unfolding table_ok_def std_open_def a(2) by (metis fun_upd_other option.distinct(1))
  then show "table_ok p t'" using assms(1) unfolding table_ok_def a(2) by (auto split: if_splits)
qed

lemma table_ok_close:
  assumes "table_ok p t" and "fd_get t m = Some e" and "2 < m"
  shows "table_ok p (fd_close m t)" and "held t n f \<Longrightarrow> f \<noteq> refers e \<Longrightarrow> held (fd_close m t) n f"
    and "absent f t \<Longrightarrow> absent f (fd_close m t)"
proof -
  show "held t n f \<Longrightarrow> f \<noteq> refers e \<Longrightarrow> held (fd_close m t) n f" using assms(2) by (auto simp: held_def fd_get_close)
  show "absent f t \<Longrightarrow> absent f (fd_close m t)" by (auto simp: absent_def fd_get_close)
  have "std_open (fd_close m t)" using assms(1,3) by (auto simp: table_ok_def std_open_def fd_get_close)
  then show "table_ok p (fd_close m t)" using assms(1) unfolding table_ok_def fd_get_close by (auto split: if_splits)
qed

lemma closed_absent:
  assumes "table_ok p t" and "held t m f" and "is_pipe f"
  shows "absent f (fd_close m t)"
  using assms unfolding absent_def held_def table_ok_def fd_get_close
  by (auto split: if_splits)

lemma numbers_upd [simp]: "numbers (c\<lparr>c_pc := pc\<rparr>) = numbers c" "numbers (c\<lparr>c_pid := pid\<rparr>) = numbers c"
    "numbers (c\<lparr>supply_open := b\<rparr>) = numbers c" "numbers (c\<lparr>ingest_open := b\<rparr>) = numbers c"
  by (cases c; simp add: numbers_def)+

section \<open>Frames\<close>

text \<open>What a change of the table must keep for the calls whose pipes have no number in \<open>X\<close>.\<close>

definition frame :: "fd_table \<Rightarrow> nat \<Rightarrow> fd_table \<Rightarrow> nat \<Rightarrow> nat set \<Rightarrow> bool" where
  "frame t p t' p' X \<longleftrightarrow> p \<le> p' \<and> (\<forall>f. is_pipe f \<longrightarrow> pipe_no f < p \<longrightarrow> pipe_no f \<notin> X \<longrightarrow>
     (\<forall>n. held t n f \<longrightarrow> held t' n f) \<and> (absent f t \<longrightarrow> absent f t'))"

lemma frame_keeps:
  assumes "frame t p t' p' X"
  shows "supply_ok_at t p c \<Longrightarrow> supplyPipe c = None \<or> supply_no c \<notin> X \<Longrightarrow> supply_ok_at t' p' c"
    and "ingest_ok_at t p c \<Longrightarrow> ingestPipe c = None \<or> ingest_no c \<notin> X \<Longrightarrow> ingest_ok_at t' p' c"
proof -
  have k: "held t n (Pipe_Read k) \<Longrightarrow> held t' n (Pipe_Read k)" "held t n (Pipe_Write k) \<Longrightarrow> held t' n (Pipe_Write k)"
    "absent (Pipe_Read k) t \<Longrightarrow> absent (Pipe_Read k) t'" "absent (Pipe_Write k) t \<Longrightarrow> absent (Pipe_Write k) t'"
    if "k < p" "k \<notin> X" for k n
    using assms that unfolding frame_def by (metis is_pipe.simps(1,2) pipe_no.simps(1,2))+
  have p: "p \<le> p'" using assms by (simp add: frame_def)
  show "supply_ok_at t p c \<Longrightarrow> supplyPipe c = None \<or> supply_no c \<notin> X \<Longrightarrow> supply_ok_at t' p' c"
    using k [of "supply_no c"] p unfolding supply_ok_at_def
    by (cases "supplyPipe c"; cases "c_pc c") (auto split: prod.splits if_splits)
  show "ingest_ok_at t p c \<Longrightarrow> ingestPipe c = None \<or> ingest_no c \<notin> X \<Longrightarrow> ingest_ok_at t' p' c"
    using k [of "ingest_no c"] p unfolding ingest_ok_at_def
    by (cases "ingestPipe c"; cases "c_pc c") (auto split: prod.splits if_splits)
qed

lemma frame_refl: "frame t p t p X"
  by (simp add: frame_def)

lemma frame_pipe: "table_ok p t \<Longrightarrow> make_pipe True p t = ((r, w), t') \<Longrightarrow> frame t p t' (Suc p) {}"
  using table_ok_pipe(4,5) unfolding frame_def by (metis le_SucI less_irrefl order_refl)

lemma frame_file: "table_ok p t \<Longrightarrow> fd_alloc (File_Write path) False t = (m, t') \<Longrightarrow> frame t p t' p {}"
  using table_ok_file(2,3) unfolding frame_def by blast

lemma frame_close:
  "table_ok p t \<Longrightarrow> fd_get t m = Some e \<Longrightarrow> 2 < m \<Longrightarrow> is_pipe (refers e) \<longrightarrow> pipe_no (refers e) \<in> X \<Longrightarrow>
   frame t p (fd_close m t) p X"
  using table_ok_close(2,3) unfolding frame_def by blast

lemma numbers_below:
  "supply_ok_at t p c \<Longrightarrow> ingest_ok_at t p c \<Longrightarrow> k \<in> set (numbers c) \<Longrightarrow> k < p"
  by (auto simp: numbers_def supply_ok_at_def ingest_ok_at_def split: if_splits option.splits)

text \<open>One call moves from \<open>c\<close> to \<open>c'\<close> while the table changes within a frame.\<close>

lemma move_call:
  assumes inv: "spawn_inv s" and i: "i < length (e_calls s)" and c: "c = e_calls s ! i"
    and table: "table_ok p' t'" and frame: "frame (e_fds s) (e_pipes s) t' p' X" and X: "X \<subseteq> set (numbers c)"
    and new: "supply_ok_at t' p' c'" "ingest_ok_at t' p' c'" "distinct (numbers c')"
    and nums: "set (numbers c') \<subseteq> set (numbers c) \<union> {e_pipes s}"
    and same: "c_argv c' = c_argv c" "c_in c' = c_in c" "c_out c' = c_out c"
      "forked_pc (c_pc c) \<Longrightarrow> forked_pc (c_pc c') \<and> supply_no c' = supply_no c \<and> ingest_no c' = ingest_no c"
    and kids: "kids = e_kids s \<or> kids = e_kids s @ [(i, child)] \<and> forked_pc (c_pc c') \<and> isolated c' child"
  shows "spawn_inv (s\<lparr>e_fds := t', e_pipes := p', e_calls := (e_calls s)[i := c'], e_kids := kids\<rparr>)"
proof -
  let ?cs = "e_calls s" and ?cs' = "(e_calls s)[i := c']"
  have old: "supply_ok_at (e_fds s) (e_pipes s) (?cs ! j)" "ingest_ok_at (e_fds s) (e_pipes s) (?cs ! j)" if "j < length ?cs" for j
    using inv that by (auto simp: spawn_inv_def)
  have dis: "set (numbers (?cs ! j)) \<inter> set (numbers c) = {}" if "j < length ?cs" "j \<noteq> i" for j
    using inv that i c unfolding spawn_inv_def by blast
  have ok: "supply_ok_at t' p' (?cs' ! j) \<and> ingest_ok_at t' p' (?cs' ! j)" if j: "j < length ?cs" for j
  proof (cases "j = i")
    case True
    then show ?thesis using new i by simp
  next
    case False
    have n: "k \<notin> X" if "k \<in> set (numbers (?cs ! j))" for k using dis [OF j False] X that by blast
    have "supplyPipe (?cs ! j) = None \<or> supply_no (?cs ! j) \<notin> X" "ingestPipe (?cs ! j) = None \<or> ingest_no (?cs ! j) \<notin> X"
      using n by (auto simp: numbers_def)
    then have "supply_ok_at t' p' (?cs ! j)" "ingest_ok_at t' p' (?cs ! j)"
      using frame_keeps [OF frame] old [OF j] by blast+
    then show ?thesis using False by simp
  qed
  have below: "e_pipes s \<notin> set (numbers (?cs ! j))" if "j < length ?cs" for j
    using numbers_below [OF old [OF that]] by blast
  have d: "set (numbers (?cs' ! j)) \<inter> set (numbers (?cs' ! k)) = {}" if "j < length ?cs" "k < length ?cs" "j \<noteq> k" for j k
  proof -
    have "set (numbers (?cs ! j)) \<inter> set (numbers (?cs ! k)) = {}" using inv that unfolding spawn_inv_def by blast
    moreover have "set (numbers (?cs ! m)) \<inter> set (numbers c') = {}" if "m < length ?cs" "m \<noteq> i" for m
      using nums dis [OF that] below [OF that(1)] by blast
    ultimately show ?thesis using that i by (auto simp: nth_list_update)
  qed
  have iso: "j < length ?cs \<and> forked_pc (c_pc (?cs' ! j)) \<and> isolated (?cs' ! j) ch" if "(j, ch) \<in> set (e_kids s)" for j ch
  proof -
    have "j < length ?cs \<and> forked_pc (c_pc (?cs ! j)) \<and> isolated (?cs ! j) ch" using inv that by (auto simp: spawn_inv_def)
    then show ?thesis using same c i by (cases "j = i") (auto simp: isolated_def)
  qed
  have "\<forall>cc \<in> set ?cs'. supply_ok_at t' p' cc \<and> ingest_ok_at t' p' cc" using ok by (metis in_set_conv_nth length_list_update)
  moreover have "\<forall>j < length ?cs'. distinct (numbers (?cs' ! j))"
    using inv new(3) i by (auto simp: spawn_inv_def nth_list_update)
  moreover have "\<forall>(j, ch) \<in> set kids. j < length ?cs' \<and> forked_pc (c_pc (?cs' ! j)) \<and> isolated (?cs' ! j) ch"
    using kids iso i by auto
  ultimately show ?thesis using table d by (simp add: spawn_inv_def)
qed

section \<open>Children\<close>

lemma move_end:
  assumes "held t a f" and "a \<noteq> b" and "r \<noteq> b" and "w \<noteq> b"
  shows "fd_get (fd_close w (fd_close r (dup2 a b t))) = (fd_get t)(b \<mapsto> plain f, r := None, w := None)"
  using assms by (auto simp: held_def fd_get_dup2 fd_get_close plain_def fun_eq_iff)

lemma spawn_child_isolated:
  assumes t: "table_ok p t" and sup: "supply_ok_at t p c" and ing: "ingest_ok_at t p c" and pc: "c_pc c = At_fork"
    and d: "distinct (numbers c)"
  shows "isolated c (spawn_child ok c t)"
proof -
  define t1 where "t1 = take_supply (supplyPipe c) t"
  have 1: "fd_get t1 n = (if c_in c \<and> n = 0 then Some (plain (Pipe_Read (supply_no c)))
      else if \<exists>r w. supplyPipe c = Some (r, w) \<and> n \<in> {r, w} then None else fd_get t n)" (is "_ = ?t1 n")
    and sp: "supplyPipe c = Some (r, w) \<Longrightarrow> held t r (Pipe_Read (supply_no c)) \<and> held t w (Pipe_Write (supply_no c)) \<and> 2 < r \<and> 2 < w" for n r w
  proof -
    show s: "supplyPipe c = Some (r, w) \<Longrightarrow> held t r (Pipe_Read (supply_no c)) \<and> held t w (Pipe_Write (supply_no c)) \<and> 2 < r \<and> 2 < w" for r w
      using sup pc held_not_std [OF t] by (auto simp: supply_ok_at_def)
    show "fd_get t1 n = ?t1 n"
    proof (cases "supplyPipe c")
      case None
      then show ?thesis using sup pc by (simp add: t1_def take_supply_def supply_ok_at_def)
    next
      case (Some rw)
      then obtain r w where rw: "supplyPipe c = Some (r, w)" by (cases rw) auto
      with s [OF rw] have "fd_get t1 = (fd_get t)(0 \<mapsto> plain (Pipe_Read (supply_no c)), r := None, w := None)"
        unfolding t1_def by (simp add: take_supply_def move_end)
      moreover have "c_in c" using sup rw by (simp add: supply_ok_at_def)
      ultimately show ?thesis using rw s [OF rw] by auto
    qed
  qed
  have ip: "held t1 w (Pipe_Write (ingest_no c)) \<and> 2 < r \<and> 2 < w" if rw: "ingestPipe c = Some (r, w)" for r w
  proof -
    have h: "held t r (Pipe_Read (ingest_no c))" "held t w (Pipe_Write (ingest_no c))" using ing pc rw by (simp_all add: ingest_ok_at_def)
    have "supplyPipe c = Some (a, b) \<Longrightarrow> w \<noteq> a \<and> w \<noteq> b" for a b
      using sp [of a b] h(2) d rw by (auto simp: held_def numbers_def)
    with h held_not_std [OF t] show ?thesis by (auto simp: held_def 1)
  qed
  define t2 where "t2 = take_ingest (ingestPipe c) t1"
  have 2: "fd_get t2 n = (if c_out c \<and> n = 1 then Some (plain (Pipe_Write (ingest_no c)))
      else if \<exists>r w. ingestPipe c = Some (r, w) \<and> n \<in> {r, w} then None else fd_get t1 n)" for n
  proof (cases "ingestPipe c")
    case None
    then show ?thesis using ing pc by (simp add: t2_def take_ingest_def ingest_ok_at_def)
  next
    case (Some rw)
    then obtain r w where rw: "ingestPipe c = Some (r, w)" by (cases rw) auto
    with ip [OF rw] have "fd_get t2 = (fd_get t1)(1 \<mapsto> plain (Pipe_Write (ingest_no c)), r := None, w := None)"
      unfolding t2_def by (simp add: take_ingest_def move_end)
    moreover have "c_out c" using ing rw by (simp add: ingest_ok_at_def)
    ultimately show ?thesis using rw ip [OF rw] by auto
  qed
  have zero: "c_in c \<Longrightarrow> fd_get t2 0 = Some (plain (Pipe_Read (supply_no c)))" using ip by (auto simp: 1 2)
  have one: "c_out c \<Longrightarrow> fd_get t2 1 = Some (plain (Pipe_Write (ingest_no c)))" by (simp add: 2)
  have foreign: "cloexec e" if "fd_get t2 n = Some e" "is_pipe (refers e)" "\<not> (c_in c \<and> n = 0)" "\<not> (c_out c \<and> n = 1)" for n e
  proof -
    have "fd_get t n = Some e" using that by (auto simp: 1 2 split: if_splits)
    with that(2) t show ?thesis by (auto simp: table_ok_def)
  qed
  have own: "n = 0 \<and> c_in c \<and> refers e = Pipe_Read (supply_no c) \<or> n = 1 \<and> c_out c \<and> refers e = Pipe_Write (ingest_no c)"
    if "fd_get t2 n = Some e" "is_pipe (refers e)" "\<not> cloexec e" for n e
    using foreign [OF that(1,2)] that zero one by (metis option.inject plain_simps(3))
  have exec: "fd_get (exec_table t2) n = Some e \<Longrightarrow> fd_get t2 n = Some e \<and> \<not> cloexec e" for n e
    by (auto simp: fd_get_exec split: option.splits if_splits)
  have "c_in c \<Longrightarrow> fd_get (exec_table t2) 0 = Some (plain (Pipe_Read (supply_no c)))"
    "c_out c \<Longrightarrow> fd_get (exec_table t2) 1 = Some (plain (Pipe_Write (ingest_no c)))"
    using zero one by (simp_all add: fd_get_exec)
  then show ?thesis
    unfolding isolated_def spawn_child_def run_program_def t1_def [symmetric] t2_def [symmetric]
    using own exec by (auto split: if_splits)
qed

section \<open>Every step keeps the invariant\<close>

lemma call_inv:
  assumes "spawn_inv s" and "c \<in> set (e_calls s)"
  shows "supply_ok_at (e_fds s) (e_pipes s) c" "ingest_ok_at (e_fds s) (e_pipes s) c" "distinct (numbers c)"
  using assms by (auto simp: spawn_inv_def in_set_conv_nth)

lemma close_end:
  assumes t: "table_ok p t" and h: "held t m f" and f: "is_pipe f"
  shows "table_ok p (fd_close m t)" "frame t p (fd_close m t) p {pipe_no f}" "absent f (fd_close m t)"
    "held t n g \<Longrightarrow> g \<noteq> f \<Longrightarrow> held (fd_close m t) n g" "absent g t \<Longrightarrow> absent g (fd_close m t)"
proof -
  have g: "fd_get t m = Some \<lparr>refers = f, cloexec = True\<rparr>" using h by (simp add: held_def)
  note m = held_not_std [OF t h]
  show "table_ok p (fd_close m t)" by (rule table_ok_close(1) [OF t g m])
  show "frame t p (fd_close m t) p {pipe_no f}" by (rule frame_close [OF t g m]) simp
  show "absent f (fd_close m t)" by (rule closed_absent [OF t h f])
  show "held t n g \<Longrightarrow> g \<noteq> f \<Longrightarrow> held (fd_close m t) n g" using table_ok_close(2) [OF t g m] by simp
  show "absent g t \<Longrightarrow> absent g (fd_close m t)" by (rule table_ok_close(3) [OF t g m])
qed

lemma supply_pipe_inv:
  assumes inv: "spawn_inv s" and i: "i < length (e_calls s)" "c = e_calls s ! i" and pc: "c_pc c = At_supply_pipe"
  shows "spawn_inv (open_supply i c s)"
proof -
  note ok = call_inv [OF inv, of c]
  have t: "table_ok (e_pipes s) (e_fds s)" using inv by (simp add: spawn_inv_def)
  have none: "supplyPipe c = None" "ingestPipe c = None"
    using ok(1,2) i pc by (auto simp: supply_ok_at_def ingest_ok_at_def split: option.splits)
  show ?thesis
  proof (cases "c_in c")
    case True
    obtain r w t' where mp: "make_pipe True (e_pipes s) (e_fds s) = ((r, w), t')" by (metis surj_pair)
    note p = table_ok_pipe [OF t mp]
    show ?thesis
      unfolding open_supply_def set_call_def mp
      using True move_call [OF inv i p(1) frame_pipe [OF t mp], of "c\<lparr>supplyPipe := Some (r, w), supply_no := e_pipes s, c_pc := At_ingest_pipe\<rparr>" "e_kids s"]
        none p(2,3) pc
      by (simp add: supply_ok_at_def ingest_ok_at_def numbers_def forked_pc_def)
  next
    case False
    then show ?thesis
      unfolding open_supply_def set_call_def
      using move_call [OF inv i t frame_refl [of _ _ "{}"], of "c\<lparr>c_pc := At_ingest_pipe\<rparr>" "e_kids s"] none pc
      by (simp add: supply_ok_at_def ingest_ok_at_def numbers_def forked_pc_def)
  qed
qed

lemma ingest_pipe_inv:
  assumes inv: "spawn_inv s" and i: "i < length (e_calls s)" "c = e_calls s ! i" and pc: "c_pc c = At_ingest_pipe"
  shows "spawn_inv (open_ingest i c s)"
proof -
  have "c \<in> set (e_calls s)" using i by simp
  note ok = call_inv [OF inv this]
  have t: "table_ok (e_pipes s) (e_fds s)" using inv by (simp add: spawn_inv_def)
  have none: "ingestPipe c = None"
    using ok(2) pc by (auto simp: ingest_ok_at_def split: option.splits)
  show ?thesis
  proof (cases "c_out c")
    case True
    obtain r w t' where mp: "make_pipe True (e_pipes s) (e_fds s) = ((r, w), t')" by (metis surj_pair)
    note p = table_ok_pipe [OF t mp]
    let ?c = "c\<lparr>ingestPipe := Some (r, w), ingest_no := e_pipes s, c_pc := At_fork\<rparr>"
    have "supply_ok_at t' (Suc (e_pipes s)) c" by (rule frame_keeps(1) [OF frame_pipe [OF t mp] ok(1)]) simp
    then have "supply_ok_at t' (Suc (e_pipes s)) ?c" using pc by (auto simp: supply_ok_at_def split: option.splits)
    moreover have "supplyPipe c \<noteq> None \<Longrightarrow> supply_no c < e_pipes s" using ok(1) by (auto simp: supply_ok_at_def)
    ultimately show ?thesis
      unfolding open_ingest_def set_call_def mp
      using True move_call [OF inv i p(1) frame_pipe [OF t mp], of ?c "e_kids s"] none p(2,3) pc ok(3)
      by (cases "supplyPipe c") (auto simp: ingest_ok_at_def numbers_def forked_pc_def)
  next
    case False
    have "supply_ok_at (e_fds s) (e_pipes s) (c\<lparr>c_pc := At_fork\<rparr>)"
      using ok(1) pc by (auto simp: supply_ok_at_def split: option.splits)
    with False show ?thesis
      unfolding open_ingest_def set_call_def
      using move_call [OF inv i t frame_refl [of _ _ "{}"], of "c\<lparr>c_pc := At_fork\<rparr>" "e_kids s"] none pc ok(3)
      by (auto simp: ingest_ok_at_def forked_pc_def)
  qed
qed

lemma throw_inv:
  assumes inv: "spawn_inv s" and i: "i < length (e_calls s)" "c = e_calls s ! i" and pc: "\<not> forked_pc (c_pc c)"
  shows "spawn_inv (throw i c msg s)"
proof -
  have "c \<in> set (e_calls s)" using i by simp
  note ok = call_inv [OF inv this]
  have t: "table_ok (e_pipes s) (e_fds s)" using inv by (simp add: spawn_inv_def)
  have "supply_ok_at (e_fds s) (e_pipes s) (c\<lparr>c_pc := Thrown msg\<rparr>)" "ingest_ok_at (e_fds s) (e_pipes s) (c\<lparr>c_pc := Thrown msg\<rparr>)"
    using ok(1,2) by (auto simp: supply_ok_at_def ingest_ok_at_def split: option.splits)
  then show ?thesis
    unfolding throw_def set_call_def
    using move_call [OF inv i t frame_refl [of _ _ "{}"], of "c\<lparr>c_pc := Thrown msg\<rparr>" "e_kids s"] ok(3) pc by auto
qed

lemma fork_inv:
  assumes inv: "spawn_inv s" and i: "i < length (e_calls s)" "c = e_calls s ! i" and pc: "c_pc c = At_fork"
  shows "spawn_inv (set_call i (c\<lparr>c_pc := At_close_read, c_pid := pid\<rparr>)
    (s\<lparr>e_kids := e_kids s @ [(i, spawn_child ok c (e_fds s))]\<rparr>))"
proof -
  have "c \<in> set (e_calls s)" using i by simp
  note ok = call_inv [OF inv this]
  have t: "table_ok (e_pipes s) (e_fds s)" using inv by (simp add: spawn_inv_def)
  let ?c = "c\<lparr>c_pc := At_close_read, c_pid := pid\<rparr>"
  have "supply_ok_at (e_fds s) (e_pipes s) ?c" "ingest_ok_at (e_fds s) (e_pipes s) ?c"
    using ok(1,2) pc by (auto simp: supply_ok_at_def ingest_ok_at_def split: option.splits)
  moreover have "isolated ?c (spawn_child ok c (e_fds s))"
    using spawn_child_isolated [OF t ok(1,2) pc ok(3), of ok] by (simp add: isolated_def)
  ultimately show ?thesis
    unfolding set_call_def
    using move_call [OF inv i t frame_refl [of _ _ "{}"], of ?c "e_kids s @ [(i, spawn_child ok c (e_fds s))]"] ok(3) pc
    by (cases s) (auto simp: forked_pc_def)
qed

text \<open>Closing one of the call's ends; \<open>f\<close> is what it refers to.\<close>

lemma close_move:
  assumes inv: "spawn_inv s" and i: "i < length (e_calls s)" "c = e_calls s ! i"
    and own: "\<And>m. fd = Some m \<Longrightarrow> held (e_fds s) m f \<and> is_pipe f \<and> pipe_no f \<in> set (numbers c)"
    and stays: "fd = None \<Longrightarrow> supply_ok_at (e_fds s) (e_pipes s) c' \<and> ingest_ok_at (e_fds s) (e_pipes s) c'"
    and goes: "\<And>m. fd = Some m \<Longrightarrow> supply_ok_at (fd_close m (e_fds s)) (e_pipes s) c' \<and> ingest_ok_at (fd_close m (e_fds s)) (e_pipes s) c'"
    and same: "numbers c' = numbers c" "c_argv c' = c_argv c" "c_in c' = c_in c" "c_out c' = c_out c" "forked_pc (c_pc c')"
      "supply_no c' = supply_no c" "ingest_no c' = ingest_no c"
  shows "spawn_inv (set_call i c' (s\<lparr>e_fds := closeIfOpen fd (e_fds s)\<rparr>))"
proof -
  have "c \<in> set (e_calls s)" using i by simp
  note ok = call_inv [OF inv this]
  have t: "table_ok (e_pipes s) (e_fds s)" using inv by (simp add: spawn_inv_def)
  show ?thesis
  proof (cases fd)
    case None
    then show ?thesis
      unfolding set_call_def closeIfOpen_def
      using move_call [OF inv i t frame_refl [of _ _ "{}"], of c' "e_kids s"] stays ok(3) same by auto
  next
    case (Some m)
    have h: "held (e_fds s) m f" "is_pipe f" using own [OF Some] by blast+
    show ?thesis
      unfolding set_call_def closeIfOpen_def
      using move_call [OF inv i close_end(1,2) [OF t h], of c' "e_kids s"] goes [OF Some] own [OF Some] ok(3) same Some by auto
  qed
qed

text \<open>What closing an end of one pipe leaves of the other.\<close>

lemma other_pipe:
  assumes "table_ok p t" and "held t m f" and "is_pipe f" and "distinct (numbers c)"
  shows "supply_ok_at t p c \<Longrightarrow> supplyPipe c = None \<or> supply_no c \<noteq> pipe_no f \<Longrightarrow> supply_ok_at (fd_close m t) p c"
    and "ingest_ok_at t p c \<Longrightarrow> ingestPipe c = None \<or> ingest_no c \<noteq> pipe_no f \<Longrightarrow> ingest_ok_at (fd_close m t) p c"
  using frame_keeps [OF close_end(2) [OF assms(1-3)]] by blast+

lemma close_supply_end_inv:
  assumes inv: "spawn_inv s" and i: "i < length (e_calls s)" "c = e_calls s ! i"
    and step: "c_pc c = At_close_read \<and> fd = map_option fst (supplyPipe c) \<and> c' = c\<lparr>c_pc := At_close_write\<rparr> \<or>
      c_pc c = Connected \<and> supply_open c \<and> fd = map_option snd (supplyPipe c) \<and> c' = c\<lparr>supply_open := False\<rparr>"
  shows "spawn_inv (set_call i c' (s\<lparr>e_fds := closeIfOpen fd (e_fds s)\<rparr>))"
proof -
  have "c \<in> set (e_calls s)" using i by simp
  note ok = call_inv [OF inv this]
  have t: "table_ok (e_pipes s) (e_fds s)" using inv by (simp add: spawn_inv_def)
  define f where "f = (if c_pc c = At_close_read then Pipe_Read (supply_no c) else Pipe_Write (supply_no c))"
  have f: "is_pipe f" "pipe_no f = supply_no c" by (simp_all add: f_def)
  have own: "held (e_fds s) m f" "supply_no c \<in> set (numbers c)" if "fd = Some m" for m
    using that step ok(1) by (cases "supplyPipe c"; auto simp: supply_ok_at_def f_def numbers_def)+
  have d: "supplyPipe c = None \<or> ingestPipe c = None \<or> ingest_no c \<noteq> supply_no c" using ok(3) by (auto simp: numbers_def)
  have ing: "ingest_ok_at t' p c \<Longrightarrow> ingest_ok_at t' p c'" for t' p
    using step by (auto simp: ingest_ok_at_def split: option.splits)
  have sup: "supply_ok_at (fd_close m (e_fds s)) (e_pipes s) c'" if "fd = Some m" for m
    using step that ok(1) close_end(3,4,5) [OF t own(1) [OF that] f(1)]
    by (cases "supplyPipe c") (auto simp: supply_ok_at_def f_def)
  show ?thesis
  proof (rule close_move [OF inv i, of fd f])
    show "held (e_fds s) m f \<and> is_pipe f \<and> pipe_no f \<in> set (numbers c)" if "fd = Some m" for m using own [OF that] f by simp
    show "supply_ok_at (e_fds s) (e_pipes s) c' \<and> ingest_ok_at (e_fds s) (e_pipes s) c'" if "fd = None"
      using that step ok(1) ing [OF ok(2)] by (auto simp: supply_ok_at_def)
    show "supply_ok_at (fd_close m (e_fds s)) (e_pipes s) c' \<and> ingest_ok_at (fd_close m (e_fds s)) (e_pipes s) c'" if m: "fd = Some m" for m
    proof -
      have "supplyPipe c \<noteq> None" using step m by (cases "supplyPipe c") auto
      then have "ingestPipe c = None \<or> ingest_no c \<noteq> pipe_no f" using d f(2) by force
      with other_pipe(2) [OF t own(1) [OF m] f(1) ok(3) ok(2)] show ?thesis using sup [OF m] ing by blast
    qed
  qed (use step in \<open>auto simp: forked_pc_def\<close>)
qed

lemma close_ingest_end_inv:
  assumes inv: "spawn_inv s" and i: "i < length (e_calls s)" "c = e_calls s ! i"
    and step: "c_pc c = At_close_write \<and> fd = map_option snd (ingestPipe c) \<and>
        c' = c\<lparr>c_pc := Connected, supply_open := c_in c, ingest_open := c_out c\<rparr> \<or>
      c_pc c = Connected \<and> ingest_open c \<and> fd = map_option fst (ingestPipe c) \<and> c' = c\<lparr>ingest_open := False\<rparr>"
  shows "spawn_inv (set_call i c' (s\<lparr>e_fds := closeIfOpen fd (e_fds s)\<rparr>))"
proof -
  have "c \<in> set (e_calls s)" using i by simp
  note ok = call_inv [OF inv this]
  have t: "table_ok (e_pipes s) (e_fds s)" using inv by (simp add: spawn_inv_def)
  define f where "f = (if c_pc c = Connected then Pipe_Read (ingest_no c) else Pipe_Write (ingest_no c))"
  have f: "is_pipe f" "pipe_no f = ingest_no c" by (simp_all add: f_def)
  have own: "held (e_fds s) m f" "ingest_no c \<in> set (numbers c)" if "fd = Some m" for m
    using that step ok(2) by (cases "ingestPipe c"; auto simp: ingest_ok_at_def f_def numbers_def)+
  have d: "ingestPipe c = None \<or> supplyPipe c = None \<or> supply_no c \<noteq> ingest_no c" using ok(3) by (auto simp: numbers_def)
  have sup: "supply_ok_at t' p c \<Longrightarrow> supply_ok_at t' p c'" for t' p
    using step by (auto simp: supply_ok_at_def split: option.splits)
  have ing: "ingest_ok_at (fd_close m (e_fds s)) (e_pipes s) c'" if "fd = Some m" for m
    using step that ok(2) close_end(3,4,5) [OF t own(1) [OF that] f(1)]
    by (cases "ingestPipe c") (auto simp: ingest_ok_at_def f_def)
  show ?thesis
  proof (rule close_move [OF inv i, of fd f])
    show "held (e_fds s) m f \<and> is_pipe f \<and> pipe_no f \<in> set (numbers c)" if "fd = Some m" for m using own [OF that] f by simp
    show "supply_ok_at (e_fds s) (e_pipes s) c' \<and> ingest_ok_at (e_fds s) (e_pipes s) c'" if "fd = None"
      using that step ok(2) sup [OF ok(1)] by (auto simp: ingest_ok_at_def)
    show "supply_ok_at (fd_close m (e_fds s)) (e_pipes s) c' \<and> ingest_ok_at (fd_close m (e_fds s)) (e_pipes s) c'" if m: "fd = Some m" for m
    proof -
      have "ingestPipe c \<noteq> None" using step m by (cases "ingestPipe c") auto
      then have "supplyPipe c = None \<or> supply_no c \<noteq> pipe_no f" using d f(2) by force
      with other_pipe(1) [OF t own(1) [OF m] f(1) ok(3) ok(1)] show ?thesis using ing [OF m] sup by blast
    qed
  qed (use step in \<open>auto simp: forked_pc_def\<close>)
qed

lemma other_threads_inv:
  assumes inv: "spawn_inv s" and t: "table_ok (e_pipes s) t'" and f: "frame (e_fds s) (e_pipes s) t' (e_pipes s) {}"
  shows "spawn_inv (s\<lparr>e_fds := t'\<rparr>)"
  using inv t frame_keeps [OF f] unfolding spawn_inv_def by auto

lemma spawn_step_inv:
  assumes "spawn_step ok s s'" and inv: "spawn_inv s"
  shows "spawn_inv s'"
proof -
  have t: "table_ok (e_pipes s) (e_fds s)" using inv by (simp add: spawn_inv_def)
  from assms(1) show ?thesis
  proof cases
    case (call argv si so)
    let ?n = "new_call argv si so"
    have "supply_ok_at (e_fds s) (e_pipes s) ?n" "ingest_ok_at (e_fds s) (e_pipes s) ?n" "numbers ?n = []"
      by (simp_all add: new_call_def supply_ok_at_def ingest_ok_at_def numbers_def)
    with inv show ?thesis unfolding call spawn_inv_def by (auto simp: nth_append less_Suc_eq)
  next
    case (opens_file path)
    obtain m t' where a: "fd_alloc (File_Write path) False (e_fds s) = (m, t')" by fastforce
    show ?thesis
      using other_threads_inv [OF inv table_ok_file(1) [OF t a] frame_file [OF t a]] by (simp add: opens_file a)
  next
    case (closes_file n e path)
    have "frame (e_fds s) (e_pipes s) (fd_close n (e_fds s)) (e_pipes s) {}"
      using closes_file by (intro frame_close [OF t]) auto
    then show ?thesis unfolding closes_file(1) by (rule other_threads_inv [OF inv table_ok_close(1) [OF t closes_file(2,4)]])
  next
    case (close_read i c)
    then show ?thesis using close_supply_end_inv [OF inv] by blast
  next
    case (caller_closes_supply i c)
    then show ?thesis using close_supply_end_inv [OF inv] by blast
  next
    case (close_write i c)
    then show ?thesis using close_ingest_end_inv [OF inv] by blast
  next
    case (caller_closes_ingest i c)
    then show ?thesis using close_ingest_end_inv [OF inv] by blast
  qed (use supply_pipe_inv [OF inv] ingest_pipe_inv [OF inv] fork_inv [OF inv] throw_inv [OF inv] in \<open>auto simp: forked_pc_def\<close>)
qed

section \<open>Property\<close>

inductive spawn_reach :: "(string \<Rightarrow> bool) \<Rightarrow> fd_table \<Rightarrow> engine \<Rightarrow> bool" for ok t0 where
  start: "spawn_reach ok t0 (engine_start t0)"
| step: "spawn_reach ok t0 s \<Longrightarrow> spawn_step ok s s' \<Longrightarrow> spawn_reach ok t0 s'"

text \<open>The process starts with its standard descriptors open and without a pipe that would survive \<open>exec\<close>.\<close>

definition no_pipes :: "fd_table \<Rightarrow> bool" where
  "no_pipes t \<longleftrightarrow> (\<forall>n e. fd_get t n = Some e \<longrightarrow> \<not> is_pipe (refers e))"

lemma spawn_reach_inv:
  assumes "spawn_reach ok t0 s" and "std_open t0" and "no_pipes t0"
  shows "spawn_inv s"
  using assms
proof (induction rule: spawn_reach.induct)
  case start
  have "is_pipe f \<Longrightarrow> False" if "fd_get t0 n = Some e" "refers e = f" for n e f
    using start(2) that by (auto simp: no_pipes_def)
  with start show ?case by (auto simp: spawn_inv_def table_ok_def engine_start_def no_pipes_def)
next
  case (step s s')
  then show ?case using spawn_step_inv by blast
qed

definition parents_end :: "fd_table \<Rightarrow> nat option \<Rightarrow> open_file \<Rightarrow> bool" where
  "parents_end t fd f \<longleftrightarrow> (\<exists>n. fd = Some n \<and> (\<forall>m e. fd_get t m = Some e \<longrightarrow> (refers e = f \<longleftrightarrow> m = n)) \<and> fd_get t n \<noteq> None)"

lemma held_parents_end: "table_ok p t \<Longrightarrow> held t n f \<Longrightarrow> is_pipe f \<Longrightarrow> parents_end t (Some n) f"
  unfolding parents_end_def held_def table_ok_def by fastforce

text \<open>
  C30: no child holds another call's pipe. Whatever the interleaving of any number of \<open>subprocess\<close> calls,
  the program of each call runs with the read end of its own supply pipe as standard input, the write end
  of its own ingest pipe as standard output, and no other end of any pipe; and once a call has returned,
  the parent has the opposite ends, until its caller closes them, and no copy of the child's. So end of
  file always arrives, which is what the close-on-exec flag was added for.
\<close>

theorem children_isolated:
  assumes "spawn_reach ok t0 s" and "std_open t0" and "no_pipes t0"
  shows "(\<forall>(i, child) \<in> set (e_kids s). i < length (e_calls s) \<and> isolated (e_calls s ! i) child) \<and>
    (\<forall>c \<in> set (e_calls s). c_pc c = Connected \<longrightarrow>
       (c_in c \<longrightarrow> absent (Pipe_Read (supply_no c)) (e_fds s) \<and>
          (if supply_open c then parents_end (e_fds s) (map_option snd (supplyPipe c)) (Pipe_Write (supply_no c))
           else absent (Pipe_Write (supply_no c)) (e_fds s))) \<and>
       (c_out c \<longrightarrow> absent (Pipe_Write (ingest_no c)) (e_fds s) \<and>
          (if ingest_open c then parents_end (e_fds s) (map_option fst (ingestPipe c)) (Pipe_Read (ingest_no c))
           else absent (Pipe_Read (ingest_no c)) (e_fds s))))"
proof -
  have inv: "spawn_inv s" by (rule spawn_reach_inv [OF assms])
  then have t: "table_ok (e_pipes s) (e_fds s)" by (simp add: spawn_inv_def)
  have "c_in c \<longrightarrow> absent (Pipe_Read (supply_no c)) (e_fds s) \<and>
          (if supply_open c then parents_end (e_fds s) (map_option snd (supplyPipe c)) (Pipe_Write (supply_no c))
           else absent (Pipe_Write (supply_no c)) (e_fds s))" if "c \<in> set (e_calls s)" "c_pc c = Connected" for c
    using call_inv(1) [OF inv that(1)] that(2) held_parents_end [OF t]
    by (cases "supplyPipe c") (auto simp: supply_ok_at_def)
  moreover have "c_out c \<longrightarrow> absent (Pipe_Write (ingest_no c)) (e_fds s) \<and>
          (if ingest_open c then parents_end (e_fds s) (map_option fst (ingestPipe c)) (Pipe_Read (ingest_no c))
           else absent (Pipe_Read (ingest_no c)) (e_fds s))" if "c \<in> set (e_calls s)" "c_pc c = Connected" for c
    using call_inv(2) [OF inv that(1)] that(2) held_parents_end [OF t]
    by (cases "ingestPipe c") (auto simp: ingest_ok_at_def)
  moreover have "\<forall>(i, child) \<in> set (e_kids s). i < length (e_calls s) \<and> isolated (e_calls s ! i) child"
    using inv by (auto simp: spawn_inv_def)
  ultimately show ?thesis by blast
qed

text \<open>Two calls: the first opens its pipes, the second opens, forks and returns before the first forks.\<close>

lemma login_no_pipe: "no_pipes login_table"
  by (auto simp: no_pipes_def login_table_def fd_get_def nth_Cons' split: if_splits)

lemma spawn_reach_call: "spawn_reach ok t0 s \<Longrightarrow> spawn_reach ok t0 (s\<lparr>e_calls := e_calls s @ [new_call argv si so]\<rparr>)"
  by (erule spawn_reach.step) (rule spawn_step.call)

lemma spawn_reach_supply:
  "spawn_reach ok t0 s \<Longrightarrow> i < length (e_calls s) \<Longrightarrow> c_pc (e_calls s ! i) = At_supply_pipe \<Longrightarrow>
   spawn_reach ok t0 (open_supply i (e_calls s ! i) s)"
  by (erule spawn_reach.step) (rule spawn_step.supply_pipe, simp_all)

lemma spawn_reach_ingest:
  "spawn_reach ok t0 s \<Longrightarrow> i < length (e_calls s) \<Longrightarrow> c_pc (e_calls s ! i) = At_ingest_pipe \<Longrightarrow>
   spawn_reach ok t0 (open_ingest i (e_calls s ! i) s)"
  by (erule spawn_reach.step) (rule spawn_step.ingest_pipe, simp_all)

lemma spawn_reach_fork:
  "spawn_reach ok t0 s \<Longrightarrow> i < length (e_calls s) \<Longrightarrow> c_pc (e_calls s ! i) = At_fork \<Longrightarrow> pid \<noteq> -1 \<Longrightarrow>
   spawn_reach ok t0 (set_call i ((e_calls s ! i)\<lparr>c_pc := At_close_read, c_pid := pid\<rparr>)
      (s\<lparr>e_kids := e_kids s @ [(i, spawn_child ok (e_calls s ! i) (e_fds s))]\<rparr>))"
  by (erule spawn_reach.step) (rule spawn_step.fork, simp_all)

lemma open_supply_calls: "i < length (e_calls s) \<Longrightarrow> \<exists>x k. e_calls (open_supply i c s) =
    (e_calls s)[i := c\<lparr>supplyPipe := x, supply_no := k, c_pc := At_ingest_pipe\<rparr>]"
  by (cases "c_in c"; cases c) (auto simp: open_supply_def set_call_def Let_def split: prod.splits)

lemma open_ingest_calls: "i < length (e_calls s) \<Longrightarrow> \<exists>x k. e_calls (open_ingest i c s) =
    (e_calls s)[i := c\<lparr>ingestPipe := x, ingest_no := k, c_pc := At_fork\<rparr>]"
  by (cases "c_out c"; cases c) (auto simp: open_ingest_def set_call_def Let_def split: prod.splits)

lemma overlapping_calls_reachable:
  "\<exists>s. spawn_reach (\<lambda>_. True) login_table s \<and> c_pc (e_calls s ! 0) = At_ingest_pipe \<and> length (e_calls s) = 2 \<and> length (e_kids s) = 1"
proof -
  let ?ok = "\<lambda>_. True"
  define s1 where "s1 = (engine_start login_table)\<lparr>e_calls := [new_call [''./mapper''] True True, new_call [''./mapper''] True True]\<rparr>"
  have 1: "spawn_reach ?ok login_table s1"
    using spawn_reach_call [OF spawn_reach_call [OF spawn_reach.start]] by (simp add: s1_def engine_start_def)
  have l1: "e_calls s1 = [new_call [''./mapper''] True True, new_call [''./mapper''] True True]" "e_kids s1 = []"
    by (simp_all add: s1_def engine_start_def)
  define s2 where "s2 = open_supply 0 (e_calls s1 ! 0) s1"
  have 2: "spawn_reach ?ok login_table s2"
    unfolding s2_def by (rule spawn_reach_supply [OF 1]) (simp_all add: l1 new_call_def)
  obtain x k where l2: "e_calls s2 = (e_calls s1)[0 := (e_calls s1 ! 0)\<lparr>supplyPipe := x, supply_no := k, c_pc := At_ingest_pipe\<rparr>]"
    using open_supply_calls [of 0 s1 "e_calls s1 ! 0"] unfolding s2_def by (metis l1(1) length_greater_0_conv list.distinct(1))
  have len: "1 < length (e_calls s2)" by (simp add: l1 l2)
  define s3 where "s3 = open_supply 1 (e_calls s2 ! 1) s2"
  have 3: "spawn_reach ?ok login_table s3"
    unfolding s3_def by (rule spawn_reach_supply [OF 2]) (simp_all add: l1 l2 new_call_def)
  obtain x' k' where l3: "e_calls s3 = (e_calls s2)[1 := (e_calls s2 ! 1)\<lparr>supplyPipe := x', supply_no := k', c_pc := At_ingest_pipe\<rparr>]"
    using open_supply_calls [of 1 s2 "e_calls s2 ! 1"] len unfolding s3_def by blast
  have len: "1 < length (e_calls s2)" "1 < length (e_calls s3)" by (simp_all add: l1 l2 l3)
  define s4 where "s4 = open_ingest 1 (e_calls s3 ! 1) s3"
  have 4: "spawn_reach ?ok login_table s4"
    unfolding s4_def by (rule spawn_reach_ingest [OF 3]) (simp_all add: l1 l2 l3)
  obtain x'' k'' where l4: "e_calls s4 = (e_calls s3)[1 := (e_calls s3 ! 1)\<lparr>ingestPipe := x'', ingest_no := k'', c_pc := At_fork\<rparr>]"
    using open_ingest_calls [of 1 s3 "e_calls s3 ! 1"] len(2) unfolding s4_def by blast
  have "e_kids s4 = []"
    by (simp add: s4_def s3_def s2_def open_ingest_def open_supply_def set_call_def l1 Let_def split: prod.splits)
  then show ?thesis
    using spawn_reach_fork [OF 4, of 1 7] l1 l2 l3 l4
    by (intro exI conjI) (assumption | auto simp: set_call_def)+
qed

lemma children_isolated_witness:
  "\<exists>s :: engine. length (e_calls s) = 2 \<and> length (e_kids s) = 1 \<and>
    ((\<forall>(i, child) \<in> set (e_kids s). i < length (e_calls s) \<and> isolated (e_calls s ! i) child) \<and>
    (\<forall>c \<in> set (e_calls s). c_pc c = Connected \<longrightarrow>
       (c_in c \<longrightarrow> absent (Pipe_Read (supply_no c)) (e_fds s) \<and>
          (if supply_open c then parents_end (e_fds s) (map_option snd (supplyPipe c)) (Pipe_Write (supply_no c))
           else absent (Pipe_Write (supply_no c)) (e_fds s))) \<and>
       (c_out c \<longrightarrow> absent (Pipe_Write (ingest_no c)) (e_fds s) \<and>
          (if ingest_open c then parents_end (e_fds s) (map_option fst (ingestPipe c)) (Pipe_Read (ingest_no c))
           else absent (Pipe_Read (ingest_no c)) (e_fds s)))))"
proof -
  obtain s where r: "spawn_reach (\<lambda>_. True) login_table s" and l: "length (e_calls s) = 2" and k: "length (e_kids s) = 1"
    using overlapping_calls_reachable by blast
  show ?thesis
    by (rule exI [of _ s], rule conjI, rule l, rule conjI, rule k, rule children_isolated [OF r std_open_login login_no_pipe])
qed

end
