(* ===== verification/Farm.thy ===== *)
theory Farm
  imports Prelude "HOL-Library.Multiset"
begin

text \<open>
  \<open>farm.cc\<close>: the manager, its \<open>SIGCHLD\<close> handler and the self-halting workers of \<open>factor.py\<close>, interleaved at
  the grain of the manager's loads and stores. The handler runs between any two of them while it is installed
  (in \<open>getAvailableWorker\<close> and \<open>waitForAllWorkers\<close> the signal is blocked between the test and
  \<open>sigsuspend\<close>, so test and wait are one step here). \<open>numWorkersAvailable--\<close> is a load and a store, as the
  program is built without optimisation and SIGCHLD is not blocked there; \<open>workers[i] = worker(...)\<close> stores the pid before
  the flag; the search for an idle worker looks at one worker at a time. The handler's own \<open>numWorkersAvailable++\<close> runs
  while the manager does not. A later worker inherits the write ends of the earlier workers' pipes,
  so a worker sees end of file only when the manager has closed its end and all later workers are gone.
\<close>

section \<open>State\<close>

datatype worker_run = Unforked | Running | Halted | Resumed | Factoring int | Exited

text \<open>\<open>known\<close>: the pid has been stored in \<open>workers[i]\<close>, so the handler can find it. \<open>report\<close>: stopped, not yet
  seen by \<open>waitpid\<close>. \<open>inbox\<close>: numbers in the pipe. \<open>closed\<close>: the manager has closed its end.\<close>

record worker =
  run :: worker_run
  available :: bool
  known :: bool
  report :: bool
  inbox :: "int list"
  factored :: "int list"
  closed :: bool

datatype farm_pc =
    Forking nat | Assigning nat | Assigned nat
  | Reading_line | Waiting_worker int | Scanning nat int | Picked nat int | Marked nat int | Loaded nat int nat
  | Counted nat int | Written nat
  | Waiting_all | Closing nat | Conting nat | Joining nat
  | Finished | Aborted

text \<open>
  \<open>Loaded i x c\<close>: the decrement has loaded \<open>c\<close>. The last three fields only record what happened: \<open>lost\<close>, a stop
  was reported while the manager was spawning that worker (before the pid was stored, or between the pid and the flag); \<open>missed\<close>,
  how many of the handler's increments a store of the decrement has undone; \<open>stale\<close>, how many increments belong to
  a flag that the spawning has cleared again.
\<close>

record farm =
  pc :: farm_pc
  workers :: "worker list"
  numWorkersAvailable :: nat
  lines :: "string list"
  taken :: "int list"
  lost :: bool
  missed :: nat
  stale :: nat

definition no_worker :: worker where
  "no_worker = \<lparr>run = Unforked, available = False, known = False, report = False, inbox = [], factored = [], closed = False\<rparr>"

definition farm_start :: "nat \<Rightarrow> string list \<Rightarrow> farm" where
  "farm_start n ls = \<lparr>pc = Forking 0, workers = replicate n no_worker, numWorkersAvailable = 0, lines = ls, taken = [],
     lost = False, missed = 0, stale = 0\<rparr>"

definition set_worker :: "nat \<Rightarrow> (worker \<Rightarrow> worker) \<Rightarrow> farm \<Rightarrow> farm" where
  "set_worker i f s = s\<lparr>workers := (workers s)[i := f (workers s ! i)]\<rparr>"

text \<open>\<open>std::stoll\<close> with the position it stopped at; \<^term>\<open>None\<close> is an exception.\<close>

definition stoll :: "string \<Rightarrow> (int \<times> nat) option" where
  "stoll s = (let sp = takeWhile isspace s; rest = dropWhile isspace s; (neg, r) = scan_sign rest; ds = takeWhile isdigit r;
       v = (if neg then - int (dec_nat ds) else int (dec_nat ds))
     in if ds = [] \<or> v < - (2 ^ 63) \<or> v \<ge> 2 ^ 63 then None
        else Some (v, length sp + (length rest - length r) + length ds))"

text \<open>\<open>kill(pid, SIGCONT)\<close>: a stopped worker goes on; a stop that was not yet reported no longer is.\<close>

definition sigcont :: "worker \<Rightarrow> worker" where
  "sigcont w = (if run w = Halted then w\<lparr>run := Resumed, report := False\<rparr> else w)"

text \<open>One turn of the handler's loop for the stopped worker \<open>i\<close>.\<close>

definition handle_stop :: "nat \<Rightarrow> farm \<Rightarrow> farm" where
  "handle_stop i s =
     (let w = workers s ! i; s = set_worker i (\<lambda>w. w\<lparr>report := False\<rparr>) s
      in if known w \<and> \<not> available w
         then set_worker i (\<lambda>w. w\<lparr>available := True\<rparr>) s\<lparr>numWorkersAvailable := numWorkersAvailable s + 1\<rparr>
         else s\<lparr>lost := True\<rparr>)"

definition handler_installed :: "farm_pc \<Rightarrow> bool" where
  "handler_installed p \<longleftrightarrow> (case p of Closing _ \<Rightarrow> False | Conting _ \<Rightarrow> False | Joining _ \<Rightarrow> False | Finished \<Rightarrow> False | _ \<Rightarrow> True)"

definition read_line :: "farm \<Rightarrow> farm" where
  "read_line s = (case lines s of
       [] \<Rightarrow> s\<lparr>pc := Waiting_all\<rparr>
     | l # ls \<Rightarrow> (case stoll l of
           None \<Rightarrow> s\<lparr>pc := Aborted\<rparr>
         | Some (num, endpos) \<Rightarrow>
             if endpos \<noteq> length l then s\<lparr>pc := Waiting_all, lines := ls\<rparr>
             else s\<lparr>pc := Waiting_worker num, lines := ls, taken := taken s @ [num]\<rparr>))"

text \<open>The last store of \<open>workers[i] = worker(...)\<close> clears a flag that the handler may just have set.\<close>

definition store_flag :: "nat \<Rightarrow> farm \<Rightarrow> farm" where
  "store_flag i s =
     (let s' = set_worker i (\<lambda>w. w\<lparr>available := False\<rparr>) s
      in if available (workers s ! i) then s'\<lparr>lost := True, stale := stale s + 1\<rparr> else s')"

section \<open>Steps\<close>

text \<open>The manager's next load, store or system call; \<^term>\<open>None\<close> when it has to wait.\<close>

definition manager :: "farm \<Rightarrow> farm option" where
  "manager s = (let n = length (workers s) in case pc s of
       Forking i \<Rightarrow> if i < n then Some (set_worker i (\<lambda>w. w\<lparr>run := Running\<rparr>) s\<lparr>pc := Assigning i\<rparr>) else Some (s\<lparr>pc := Reading_line\<rparr>)
     | Assigning i \<Rightarrow> Some (set_worker i (\<lambda>w. w\<lparr>known := True\<rparr>) s\<lparr>pc := Assigned i\<rparr>)
     | Assigned i \<Rightarrow> Some (store_flag i s\<lparr>pc := Forking (i + 1)\<rparr>)
     | Reading_line \<Rightarrow> Some (read_line s)
     | Waiting_worker num \<Rightarrow> if numWorkersAvailable s = 0 then None else Some (s\<lparr>pc := Scanning 0 num\<rparr>)
     | Scanning i num \<Rightarrow> Some (s\<lparr>pc := if i < n then if available (workers s ! i) then Picked i num else Scanning (i + 1) num else Aborted\<rparr>)
     | Picked i num \<Rightarrow> Some (set_worker i (\<lambda>w. w\<lparr>available := False\<rparr>) s\<lparr>pc := Marked i num\<rparr>)
     | Marked i num \<Rightarrow> Some (s\<lparr>pc := Loaded i num (numWorkersAvailable s)\<rparr>)
     | Loaded i num c \<Rightarrow>
         Some (s\<lparr>numWorkersAvailable := c - 1, missed := missed s + (numWorkersAvailable s - c), pc := Counted i num\<rparr>)
     | Counted i num \<Rightarrow> Some (set_worker i (\<lambda>w. w\<lparr>inbox := inbox w @ [num]\<rparr>) s\<lparr>pc := Written i\<rparr>)
     | Written i \<Rightarrow> Some (set_worker i sigcont s\<lparr>pc := Reading_line\<rparr>)
     | Waiting_all \<Rightarrow> if numWorkersAvailable s < n then None else Some (s\<lparr>pc := Closing 0\<rparr>)
     | Closing i \<Rightarrow> if i < n then Some (set_worker i (\<lambda>w. w\<lparr>closed := True\<rparr>) s\<lparr>pc := Conting i\<rparr>) else Some (s\<lparr>pc := Joining 0\<rparr>)
     | Conting i \<Rightarrow> Some (set_worker i sigcont s\<lparr>pc := Closing (i + 1)\<rparr>)
     | Joining i \<Rightarrow>
         if i < n then if run (workers s ! i) = Exited then Some (s\<lparr>pc := Joining (i + 1)\<rparr>) else None
         else Some (s\<lparr>pc := Finished\<rparr>)
     | Finished \<Rightarrow> None
     | Aborted \<Rightarrow> None)"

definition eof_at :: "nat \<Rightarrow> worker list \<Rightarrow> bool" where
  "eof_at i ws \<longleftrightarrow> closed (ws ! i) \<and> list_all (\<lambda>j. run (ws ! j) = Exited) [Suc i..<length ws]"

inductive farm_step :: "farm \<Rightarrow> farm \<Rightarrow> bool" where
  manager_moves: "manager s = Some s' \<Longrightarrow> farm_step s s'"
| fork_fails: "pc s = Forking i \<Longrightarrow> i < length (workers s) \<Longrightarrow> farm_step s (s\<lparr>pc := Aborted\<rparr>)"
| halts: "pc s \<noteq> Aborted \<Longrightarrow> i < length (workers s) \<Longrightarrow> run (workers s ! i) = Running \<Longrightarrow>
    farm_step s (set_worker i (\<lambda>w. w\<lparr>run := Halted, report := True\<rparr>) s)"
| handler: "pc s \<noteq> Aborted \<Longrightarrow> handler_installed (pc s) \<Longrightarrow> i < length (workers s) \<Longrightarrow> report (workers s ! i) \<Longrightarrow>
    farm_step s (handle_stop i s)"
| reads: "pc s \<noteq> Aborted \<Longrightarrow> i < length (workers s) \<Longrightarrow> run (workers s ! i) = Resumed \<Longrightarrow> inbox (workers s ! i) = x # xs \<Longrightarrow>
    farm_step s (set_worker i (\<lambda>w. w\<lparr>run := Factoring x, inbox := xs\<rparr>) s)"
| factors: "pc s \<noteq> Aborted \<Longrightarrow> i < length (workers s) \<Longrightarrow> run (workers s ! i) = Factoring x \<Longrightarrow>
    farm_step s (set_worker i (\<lambda>w. w\<lparr>run := Running, factored := factored w @ [x]\<rparr>) s)"
| sees_eof: "pc s \<noteq> Aborted \<Longrightarrow> i < length (workers s) \<Longrightarrow> run (workers s ! i) = Resumed \<Longrightarrow> inbox (workers s ! i) = [] \<Longrightarrow>
    eof_at i (workers s) \<Longrightarrow> farm_step s (set_worker i (\<lambda>w. w\<lparr>run := Exited\<rparr>) s)"

inductive farm_reach :: "nat \<Rightarrow> string list \<Rightarrow> farm \<Rightarrow> bool" for n ls where
  start: "farm_reach n ls (farm_start n ls)"
| step: "farm_reach n ls s \<Longrightarrow> farm_step s s' \<Longrightarrow> farm_reach n ls s'"

section \<open>Invariant\<close>

fun holder :: "farm_pc \<Rightarrow> nat option" where
  "holder (Picked i x) = Some i"
| "holder (Marked i x) = Some i"
| "holder (Loaded i x c) = Some i"
| "holder (Counted i x) = Some i"
| "holder (Written i) = Some i"
| "holder p = None"

fun in_hand :: "farm_pc \<Rightarrow> int list" where
  "in_hand (Waiting_worker x) = [x]"
| "in_hand (Scanning i x) = [x]"
| "in_hand (Picked i x) = [x]"
| "in_hand (Marked i x) = [x]"
| "in_hand (Loaded i x c) = [x]"
| "in_hand (Counted i x) = [x]"
| "in_hand p = []"

fun forked_upto :: "nat \<Rightarrow> farm_pc \<Rightarrow> nat" where
  "forked_upto n (Forking k) = k"
| "forked_upto n (Assigning k) = Suc k"
| "forked_upto n (Assigned k) = Suc k"
| "forked_upto n p = n"

fun known_upto :: "nat \<Rightarrow> farm_pc \<Rightarrow> nat" where
  "known_upto n (Forking k) = k"
| "known_upto n (Assigning k) = k"
| "known_upto n (Assigned k) = Suc k"
| "known_upto n p = n"

fun closed_upto :: "nat \<Rightarrow> farm_pc \<Rightarrow> nat" where
  "closed_upto n (Closing k) = k"
| "closed_upto n (Conting k) = Suc k"
| "closed_upto n (Joining k) = n"
| "closed_upto n Finished = n"
| "closed_upto n p = 0"

fun resumed_upto :: "nat \<Rightarrow> farm_pc \<Rightarrow> nat" where
  "resumed_upto n (Closing k) = k"
| "resumed_upto n (Conting k) = k"
| "resumed_upto n (Joining k) = n"
| "resumed_upto n Finished = n"
| "resumed_upto n p = 0"

fun pc_ok :: "nat \<Rightarrow> farm_pc \<Rightarrow> bool" where
  "pc_ok n (Forking k) = (k \<le> n)"
| "pc_ok n (Assigning k) = (k < n)"
| "pc_ok n (Assigned k) = (k < n)"
| "pc_ok n (Scanning i x) = (i \<le> n)"
| "pc_ok n (Picked i x) = (i < n)"
| "pc_ok n (Marked i x) = (i < n)"
| "pc_ok n (Loaded i x c) = (i < n)"
| "pc_ok n (Counted i x) = (i < n)"
| "pc_ok n (Written i) = (i < n)"
| "pc_ok n (Closing k) = (k \<le> n)"
| "pc_ok n (Conting k) = (k < n)"
| "pc_ok n (Joining k) = (k \<le> n)"
| "pc_ok n p = True"

text \<open>What a worker can be like, by where the manager is.\<close>

definition busy :: "worker \<Rightarrow> bool" where
  "busy w \<longleftrightarrow> \<not> available w \<and> \<not> report w \<and> (case run w of
       Running \<Rightarrow> inbox w = []
     | Factoring x \<Rightarrow> inbox w = []
     | Resumed \<Rightarrow> length (inbox w) = 1
     | _ \<Rightarrow> False)"

definition idle :: "worker \<Rightarrow> bool" where
  "idle w \<longleftrightarrow> available w \<and> \<not> report w \<and> run w = Halted \<and> inbox w = [] \<and> known w"

definition serving :: "farm_pc \<Rightarrow> nat \<Rightarrow> bool \<Rightarrow> worker \<Rightarrow> bool" where
  "serving p i lst w \<longleftrightarrow>
     (if holder p = Some i
      then case p of
          Picked j x \<Rightarrow> idle w
        | Written j \<Rightarrow> \<not> available w \<and> \<not> report w \<and> run w = Halted \<and> length (inbox w) = 1
        | _ \<Rightarrow> \<not> available w \<and> \<not> report w \<and> run w = Halted \<and> inbox w = []
      else idle w \<or> busy w \<or>
        \<not> available w \<and> run w = Halted \<and> inbox w = [] \<and> (report w \<or> lst))"

text \<open>When the count was too high the manager leaves with some workers not idle.\<close>

definition drifting :: "worker \<Rightarrow> bool" where
  "drifting w \<longleftrightarrow> (report w \<longrightarrow> run w = Halted) \<and>
     (case run w of Unforked \<Rightarrow> False | Resumed \<Rightarrow> length (inbox w) \<le> 1 | _ \<Rightarrow> inbox w = [])"

definition leaving :: "nat \<Rightarrow> farm_pc \<Rightarrow> nat \<Rightarrow> bool \<Rightarrow> worker \<Rightarrow> bool" where
  "leaving n p i lst w \<longleftrightarrow>
     (if lst then drifting w
      else available w \<and> \<not> report w \<and> inbox w = [] \<and>
        (if i < resumed_upto n p then run w \<in> {Resumed, Exited} else run w = Halted))"

definition worker_ok :: "nat \<Rightarrow> farm_pc \<Rightarrow> bool \<Rightarrow> nat \<Rightarrow> worker \<Rightarrow> bool" where
  "worker_ok n p lst i w \<longleftrightarrow> p = Aborted \<or>
     (if i < forked_upto n p
      then (known w \<longleftrightarrow> i < known_upto n p) \<and> (closed w \<longleftrightarrow> i < closed_upto n p) \<and>
        (if handler_installed p then serving p i lst w else leaving n p i lst w)
      else w = no_worker)"

definition numbers_of :: "worker \<Rightarrow> int list" where
  "numbers_of w = inbox w @ (case run w of Factoring x \<Rightarrow> [x] | _ \<Rightarrow> []) @ factored w"

definition idle_count :: "worker list \<Rightarrow> nat" where
  "idle_count ws = length (filter available ws)"

fun owed :: "farm_pc \<Rightarrow> nat" where
  "owed (Marked i x) = 1"
| "owed (Loaded i x c) = 1"
| "owed p = 0"

fun count_ok :: "farm_pc \<Rightarrow> nat \<Rightarrow> bool" where
  "count_ok (Scanning i x) m = (1 \<le> m)"
| "count_ok (Picked i x) m = (1 \<le> m)"
| "count_ok (Marked i x) m = (1 \<le> m)"
| "count_ok (Loaded i x c) m = (1 \<le> c \<and> c \<le> m)"
| "count_ok p m = True"

definition counts_ok :: "farm_pc \<Rightarrow> nat \<Rightarrow> worker list \<Rightarrow> bool \<Rightarrow> nat \<Rightarrow> nat \<Rightarrow> bool" where
  "counts_ok p m ws lst ms st \<longleftrightarrow>
     m + ms = idle_count ws + st + owed p \<and> count_ok p m \<and> (st \<noteq> 0 \<longrightarrow> lst) \<and>
     (\<forall>k x. p = Scanning k x \<longrightarrow> lst \<or> (\<exists>j \<in> {k..<length ws}. available (ws ! j)))"

definition farm_inv :: "nat \<Rightarrow> farm \<Rightarrow> bool" where
  "farm_inv n s \<longleftrightarrow> length (workers s) = n \<and> pc_ok n (pc s) \<and>
     (\<forall>i < n. worker_ok n (pc s) (lost s) i (workers s ! i)) \<and>
     counts_ok (pc s) (numWorkersAvailable s) (workers s) (lost s) (missed s) (stale s) \<and>
     (pc s \<noteq> Aborted \<longrightarrow> mset (taken s) = mset (in_hand (pc s)) + mset (concat (map numbers_of (workers s)))) \<and>
     (pc s = Finished \<longrightarrow> (\<forall>w \<in> set (workers s). run w = Exited)) \<and>
     (\<forall>k. pc s = Joining k \<longrightarrow> (\<forall>i < k. run (workers s ! i) = Exited))"

lemma idle_count_update:
  "i < length ws \<Longrightarrow> idle_count (ws[i := w]) + (if available (ws ! i) then 1 else 0) = idle_count ws + (if available w then 1 else 0)"
  using length_filter_update [of i ws available w] by (simp add: idle_count_def of_bool_def)

lemma numbers_update:
  "i < length ws \<Longrightarrow> mset (concat (map numbers_of (ws[i := w]))) + mset (numbers_of (ws ! i)) =
    mset (concat (map numbers_of ws)) + mset (numbers_of w)"
proof (induction ws arbitrary: i)
  case (Cons v ws)
  then show ?case by (cases i) (auto simp: ac_simps)
qed simp

lemma balance:
  fixes taken' :: "int multiset"
  assumes "c' + w = c + w'" and "taken' = h + c" and "h' + w' = h + w"
  shows "taken' = h' + c'"
proof -
  have "(h' + c') + (w + w') = (h' + w') + (c' + w)" by (simp add: ac_simps)
  also have "\<dots> = (h + w) + (c + w')" by (simp only: assms)
  also have "\<dots> = (h + c) + (w + w')" by (simp add: ac_simps)
  finally show ?thesis using assms(2) by simp
qed

lemma counts_move:
  assumes "counts_ok p m ws lst0 ms0 st0" and "i < length ws"
    and "c + ms + (if available (ws ! i) then 1 else 0) + owed p + st0 = m + ms0 + (if available w' then 1 else 0) + owed p' + st"
    and "count_ok p' c" and "st \<noteq> 0 \<longrightarrow> lst" and "\<And>k x. p' \<noteq> Scanning k x"
  shows "counts_ok p' c (ws[i := w']) lst ms st"
  using idle_count_update [OF assms(2), of w'] assms by (auto simp: counts_ok_def)

text \<open>Nothing changes for the counts when no flag does.\<close>

lemma counts_same: "map available ws' = map available ws \<Longrightarrow> counts_ok p m ws lst ms st \<Longrightarrow> counts_ok p m ws' lst ms st"
proof -
  assume eq: "map available ws' = map available ws"
  then have "length ws' = length ws" "\<And>j. j < length ws \<Longrightarrow> available (ws' ! j) = available (ws ! j)"
    using map_eq_imp_length_eq [OF eq] nth_map by metis+
  moreover have "idle_count vs = length (filter id (map available vs))" for vs
    by (simp add: idle_count_def filter_map comp_def)
  then have "idle_count ws' = idle_count ws" by (simp only: eq)
  ultimately show "counts_ok p m ws lst ms st \<Longrightarrow> counts_ok p m ws' lst ms st" by (auto simp: counts_ok_def)
qed

lemma counts_lost: "counts_ok p m ws lst ms st \<Longrightarrow> counts_ok p m ws True ms st"
  by (auto simp: counts_ok_def)

text \<open>The handler marks a worker.\<close>

lemma counts_mark:
  assumes "counts_ok p m ws lst ms st" and "i < length ws" and "\<not> available (ws ! i)" and "available w'"
  shows "counts_ok p (m + 1) (ws[i := w']) lst ms st"
proof -
  have "count_ok p m \<Longrightarrow> count_ok p (m + 1)" by (cases p) simp_all
  moreover have "\<exists>j \<in> {k..<length ws}. available (ws[i := w'] ! j)" if "\<exists>j \<in> {k..<length ws}. available (ws ! j)" for k
    using that assms(2,4) by (metis nth_list_update)
  moreover have "m + 1 + ms = idle_count (ws[i := w']) + st + owed p"
    using idle_count_update [OF assms(2), of w'] assms by (simp add: counts_ok_def)
  ultimately show ?thesis using assms(1) unfolding counts_ok_def length_list_update by blast
qed

text \<open>One worker changes from \<open>w\<close> to \<open>w'\<close> while the manager goes from \<open>p\<close> to \<open>p'\<close>.\<close>

lemma worker_moves:
  assumes inv: "farm_inv n s" and na: "pc s \<noteq> Aborted" and i: "i < n"
    and here: "worker_ok n p' lst i w'"
    and others: "\<And>j w. j < n \<Longrightarrow> j \<noteq> i \<Longrightarrow> worker_ok n (pc s) (lost s) j w \<Longrightarrow> worker_ok n p' lst j w"
    and cnt: "counts_ok p' c ((workers s)[i := w']) lst ms st"
    and nums: "mset (in_hand p') + mset (numbers_of w') = mset (in_hand (pc s)) + mset (numbers_of (workers s ! i))"
    and p': "pc_ok n p'" "p' \<noteq> Finished" "\<And>k. p' = Joining k \<Longrightarrow> pc s = Joining k \<and> (run (workers s ! i) = Exited \<longrightarrow> run w' = Exited)"
  shows "farm_inv n (s\<lparr>pc := p', workers := (workers s)[i := w'], numWorkersAvailable := c, lost := lst, missed := ms, stale := st\<rparr>)"
proof -
  have len: "length (workers s) = n" using inv by (simp add: farm_inv_def)
  have "worker_ok n p' lst j ((workers s)[i := w'] ! j)" if "j < n" for j
    using that here others inv i len by (cases "j = i") (auto simp: farm_inv_def)
  moreover have "mset (taken s) = mset (in_hand p') + mset (concat (map numbers_of ((workers s)[i := w'])))"
  proof -
    let ?C = "mset (concat (map numbers_of (workers s)))" and ?C' = "mset (concat (map numbers_of ((workers s)[i := w'])))"
    have "?C' + mset (numbers_of (workers s ! i)) = ?C + mset (numbers_of w')"
      using numbers_update [of i "workers s" w'] i len by blast
    moreover have "mset (taken s) = mset (in_hand (pc s)) + ?C" using inv na by (simp add: farm_inv_def)
    ultimately show ?thesis using nums by (rule balance)
  qed
  moreover have "run ((workers s)[i := w'] ! j) = Exited" if "p' = Joining k" "j < k" for k j
    using p'(3) [OF that(1)] that(2) inv len i by (cases "j = i") (auto simp: farm_inv_def)
  ultimately show ?thesis using len p' cnt by (simp add: farm_inv_def)
qed

text \<open>The manager moves on and no worker changes.\<close>

lemma manager_only:
  assumes inv: "farm_inv n s" and all: "\<And>j. j < n \<Longrightarrow> worker_ok n p' (lost s) j (workers s ! j)"
    and cnt: "counts_ok p' c (workers s) (lost s) ms (stale s)"
    and nums: "p' \<noteq> Aborted \<Longrightarrow> mset tk + mset (in_hand (pc s)) = mset (taken s) + mset (in_hand p')"
    and na: "pc s \<noteq> Aborted" and p': "pc_ok n p'" "p' = Finished \<Longrightarrow> \<forall>w \<in> set (workers s). run w = Exited"
      "\<And>k. p' = Joining k \<Longrightarrow> \<forall>i < k. run (workers s ! i) = Exited"
  shows "farm_inv n (s\<lparr>pc := p', numWorkersAvailable := c, lines := ls, taken := tk, missed := ms\<rparr>)"
proof -
  have "p' \<noteq> Aborted \<longrightarrow> mset tk = mset (in_hand p') + mset (concat (map numbers_of (workers s)))"
    using nums inv na by (auto simp: farm_inv_def)
  then show ?thesis using inv all cnt p' by (simp add: farm_inv_def)
qed

lemma worker_ok_lost: "worker_ok n p False i w \<Longrightarrow> worker_ok n p lst i w"
proof (cases lst)
  case True
  have "serving p i False w \<Longrightarrow> serving p i True w" unfolding serving_def by (simp split: if_splits) blast
  moreover have "leaving n p i False w \<Longrightarrow> leaving n p i True w"
    unfolding leaving_def drifting_def by (auto split: if_splits)
  moreover assume "worker_ok n p False i w"
  ultimately show ?thesis using True unfolding worker_ok_def by (auto split: if_splits)
qed simp

lemma counts_at: "farm_inv n s \<Longrightarrow> counts_ok (pc s) (numWorkersAvailable s) (workers s) (lost s) (missed s) (stale s)"
  unfolding farm_inv_def by (elim conjE)

lemma length_workers: "farm_inv n s \<Longrightarrow> length (workers s) = n"
  unfolding farm_inv_def by (elim conjE)

lemma worker_at: "farm_inv n s \<Longrightarrow> i < n \<Longrightarrow> worker_ok n (pc s) (lost s) i (workers s ! i)"
  by (simp add: farm_inv_def)

lemmas worker_defs = worker_ok_def serving_def leaving_def drifting_def busy_def idle_def no_worker_def handler_installed_def numbers_of_def

lemma set_worker_update: "set_worker i f s\<lparr>pc := p\<rparr> = s\<lparr>pc := p, workers := (workers s)[i := f (workers s ! i)],
    numWorkersAvailable := numWorkersAvailable s, lost := lost s, missed := missed s, stale := stale s\<rparr>"
  by (simp add: set_worker_def)

lemma not_finished: "farm_inv n s \<Longrightarrow> i < n \<Longrightarrow> run (workers s ! i) \<noteq> Exited \<Longrightarrow> pc s \<noteq> Finished"
  by (auto simp: farm_inv_def)

text \<open>A worker moves by itself and the manager does not.\<close>

lemma worker_alone:
  assumes inv: "farm_inv n s" and na: "pc s \<noteq> Aborted" and i: "i < n" and ne: "run (workers s ! i) \<noteq> Exited"
    and here: "worker_ok n (pc s) (lost s) i (f (workers s ! i))"
    and same: "available (f (workers s ! i)) = available (workers s ! i)" "mset (numbers_of (f (workers s ! i))) = mset (numbers_of (workers s ! i))"
  shows "farm_inv n (set_worker i f s)"
proof -
  have len: "i < length (workers s)" using i length_workers [OF inv] by simp
  have "map available ((workers s)[i := f (workers s ! i)]) = map available (workers s)"
    using same(1) len by (simp add: map_update list_update_same_conv)
  then have "counts_ok (pc s) (numWorkersAvailable s) ((workers s)[i := f (workers s ! i)]) (lost s) (missed s) (stale s)"
    using counts_at [OF inv] by (rule counts_same)
  then have "farm_inv n (s\<lparr>pc := pc s, workers := (workers s)[i := f (workers s ! i)],
      numWorkersAvailable := numWorkersAvailable s, lost := lost s, missed := missed s, stale := stale s\<rparr>)"
    using inv same ne not_finished [OF inv i ne] by (intro worker_moves [OF inv na i here]) (auto simp: farm_inv_def)
  then show ?thesis by (simp add: set_worker_def)
qed

lemma halts_inv:
  assumes inv: "farm_inv n s" and "pc s \<noteq> Aborted" and i: "i < n" and r: "run (workers s ! i) = Running"
  shows "farm_inv n (set_worker i (\<lambda>w. w\<lparr>run := Halted, report := True\<rparr>) s)"
  using worker_at [OF inv i] r assms(2)
  by (intro worker_alone [OF inv assms(2) i]) (auto simp: worker_defs split: if_splits farm_pc.splits)

lemma reads_inv:
  assumes inv: "farm_inv n s" and "pc s \<noteq> Aborted" and i: "i < n" and r: "run (workers s ! i) = Resumed"
    and x: "inbox (workers s ! i) = x # xs"
  shows "farm_inv n (set_worker i (\<lambda>w. w\<lparr>run := Factoring x, inbox := xs\<rparr>) s)"
  using worker_at [OF inv i] r x assms(2)
  by (intro worker_alone [OF inv assms(2) i]) (auto simp: worker_defs split: if_splits farm_pc.splits)

lemma factors_inv:
  assumes inv: "farm_inv n s" and "pc s \<noteq> Aborted" and i: "i < n" and r: "run (workers s ! i) = Factoring x"
  shows "farm_inv n (set_worker i (\<lambda>w. w\<lparr>run := Running, factored := factored w @ [x]\<rparr>) s)"
  using worker_at [OF inv i] r assms(2)
  by (intro worker_alone [OF inv assms(2) i]) (auto simp: worker_defs split: if_splits farm_pc.splits)

lemma eof_inv:
  assumes inv: "farm_inv n s" and "pc s \<noteq> Aborted" and i: "i < n" and r: "run (workers s ! i) = Resumed"
    and e: "inbox (workers s ! i) = []"
  shows "farm_inv n (set_worker i (\<lambda>w. w\<lparr>run := Exited\<rparr>) s)"
  using worker_at [OF inv i] r e assms(2)
  by (intro worker_alone [OF inv assms(2) i]) (auto simp: worker_defs split: if_splits farm_pc.splits)

lemma handler_inv:
  assumes inv: "farm_inv n s" and "pc s \<noteq> Aborted" "handler_installed (pc s)" and i: "i < n" and r: "report (workers s ! i)"
  shows "farm_inv n (handle_stop i s)"
proof -
  let ?w = "workers s ! i"
  have len: "length (workers s) = n" by (rule length_workers [OF inv])
  have w: "\<not> available ?w" "run ?w = Halted" "inbox ?w = []" "holder (pc s) \<noteq> Some i" "i < forked_upto n (pc s)"
      "known ?w \<longleftrightarrow> i < known_upto n (pc s)" "closed ?w \<longleftrightarrow> i < closed_upto n (pc s)"
    using worker_at [OF inv i] r assms(2,3) by (auto simp: worker_defs split: if_splits farm_pc.splits)
  have nf: "pc s \<noteq> Finished" using not_finished [OF inv i] w by simp
  have nj: "pc s \<noteq> Joining k" for k using assms(3) by (auto simp: handler_installed_def)
  have pk: "pc_ok n (pc s)" using inv by (simp add: farm_inv_def)
  show ?thesis
  proof (cases "known ?w")
    case True
    let ?w' = "?w\<lparr>report := False, available := True\<rparr>"
    have "worker_ok n (pc s) (lost s) i ?w'"
      using w assms(3) True unfolding worker_ok_def serving_def idle_def by simp
    moreover have "counts_ok (pc s) (numWorkersAvailable s + 1) ((workers s)[i := ?w']) (lost s) (missed s) (stale s)"
      using counts_mark [OF counts_at [OF inv]] i len w(1) by simp
    ultimately have "farm_inv n (s\<lparr>pc := pc s, workers := (workers s)[i := ?w'], numWorkersAvailable := numWorkersAvailable s + 1,
        lost := lost s, missed := missed s, stale := stale s\<rparr>)"
      using nf nj pk by (intro worker_moves [OF inv assms(2) i]) (auto simp: numbers_of_def)
    then show ?thesis using True w(1) i len by (simp add: handle_stop_def set_worker_def Let_def)
  next
    case False
    let ?w' = "?w\<lparr>report := False\<rparr>"
    have "worker_ok n (pc s) True i ?w'"
      using w assms(3) False unfolding worker_ok_def serving_def by simp
    moreover have "worker_ok n (pc s) True j v" if "worker_ok n (pc s) (lost s) j v" for j v
      using that worker_ok_lost by (cases "lost s") auto
    moreover have "map available ((workers s)[i := ?w']) = map available (workers s)"
      using i len by (simp add: map_update list_update_same_conv)
    then have "counts_ok (pc s) (numWorkersAvailable s) ((workers s)[i := ?w']) True (missed s) (stale s)"
      using counts_same counts_lost [OF counts_at [OF inv]] by blast
    ultimately have "farm_inv n (s\<lparr>pc := pc s, workers := (workers s)[i := ?w'], numWorkersAvailable := numWorkersAvailable s,
        lost := True, missed := missed s, stale := stale s\<rparr>)"
      using nf nj pk by (intro worker_moves [OF inv assms(2) i]) (auto simp: numbers_of_def)
    then show ?thesis using False w(1) i len by (simp add: handle_stop_def set_worker_def Let_def)
  qed
qed

section \<open>The manager's steps\<close>

lemma idle_count_zero: "idle_count ws = 0 \<longleftrightarrow> (\<forall>w \<in> set ws. \<not> available w)"
  by (simp add: idle_count_def filter_empty_conv)

lemma idle_count_le: "idle_count ws \<le> length ws"
  by (simp add: idle_count_def)

lemma all_idle: "\<not> idle_count ws < length ws \<Longrightarrow> w \<in> set ws \<Longrightarrow> available w"
  unfolding idle_count_def by (metis length_filter_less linorder_not_less)

text \<open>A step of the manager that changes the flag-free part of one worker and does not search.\<close>

lemma manager_worker:
  assumes inv: "farm_inv n s" and na: "pc s \<noteq> Aborted" and i: "i < n"
    and here: "worker_ok n p' (lost s) i (f (workers s ! i))"
    and others: "\<And>j w. j < n \<Longrightarrow> j \<noteq> i \<Longrightarrow> worker_ok n (pc s) (lost s) j w \<Longrightarrow> worker_ok n p' (lost s) j w"
    and cnt: "(if available (workers s ! i) then 1 else 0) + owed (pc s) = (if available (f (workers s ! i)) then 1 else 0) + owed p'"
      "count_ok (pc s) (numWorkersAvailable s) \<Longrightarrow> count_ok p' (numWorkersAvailable s)" "\<And>k x. p' \<noteq> Scanning k x"
    and nums: "mset (in_hand p') + mset (numbers_of (f (workers s ! i))) = mset (in_hand (pc s)) + mset (numbers_of (workers s ! i))"
    and p': "pc_ok n p'" "p' \<noteq> Finished" "\<And>k. p' \<noteq> Joining k"
  shows "farm_inv n (set_worker i f s\<lparr>pc := p'\<rparr>)"
proof -
  note c = counts_at [OF inv]
  have "counts_ok p' (numWorkersAvailable s) ((workers s)[i := f (workers s ! i)]) (lost s) (missed s) (stale s)"
    using c cnt i length_workers [OF inv] by (intro counts_move [OF c]) (auto simp: counts_ok_def split: if_splits)
  then have "farm_inv n (s\<lparr>pc := p', workers := (workers s)[i := f (workers s ! i)],
      numWorkersAvailable := numWorkersAvailable s, lost := lost s, missed := missed s, stale := stale s\<rparr>)"
    using p' by (intro worker_moves [OF inv na i here others _ nums]) auto
  then show ?thesis by (simp add: set_worker_update)
qed

lemma farm_fork_inv:
  assumes inv: "farm_inv n s" and p: "pc s = Forking i" and i: "i < n"
  shows "farm_inv n (set_worker i (\<lambda>w. w\<lparr>run := Running\<rparr>) s\<lparr>pc := Assigning i\<rparr>)"
proof -
  have "workers s ! i = no_worker" using worker_at [OF inv i] p i by (simp add: worker_ok_def)
  then show ?thesis using p i by (intro manager_worker [OF inv]) (auto simp: worker_defs)
qed

lemma pid_inv:
  assumes inv: "farm_inv n s" and p: "pc s = Assigning i"
  shows "farm_inv n (set_worker i (\<lambda>w. w\<lparr>known := True\<rparr>) s\<lparr>pc := Assigned i\<rparr>)"
proof -
  have i: "i < n" using inv p by (simp add: farm_inv_def)
  then show ?thesis
    using p worker_at [OF inv i] by (intro manager_worker [OF inv]) (auto simp: worker_defs less_Suc_eq split: worker_run.splits)
qed

lemma flag_inv:
  assumes inv: "farm_inv n s" and p: "pc s = Assigned i"
  shows "farm_inv n (store_flag i s\<lparr>pc := Forking (i + 1)\<rparr>)"
proof (cases "available (workers s ! i)")
  case False
  have i: "i < n" using inv p by (simp add: farm_inv_def)
  have "farm_inv n (set_worker i (\<lambda>w. w\<lparr>available := False\<rparr>) s\<lparr>pc := Forking (i + 1)\<rparr>)"
    using p False i worker_at [OF inv i]
    by (intro manager_worker [OF inv]) (auto simp: worker_defs less_Suc_eq split: worker_run.splits)
  then show ?thesis using False by (simp add: store_flag_def)
next
  case True
  have i: "i < n" using inv p by (simp add: farm_inv_def)
  have id: "idle (workers s ! i)" using worker_at [OF inv i] p i True by (auto simp: worker_ok_def serving_def handler_installed_def busy_def)
  let ?w = "(workers s ! i)\<lparr>available := False\<rparr>"
  have c: "counts_ok (Forking (i + 1)) (numWorkersAvailable s) ((workers s)[i := ?w]) True (missed s) (stale s + 1)"
    using counts_move [OF counts_at [OF inv], of i "numWorkersAvailable s" "missed s" ?w "Forking (i + 1)" "stale s + 1" True]
      True i p length_workers [OF inv] by simp
  have "worker_ok n (Forking (i + 1)) True j w" if "j < n" "j \<noteq> i" "worker_ok n (pc s) (lost s) j w" for j w
  proof -
    have "worker_ok n (pc s) True j w" using that(3) worker_ok_lost by (cases "lost s") auto
    then show ?thesis using that(2) p by (auto simp: worker_ok_def serving_def handler_installed_def less_Suc_eq)
  qed
  moreover have "worker_ok n (Forking (i + 1)) True i ?w"
    using id worker_at [OF inv i] p by (auto simp: worker_ok_def serving_def handler_installed_def idle_def)
  ultimately have "farm_inv n (s\<lparr>pc := Forking (i + 1), workers := (workers s)[i := ?w], numWorkersAvailable := numWorkersAvailable s,
      lost := True, missed := missed s, stale := stale s + 1\<rparr>)"
    using i p by (intro worker_moves [OF inv _ i _ _ c]) (auto simp: numbers_of_def)
  then show ?thesis using True by (cases s) (simp add: store_flag_def set_worker_def Let_def)
qed

text \<open>The search: it starts with an idle worker ahead, keeps one ahead, and so ends at one.\<close>

lemma search_inv:
  assumes inv: "farm_inv n s" and p: "pc s = Waiting_worker x" and c: "numWorkersAvailable s \<noteq> 0"
  shows "farm_inv n (s\<lparr>pc := Scanning 0 x\<rparr>)"
proof -
  note cs = counts_at [OF inv]
  have "lost s \<or> (\<exists>w \<in> set (workers s). available w)"
    using cs c p idle_count_zero [of "workers s"] by (auto simp: counts_ok_def)
  then have "lost s \<or> (\<exists>j \<in> {0..<length (workers s)}. available (workers s ! j))"
    by (metis atLeastLessThan_iff in_set_conv_nth le0)
  then have "counts_ok (Scanning 0 x) (numWorkersAvailable s) (workers s) (lost s) (missed s) (stale s)"
    using cs c p by (simp add: counts_ok_def Suc_le_eq)
  moreover have "worker_ok n (Scanning 0 x) (lost s) j (workers s ! j)" if "j < n" for j
    using worker_at [OF inv that] p by (auto simp: worker_defs split: if_splits)
  ultimately have "farm_inv n (s\<lparr>pc := Scanning 0 x, numWorkersAvailable := numWorkersAvailable s, lines := lines s,
      taken := taken s, missed := missed s\<rparr>)"
    using p by (intro manager_only [OF inv]) auto
  then show ?thesis by simp
qed

lemma scan_inv:
  assumes inv: "farm_inv n s" and p: "pc s = Scanning i x"
  shows "farm_inv n (s\<lparr>pc := if i < n then if available (workers s ! i) then Picked i x else Scanning (i + 1) x else Aborted\<rparr>)"
proof -
  note cs = counts_at [OF inv]
  let ?p = "if i < n then if available (workers s ! i) then Picked i x else Scanning (i + 1) x else Aborted"
  have ahead: "\<exists>j \<in> {Suc i..<length (workers s)}. available (workers s ! j)"
    if a: "\<exists>j \<in> {i..<length (workers s)}. available (workers s ! j)" and na: "\<not> available (workers s ! i)"
  proof -
    obtain j where j: "i \<le> j" "j < length (workers s)" "available (workers s ! j)" using a by auto
    with na have "j \<noteq> i" by auto
    then show ?thesis using j by auto
  qed
  have "counts_ok ?p (numWorkersAvailable s) (workers s) (lost s) (missed s) (stale s)"
    using cs p ahead by (auto simp: counts_ok_def)
  moreover have "worker_ok n ?p (lost s) j (workers s ! j)" if "j < n" for j
    using worker_at [OF inv that] p by (auto simp: worker_defs split: if_splits)
  ultimately show ?thesis
    using p inv unfolding farm_inv_def
    by (auto split: if_splits)
qed

lemma mark_inv:
  assumes inv: "farm_inv n s" and p: "pc s = Picked i x"
  shows "farm_inv n (set_worker i (\<lambda>w. w\<lparr>available := False\<rparr>) s\<lparr>pc := Marked i x\<rparr>)"
proof -
  have i: "i < n" using inv p by (simp add: farm_inv_def)
  have "idle (workers s ! i)" using worker_at [OF inv i] p i by (auto simp: worker_ok_def serving_def handler_installed_def)
  then show ?thesis using p i worker_at [OF inv i] by (intro manager_worker [OF inv]) (auto simp: worker_defs)
qed

lemma load_inv:
  assumes inv: "farm_inv n s" and p: "pc s = Marked i x"
  shows "farm_inv n (s\<lparr>pc := Loaded i x (numWorkersAvailable s)\<rparr>)"
proof -
  have "worker_ok n (Loaded i x (numWorkersAvailable s)) (lost s) j (workers s ! j)" if "j < n" for j
    using worker_at [OF inv that] p by (auto simp: worker_defs split: if_splits)
  moreover have "counts_ok (Loaded i x (numWorkersAvailable s)) (numWorkersAvailable s) (workers s) (lost s) (missed s) (stale s)"
    using counts_at [OF inv] p by (simp add: counts_ok_def)
  ultimately show ?thesis using p inv by (auto simp: farm_inv_def)
qed

lemma count_inv:
  assumes inv: "farm_inv n s" and p: "pc s = Loaded i x c"
  shows "farm_inv n (s\<lparr>numWorkersAvailable := c - 1, missed := missed s + (numWorkersAvailable s - c), pc := Counted i x\<rparr>)"
proof -
  have i: "i < n" using inv p by (simp add: farm_inv_def)
  have "worker_ok n (Counted i x) (lost s) j (workers s ! j)" if "j < n" for j
    using worker_at [OF inv that] p by (auto simp: worker_defs split: if_splits)
  moreover have "counts_ok (Counted i x) (c - 1) (workers s) (lost s) (missed s + (numWorkersAvailable s - c)) (stale s)"
    using counts_at [OF inv] p by (auto simp: counts_ok_def)
  ultimately have "farm_inv n (s\<lparr>pc := Counted i x, numWorkersAvailable := c - 1, lines := lines s, taken := taken s,
      missed := missed s + (numWorkersAvailable s - c)\<rparr>)"
    using p i by (intro manager_only [OF inv]) auto
  then show ?thesis by (cases s) simp
qed

lemma write_inv:
  assumes inv: "farm_inv n s" and p: "pc s = Counted i x"
  shows "farm_inv n (set_worker i (\<lambda>w. w\<lparr>inbox := inbox w @ [x]\<rparr>) s\<lparr>pc := Written i\<rparr>)"
proof -
  have i: "i < n" using inv p by (simp add: farm_inv_def)
  have "\<not> available (workers s ! i)" "run (workers s ! i) = Halted" "inbox (workers s ! i) = []"
    using worker_at [OF inv i] p i by (auto simp: worker_defs)
  then show ?thesis using p i worker_at [OF inv i] by (intro manager_worker [OF inv]) (auto simp: worker_defs)
qed

lemma cont_inv:
  assumes inv: "farm_inv n s" and p: "pc s = Written i"
  shows "farm_inv n (set_worker i sigcont s\<lparr>pc := Reading_line\<rparr>)"
proof -
  have i: "i < n" using inv p by (simp add: farm_inv_def)
  have "run (workers s ! i) = Halted" using worker_at [OF inv i] p i by (auto simp: worker_defs)
  then show ?thesis using p i worker_at [OF inv i] by (intro manager_worker [OF inv]) (auto simp: worker_defs sigcont_def)
qed

lemma close_inv:
  assumes inv: "farm_inv n s" and p: "pc s = Closing i" and i: "i < n"
  shows "farm_inv n (set_worker i (\<lambda>w. w\<lparr>closed := True\<rparr>) s\<lparr>pc := Conting i\<rparr>)"
proof -
  have "drifting (w\<lparr>closed := b\<rparr>) = drifting w" "numbers_of (w\<lparr>closed := b\<rparr>) = numbers_of w" for w b
    by (cases "run w"; simp add: drifting_def numbers_of_def)+
  then show ?thesis
    using p i worker_at [OF inv i]
    by (intro manager_worker [OF inv]) (auto simp: worker_ok_def leaving_def handler_installed_def less_Suc_eq)
qed

lemma farm_wake_inv:
  assumes inv: "farm_inv n s" and p: "pc s = Conting i"
  shows "farm_inv n (set_worker i sigcont s\<lparr>pc := Closing (i + 1)\<rparr>)"
proof -
  have i: "i < n" using inv p by (simp add: farm_inv_def)
  have "worker_ok n (Closing (i + 1)) (lost s) i (sigcont (workers s ! i))"
    using worker_at [OF inv i] p i
    by (auto simp: worker_ok_def leaving_def drifting_def handler_installed_def sigcont_def split: if_splits worker_run.splits)
  then show ?thesis using p i
    by (intro manager_worker [OF inv]) (auto simp: worker_ok_def leaving_def handler_installed_def numbers_of_def sigcont_def less_Suc_eq)
qed

text \<open>The steps that only move the manager.\<close>

lemma goto_inv:
  assumes inv: "farm_inv n s" and all: "\<And>j. j < n \<Longrightarrow> worker_ok n p' (lost s) j (workers s ! j)"
    and same: "owed (pc s) = 0" "owed p' = 0" "\<And>m. count_ok p' m" "\<And>k x. p' \<noteq> Scanning k x"
      "p' \<noteq> Aborted \<Longrightarrow> in_hand p' = in_hand (pc s)" "pc s \<noteq> Aborted"
    and p': "pc_ok n p'" "p' = Finished \<Longrightarrow> \<forall>w \<in> set (workers s). run w = Exited"
      "\<And>k. p' = Joining k \<Longrightarrow> \<forall>i < k. run (workers s ! i) = Exited"
  shows "farm_inv n (s\<lparr>pc := p', lines := ls\<rparr>)"
proof -
  have "counts_ok p' (numWorkersAvailable s) (workers s) (lost s) (missed s) (stale s)"
    using counts_at [OF inv] same by (simp add: counts_ok_def)
  then have "farm_inv n (s\<lparr>pc := p', numWorkersAvailable := numWorkersAvailable s, lines := ls, taken := taken s, missed := missed s\<rparr>)"
    using assms by (intro manager_only [OF inv]) auto
  then show ?thesis by simp
qed

lemma read_line_inv:
  assumes inv: "farm_inv n s" and p: "pc s = Reading_line"
  shows "farm_inv n (read_line s)"
proof -
  have ok: "worker_ok n p' (lost s) j (workers s ! j)" if "p' \<in> {Waiting_all, Aborted, Waiting_worker x}" "j < n" for p' x j
    using worker_at [OF inv that(2)] that(1) p by (auto simp: worker_defs split: if_splits)
  have all: "farm_inv n (s\<lparr>pc := p', lines := ls\<rparr>)" if "p' \<in> {Waiting_all, Aborted}" for p' ls
    using that p ok [of p'] by (intro goto_inv [OF inv]) auto
  have take: "farm_inv n (s\<lparr>pc := Waiting_worker x, numWorkersAvailable := numWorkersAvailable s, lines := ls, taken := taken s @ [x], missed := missed s\<rparr>)" for x ls
    using p ok [of "Waiting_worker x" x] counts_at [OF inv] by (intro manager_only [OF inv]) (auto simp: counts_ok_def)
  show ?thesis
    using all [of _ "lines s"] all take by (auto simp: read_line_def split: list.split option.split)
qed

lemma manager_inv:
  assumes inv: "farm_inv n s" and m: "manager s = Some s'"
  shows "farm_inv n s'"
proof -
  have len: "length (workers s) = n" using inv by (simp add: farm_inv_def)
  note at = worker_at [OF inv]
  show ?thesis
  proof (cases "pc s")
    case (Forking i)
    then have "i \<le> n" using inv by (simp add: farm_inv_def)
    moreover have "farm_inv n (s\<lparr>pc := Reading_line, lines := lines s\<rparr>)" if "i = n"
      using that Forking at by (intro goto_inv [OF inv]) (auto simp: worker_defs)
    ultimately show ?thesis using m Forking len farm_fork_inv [OF inv Forking] by (auto simp: manager_def split: if_splits)
  next
    case (Waiting_worker x)
    then show ?thesis using m search_inv [OF inv Waiting_worker] by (auto simp: manager_def split: if_splits)
  next
    case (Scanning i x)
    then show ?thesis using m len scan_inv [OF inv Scanning] by (simp add: manager_def)
  next
    case Waiting_all
    have "farm_inv n (s\<lparr>pc := Closing 0, lines := lines s\<rparr>)" if c: "\<not> numWorkersAvailable s < n"
    proof (rule goto_inv [OF inv])
      fix j
      assume j: "j < n"
      have "lost s \<or> \<not> idle_count (workers s) < length (workers s)"
        using c counts_at [OF inv] Waiting_all len by (auto simp: counts_ok_def)
      then have "lost s \<or> available (workers s ! j)" using all_idle nth_mem [of j "workers s"] j len by metis
      then show "worker_ok n (Closing 0) (lost s) j (workers s ! j)" using at [OF j] Waiting_all j
        by (auto simp: worker_defs split: worker_run.splits)
    qed (simp_all add: Waiting_all)
    then show ?thesis using m len Waiting_all by (auto simp: manager_def split: if_splits)
  next
    case (Closing i)
    then have "i \<le> n" using inv by (simp add: farm_inv_def)
    moreover have "worker_ok n (Joining 0) (lost s) j (workers s ! j)" if "i = n" "j < n" for j
      using that(1) at [OF that(2)] Closing that(2) by (auto simp: worker_ok_def leaving_def handler_installed_def)
    then have "farm_inv n (s\<lparr>pc := Joining 0, lines := lines s\<rparr>)" if "i = n"
      using that Closing by (intro goto_inv [OF inv]) auto
    ultimately show ?thesis using m Closing len close_inv [OF inv Closing] by (auto simp: manager_def split: if_splits)
  next
    case (Joining i)
    then have i: "i \<le> n" and gone: "\<forall>j < i. run (workers s ! j) = Exited" using inv by (auto simp: farm_inv_def)
    have ok: "worker_ok n p' (lost s) j (workers s ! j)" if "p' \<in> {Joining (Suc i), Finished}" "j < n" for p' j
      using that(1) at [OF that(2)] Joining that(2) by (auto simp: worker_ok_def leaving_def handler_installed_def)
    have "farm_inv n (s\<lparr>pc := Joining (Suc i), lines := lines s\<rparr>)" if "i < n" "run (workers s ! i) = Exited"
      using that Joining ok gone by (intro goto_inv [OF inv]) (auto simp: less_Suc_eq)
    moreover have "farm_inv n (s\<lparr>pc := Finished, lines := lines s\<rparr>)" if "i = n"
      using that Joining ok gone len by (intro goto_inv [OF inv]) (auto simp: in_set_conv_nth)
    ultimately show ?thesis using m Joining len i by (auto simp: manager_def split: if_splits)
  qed (use m len pid_inv [OF inv] flag_inv [OF inv] load_inv [OF inv] read_line_inv [OF inv] mark_inv [OF inv] count_inv [OF inv] write_inv [OF inv] cont_inv [OF inv]
      farm_wake_inv [OF inv] in \<open>auto simp: manager_def\<close>)
qed

lemma farm_step_inv: "farm_step s s' \<Longrightarrow> farm_inv n s \<Longrightarrow> farm_inv n s'"
proof (induction rule: farm_step.induct)
  case (manager_moves s s')
  then show ?case using manager_inv by blast
next
  case (fork_fails s i)
  have "farm_inv n (s\<lparr>pc := Aborted, lines := lines s\<rparr>)"
    using fork_fails by (intro goto_inv [OF fork_fails(3)]) (auto simp: worker_ok_def)
  then show ?case by simp
next
  case (halts s i)
  then show ?case using halts_inv [of n s i] by (simp add: farm_inv_def)
next
  case (handler s i)
  then show ?case using handler_inv [of n s i] by (simp add: farm_inv_def)
next
  case (reads s i x xs)
  then show ?case using reads_inv [of n s i x xs] by (simp add: farm_inv_def)
next
  case (factors s i x)
  then show ?case using factors_inv [of n s i x] by (simp add: farm_inv_def)
next
  case (sees_eof s i)
  then show ?case using eof_inv [of n s i] by (simp add: farm_inv_def)
qed

lemma farm_start_inv: "farm_inv n (farm_start n ls)"
  by (simp add: farm_inv_def farm_start_def worker_ok_def counts_ok_def idle_count_def no_worker_def numbers_of_def)

lemma farm_reach_inv: "farm_reach n ls s \<Longrightarrow> farm_inv n s"
  by (induction rule: farm_reach.induct) (simp_all add: farm_start_inv farm_step_inv)

section \<open>The numbers read\<close>

text \<open>The numbers of the input up to the first line with something behind its number.\<close>

fun numbers_in :: "string list \<Rightarrow> int list" where
  "numbers_in [] = []"
| "numbers_in (l # ls) = (case stoll l of
       None \<Rightarrow> []
     | Some (num, endpos) \<Rightarrow> if endpos \<noteq> length l then [] else num # numbers_in ls)"

fun input_over :: "farm_pc \<Rightarrow> bool" where
  "input_over Waiting_all = True"
| "input_over (Closing k) = True"
| "input_over (Conting k) = True"
| "input_over (Joining k) = True"
| "input_over Finished = True"
| "input_over p = False"

definition input_inv :: "string list \<Rightarrow> farm \<Rightarrow> bool" where
  "input_inv ls s \<longleftrightarrow> pc s = Aborted \<or> (if input_over (pc s) then taken s = numbers_in ls else taken s @ numbers_in (lines s) = numbers_in ls)"

lemma set_worker_simps [simp]: "pc (set_worker i f s) = pc s" "lines (set_worker i f s) = lines s" "taken (set_worker i f s) = taken s"
    "lost (set_worker i f s) = lost s" "numWorkersAvailable (set_worker i f s) = numWorkersAvailable s"
    "workers (set_worker i f s) = (workers s)[i := f (workers s ! i)]"
  by (simp_all add: set_worker_def)

lemma read_line_input: "pc s = Reading_line \<Longrightarrow> input_inv ls s \<Longrightarrow> input_inv ls (read_line s)"
  by (cases "lines s") (auto simp: input_inv_def read_line_def split: option.splits)

lemma manager_input: "manager s = Some s' \<Longrightarrow> input_inv ls s \<Longrightarrow> input_inv ls s'"
  using read_line_input [of s ls]
  by (cases "pc s") (auto simp: manager_def input_inv_def store_flag_def Let_def split: if_splits)

lemma handle_stop_simps: "pc (handle_stop i s) = pc s" "lines (handle_stop i s) = lines s" "taken (handle_stop i s) = taken s"
  by (simp_all add: handle_stop_def Let_def)

lemma farm_step_input: "farm_step s s' \<Longrightarrow> input_inv ls s \<Longrightarrow> input_inv ls s'"
proof (induction rule: farm_step.induct)
  case (manager_moves s s')
  then show ?case using manager_input by blast
next
  case (handler s i)
  then show ?case by (simp add: input_inv_def handle_stop_simps)
qed (simp_all add: input_inv_def)

section \<open>Progress and termination\<close>

lemma worker_can_move:
  assumes inv: "farm_inv n s" and p: "pc s = Waiting_all \<or> (\<exists>x. pc s = Waiting_worker x)" and j: "j < n"
    and na: "\<not> available (workers s ! j)" and l: "\<not> lost s"
  shows "\<exists>s'. farm_step s s'"
proof -
  let ?w = "workers s ! j"
  have len: "j < length (workers s)" and p': "pc s \<noteq> Aborted" "handler_installed (pc s)" using inv j p by (auto simp: farm_inv_def handler_installed_def)
  have "busy ?w \<or> run ?w = Halted \<and> report ?w"
    using worker_at [OF inv j] p na l j by (auto simp: worker_ok_def serving_def idle_def handler_installed_def)
  then consider "report ?w" | "run ?w = Running" | x where "run ?w = Factoring x" | x xs where "run ?w = Resumed" "inbox ?w = x # xs"
    by (auto simp: busy_def length_Suc_conv split: worker_run.splits)
  then show ?thesis
  proof cases
    case 1
    then show ?thesis using farm_step.handler [OF p' len] by blast
  next
    case 2
    then show ?thesis using farm_step.halts [OF p'(1) len] by blast
  next
    case 3
    then show ?thesis using farm_step.factors [OF p'(1) len] by blast
  next
    case 4
    then show ?thesis using farm_step.reads [OF p'(1) len] by blast
  qed
qed

text \<open>While the manager joins, the last worker still there can see its end of file.\<close>

lemma last_worker_exits:
  assumes inv: "farm_inv n s" and l: "\<not> lost s" and p: "pc s = Joining k" and j: "j < n" "run (workers s ! j) \<noteq> Exited"
  shows "\<exists>s'. farm_step s s'"
proof -
  have len: "length (workers s) = n" using inv by (simp add: farm_inv_def)
  define m where "m = Max {j. j < n \<and> run (workers s ! j) \<noteq> Exited}"
  have fin: "finite {j. j < n \<and> run (workers s ! j) \<noteq> Exited}" by simp
  then have "m \<in> {j. j < n \<and> run (workers s ! j) \<noteq> Exited}" unfolding m_def using Max_in [OF fin] j by blast
  then have m: "m < n" "run (workers s ! m) \<noteq> Exited" by simp_all
  have later: "run (workers s ! i) = Exited" if "m < i" "i < n" for i
  proof (rule ccontr)
    assume "run (workers s ! i) \<noteq> Exited"
    then have "i \<le> m" unfolding m_def using Max_ge [OF fin] that by simp
    then show False using that by simp
  qed
  have "run (workers s ! m) = Resumed" "inbox (workers s ! m) = []" "closed (workers s ! m)"
    using worker_at [OF inv m(1)] p m l by (auto simp: worker_ok_def leaving_def handler_installed_def)
  moreover from this have "eof_at m (workers s)" using later len by (auto simp: eof_at_def list_all_iff)
  ultimately show ?thesis using farm_step.sees_eof [of s m] p m len by auto
qed

text \<open>Where the manager can be left waiting: an increment has been missed and all workers are idle.\<close>

definition forgotten :: "farm \<Rightarrow> bool" where
  "forgotten s \<longleftrightarrow> 0 < missed s \<and> numWorkersAvailable s + missed s = length (workers s) \<and> (\<forall>w \<in> set (workers s). available w)"

lemma waiting_idle:
  assumes inv: "farm_inv n s" and l: "\<not> lost s" and p: "pc s = Waiting_all \<or> (\<exists>x. pc s = Waiting_worker x)"
    and c: "numWorkersAvailable s < n" and s: "\<nexists>s'. farm_step s s'"
  shows "forgotten s"
proof -
  have len: "length (workers s) = n" by (rule length_workers [OF inv])
  have all: "\<forall>w \<in> set (workers s). available w"
    using worker_can_move [OF inv p _ _ l] s len by (metis in_set_conv_nth)
  then have "idle_count (workers s) = n" using len by (simp add: idle_count_def)
  moreover have "numWorkersAvailable s + missed s = idle_count (workers s)"
    using counts_at [OF inv] p l by (auto simp: counts_ok_def)
  ultimately show ?thesis using all c len by (simp add: forgotten_def)
qed

lemma farm_progress:
  assumes inv: "farm_inv n s" and l: "\<not> lost s" and n: "0 < n" and p: "pc s \<noteq> Finished" "pc s \<noteq> Aborted"
  shows "(\<exists>s'. farm_step s s') \<or> forgotten s"
proof (cases "manager s")
  case (Some s')
  then show ?thesis using farm_step.manager_moves by blast
next
  case None
  have len: "length (workers s) = n" by (rule length_workers [OF inv])
  consider x where "pc s = Waiting_worker x" "numWorkersAvailable s = 0" | "pc s = Waiting_all" "numWorkersAvailable s < n"
    | k where "pc s = Joining k" "k < n" "run (workers s ! k) \<noteq> Exited"
    using None p len by (cases "pc s") (auto simp: manager_def Let_def split: if_splits)
  then show ?thesis
  proof cases
    case 1
    then show ?thesis using waiting_idle [OF inv l] n by auto
  next
    case 2
    then show ?thesis using waiting_idle [OF inv l] by auto
  next
    case 3
    with last_worker_exits [OF inv l] show ?thesis by blast
  qed
qed

primrec run_rank :: "worker_run \<Rightarrow> nat" where
  "run_rank Unforked = 0"
| "run_rank Running = 2"
| "run_rank Halted = 0"
| "run_rank Resumed = 4"
| "run_rank (Factoring x) = 3"
| "run_rank Exited = 0"

definition worker_rank :: "worker \<Rightarrow> nat" where
  "worker_rank w = run_rank (run w) + (if report w then 1 else 0)"

primrec pc_rank :: "nat \<Rightarrow> nat \<Rightarrow> farm_pc \<Rightarrow> nat" where
  "pc_rank n L (Forking k) = 8 * n + 5 + (n + 30) * L + 6 * (n - k)"
| "pc_rank n L (Assigning k) = 8 * n + 5 + (n + 30) * L + 6 * (n - k) - 3"
| "pc_rank n L (Assigned k) = 8 * n + 5 + (n + 30) * L + 6 * (n - k) - 4"
| "pc_rank n L Reading_line = 8 * n + 4 + (n + 30) * L"
| "pc_rank n L (Waiting_worker x) = 9 * n + 20 + (n + 30) * L"
| "pc_rank n L (Scanning k x) = 8 * n + 16 + (n - k) + (n + 30) * L"
| "pc_rank n L (Picked i x) = 8 * n + 15 + (n + 30) * L"
| "pc_rank n L (Marked i x) = 8 * n + 14 + (n + 30) * L"
| "pc_rank n L (Loaded i x c) = 8 * n + 13 + (n + 30) * L"
| "pc_rank n L (Counted i x) = 8 * n + 12 + (n + 30) * L"
| "pc_rank n L (Written i) = 8 * n + 10 + (n + 30) * L"
| "pc_rank n L Waiting_all = 8 * n + 3"
| "pc_rank n L (Closing k) = n + 2 + 7 * (n - k)"
| "pc_rank n L (Conting k) = n + 2 + 7 * (n - k) - 1"
| "pc_rank n L (Joining k) = 1 + (n - k)"
| "pc_rank n L Finished = 0"
| "pc_rank n L Aborted = 0"

definition farm_rank :: "farm \<Rightarrow> nat" where
  "farm_rank s = pc_rank (length (workers s)) (length (lines s)) (pc s) + sum_list (map worker_rank (workers s))"

lemma sigcont_rank: "worker_rank (sigcont w) \<le> worker_rank w + 4"
  by (simp add: sigcont_def worker_rank_def)

lemma read_line_rank: "pc s = Reading_line \<Longrightarrow> farm_rank (read_line s) < farm_rank s"
  by (cases "lines s") (auto simp: farm_rank_def read_line_def split: option.splits)

lemma set_worker_rank:
  assumes "i < length (workers s)" and "pc_rank (length (workers s)) (length (lines s)) p + worker_rank (f (workers s ! i)) <
      pc_rank (length (workers s)) (length (lines s)) (pc s) + worker_rank (workers s ! i)"
  shows "farm_rank (set_worker i f s\<lparr>pc := p\<rparr>) < farm_rank s"
  using sum_map_update [OF assms(1), of worker_rank "f (workers s ! i)"] assms(2) by (simp add: farm_rank_def)

lemma manager_rank:
  assumes inv: "farm_inv n s" and m: "manager s = Some s'"
  shows "farm_rank s' < farm_rank s"
proof -
  have len: "length (workers s) = n" and ok: "pc_ok n (pc s)" using inv by (simp_all add: farm_inv_def)
  show ?thesis
  proof (cases "pc s")
    case (Forking i)
    have "farm_rank (set_worker i (\<lambda>w. w\<lparr>run := Running\<rparr>) s\<lparr>pc := Assigning i\<rparr>) < farm_rank s" if "i < n"
      using that Forking len worker_at [OF inv that] by (intro set_worker_rank) (auto simp: worker_rank_def worker_ok_def no_worker_def)
    moreover have "farm_rank (s\<lparr>pc := Reading_line\<rparr>) < farm_rank s" using Forking by (simp add: farm_rank_def)
    ultimately show ?thesis using m Forking len by (auto simp: manager_def split: if_splits)
  next
    case (Assigning i)
    have "farm_rank (set_worker i (\<lambda>w. w\<lparr>known := True\<rparr>) s\<lparr>pc := Assigned i\<rparr>) < farm_rank s"
      using Assigning ok len by (intro set_worker_rank) (auto simp: worker_rank_def)
    then show ?thesis using m Assigning by (simp add: manager_def)
  next
    case (Assigned i)
    have "farm_rank (set_worker i (\<lambda>w. w\<lparr>available := False\<rparr>) s\<lparr>pc := Forking (i + 1)\<rparr>) < farm_rank s"
      using Assigned ok len by (intro set_worker_rank) (auto simp: worker_rank_def)
    then show ?thesis using m Assigned by (auto simp: manager_def store_flag_def farm_rank_def Let_def)
  next
    case Reading_line
    then show ?thesis using m read_line_rank [of s] by (simp add: manager_def)
  next
    case (Picked i x)
    have "farm_rank (set_worker i (\<lambda>w. w\<lparr>available := False\<rparr>) s\<lparr>pc := Marked i x\<rparr>) < farm_rank s"
      using Picked ok len by (intro set_worker_rank) (auto simp: worker_rank_def)
    then show ?thesis using m Picked by (simp add: manager_def)
  next
    case (Counted i x)
    have "farm_rank (set_worker i (\<lambda>w. w\<lparr>inbox := inbox w @ [x]\<rparr>) s\<lparr>pc := Written i\<rparr>) < farm_rank s"
      using Counted ok len by (intro set_worker_rank) (auto simp: worker_rank_def)
    then show ?thesis using m Counted by (simp add: manager_def)
  next
    case (Written i)
    have "farm_rank (set_worker i sigcont s\<lparr>pc := Reading_line\<rparr>) < farm_rank s"
      using Written ok len sigcont_rank [of "workers s ! i"] by (intro set_worker_rank) auto
    then show ?thesis using m Written by (simp add: manager_def)
  next
    case (Closing i)
    have "farm_rank (set_worker i (\<lambda>w. w\<lparr>closed := True\<rparr>) s\<lparr>pc := Conting i\<rparr>) < farm_rank s" if "i < n"
      using that Closing len by (intro set_worker_rank) (auto simp: worker_rank_def)
    moreover have "farm_rank (s\<lparr>pc := Joining 0\<rparr>) < farm_rank s" if "i = n" using that Closing len by (simp add: farm_rank_def)
    ultimately show ?thesis using m Closing len ok by (auto simp: manager_def split: if_splits)
  next
    case (Conting i)
    have "farm_rank (set_worker i sigcont s\<lparr>pc := Closing (i + 1)\<rparr>) < farm_rank s"
      using Conting ok len sigcont_rank [of "workers s ! i"] by (intro set_worker_rank) auto
    then show ?thesis using m Conting by (simp add: manager_def)
  next
    case (Joining i)
    then show ?thesis using m len by (auto simp: manager_def farm_rank_def split: if_splits)
  qed (use m len in \<open>auto simp: manager_def farm_rank_def Let_def split: if_splits\<close>)
qed

lemma worker_alone_rank:
  "i < length (workers s) \<Longrightarrow> worker_rank (f (workers s ! i)) < worker_rank (workers s ! i) \<Longrightarrow> farm_rank (set_worker i f s) < farm_rank s"
  using sum_map_update [of i "workers s" worker_rank "f (workers s ! i)"] by (simp add: farm_rank_def)

lemma handle_stop_rank:
  assumes "i < length (workers s)" and "report (workers s ! i)"
  shows "farm_rank (handle_stop i s) < farm_rank s"
proof -
  have "worker_rank ((workers s ! i)\<lparr>report := False\<rparr>) < worker_rank (workers s ! i)"
    "worker_rank ((workers s ! i)\<lparr>report := False, available := True\<rparr>) < worker_rank (workers s ! i)"
    using assms(2) by (simp_all add: worker_rank_def)
  then show ?thesis
    using sum_map_update [OF assms(1), of worker_rank "(workers s ! i)\<lparr>report := False\<rparr>"]
      sum_map_update [OF assms(1), of worker_rank "(workers s ! i)\<lparr>report := False, available := True\<rparr>"] assms(1)
    by (auto simp: handle_stop_def Let_def farm_rank_def)
qed

lemma farm_step_rank: "farm_step s s' \<Longrightarrow> farm_inv n s \<Longrightarrow> farm_rank s' < farm_rank s"
proof (induction rule: farm_step.induct)
  case (manager_moves s s')
  then show ?case using manager_rank by blast
next
  case (fork_fails s i)
  then show ?case by (simp add: farm_rank_def)
next
  case (handler s i)
  then show ?case using handle_stop_rank by blast
next
  case (halts s i)
  have "\<not> report (workers s ! i)" using worker_at [OF halts(4), of i] halts
    by (auto simp: farm_inv_def worker_defs split: if_splits farm_pc.splits)
  with halts show ?case by (intro worker_alone_rank) (auto simp: worker_rank_def)
next
  case (reads s i x xs)
  then show ?case by (intro worker_alone_rank) (auto simp: worker_rank_def)
next
  case (factors s i x)
  then show ?case by (intro worker_alone_rank) (auto simp: worker_rank_def)
next
  case (sees_eof s i)
  then show ?case by (intro worker_alone_rank) (auto simp: worker_rank_def)
qed

lemma farm_steps_inv:
  assumes "(farm_step ^^ k) (farm_start n ls) s"
  shows "farm_inv n s \<and> input_inv ls s \<and> farm_rank s + k \<le> farm_rank (farm_start n ls)"
  using assms
proof (induction k arbitrary: s)
  case 0
  then show ?case using farm_start_inv by (auto simp: input_inv_def farm_start_def)
next
  case (Suc k)
  then obtain t where t: "(farm_step ^^ k) (farm_start n ls) t" "farm_step t s" by auto
  with Suc.IH [OF t(1)] farm_step_inv [OF t(2)] farm_step_input [OF t(2)] farm_step_rank [OF t(2)] show ?case by fastforce
qed

section \<open>Property\<close>

text \<open>The worker that a number is written to is stopped and has nothing else to read.\<close>

lemma hands_to_stopped: "farm_inv n s \<Longrightarrow> pc s = Counted i x \<Longrightarrow> run (workers s ! i) = Halted \<and> inbox (workers s ! i) = []"
proof -
  assume inv: "farm_inv n s" and at: "pc s = Counted i x"
  then have "i < n" by (simp add: farm_inv_def)
  from worker_at [OF inv this] show ?thesis using at \<open>i < n\<close> by (simp add: worker_ok_def serving_def handler_installed_def)
qed

lemma exited_numbers: "farm_inv n s \<Longrightarrow> pc s = Finished \<Longrightarrow> j < n \<Longrightarrow> numbers_of (workers s ! j) = factored (workers s ! j)"
  using worker_at [of n s j]
  by (auto simp: farm_inv_def worker_ok_def leaving_def drifting_def handler_installed_def numbers_of_def split: if_splits)

text \<open>
  The farm serves every number. On every interleaving of the manager, the signal handler and the
  workers: the number of moves is bounded; a number is only written to a stopped worker with an empty
  pipe; the search for an idle worker finds one; when \<open>main\<close> returns all workers have exited and the numbers factored are, with
  their multiplicity, the numbers of the input up to the first line with trailing characters; and until then some move is
  possible, the cascade of ends of file at shutdown included, as long as no stop was reported while the manager was
  spawning that worker and no increment of the count was missed.
\<close>

lemma farm_serves_every_number:
  assumes "(farm_step ^^ k) (farm_start n ls) s" and "0 < n"
  shows "k \<le> farm_rank (farm_start n ls) \<and>
    (case pc s of Counted i x \<Rightarrow> run (workers s ! i) = Halted \<and> inbox (workers s ! i) = [] | _ \<Rightarrow> True) \<and>
    (case pc s of Scanning i x \<Rightarrow> lost s \<or> (\<exists>j \<in> {i..<n}. available (workers s ! j)) | _ \<Rightarrow> True) \<and>
    (pc s = Finished \<longrightarrow> (\<forall>w \<in> set (workers s). run w = Exited) \<and>
       mset (concat (map factored (workers s))) = mset (numbers_in ls)) \<and>
    (lost s \<or> forgotten s \<or> pc s \<in> {Finished, Aborted} \<or> (\<exists>s'. farm_step s s'))"
proof -
  have inv: "farm_inv n s" and inp: "input_inv ls s" and bound: "k \<le> farm_rank (farm_start n ls)"
    using farm_steps_inv [OF assms(1)] by auto
  have "mset (concat (map factored (workers s))) = mset (numbers_in ls)" if "pc s = Finished"
  proof -
    have "map numbers_of (workers s) = map factored (workers s)"
      using exited_numbers [OF inv that] inv by (intro nth_equalityI) (auto simp: farm_inv_def)
    moreover have "mset (taken s) = mset (concat (map numbers_of (workers s)))" using inv that by (simp add: farm_inv_def)
    ultimately have "mset (taken s) = mset (concat (map factored (workers s)))" by (simp only:)
    then show ?thesis using inp that by (simp add: input_inv_def)
  qed
  moreover have "\<forall>w \<in> set (workers s). run w = Exited" if "pc s = Finished" using inv that by (simp add: farm_inv_def)
  moreover have "lost s \<or> forgotten s \<or> pc s \<in> {Finished, Aborted} \<or> (\<exists>s'. farm_step s s')"
    using farm_progress [OF inv _ assms(2)] by blast
  moreover have "case pc s of Counted i x \<Rightarrow> run (workers s ! i) = Halted \<and> inbox (workers s ! i) = [] | _ \<Rightarrow> True"
    using hands_to_stopped [OF inv] by (simp split: farm_pc.split)
  moreover have "case pc s of Scanning i x \<Rightarrow> lost s \<or> (\<exists>j \<in> {i..<n}. available (workers s ! j)) | _ \<Rightarrow> True"
    using counts_at [OF inv] length_workers [OF inv] by (simp add: counts_ok_def split: farm_pc.split)
  ultimately show ?thesis using bound by blast
qed

section \<open>The races\<close>

text \<open>Schedules, to run the farm on: who moves next.\<close>

datatype farm_event = Manager | Stop nat | Handle nat | Read nat | Factor nat | Eof nat

definition farm_move :: "farm_event \<Rightarrow> farm \<Rightarrow> farm option" where
  "farm_move e s = (if pc s = Aborted then None else case e of
       Manager \<Rightarrow> manager s
     | Stop i \<Rightarrow> if i < length (workers s) \<and> run (workers s ! i) = Running
         then Some (set_worker i (\<lambda>w. w\<lparr>run := Halted, report := True\<rparr>) s) else None
     | Handle i \<Rightarrow> if handler_installed (pc s) \<and> i < length (workers s) \<and> report (workers s ! i) then Some (handle_stop i s) else None
     | Read i \<Rightarrow> (if i < length (workers s) \<and> run (workers s ! i) = Resumed then case inbox (workers s ! i) of
           [] \<Rightarrow> None
         | x # xs \<Rightarrow> Some (set_worker i (\<lambda>w. w\<lparr>run := Factoring x, inbox := xs\<rparr>) s) else None)
     | Factor i \<Rightarrow> (if i < length (workers s) then case run (workers s ! i) of
           Factoring x \<Rightarrow> Some (set_worker i (\<lambda>w. w\<lparr>run := Running, factored := factored w @ [x]\<rparr>) s)
         | _ \<Rightarrow> None else None)
     | Eof i \<Rightarrow> if i < length (workers s) \<and> run (workers s ! i) = Resumed \<and> inbox (workers s ! i) = [] \<and> eof_at i (workers s)
         then Some (set_worker i (\<lambda>w. w\<lparr>run := Exited\<rparr>) s) else None)"

primrec farm_run :: "farm_event list \<Rightarrow> farm \<Rightarrow> farm option" where
  "farm_run [] s = Some s"
| "farm_run (e # es) s = Option.bind (farm_move e s) (farm_run es)"

lemma farm_move_step: "farm_move e s = Some s' \<Longrightarrow> farm_step s s'"
  by (auto simp: farm_move_def split: farm_event.splits if_splits list.splits worker_run.splits
      intro: farm_step.intros)

lemma farm_run_steps: "farm_run es s = Some s' \<Longrightarrow> (farm_step ^^ length es) s s'"
proof (induction es arbitrary: s)
  case (Cons e es)
  then obtain t where "farm_move e s = Some t" "farm_run es t = Some s'" by (auto simp: bind_eq_Some_conv)
  then have "farm_step s t" "(farm_step ^^ length es) t s'" using Cons.IH farm_move_step by blast+
  then show ?case by (metis length_Cons relpowp_Suc_I2)
qed simp

lemma farm_steps_reach: "(farm_step ^^ k) (farm_start n ls) s \<Longrightarrow> farm_reach n ls s"
  by (induction k arbitrary: s) (auto intro: farm_reach.intros)

lemma farm_run_reach: "farm_run es (farm_start n ls) = Some s \<Longrightarrow> farm_reach n ls s"
  by (rule farm_steps_reach [OF farm_run_steps])

text \<open>
  The handler is installed before the workers are spawned. A worker that stops before \<open>workers[i]\<close> is
  assigned is reported to a handler that does not know its pid: the report is gone, the worker stays
  stopped and unavailable, and the farm waits for it for ever.
\<close>

definition lost_farm :: farm where
  "lost_farm = \<lparr>pc = Waiting_worker 12, workers = [no_worker\<lparr>run := Halted, known := True\<rparr>], numWorkersAvailable = 0,
     lines = [], taken = [12], lost = True, missed = 0, stale = 0\<rparr>"

lemma lost_report_hangs: "farm_reach 1 [''12''] lost_farm \<and> (\<nexists>s'. farm_step lost_farm s')"
proof
  have "farm_run [Manager, Stop 0, Handle 0, Manager, Manager, Manager, Manager] (farm_start 1 [''12'']) = Some lost_farm"
    by code_simp
  then show "farm_reach 1 [''12''] lost_farm" by (rule farm_run_reach)
  show "\<nexists>s'. farm_step lost_farm s'"
    by (auto simp: lost_farm_def no_worker_def manager_def elim!: farm_step.cases)
qed

text \<open>
  The decrement is not atomic. A worker that stops between its load and its store is counted and the count is undone:
  its flag is set but the count never reaches the number of workers again, and the farm waits for ever.
\<close>

definition forgetful_farm :: farm where
  "forgetful_farm = (let w = no_worker\<lparr>run := Halted, known := True, available := True\<rparr>
     in \<lparr>pc = Waiting_all, workers = [w\<lparr>factored := [12]\<rparr>, w], numWorkersAvailable = 1,
       lines = [], taken = [12], lost = False, missed = 1, stale = 0\<rparr>)"

lemma lost_increment_hangs: "farm_reach 2 [''12''] forgetful_farm \<and> forgotten forgetful_farm \<and> (\<nexists>s'. farm_step forgetful_farm s')"
proof (intro conjI)
  have "farm_run ([Manager, Manager, Manager, Manager, Manager, Manager, Manager, Manager, Stop 0, Handle 0] @
      [Manager, Manager, Manager, Manager, Stop 1, Handle 1, Manager, Manager, Manager] @
      [Read 0, Factor 0, Stop 0, Handle 0, Manager]) (farm_start 2 [''12'']) = Some forgetful_farm"
    by code_simp
  then show "farm_reach 2 [''12''] forgetful_farm" by (rule farm_run_reach)
  show "forgotten forgetful_farm" by (simp add: forgotten_def forgetful_farm_def Let_def)
  show "\<nexists>s'. farm_step forgetful_farm s'"
    by (auto simp: forgetful_farm_def no_worker_def manager_def Let_def less_Suc_eq numeral_2_eq_2 elim!: farm_step.cases)
qed

end
