(* ===== verification/Factor.thy ===== *)
theory Factor
  imports Prelude "HOL-Library.Monad_Syntax"
begin

text \<open>
  The worker \<open>factor.py\<close> of the farm: factorization by trial division, the reading of lines and
  integers, the plain filter and the self-halting protocol. Python's integers are \<open>int\<close>. The loops are partial
  functions, \<^term>\<open>None\<close> if they run for ever; that they end is part of what is shown. Text is ASCII, and the
  interpreter's limit on the digits of an integer is not reached.
\<close>

section \<open>Lines and integers of Python\<close>

definition py_space :: "char \<Rightarrow> bool" where
  "py_space c \<longleftrightarrow> isspace c \<or> 28 \<le> char_code c \<and> char_code c \<le> 31"

definition py_strip :: "string \<Rightarrow> string" where
  "py_strip s = rev (dropWhile py_space (rev (dropWhile py_space s)))"

definition lf :: char where
  "lf = CHR 0x0A"

text \<open>Universal newlines; the flag says that the character before was a carriage return.\<close>

fun universal :: "bool \<Rightarrow> string \<Rightarrow> string" where
  "universal cr [] = []"
| "universal cr (c # s) =
     (if c = CHR 0x0D then lf # universal True s
      else if c = lf \<and> cr then universal False s
      else c # universal False s)"

definition py_lines :: "string \<Rightarrow> string list" where
  "py_lines s = getlines lf (universal False s)"

text \<open>The digits of an integer, with single underscores between them; the flag says that a digit came before.\<close>

fun py_digits :: "bool \<Rightarrow> nat \<Rightarrow> string \<Rightarrow> nat option" where
  "py_digits after acc [] = (if after then Some acc else None)"
| "py_digits after acc (c # s) =
     (if isdigit c then py_digits True (10 * acc + digit_val c) s
      else if c = CHR ''_'' \<and> after then py_digits False acc s
      else None)"

text \<open>\<open>int(s)\<close>; \<^term>\<open>None\<close> is a \<open>ValueError\<close>.\<close>

definition py_int :: "string \<Rightarrow> int option" where
  "py_int s = (case scan_sign (py_strip s) of (neg, ds) \<Rightarrow>
     map_option (\<lambda>n. if neg then - int n else int n) (py_digits False 0 ds))"

section \<open>\<open>factorize\<close>\<close>

partial_function (option) divide_out :: "int \<Rightarrow> int \<Rightarrow> int list \<Rightarrow> (int \<times> int list) option" where
  "divide_out d m factors = (if m mod d = 0 then divide_out d (m div d) (factors @ [d]) else Some (m, factors))"

partial_function (option) trial :: "int \<Rightarrow> int \<Rightarrow> int list \<Rightarrow> (int \<times> int list) option" where
  "trial d m factors =
     (if d * d \<le> m
      then do {
        (m', factors') \<leftarrow> divide_out d m factors;
        trial (d + (if d = 2 then 1 else 2)) m' factors'
      }
      else Some (m, factors))"

definition factorize :: "int \<Rightarrow> int list option" where
  "factorize n =
     (if n < 2 then Some (if 0 \<le> n then [n] else [])
      else do {
        (m, factors) \<leftarrow> trial 2 n [];
        Some (if 1 < m then factors @ [m] else factors)
      })"

section \<open>\<open>emit\<close> and \<open>main\<close>\<close>

fun py_join :: "string \<Rightarrow> string list \<Rightarrow> string" where
  "py_join sep [] = []"
| "py_join sep [x] = x"
| "py_join sep (x # y # xs) = x @ sep @ py_join sep (y # xs)"

definition answer :: "string \<Rightarrow> int list \<Rightarrow> string" where
  "answer n factors = n @ '' = '' @ (if factors \<noteq> [] then py_join '' * '' (map show_int factors) else n) @ [lf]"

text \<open>What a process does that another can see.\<close>

datatype py_event = Halts | Prints string | Exits nat

text \<open>A line that is not an integer ends the interpreter with status 1.\<close>

definition emit :: "string \<Rightarrow> (string option) option" where
  "emit n = (case py_int n of None \<Rightarrow> Some None | Some i \<Rightarrow> map_option (\<lambda>factors. Some (answer n factors)) (factorize i))"

text \<open>One round of either loop: the events of a line, and whether the loop goes on.\<close>

definition serve_line :: "string \<Rightarrow> (py_event list \<times> bool) option" where
  "serve_line line = (let line = py_strip line
     in if line = [] then Some ([], True)
        else map_option (\<lambda>r. case r of None \<Rightarrow> ([Exits 1], False) | Some out \<Rightarrow> ([Prints out], True)) (emit line))"

fun filter_mode :: "string list \<Rightarrow> py_event list option" where
  "filter_mode [] = Some [Exits 0]"
| "filter_mode (line # lines) = do {
     (evs, go) \<leftarrow> serve_line line;
     rest \<leftarrow> (if go then filter_mode lines else Some []);
     Some (evs @ rest)
   }"

fun self_halting :: "string list \<Rightarrow> py_event list option" where
  "self_halting [] = Some [Halts, Exits 0]"
| "self_halting (line # lines) = do {
     (evs, go) \<leftarrow> serve_line line;
     rest \<leftarrow> (if go then self_halting lines else Some []);
     Some (Halts # evs @ rest)
   }"

definition factor_main :: "string list \<Rightarrow> string \<Rightarrow> py_event list option" where
  "factor_main argv inp =
     (if ''--self-halting'' \<in> set argv then self_halting (py_lines inp) else filter_mode (py_lines inp))"

section \<open>Trial division ends and factors\<close>

definition is_prime :: "int \<Rightarrow> bool" where
  "is_prime p \<longleftrightarrow> 1 < p \<and> (\<forall>k. 1 < k \<and> k dvd p \<longrightarrow> k = p)"

definition no_divisor_below :: "int \<Rightarrow> int \<Rightarrow> bool" where
  "no_divisor_below d m \<longleftrightarrow> (\<forall>k. 1 < k \<and> k < d \<longrightarrow> \<not> k dvd m)"

lemma no_divisor_prime:
  assumes "no_divisor_below d m" and "1 < m" and "m < d * d" and "0 < d"
  shows "is_prime m"
  unfolding is_prime_def
proof (intro conjI allI impI)
  fix k assume k: "1 < k \<and> k dvd m"
  then obtain q where q: "m = k * q" by blast
  have "0 < k * q" using assms(2) q by simp
  then have q0: "0 < q" using k by (simp add: zero_less_mult_iff)
  show "k = m"
  proof (rule ccontr)
    assume "k \<noteq> m"
    then have "1 < q" using q0 q by (cases "q = 1") auto
    moreover have "d \<le> k" "\<not> q < d" using assms(1) k q \<open>1 < q\<close> by (auto simp: no_divisor_below_def not_less [symmetric])
    then have "d * d \<le> k * q" using k assms(4) by (intro mult_mono) auto
    ultimately show False using assms(3) q by simp
  qed
qed (use assms(2) in simp)

lemma divisor_prime:
  assumes "no_divisor_below d m" and "d dvd m" and "1 < d"
  shows "is_prime d"
  unfolding is_prime_def
proof (intro conjI allI impI)
  fix k assume k: "1 < k \<and> k dvd d"
  then have "k \<le> d" using assms(3) by (intro zdvd_imp_le) auto
  moreover have "\<not> k < d" using assms(1,2) k dvd_trans by (auto simp: no_divisor_below_def)
  ultimately show "k = d" by simp
qed (use assms(3) in simp)

text \<open>What holds at the head of the loops: the factors found, the divisor and what is left.\<close>

definition trial_inv :: "int \<Rightarrow> int \<Rightarrow> int \<Rightarrow> int list \<Rightarrow> bool" where
  "trial_inv n d m factors \<longleftrightarrow> 0 < m \<and> prod_list factors * m = n \<and> no_divisor_below d m \<and>
     sorted factors \<and> (\<forall>p \<in> set factors. is_prime p \<and> p \<le> d)"

lemma divide_out_ends:
  assumes "trial_inv n d m factors" and "1 < d"
  shows "\<exists>m' factors'. divide_out d m factors = Some (m', factors') \<and> trial_inv n d m' factors' \<and> \<not> d dvd m' \<and> m' \<le> m"
  using assms(1)
proof (induction "nat m" arbitrary: m factors rule: less_induct)
  case less
  show ?case
  proof (cases "d dvd m")
    case True
    then obtain q where q: "m = d * q" by blast
    have m: "0 < m" using less.prems by (simp add: trial_inv_def)
    then have q0: "0 < q" using q assms(2) by (simp add: zero_less_mult_iff)
    have lt: "q < m" using q q0 assms(2) by simp
    have "no_divisor_below d q" using less.prems q by (auto simp: trial_inv_def no_divisor_below_def)
    moreover have "is_prime d" using divisor_prime [OF _ True assms(2)] less.prems by (simp add: trial_inv_def)
    ultimately have inv: "trial_inv n d q (factors @ [d])"
      using less.prems q q0 by (auto simp: trial_inv_def sorted_append algebra_simps)
    have "divide_out d m factors = divide_out d q (factors @ [d])"
      using True q assms(2) by (subst divide_out.simps) simp
    then show ?thesis using less.hyps [OF _ inv] lt m by force
  next
    case False
    then show ?thesis using less.prems by (subst divide_out.simps) (simp add: dvd_eq_mod_eq_0)
  qed
qed

text \<open>The divisors tried are 2 and the odd numbers; the even ones need not be tried once 2 is done.\<close>

lemma next_divisor:
  assumes "no_divisor_below d m" and "\<not> d dvd m" and "d = 2 \<or> 2 < d \<and> odd d"
  shows "no_divisor_below (d + (if d = 2 then 1 else 2)) m"
  unfolding no_divisor_below_def
proof (intro allI impI)
  fix k assume k: "1 < k \<and> k < d + (if d = 2 then 1 else 2)"
  then consider "k < d" | "k = d" | "k = d + 1" "2 < d" "odd d" using assms(3) by (cases "d = 2") (simp_all, linarith+)
  then show "\<not> k dvd m"
  proof cases
    case 3
    then have "2 dvd k" by simp
    moreover have "\<not> 2 dvd m" using assms(1) 3(2) by (simp add: no_divisor_below_def)
    ultimately show ?thesis using dvd_trans by blast
  qed (use assms(1,2) k in \<open>auto simp: no_divisor_below_def\<close>)
qed

lemma trial_ends:
  assumes "trial_inv n d m factors" and "d = 2 \<or> 2 < d \<and> odd d"
  shows "\<exists>m' factors' d'. trial d m factors = Some (m', factors') \<and> trial_inv n d' m' factors' \<and> m' < d' * d' \<and> 0 < d'"
  using assms
proof (induction "nat (m + 1 - d)" arbitrary: d m factors rule: less_induct)
  case less
  show ?case
  proof (cases "d * d \<le> m")
    case True
    have d: "1 < d" using less.prems(2) by auto
    obtain m1 fs1 where o: "divide_out d m factors = Some (m1, fs1)" "trial_inv n d m1 fs1" "\<not> d dvd m1" "m1 \<le> m"
      using divide_out_ends [OF less.prems(1) d] by blast
    let ?d = "d + (if d = 2 then 1 else 2)"
    have inv: "trial_inv n ?d m1 fs1"
      using o(2) next_divisor [OF _ o(3) less.prems(2)] by (fastforce simp: trial_inv_def)
    have "d * 1 \<le> d * d" using d by (intro mult_left_mono) auto
    then have "nat (m1 + 1 - ?d) < nat (m + 1 - d)" using True o(4) by auto
    moreover have "?d = 2 \<or> 2 < ?d \<and> odd ?d" using less.prems(2) by auto
    ultimately obtain m' fs' d' where "trial ?d m1 fs1 = Some (m', fs')" "trial_inv n d' m' fs'" "m' < d' * d' \<and> 0 < d'"
      using less.hyps [of m1 ?d fs1] inv by blast
    moreover have "trial d m factors = trial ?d m1 fs1" using True o(1) by (subst trial.simps) simp
    ultimately show ?thesis by metis
  next
    case False
    moreover have "0 < d" using less.prems(2) by auto
    ultimately show ?thesis using less.prems(1) by (subst trial.simps) (auto simp: not_le intro!: exI [of _ d])
  qed
qed

lemma factorize_small: "n < 2 \<Longrightarrow> factorize n = Some (if 0 \<le> n then [n] else [])"
  by (simp add: factorize_def)

lemma factorize_primes:
  assumes "2 \<le> n"
  shows "\<exists>ps. factorize n = Some ps \<and> ps \<noteq> [] \<and> prod_list ps = n \<and> sorted ps \<and> (\<forall>p \<in> set ps. is_prime p)"
proof -
  have "trial_inv n 2 n []" using assms by (auto simp: trial_inv_def no_divisor_below_def)
  then obtain m fs d where t: "trial 2 n [] = Some (m, fs)" "trial_inv n d m fs" "m < d * d" "0 < d"
    using trial_ends [of n 2 n "[]"] by blast
  show ?thesis
  proof (cases "1 < m")
    case True
    then have p: "is_prime m" using no_divisor_prime [of d m] t(2-4) by (simp add: trial_inv_def)
    have "d \<le> m" using t(2) True by (force simp: trial_inv_def no_divisor_below_def)
    then have "sorted (fs @ [m])" "\<forall>p \<in> set (fs @ [m]). is_prime p"
      using t(2) p by (auto simp: trial_inv_def sorted_append)
    then show ?thesis using True t(1,2) assms by (simp add: factorize_def trial_inv_def)
  next
    case False
    then have "m = 1" using t(2) by (simp add: trial_inv_def)
    then show ?thesis using t assms by (auto simp: factorize_def trial_inv_def)
  qed
qed

section \<open>The protocol\<close>

lemma py_digits_show: "\<forall>c \<in> set s. isdigit c \<Longrightarrow> py_digits after acc s = (if s = [] \<and> \<not> after then None else Some (foldl (\<lambda>n c. 10 * n + digit_val c) acc s))"
  by (induction after acc s rule: py_digits.induct) auto

lemma show_nat_parses: "py_digits False 0 (show_nat n) = Some n"
  using py_digits_show [of "show_nat n" False 0] show_nat_digits dec_nat_show_nat [of n] by (simp add: dec_nat_def)

lemma digit_sign: "isdigit c \<Longrightarrow> \<not> py_space c \<and> c \<noteq> CHR ''-'' \<and> c \<noteq> CHR ''+'' \<and> c \<noteq> lf \<and> c \<noteq> CHR 0x0D"
  by (auto simp: py_space_def lf_def ctype_defs)

lemma number_chars: "c \<in> set (show_int i) \<Longrightarrow> \<not> py_space c \<and> c \<noteq> lf \<and> c \<noteq> CHR 0x0D"
  using show_int_chars digit_sign by (fastforce simp: py_space_def lf_def ctype_defs)

lemma strip_none: "\<forall>c \<in> set s. \<not> py_space c \<Longrightarrow> py_strip s = s"
proof -
  have d: "dropWhile py_space x = x" if "\<forall>c \<in> set x. \<not> py_space c" for x using that by (cases x) auto
  assume "\<forall>c \<in> set s. \<not> py_space c"
  then show ?thesis using d [of s] d [of "rev s"] by (simp add: py_strip_def)
qed

lemma py_int_show: "py_int (show_int i) = Some i"
proof -
  have strip: "py_strip (show_int i) = show_int i" using number_chars by (intro strip_none) blast
  obtain c ds where c: "show_nat (nat i) = c # ds" by (cases "show_nat (nat i)") auto
  then have "isdigit c" using show_nat_digits [of c "nat i"] by simp
  then have "scan_sign (show_int i) = (i < 0, show_nat (nat \<bar>i\<bar>))"
    using c digit_sign [of c] by (auto simp: show_int_def scan_sign_def)
  then show ?thesis unfolding py_int_def strip by (auto simp: show_nat_parses)
qed

lemma universal_id: "CHR 0x0D \<notin> set s \<Longrightarrow> universal False s = s"
  by (induction s) (auto simp: lf_def)

definition payloads :: "int list \<Rightarrow> string" where
  "payloads ns = concat (map (\<lambda>n. show_int n @ [lf]) ns)"

lemma payload_lines: "py_lines (payloads ns) = map show_int ns"
proof -
  have "CHR 0x0D \<notin> set (payloads ns)" using number_chars [of "CHR 0x0D"] by (auto simp: payloads_def lf_def)
  moreover have "getlines lf (payloads ns) = map show_int ns"
    using getlines_concat [of "map show_int ns" lf "[]"] number_chars by (auto simp: payloads_def comp_def)
  ultimately show ?thesis by (simp add: py_lines_def universal_id)
qed

lemma factorize_ends: "\<exists>fs. factorize n = Some fs"
  using factorize_small [of n] factorize_primes [of n] by (cases "n < 2") auto

lemma serve_number: "factorize n = Some fs \<Longrightarrow> serve_line (show_int n) = Some ([Prints (answer (show_int n) fs)], True)"
  using strip_none [of "show_int n"] number_chars by (simp add: serve_line_def emit_def py_int_show show_int_nonempty Let_def)

lemma self_halting_numbers:
  assumes "\<And>n. factorize n = Some (fs n)"
  shows "self_halting (map show_int ns) = Some (concat (map (\<lambda>n. [Halts, Prints (answer (show_int n) (fs n))]) ns) @ [Halts, Exits 0])"
  by (induction ns) (simp_all add: serve_number [OF assms])

text \<open>
  C24: the farm's worker. Given any sequence of integers, one to a line as the manager writes them, \<open>factor.py\<close> stops
  itself before each of them and before the end of its input, prints one line for each and exits with 0; its trial
  division ends on every integer, and for a number above 1 the line lists the prime factors in order.
\<close>

theorem worker_answers:
  assumes "''--self-halting'' \<in> set argv"
  shows "\<exists>fs. factor_main argv (payloads ns) =
      Some (concat (map (\<lambda>n. [Halts, Prints (show_int n @ '' = '' @ (if fs n \<noteq> [] then py_join '' * '' (map show_int (fs n)) else show_int n) @ [lf])]) ns)
        @ [Halts, Exits 0]) \<and>
    (\<forall>n \<ge> 2. fs n \<noteq> [] \<and> prod_list (fs n) = n \<and> sorted (fs n) \<and> (\<forall>p \<in> set (fs n). is_prime p)) \<and>
    (\<forall>n < 2. fs n = (if 0 \<le> n then [n] else []))"
proof -
  obtain fs where fs: "\<And>n. factorize n = Some (fs n)" using factorize_ends by metis
  have "fs n \<noteq> [] \<and> prod_list (fs n) = n \<and> sorted (fs n) \<and> (\<forall>p \<in> set (fs n). is_prime p)" if "2 \<le> n" for n
    using factorize_primes [OF that] fs [of n] by auto
  moreover have "fs n = (if 0 \<le> n then [n] else [])" if "n < 2" for n using factorize_small [OF that] fs [of n] by simp
  ultimately show ?thesis
    using self_halting_numbers [of fs ns, OF fs] assms
    by (intro exI [of _ fs]) (simp add: factor_main_def payload_lines answer_def)
qed

lemma worker_answers_witness:
  "\<exists>fs. factor_main [''./factor.py'', ''--self-halting''] (payloads [12, 1]) =
     Some [Halts, Prints (show_int 12 @ '' = '' @ py_join '' * '' (map show_int fs) @ [lf]), Halts, Prints (''1 = 1'' @ [lf]), Halts, Exits 0] \<and>
     prod_list fs = 12 \<and> sorted fs \<and> (\<forall>p \<in> set fs. is_prime p)"
proof -
  have one: "show_int 1 = ''1''" by code_simp
  obtain fs where fs: "factor_main [''./factor.py'', ''--self-halting''] (payloads [12, 1]) =
      Some (concat (map (\<lambda>n. [Halts, Prints (show_int n @ '' = '' @ (if fs n \<noteq> [] then py_join '' * '' (map show_int (fs n)) else show_int n) @ [lf])]) [12, 1])
        @ [Halts, Exits 0])"
    "\<forall>n \<ge> 2. fs n \<noteq> [] \<and> prod_list (fs n) = n \<and> sorted (fs n) \<and> (\<forall>p \<in> set (fs n). is_prime p)"
    "\<forall>n < 2. fs n = (if 0 \<le> n then [n] else [])"
    using worker_answers [of "[''./factor.py'', ''--self-halting'']" "[12, 1]"] by auto
  have "fs 12 \<noteq> [] \<and> prod_list (fs 12) = 12 \<and> sorted (fs 12) \<and> (\<forall>p \<in> set (fs 12). is_prime p)" "fs 1 = [1]"
    using fs(2) [rule_format, of 12] fs(3) [rule_format, of 1] by simp_all
  then show ?thesis using fs(1) by (intro exI [of _ "fs 12"]) (simp add: one lf_def)
qed

end
