(* ===== verification/Farm_Factor.thy ===== *)
theory Farm_Factor
  imports Farm Factor "HOL-Library.Sublist"
begin

text \<open>
  The farm of \<open>farm.cc\<close> with the workers of \<open>factor.py\<close>. The moves of a worker in the farm are the events of the
  script: what a worker has said at any moment is the beginning of what the script does on the numbers
  that the manager has handed to it, and in the end all of it. So the lines the farm prints are known.
\<close>

text \<open>The numbers handed to a worker, in order: factored, being factored, and still in its pipe.\<close>

definition handed :: "worker \<Rightarrow> int list" where
  "handed w = factored w @ (case run w of Factoring x \<Rightarrow> [x] | _ \<Rightarrow> []) @ inbox w"

definition factor_line :: "int \<Rightarrow> string" where
  "factor_line n = answer (show_int n) (case factorize n of None \<Rightarrow> [] | Some ps \<Rightarrow> ps)"

text \<open>What a worker has done that can be seen, from where it is in the farm.\<close>

definition said :: "worker \<Rightarrow> py_event list" where
  "said w = concat (map (\<lambda>x. [Halts, Prints (factor_line x)]) (factored w)) @
     (case run w of Unforked \<Rightarrow> [] | Running \<Rightarrow> [] | Exited \<Rightarrow> [Halts, Exits 0] | _ \<Rightarrow> [Halts])"

definition printed :: "worker \<Rightarrow> string list" where
  "printed w = concat (map (\<lambda>e. case e of Prints x \<Rightarrow> [x] | _ \<Rightarrow> []) (said w))"

text \<open>The script as the manager starts it, on the numbers of one worker's pipe.\<close>

definition script :: "worker \<Rightarrow> py_event list option" where
  "script w = factor_main [''./factor.py'', ''--self-halting''] (payloads (handed w))"

lemma script_events:
  "script w = Some (concat (map (\<lambda>x. [Halts, Prints (factor_line x)]) (handed w)) @ [Halts, Exits 0])"
proof -
  obtain fs where fs: "\<And>n. factorize n = Some (fs n)" using factorize_ends by metis
  then have "factor_line n = answer (show_int n) (fs n)" for n by (simp add: factor_line_def)
  then show ?thesis using self_halting_numbers [OF fs] by (simp add: script_def factor_main_def payload_lines)
qed

lemma printed_factored: "printed w = map factor_line (factored w)"
proof -
  have "concat (map (\<lambda>e. case e of Prints x \<Rightarrow> [x] | _ \<Rightarrow> []) (concat (map (\<lambda>x. [Halts, Prints (factor_line x)]) xs))) = map factor_line xs" for xs
    by (induction xs) simp_all
  then show ?thesis by (simp add: printed_def said_def split: worker_run.split)
qed

lemma leaving_exited: "leaving n p i l w \<Longrightarrow> run w = Exited \<Longrightarrow> inbox w = []"
  by (auto simp: leaving_def drifting_def split: if_splits)

lemma serving_not_exited: "serving p i l w \<Longrightarrow> run w \<noteq> Exited"
  by (auto simp: serving_def idle_def busy_def split: farm_pc.splits if_splits)

lemma exited_empty:
  assumes "farm_inv n s" and "pc s \<noteq> Aborted" and "w \<in> set (workers s)" and "run w = Exited"
  shows "inbox w = []"
proof -
  obtain i where i: "i < n" "workers s ! i = w" using assms(1,3) by (auto simp: farm_inv_def in_set_conv_nth)
  show ?thesis
    using worker_at [OF assms(1) i(1)] assms(2,4) serving_not_exited [of "pc s" i "lost s" w] unfolding i(2)
    by (auto simp: worker_ok_def no_worker_def leaving_exited split: if_splits)
qed

lemma said_prefix:
  assumes "run w = Exited \<Longrightarrow> inbox w = []"
  shows "prefix (said w) (the (script w))" and "run w = Exited \<Longrightarrow> said w = the (script w)"
proof -
  have "\<exists>r. concat (map (\<lambda>x. [Halts, Prints (factor_line x)]) xs) @ [Halts, Exits 0] = Halts # r" for xs
    by (cases xs) simp_all
  then have "prefix [Halts] (concat (map (\<lambda>x. [Halts, Prints (factor_line x)]) xs) @ [Halts, Exits 0])" for xs
    by (metis append_Cons append_Nil prefixI)
  then show "prefix (said w) (the (script w))"
    unfolding script_events option.sel
    using assms by (cases "run w") (simp_all add: said_def handed_def)
  show "run w = Exited \<Longrightarrow> said w = the (script w)"
    unfolding script_events option.sel using assms by (simp add: said_def handed_def)
qed

text \<open>
  C32: the farm factors every number. On every interleaving of the manager's loads and stores, the signal handler and the
  workers: the number of moves is bounded; a number is only written to a stopped worker with an empty
  pipe; what each worker does is, move by move, what \<open>factor.py\<close> does on the numbers it has been handed; when \<open>main\<close>
  returns all workers have run the script to its end, and the lines they have printed are, with their
  multiplicity, the factorizations of the numbers of the input up to the first line with trailing characters; and
  some move is possible until then, the cascade of ends of file at shutdown included, unless one of two races has been
  lost: a stop was reported while the manager was spawning that worker, or an increment of the count fell between the load and the store of
  the manager's decrement, and then the manager is only stuck when all workers are idle and the count is short by just the missed increments.
\<close>

theorem farm_prints_factorizations:
  assumes "(farm_step ^^ k) (farm_start n ls) s" and "0 < n"
  shows "k \<le> farm_rank (farm_start n ls) \<and>
    (case pc s of Counted i x \<Rightarrow> run (workers s ! i) = Halted \<and> inbox (workers s ! i) = [] | _ \<Rightarrow> True) \<and>
    (case pc s of Scanning i x \<Rightarrow> lost s \<or> (\<exists>j \<in> {i..<n}. available (workers s ! j)) | _ \<Rightarrow> True) \<and>
    (pc s \<noteq> Aborted \<longrightarrow> (\<forall>w \<in> set (workers s). \<exists>evs. script w = Some evs \<and> prefix (said w) evs)) \<and>
    (pc s = Finished \<longrightarrow> (\<forall>w \<in> set (workers s). run w = Exited \<and> script w = Some (said w)) \<and>
       mset (concat (map printed (workers s))) = mset (map factor_line (numbers_in ls))) \<and>
    (pc s \<in> {Finished, Aborted} \<or> (\<exists>s'. farm_step s s') \<or> lost s \<or>
       0 < missed s \<and> numWorkersAvailable s + missed s = n \<and> (\<forall>w \<in> set (workers s). available w))"
proof -
  have inv: "farm_inv n s" using farm_steps_inv [OF assms(1)] by simp
  note served = farm_serves_every_number [OF assms]
  have len: "length (workers s) = n" by (rule length_workers [OF inv])
  have says: "\<exists>evs. script w = Some evs \<and> prefix (said w) evs" if "pc s \<noteq> Aborted" "w \<in> set (workers s)" for w
    using said_prefix(1) [OF exited_empty [OF inv that]] script_events [of w] by simp
  have ends: "run w = Exited \<and> script w = Some (said w)" if "pc s = Finished" "w \<in> set (workers s)" for w
  proof -
    have x: "run w = Exited" using served that by blast
    then show ?thesis using said_prefix(2) [OF exited_empty [OF inv _ that(2)] x] that(1) script_events [of w] by simp
  qed
  have "printed = (\<lambda>w. map factor_line (factored w))" by (rule ext) (rule printed_factored)
  then have "concat (map printed (workers s)) = map factor_line (concat (map factored (workers s)))"
    by (simp add: map_concat comp_def)
  then have "mset (concat (map printed (workers s))) = image_mset factor_line (mset (concat (map factored (workers s))))"
    by (simp only: mset_map)
  then have "mset (concat (map printed (workers s))) = mset (map factor_line (numbers_in ls))" if "pc s = Finished"
    using served that by simp
  then show ?thesis using served says ends unfolding forgotten_def len by blast
qed

text \<open>A run of two workers on two numbers, to its end.\<close>

definition example_schedule :: "farm_event list" where
  "example_schedule = replicate 6 Manager @ [Stop 0, Handle 0, Stop 1, Handle 1] @ replicate 9 Manager @ [Read 0] @
     replicate 9 Manager @ [Read 1, Factor 1, Factor 0, Stop 0, Stop 1, Handle 1, Handle 0] @ replicate 7 Manager @
     [Eof 1, Eof 0] @ replicate 3 Manager"

lemma farm_prints_factorizations_witness:
  "\<exists>s. farm_run example_schedule (farm_start 2 [''12'', ''35'']) = Some s \<and> pc s = Finished \<and>
    (\<forall>w \<in> set (workers s). run w = Exited \<and> script w = Some (said w)) \<and>
    mset (concat (map printed (workers s))) = mset (map factor_line (numbers_in [''12'', ''35'']))"
proof -
  have "map_option pc (farm_run example_schedule (farm_start 2 [''12'', ''35''])) = Some Finished" by code_simp
  then obtain s where s: "farm_run example_schedule (farm_start 2 [''12'', ''35'']) = Some s" "pc s = Finished" by blast
  have "(0 :: nat) < 2" by simp
  from farm_prints_factorizations [OF farm_run_steps [OF s(1)] this] s show ?thesis by blast
qed

end
