(* ===== verification/Fetch.thy ===== *)
theory Fetch
  imports Http_Message
begin

text \<open>
  The news aggregator's HTTP client, \<open>fetch.cc\<close> and \<open>fetch.h\<close>. What is not in the repository is the record
  \<open>internet\<close>: the name service, and for every address whether a socket can be had and what accepts there.
  An accepted connection is the results of its \<open>write\<close> calls (when they are used up a call takes
  everything) and the runs of bytes it answers to what it got. The lemmas: whatever is written arrives
  in order, a good answer is returned whole however the network cuts it, and what is refused unseen.
\<close>

section \<open>URLs\<close>

record http_url =
  u_host :: string
  u_port :: u16
  u_path :: string

definition server :: "http_url \<Rightarrow> string" where
  "server u = u_host u @ '':'' @ show_nat (unat (u_port u))"

definition parseHttpURL :: "string \<Rightarrow> http_url" where
  "parseHttpURL url =
     (let rest = (case find_sub ''://'' url of None \<Rightarrow> url | Some scheme \<Rightarrow> drop (scheme + 3) url);
          slash = find_char CHR ''/'' rest;
          authority = (case slash of None \<Rightarrow> rest | Some i \<Rightarrow> take i rest);
          path = (case slash of None \<Rightarrow> ''/'' | Some i \<Rightarrow> drop i rest)
      in case find_char CHR '':'' authority of
           None \<Rightarrow> \<lparr>u_host = authority, u_port = 80, u_path = path\<rparr>
         | Some colon \<Rightarrow>
             \<lparr>u_host = take colon authority, u_port = word_of_int (atoi (drop (colon + 1) authority)), u_path = path\<rparr>)"

section \<open>Connections\<close>

record peer =
  p_writes :: "int list"
  p_answer :: "string \<Rightarrow> string list"

record addr_info =
  a_socket :: bool
  a_peer :: "peer option"

record internet =
  getaddrinfo :: "string \<Rightarrow> string \<Rightarrow> addr_info list option"

text \<open>The loop over the addresses: no socket or no connection, the next one.\<close>

fun try_addresses :: "addr_info list \<Rightarrow> peer option" where
  "try_addresses [] = None"
| "try_addresses (p # rest) =
     (if \<not> a_socket p then try_addresses rest
      else case a_peer p of Some c \<Rightarrow> Some c | None \<Rightarrow> try_addresses rest)"

definition connectTo :: "internet \<Rightarrow> string \<Rightarrow> u16 \<Rightarrow> peer option" where
  "connectTo net host port = (case getaddrinfo net host (show_nat (unat port)) of
       None \<Rightarrow> None | Some res \<Rightarrow> try_addresses res)"

section \<open>One request\<close>

definition get_request :: "http_url \<Rightarrow> string" where
  "get_request u = ''GET '' @ u_path u @ '' HTTP/1.0'' @ CRLF @
     ''Host: '' @ u_host u @ CRLF @
     ''User-Agent: stnewsaggregator/1.0'' @ CRLF @
     ''Connection: close'' @ CRLF @ CRLF"

text \<open>The write loop: \<^term>\<open>None\<close> when a call fails, otherwise what the peer has received.\<close>

fun send_loop :: "int list \<Rightarrow> string \<Rightarrow> nat \<Rightarrow> string option" where
  "send_loop [] req sent = Some req"
| "send_loop (n # ns) req sent =
     (if sent < length req
      then if n \<le> 0 then None else send_loop ns req (sent + min (nat n) (length req - sent))
      else Some (take sent req))"

definition fetchURL :: "internet \<Rightarrow> string \<Rightarrow> string option" where
  "fetchURL net url =
     (if take 7 url \<noteq> ''http://'' \<and> find_sub ''://'' url \<noteq> None then None
      else
        let u = parseHttpURL url
        in if u_host u = [] then None
           else case connectTo net (u_host u) (u_port u) of
               None \<Rightarrow> None
             | Some fd \<Rightarrow>
                 (case send_loop (p_writes fd) (get_request u) 0 of
                    None \<Rightarrow> None
                  | Some got \<Rightarrow>
                      let (resp, reader) = ingestFrom (open_reader (p_answer fd got)) new_response
                      in if p_code resp \<noteq> 200 then None else Some (p_body resp)))"

section \<open>Facts\<close>

lemma send_loop_whole: "sent \<le> length req \<Longrightarrow> send_loop ns req sent = Some got \<Longrightarrow> got = req"
  by (induction ns req sent rule: send_loop.induct) (auto split: if_splits)

text \<open>A page served whole by the first address that answers is fetched, however it arrives.\<close>

lemma fetch_page:
  assumes "take 7 url = ''http://'' \<or> find_sub ''://'' url = None"
    and "u_host (parseHttpURL url) \<noteq> []"
    and "connectTo net (u_host (parseHttpURL url)) (u_port (parseHttpURL url)) = Some fd"
    and "\<forall>n \<in> set (p_writes fd). 0 < n"
    and "[] \<notin> set (p_answer fd (get_request (parseHttpURL url)))"
    and "concat (p_answer fd (get_request (parseHttpURL url))) = response_serialize p"
    and "response_ok p" and "p_code p = 200"
  shows "fetchURL net url = Some (p_body p)"
proof -
  let ?u = "parseHttpURL url"
  have "send_loop ns req sent \<noteq> None" if "\<forall>n \<in> set ns. 0 < n" for ns req sent
    using that by (induction ns req sent rule: send_loop.induct) auto
  then obtain got where got: "send_loop (p_writes fd) (get_request ?u) 0 = Some got"
    using assms(4) by (metis not_None_eq)
  have whole: "got = get_request ?u" by (rule send_loop_whole [OF _ got]) simp
  let ?r = "open_reader (p_answer fd got)"
  have "fst (ingestFrom ?r new_response) = p"
    using ingest_serialized [of ?r p "[]"] assms(5-7)
    by (simp add: whole open_reader_def reader_ok_def remaining_def)
  then show ?thesis using assms(1-3,8) got
    by (auto simp: fetchURL_def Let_def case_prod_beta)
qed

text \<open>A scheme other than \<open>http\<close> is refused without a connection.\<close>

lemma fetch_refused: "take 7 url \<noteq> ''http://'' \<Longrightarrow> find_sub ''://'' url \<noteq> None \<Longrightarrow> fetchURL net url = None"
  by (simp add: fetchURL_def)

lemma connects_first: "\<forall>p \<in> set before. \<not> a_socket p \<or> a_peer p = None \<Longrightarrow> a_socket a \<Longrightarrow> a_peer a = Some c \<Longrightarrow>
    try_addresses (before @ a # rest) = Some c"
  by (induction before) auto

end
