(* ===== verification/News_Xml.thy ===== *)
theory News_Xml
  imports Fetch Tokens Sorting
begin

text \<open>
  \<open>xml-utils.cc\<close>: the feed parser and the HTML tokenizer of the news aggregator. A libxml2 tree is a
  datatype; a list of nodes stands for a first child and its \<open>next\<close> chain. The parsers themselves and
  \<open>xmlNodeGetContent\<close> are in the library and not in the repository: the record \<open>libxml\<close>. The lemmas say
  which nodes become items and which text is indexed.
\<close>

section \<open>Trees\<close>

text \<open>\<open>Other_node\<close>: comments, CDATA sections, entities and whatever else is neither element nor text.\<close>

datatype xml_node =
    Element_node string "(string \<times> string) list" "xml_node list"
  | Text_node string
  | Other_node "xml_node list"

text \<open>\<open>xmlReadMemory\<close> and \<open>htmlReadMemory\<close>, then the root element and the nodes after it; nothing when
  there is no document or no root.\<close>

record libxml =
  read_xml :: "string \<Rightarrow> string \<Rightarrow> xml_node list"
  read_html :: "string \<Rightarrow> xml_node list"
  node_content :: "xml_node \<Rightarrow> string"

record rss_item =
  title :: string
  link :: string

text \<open>An element whose name is \<open>name\<close> for \<open>xmlStrcasecmp\<close>.\<close>

fun named :: "string \<Rightarrow> xml_node \<Rightarrow> bool" where
  "named name (Element_node n attrs kids) \<longleftrightarrow> map tolower n = map tolower name"
| "named name _ \<longleftrightarrow> False"

fun kids_of :: "xml_node \<Rightarrow> xml_node list" where
  "kids_of (Element_node n attrs kids) = kids"
| "kids_of (Text_node s) = []"
| "kids_of (Other_node kids) = kids"

fun childNamed :: "xml_node list \<Rightarrow> string \<Rightarrow> xml_node option" where
  "childNamed [] name = None"
| "childNamed (c # cs) name = (if named name c then Some c else childNamed cs name)"

section \<open>Feeds\<close>

definition contains_scheme :: "string \<Rightarrow> bool" where
  "contains_scheme l \<longleftrightarrow> find_sub ''://'' l \<noteq> None"

text \<open>\<open>path.substr(0, path.find_last_of('/') + 1)\<close>; with no slash \<open>npos + 1\<close> is 0.\<close>

definition upto_last_slash :: "string \<Rightarrow> string" where
  "upto_last_slash path = rev (dropWhile (\<lambda>c. c \<noteq> CHR ''/'') (rev path))"

definition resolve :: "string \<Rightarrow> string \<Rightarrow> string" where
  "resolve base l =
     (if contains_scheme l then l
      else
        let b = parseHttpURL base; origin = ''http://'' @ server b
        in if l \<noteq> [] \<and> hd l = CHR ''/'' then origin @ l
           else origin @ upto_last_slash (u_path b) @ l)"

text \<open>\<open>xmlGetProp\<close>.\<close>

fun get_prop :: "xml_node \<Rightarrow> string \<Rightarrow> string option" where
  "get_prop (Element_node n attrs kids) name = map_of attrs name"
| "get_prop _ name = None"

definition link_text :: "libxml \<Rightarrow> xml_node \<Rightarrow> string" where
  "link_text lib l = (if node_content lib l \<noteq> [] then node_content lib l
     else case get_prop l ''href'' of None \<Rightarrow> [] | Some href \<Rightarrow> href)"

text \<open>The item that an \<open>item\<close> or \<open>entry\<close> element stands for.\<close>

definition item_of :: "libxml \<Rightarrow> string \<Rightarrow> xml_node \<Rightarrow> rss_item" where
  "item_of lib base n =
     \<lparr>title = (case childNamed (kids_of n) ''title'' of None \<Rightarrow> [] | Some t \<Rightarrow> node_content lib t),
      link = (case childNamed (kids_of n) ''link'' of None \<Rightarrow> [] | Some l \<Rightarrow> resolve base (link_text lib l))\<rparr>"

definition own_items :: "libxml \<Rightarrow> string \<Rightarrow> xml_node \<Rightarrow> rss_item list" where
  "own_items lib base n =
     (if named ''item'' n \<or> named ''entry'' n
      then let item = item_of lib base n in if link item \<noteq> [] then [item] else []
      else [])"

primrec collect_node :: "libxml \<Rightarrow> string \<Rightarrow> xml_node \<Rightarrow> rss_item list" where
  "collect_node lib base (Element_node n attrs kids) =
     own_items lib base (Element_node n attrs kids) @ concat (map (collect_node lib base) kids)"
| "collect_node lib base (Text_node s) = []"
| "collect_node lib base (Other_node kids) = concat (map (collect_node lib base) kids)"

definition collectItems :: "libxml \<Rightarrow> xml_node list \<Rightarrow> string \<Rightarrow> rss_item list" where
  "collectItems lib nodes base = concat (map (collect_node lib base) nodes)"

definition parseRSSItems :: "libxml \<Rightarrow> string \<Rightarrow> string \<Rightarrow> rss_item list" where
  "parseRSSItems lib xml base = collectItems lib (read_xml lib xml base) base"

section \<open>Pages\<close>

primrec visible_node :: "xml_node \<Rightarrow> string" where
  "visible_node (Element_node n attrs kids) =
     (if map tolower n = ''script'' \<or> map tolower n = ''style'' then [] else concat (map visible_node kids))"
| "visible_node (Text_node s) = s @ '' ''"
| "visible_node (Other_node kids) = []"

definition collectVisibleText :: "xml_node list \<Rightarrow> string" where
  "collectVisibleText nodes = concat (map visible_node nodes)"

definition flush_token :: "string \<Rightarrow> string list" where
  "flush_token cur = (if 2 \<le> length cur \<and> length cur \<le> 32 then [cur] else [])"

primrec token_loop :: "string \<Rightarrow> string \<Rightarrow> string list" where
  "token_loop cur [] = flush_token cur"
| "token_loop cur (ch # chs) =
     (if isalnum ch then token_loop (cur @ [tolower ch]) chs
      else flush_token cur @ token_loop [] chs)"

definition tokenizeHTML :: "libxml \<Rightarrow> string \<Rightarrow> string list" where
  "tokenizeHTML lib html = token_loop [] (collectVisibleText (read_html lib html))"

section \<open>What is collected\<close>

text \<open>All nodes below a node, itself included, in document order.\<close>

primrec nodes_in :: "xml_node \<Rightarrow> xml_node list" where
  "nodes_in (Element_node n attrs kids) = Element_node n attrs kids # concat (map nodes_in kids)"
| "nodes_in (Text_node s) = [Text_node s]"
| "nodes_in (Other_node kids) = Other_node kids # concat (map nodes_in kids)"

lemma collect_node_nodes: "collect_node lib base n = concat (map (own_items lib base) (nodes_in n))"
proof (induction n)
  case (Element_node n attrs kids)
  then show ?case by (induction kids) simp_all
next
  case (Other_node kids)
  then show ?case by (induction kids) (simp_all add: own_items_def)
qed (simp add: own_items_def)

lemma collected_links: "x \<in> set (parseRSSItems lib xml base) \<Longrightarrow> link x \<noteq> []"
  by (auto simp: parseRSSItems_def collectItems_def collect_node_nodes own_items_def Let_def split: if_splits)

text \<open>The tokens of a page are the words of its visible text that are 2 to 32 characters long.\<close>

definition kept :: "string \<Rightarrow> bool" where
  "kept w \<longleftrightarrow> 2 \<le> length w \<and> length w \<le> 32"

lemma token_loop_words: "token_loop cur s = filter kept (words_loop cur s)"
  by (induction s arbitrary: cur) (auto simp: flush_token_def kept_def)

lemma tokenize_words: "tokenizeHTML lib html = filter kept (text_words (collectVisibleText (read_html lib html)))"
  by (simp add: tokenizeHTML_def token_loop_words text_words_def)

lemma words_loop_in_text: "words_loop cur (s @ '' '' @ t) = words_loop cur s @ words_loop [] t"
  by (simp add: words_loop_sep ctype_defs)

text \<open>A word never runs from one text node into the next.\<close>

lemma visible_words:
  "text_words (collectVisibleText (Text_node s # nodes)) = text_words s @ text_words (collectVisibleText nodes)"
  using words_loop_in_text [of "[]" s] by (simp add: text_words_def collectVisibleText_def)

lemma script_invisible: "map tolower n \<in> {''script'', ''style''} \<Longrightarrow> visible_node (Element_node n attrs kids) = []"
  by auto

text \<open>
  A relative link that carries another URL in its query passes for an absolute one: it is left as it is,
  and the client refuses it.
\<close>

lemma embedded_scheme_lost: "contains_scheme l \<Longrightarrow> take 7 l \<noteq> ''http://'' \<Longrightarrow> fetchURL net (resolve base l) = None"
  by (simp add: contains_scheme_def resolve_def fetch_refused)

lemma embedded_scheme_example: "fetchURL net (resolve ''http://news.org/rss.xml'' ''/read?from=http://b.org'') = None"
  by (rule embedded_scheme_lost) (simp_all add: contains_scheme_def)

end
