(* ===== verification/Aggregate.thy ===== *)
theory Aggregate
  imports News_Xml
begin

text \<open>
  \<open>aggregate.cc\<close>: the news aggregator's state and its threads. A task is a thunk in one of the two thread
  pools; its program counter names the next critical section, semaphore operation or download. The
  pools are used as the abstract pool that they refine (\<open>ThreadPool_Bag\<close>): a scheduled thunk runs once, at most 8 feed
  tasks and 24 article tasks at a time, and \<open>wait\<close> returns when all are done. A semaphore is its count.
  The internet does not change while the program runs: a URL downloads to the same text each time. The
  invariant is in \<open>Aggregate_Inv\<close>, the properties are in \<open>Aggregate_Props\<close>.
\<close>

section \<open>State\<close>

type_synonym inverted_index = "string \<Rightarrow> (nat \<times> nat) list option"

text \<open>\<open>Skipped\<close> is the return for a URL that was already seen.\<close>

datatype task_pc =
    Queued
  | Checking
  | Naming
  | Waiting
  | Fetching
  | Releasing "string option"
  | Scheduling "rss_item list"
  | Adding "(string \<times> nat) list"
  | Indexing "(string \<times> nat) list" nat
  | Completed
  | Skipped

record news_task =
  t_item :: rss_item
  t_feed :: bool
  t_pc :: task_pc

datatype main_pc = Main_schedule "rss_item list" | Main_feeds | Main_articles | Main_done

record news =
  main_pc :: main_pc
  tasks :: "news_task list"
  articles :: "rss_item list"
  invertedIndex :: inverted_index
  seenURLs :: "string set"
  serverLimits :: "string \<Rightarrow> nat option"

record outside =
  net :: internet
  lib :: libxml

definition kMaxConnectionsPerServer :: nat where
  "kMaxConnectionsPerServer = 8"

definition feed_threads :: nat where "feed_threads = 8"
definition article_threads :: nat where "article_threads = 24"

section \<open>Operations\<close>

definition server_of :: "news_task \<Rightarrow> string" where
  "server_of t = server (parseHttpURL (link (t_item t)))"

text \<open>\<open>serverSemaphore\<close>: the slot is filled on first use.\<close>

definition serverSemaphore :: "string \<Rightarrow> news \<Rightarrow> news" where
  "serverSemaphore srv s =
     (case serverLimits s srv of
        None \<Rightarrow> s\<lparr>serverLimits := (serverLimits s)(srv \<mapsto> kMaxConnectionsPerServer)\<rparr>
      | Some n \<Rightarrow> s)"

text \<open>\<open>for (tok : tokens) counts[tok]++\<close>.\<close>

definition count_tokens :: "string list \<Rightarrow> (string \<times> nat) list" where
  "count_tokens toks = fold (\<lambda>tok counts. bump tok 1 counts) toks []"

text \<open>\<open>invertedIndex[tok][idx] += n\<close> for every counted token.\<close>

definition add_count :: "nat \<Rightarrow> string \<times> nat \<Rightarrow> inverted_index \<Rightarrow> inverted_index" where
  "add_count idx kv index =
     index(fst kv \<mapsto> bump idx (snd kv) (case index (fst kv) of None \<Rightarrow> [] | Some m \<Rightarrow> m))"

definition add_counts :: "nat \<Rightarrow> (string \<times> nat) list \<Rightarrow> inverted_index \<Rightarrow> inverted_index" where
  "add_counts idx counts index = fold (add_count idx) counts index"

definition goto :: "nat \<Rightarrow> task_pc \<Rightarrow> news \<Rightarrow> news" where
  "goto i p s = s\<lparr>tasks := (tasks s)[i := (tasks s ! i)\<lparr>t_pc := p\<rparr>]\<rparr>"

definition running :: "task_pc \<Rightarrow> bool" where
  "running p \<longleftrightarrow> p \<noteq> Queued \<and> p \<noteq> Completed \<and> p \<noteq> Skipped"

definition free_thread :: "bool \<Rightarrow> news \<Rightarrow> bool" where
  "free_thread feed s \<longleftrightarrow>
     length (filter (\<lambda>t. t_feed t = feed \<and> running (t_pc t)) (tasks s)) < (if feed then feed_threads else article_threads)"

text \<open>What follows a download: \<open>processFeed\<close> parses its items, \<open>processArticle\<close> counts its tokens.\<close>

definition after_fetch :: "outside \<Rightarrow> news_task \<Rightarrow> string option \<Rightarrow> task_pc" where
  "after_fetch out t r = (case r of
       None \<Rightarrow> Completed
     | Some body \<Rightarrow>
         if t_feed t then Scheduling (parseRSSItems (lib out) body (link (t_item t)))
         else let counts = count_tokens (tokenizeHTML (lib out) body)
              in if counts = [] then Completed else Adding counts)"

text \<open>The next step of task \<open>i\<close>; \<^term>\<open>None\<close> when it has to wait or has returned.\<close>

definition task_step :: "outside \<Rightarrow> nat \<Rightarrow> news \<Rightarrow> news option" where
  "task_step out i s =
     (let t = tasks s ! i; x = t_item t; srv = server_of t in case t_pc t of
        Queued \<Rightarrow> if free_thread (t_feed t) s then Some (goto i (if t_feed t then Naming else Checking) s) else None
      | Checking \<Rightarrow>
          if link x \<in> seenURLs s then Some (goto i Skipped s)
          else Some (goto i Naming (s\<lparr>seenURLs := insert (link x) (seenURLs s)\<rparr>))
      | Naming \<Rightarrow> Some (goto i Waiting (serverSemaphore srv s))
      | Waiting \<Rightarrow>
          (case serverLimits s srv of
             Some (Suc n) \<Rightarrow> Some (goto i Fetching (s\<lparr>serverLimits := (serverLimits s)(srv \<mapsto> n)\<rparr>))
           | _ \<Rightarrow> None)
      | Fetching \<Rightarrow> Some (goto i (Releasing (fetchURL (net out) (link x))) s)
      | Releasing r \<Rightarrow>
          Some (goto i (after_fetch out t r)
            (s\<lparr>serverLimits := (serverLimits s)(srv \<mapsto> Suc (case serverLimits s srv of None \<Rightarrow> 0 | Some n \<Rightarrow> n))\<rparr>))
      | Scheduling [] \<Rightarrow> Some (goto i Completed s)
      | Scheduling (y # ys) \<Rightarrow>
          Some (let s' = goto i (Scheduling ys) s
                in s'\<lparr>tasks := tasks s' @ [\<lparr>t_item = y, t_feed = False, t_pc = Queued\<rparr>]\<rparr>)
      | Adding counts \<Rightarrow> Some (goto i (Indexing counts (length (articles s))) (s\<lparr>articles := articles s @ [x]\<rparr>))
      | Indexing counts idx \<Rightarrow> Some (goto i Completed (s\<lparr>invertedIndex := add_counts idx counts (invertedIndex s)\<rparr>))
      | Completed \<Rightarrow> None
      | Skipped \<Rightarrow> None)"

definition all_done :: "bool \<Rightarrow> news \<Rightarrow> bool" where
  "all_done feed s \<longleftrightarrow> list_all (\<lambda>t. t_feed t = feed \<longrightarrow> t_pc t \<in> {Completed, Skipped}) (tasks s)"

text \<open>The next step of \<open>main\<close>.\<close>

definition main_step :: "news \<Rightarrow> news option" where
  "main_step s = (case main_pc s of
       Main_schedule [] \<Rightarrow> Some (s\<lparr>main_pc := Main_feeds\<rparr>)
     | Main_schedule (feed # feeds) \<Rightarrow>
         Some (s\<lparr>main_pc := Main_schedule feeds, tasks := tasks s @ [\<lparr>t_item = feed, t_feed = True, t_pc = Queued\<rparr>]\<rparr>)
     | Main_feeds \<Rightarrow> if all_done True s then Some (s\<lparr>main_pc := Main_articles\<rparr>) else None
     | Main_articles \<Rightarrow> if all_done False s then Some (s\<lparr>main_pc := Main_done\<rparr>) else None
     | Main_done \<Rightarrow> None)"

inductive news_step :: "outside \<Rightarrow> news \<Rightarrow> news \<Rightarrow> bool" for out where
  main_moves: "main_step s = Some s' \<Longrightarrow> news_step out s s'"
| task_moves: "i < length (tasks s) \<Longrightarrow> task_step out i s = Some s' \<Longrightarrow> news_step out s s'"

inductive_cases news_step_cases: "news_step out s s'"

definition news_init :: "rss_item list \<Rightarrow> news" where
  "news_init feeds = \<lparr>main_pc = Main_schedule feeds, tasks = [], articles = [], invertedIndex = (\<lambda>_. None),
     seenURLs = {}, serverLimits = (\<lambda>_. None)\<rparr>"

text \<open>The part of \<open>main\<close> before the pools: \<^term>\<open>None\<close> is the fatal exit.\<close>

definition news_start :: "outside \<Rightarrow> string \<Rightarrow> news option" where
  "news_start out feedListURL = (case fetchURL (net out) feedListURL of
       None \<Rightarrow> None
     | Some indexXML \<Rightarrow> Some (news_init (parseRSSItems (lib out) indexXML feedListURL)))"

section \<open>Queries\<close>

definition normalize_word :: "string \<Rightarrow> string" where
  "normalize_word word = map tolower (filter isalnum word)"

definition hit_before :: "rss_item list \<Rightarrow> nat \<times> nat \<Rightarrow> nat \<times> nat \<Rightarrow> bool" where
  "hit_before arts a b \<longleftrightarrow>
     (if snd a \<noteq> snd b then snd a > snd b else title (arts ! fst a) < title (arts ! fst b))"

datatype reply = No_matches string | Hits nat string "(nat \<times> rss_item) list"

type_synonym sorter = "(nat \<times> nat \<Rightarrow> nat \<times> nat \<Rightarrow> bool) \<Rightarrow> (nat \<times> nat) list \<Rightarrow> (nat \<times> nat) list"

definition query :: "sorter \<Rightarrow> news \<Rightarrow> string \<Rightarrow> reply" where
  "query std_sort s word =
     (let q = normalize_word word in case invertedIndex s q of
        None \<Rightarrow> No_matches word
      | Some m \<Rightarrow>
          if q = [] \<or> m = [] then No_matches word
          else
            let hits = std_sort (hit_before (articles s)) m
            in Hits (length hits) q (map (\<lambda>h. (snd h, articles s ! fst h)) (take 10 hits)))"

text \<open>\<open>in >> word\<close>.\<close>

function input_words :: "string \<Rightarrow> string list" where
  "input_words s = (let (w, rest) = next_word s in if w = [] then [] else w # input_words rest)"
  by pat_completeness auto
termination
proof (relation "measure length")
  fix s w rest x
  assume x: "x = next_word s" "(w, rest) = x" "w \<noteq> []"
  let ?s = "dropWhile isspace s"
  have w: "w = takeWhile (\<lambda>c. \<not> isspace c) ?s" "rest = dropWhile (\<lambda>c. \<not> isspace c) ?s"
    using x by (simp_all add: next_word_def Let_def)
  have "length w + length rest = length ?s" unfolding w by (metis length_append takeWhile_dropWhile_id)
  moreover have "length ?s \<le> length s" by (rule length_dropWhile_le)
  moreover have "0 < length w" using x(3) by simp
  ultimately have "length rest < length s" by linarith
  then show "(rest, s) \<in> measure length" by simp
qed simp

declare input_words.simps [simp del]

definition show_reply :: "reply \<Rightarrow> string" where
  "show_reply r = (case r of
       No_matches word \<Rightarrow> ''No matches for '' @ [CHR 0x22] @ word @ [CHR 0x22] @ ''.'' @ [LF]
     | Hits n q shown \<Rightarrow> show_nat n @ '' article(s) contain '' @ [CHR 0x22] @ q @ [CHR 0x22] @ '':'' @ [LF] @
         concat (map (\<lambda>(n, a). ''  '' @ show_nat n @ [CHR 0x09] @ title a @ '' ['' @ link a @ '']'' @ [LF]) shown))"

definition runQueries :: "sorter \<Rightarrow> news \<Rightarrow> string \<Rightarrow> string" where
  "runQueries std_sort s inp = concat (map (show_reply \<circ> query std_sort s) (input_words inp))"

end
