(* ===== verification/Aggregate_Inv.thy ===== *)
theory Aggregate_Inv
  imports Aggregate
begin

text \<open>
  The invariant of the news aggregator, in parts that each follow from a step on their own: what a task
  knows at each point, who owns a URL, where the articles come from, what the index holds, how many
  connections a server has, and what \<open>main\<close> has handed out.
\<close>

section \<open>What a URL stands for\<close>

definition page_tokens :: "outside \<Rightarrow> string \<Rightarrow> string list" where
  "page_tokens out url = (case fetchURL (net out) url of None \<Rightarrow> [] | Some html \<Rightarrow> tokenizeHTML (lib out) html)"

definition feed_items :: "outside \<Rightarrow> string \<Rightarrow> rss_item list" where
  "feed_items out url = (case fetchURL (net out) url of None \<Rightarrow> [] | Some xml \<Rightarrow> parseRSSItems (lib out) xml url)"

lemma count_tokens_ok: "counts_ok (count_tokens toks)"
  unfolding count_tokens_def by (rule bumped.count_from_none)

lemma count_tokens_at: "count_at (count_tokens toks) q = count_list toks q"
  unfolding count_tokens_def by (rule bumped.count_from_none)

lemma bump_not_Nil [simp]: "bump k n m \<noteq> []"
  by (induction k n m rule: bump.induct) simp_all

lemma count_tokens_Nil: "count_tokens toks = [] \<longleftrightarrow> toks = []"
proof -
  have "m \<noteq> [] \<Longrightarrow> fold (\<lambda>tok. bump tok 1) rest m \<noteq> []" for rest and m :: "(string \<times> nat) list"
    by (induction rest arbitrary: m) simp_all
  then have "fold (\<lambda>tok. bump tok 1) rest [(tok, 1)] \<noteq> []" for rest and tok :: string by simp
  then show ?thesis by (cases toks) (simp_all add: count_tokens_def)
qed

text \<open>A row of the index, and adding the counts of one article to it.\<close>

definition row :: "inverted_index \<Rightarrow> string \<Rightarrow> (nat \<times> nat) list" where
  "row index q = (case index q of None \<Rightarrow> [] | Some m \<Rightarrow> m)"

lemma row_add_count: "row (add_count idx kv index) q = (if q = fst kv then bump idx (snd kv) (row index q) else row index q)"
  by (simp add: add_count_def row_def)

lemma add_counts_row:
  assumes "\<forall>q. counts_ok (row index q)" and "distinct (map fst counts)" and "\<forall>(k, n) \<in> set counts. 0 < n"
  shows "counts_ok (row (add_counts idx counts index) q) \<and>
    count_at (row (add_counts idx counts index) q) k =
      count_at (row index q) k + (if k = idx then count_at counts q else 0)"
  using assms unfolding add_counts_def
proof (induction counts arbitrary: index)
  case (Cons kv counts)
  let ?ix = "add_count idx kv index"
  have pos: "0 < snd kv" using Cons.prems(3) by (cases kv) simp
  have ok: "\<forall>q. counts_ok (row ?ix q)" using Cons.prems(1) pos by (simp add: row_add_count bump_ok)
  have here: "count_at (row ?ix q) k = count_at (row index q) k + (if k = idx \<and> q = fst kv then snd kv else 0)"
    using Cons.prems(1) by (simp add: row_add_count count_at_bump)
  have "count_at counts (fst kv) = 0" using Cons.prems(2)
    by (auto simp: count_at_def image_iff split: option.splits dest!: map_of_SomeD)
  then have "count_at (kv # counts) q = (if q = fst kv then snd kv else count_at counts q)"
    by (cases kv) (simp add: count_at_def)
  with Cons.IH [OF ok] Cons.prems(2,3) here show ?case
    using \<open>count_at counts (fst kv) = 0\<close> by auto
qed simp

section \<open>The invariant\<close>

definition owner :: "news_task \<Rightarrow> bool" where
  "owner t \<longleftrightarrow> \<not> t_feed t \<and> t_pc t \<notin> {Queued, Checking, Skipped}"

fun holding :: "task_pc \<Rightarrow> bool" where
  "holding Fetching = True"
| "holding (Releasing r) = True"
| "holding p = False"

definition kinds :: "news_task list \<Rightarrow> (bool \<times> rss_item) set" where
  "kinds ts = set (map (\<lambda>t. (t_feed t, t_item t)) ts)"

definition scheduled :: "bool \<Rightarrow> news \<Rightarrow> rss_item set" where
  "scheduled feed s = {x. (feed, x) \<in> kinds (tasks s)}"

definition feed_ok :: "outside \<Rightarrow> rss_item set \<Rightarrow> news_task \<Rightarrow> bool" where
  "feed_ok out given t \<longleftrightarrow> (case t_pc t of
       Queued \<Rightarrow> True
     | Naming \<Rightarrow> True
     | Waiting \<Rightarrow> True
     | Fetching \<Rightarrow> True
     | Releasing r \<Rightarrow> r = fetchURL (net out) (link (t_item t))
     | Scheduling xs \<Rightarrow> (\<exists>ys. feed_items out (link (t_item t)) = ys @ xs \<and> set ys \<subseteq> given)
     | Completed \<Rightarrow> set (feed_items out (link (t_item t))) \<subseteq> given
     | _ \<Rightarrow> False)"

definition article_ok :: "outside \<Rightarrow> rss_item list \<Rightarrow> news_task \<Rightarrow> bool" where
  "article_ok out arts t \<longleftrightarrow> (let toks = page_tokens out (link (t_item t)) in case t_pc t of
       Releasing r \<Rightarrow> r = fetchURL (net out) (link (t_item t))
     | Scheduling xs \<Rightarrow> False
     | Adding c \<Rightarrow> c = count_tokens toks \<and> toks \<noteq> []
     | Indexing c k \<Rightarrow> c = count_tokens toks \<and> toks \<noteq> [] \<and> k < length arts \<and> arts ! k = t_item t
     | Completed \<Rightarrow> toks = [] \<or> t_item t \<in> set arts
     | _ \<Rightarrow> True)"

definition task_ok :: "outside \<Rightarrow> rss_item set \<Rightarrow> rss_item list \<Rightarrow> news_task \<Rightarrow> bool" where
  "task_ok out given arts t \<longleftrightarrow> (if t_feed t then feed_ok out given t else article_ok out arts t)"

definition tasks_inv :: "outside \<Rightarrow> news \<Rightarrow> bool" where
  "tasks_inv out s \<longleftrightarrow> (\<forall>t \<in> set (tasks s). task_ok out (scheduled False s) (articles s) t)"

definition owner_links :: "news_task list \<Rightarrow> string list" where
  "owner_links ts = map (\<lambda>t. link (t_item t)) (filter owner ts)"

definition owners_inv :: "news \<Rightarrow> bool" where
  "owners_inv s \<longleftrightarrow> distinct (owner_links (tasks s)) \<and> seenURLs s = set (owner_links (tasks s)) \<and>
     (\<forall>t \<in> set (tasks s). t_pc t = Skipped \<longrightarrow> link (t_item t) \<in> seenURLs s)"

definition articles_inv :: "news \<Rightarrow> bool" where
  "articles_inv s \<longleftrightarrow> distinct (map link (articles s)) \<and>
     (\<forall>k < length (articles s). \<exists>i < length (tasks s). owner (tasks s ! i) \<and> t_item (tasks s ! i) = articles s ! k \<and>
        (t_pc (tasks s ! i) = Completed \<or> (\<exists>c. t_pc (tasks s ! i) = Indexing c k)))"

definition pending :: "news_task list \<Rightarrow> nat \<Rightarrow> bool" where
  "pending ts k \<longleftrightarrow> (\<exists>i < length ts. \<exists>c. t_pc (ts ! i) = Indexing c k)"

definition index_inv :: "outside \<Rightarrow> news \<Rightarrow> bool" where
  "index_inv out s \<longleftrightarrow> (\<forall>x \<in> set (articles s). page_tokens out (link x) \<noteq> []) \<and> (\<forall>q. counts_ok (row (invertedIndex s) q) \<and>
     (\<forall>k. count_at (row (invertedIndex s) q) k =
        (if k < length (articles s) \<and> \<not> pending (tasks s) k then count_list (page_tokens out (link (articles s ! k))) q else 0)))"

text \<open>Downloads from one server.\<close>

definition connections :: "string \<Rightarrow> news_task list \<Rightarrow> nat" where
  "connections srv ts = length (filter (\<lambda>t. server_of t = srv \<and> holding (t_pc t)) ts)"

definition limits_inv :: "news \<Rightarrow> bool" where
  "limits_inv s \<longleftrightarrow> (\<forall>srv. case serverLimits s srv of
       Some n \<Rightarrow> n + connections srv (tasks s) = kMaxConnectionsPerServer
     | None \<Rightarrow> (\<forall>t \<in> set (tasks s). server_of t = srv \<longrightarrow> t_pc t \<noteq> Waiting \<and> \<not> holding (t_pc t)))"

definition main_inv :: "outside \<Rightarrow> rss_item list \<Rightarrow> news \<Rightarrow> bool" where
  "main_inv out feeds s \<longleftrightarrow>
     scheduled True s \<union> (case main_pc s of Main_schedule rest \<Rightarrow> set rest | _ \<Rightarrow> {}) = set feeds \<and>
     scheduled False s \<subseteq> (\<Union>f \<in> set feeds. set (feed_items out (link f))) \<and>
     (main_pc s \<in> {Main_articles, Main_done} \<longrightarrow> all_done True s) \<and>
     (main_pc s = Main_done \<longrightarrow> all_done False s)"

definition news_inv :: "outside \<Rightarrow> rss_item list \<Rightarrow> news \<Rightarrow> bool" where
  "news_inv out feeds s \<longleftrightarrow> tasks_inv out s \<and> owners_inv s \<and> articles_inv s \<and> index_inv out s \<and> limits_inv s \<and>
     main_inv out feeds s"

lemma news_init_inv: "news_inv out feeds (news_init feeds)"
  by (simp add: news_inv_def news_init_def tasks_inv_def owners_inv_def owner_links_def articles_inv_def index_inv_def
      limits_inv_def main_inv_def scheduled_def kinds_def row_def split: option.splits)

section \<open>One task moves\<close>

text \<open>
  Every step of a task \<open>i\<close> leaves the tasks as \<open>(tasks s)[i := t'] @ new\<close> where \<open>t'\<close> differs in the program
  counter only and \<open>new\<close> are queued article tasks.
\<close>

definition fresh :: "news_task \<Rightarrow> bool" where
  "fresh t \<longleftrightarrow> \<not> t_feed t \<and> t_pc t = Queued"

lemma goto_tasks [simp]: "tasks (goto i p s) = (tasks s)[i := (tasks s ! i)\<lparr>t_pc := p\<rparr>]"
  "articles (goto i p s) = articles s" "seenURLs (goto i p s) = seenURLs s" "serverLimits (goto i p s) = serverLimits s"
  "invertedIndex (goto i p s) = invertedIndex s" "main_pc (goto i p s) = main_pc s"
  by (simp_all add: goto_def)

lemma server_of_pc [simp]: "server_of (t\<lparr>t_pc := p\<rparr>) = server_of t"
  by (simp add: server_of_def)

lemma kinds_update [simp]: "i < length ts \<Longrightarrow> kinds (ts[i := (ts ! i)\<lparr>t_pc := p\<rparr>]) = kinds ts"
  unfolding kinds_def by (subst map_update_same) simp_all

lemma kinds_append [simp]: "kinds (ts @ us) = kinds ts \<union> kinds us" "kinds [] = {}"
  "kinds (t # ts) = insert (t_feed t, t_item t) (kinds ts)"
  by (auto simp: kinds_def)

lemma feed_ok_mono: "feed_ok out given t \<Longrightarrow> given \<subseteq> given' \<Longrightarrow> feed_ok out given' t"
  by (auto simp: feed_ok_def split: task_pc.splits)

lemma article_ok_mono: "article_ok out arts t \<Longrightarrow> article_ok out (arts @ rest) t"
  by (auto simp: article_ok_def Let_def nth_append split: task_pc.splits)

lemma task_ok_mono:
  "task_ok out given arts t \<Longrightarrow> given \<subseteq> given' \<Longrightarrow> task_ok out given' (arts @ rest) t"
  unfolding task_ok_def using feed_ok_mono article_ok_mono by (metis (full_types))

lemma task_ok_fresh: "fresh t \<Longrightarrow> task_ok out given arts t"
  by (simp add: fresh_def task_ok_def article_ok_def Let_def)

lemma moved_cases: "t \<in> set (ts[i := v] @ new) \<Longrightarrow> t \<in> set ts \<or> t = v \<or> t \<in> set new"
  using set_update_subset_insert [of ts i v] by auto

lemma tasks_move:
  assumes inv: "tasks_inv out s" and i: "i < length (tasks s)"
    and ts: "tasks s' = (tasks s)[i := (tasks s ! i)\<lparr>t_pc := p\<rparr>] @ new" and new: "\<forall>t \<in> set new. fresh t"
    and arts: "articles s' = articles s @ rest"
    and ok: "task_ok out (scheduled False s') (articles s') ((tasks s ! i)\<lparr>t_pc := p\<rparr>)"
  shows "tasks_inv out s'"
proof -
  have sub: "scheduled False s \<subseteq> scheduled False s'" using i by (auto simp: scheduled_def ts)
  have "task_ok out (scheduled False s') (articles s') t" if t: "t \<in> set (tasks s')" for t
  proof -
    consider "t \<in> set (tasks s)" | "t = (tasks s ! i)\<lparr>t_pc := p\<rparr>" | "t \<in> set new"
      using moved_cases [OF t [unfolded ts]] by blast
    then show ?thesis
    proof cases
      case 1
      then show ?thesis using inv sub task_ok_mono unfolding tasks_inv_def arts by blast
    next
      case 2
      then show ?thesis using ok by simp
    next
      case 3
      then show ?thesis using new task_ok_fresh by blast
    qed
  qed
  then show ?thesis by (simp add: tasks_inv_def)
qed

lemma owner_links_append: "\<forall>t \<in> set new. fresh t \<Longrightarrow> owner_links (ts @ new) = owner_links ts"
  by (auto simp: owner_links_def owner_def fresh_def filter_empty_conv)

lemma owners_move:
  assumes inv: "owners_inv s" and i: "i < length (tasks s)"
    and ts: "tasks s' = (tasks s)[i := (tasks s ! i)\<lparr>t_pc := p\<rparr>] @ new" and new: "\<forall>t \<in> set new. fresh t"
    and same: "owner ((tasks s ! i)\<lparr>t_pc := p\<rparr>) = owner (tasks s ! i)" "seenURLs s' = seenURLs s"
    and skip: "p = Skipped \<Longrightarrow> link (t_item (tasks s ! i)) \<in> seenURLs s"
  shows "owners_inv s'"
proof -
  let ?ts = "(tasks s)[i := (tasks s ! i)\<lparr>t_pc := p\<rparr>]"
  have "owner_links ?ts = owner_links (tasks s)"
    unfolding owner_links_def using i same(1) by (intro filter_map_update_same) simp_all
  then have links: "owner_links (tasks s') = owner_links (tasks s)" using new by (simp add: ts owner_links_append)
  have "link (t_item t) \<in> seenURLs s" if "t \<in> set (tasks s')" "t_pc t = Skipped" for t
  proof -
    have "t \<in> set (tasks s) \<or> t = (tasks s ! i)\<lparr>t_pc := p\<rparr>"
      using moved_cases [OF that(1) [unfolded ts]] that(2) new by (auto simp: fresh_def)
    then show ?thesis using that(2) inv skip by (auto simp: owners_inv_def)
  qed
  with inv links same(2) show ?thesis by (simp add: owners_inv_def)
qed

text \<open>The first task to see a URL owns it.\<close>

lemma owners_enter:
  assumes inv: "owners_inv s" and i: "i < length (tasks s)"
    and t: "t_pc (tasks s ! i) = Checking" "\<not> t_feed (tasks s ! i)" "link (t_item (tasks s ! i)) \<notin> seenURLs s"
    and s': "tasks s' = (tasks s)[i := (tasks s ! i)\<lparr>t_pc := Naming\<rparr>]" "seenURLs s' = insert (link (t_item (tasks s ! i))) (seenURLs s)"
  shows "owners_inv s'"
proof -
  let ?l = "\<lambda>t. link (t_item t)"
  have "i < length ts \<Longrightarrow> \<not> owner (ts ! i) \<Longrightarrow> owner v \<Longrightarrow>
      mset (map ?l (filter owner (ts[i := v]))) = add_mset (?l v) (mset (map ?l (filter owner ts)))" for ts v
  proof (induction ts arbitrary: i)
    case (Cons u us)
    then show ?case by (cases i) auto
  qed simp
  from this [OF i] have m: "mset (owner_links (tasks s')) = add_mset (?l (tasks s ! i)) (mset (owner_links (tasks s)))"
    using t unfolding owner_links_def s' by (simp add: owner_def)
  then have "set (owner_links (tasks s')) = seenURLs s'"
    using inv s'(2) by (metis owners_inv_def set_mset_add_mset_insert set_mset_mset)
  moreover have "distinct (owner_links (tasks s'))"
    using m inv t(3) by (metis distinct.simps(2) mset.simps(2) mset_eq_imp_distinct_iff owners_inv_def)
  moreover have "\<forall>t \<in> set (tasks s'). t_pc t = Skipped \<longrightarrow> ?l t \<in> seenURLs s'"
    using inv set_update_subset_insert [of "tasks s" i "(tasks s ! i)\<lparr>t_pc := Naming\<rparr>"] by (auto simp: s' owners_inv_def)
  ultimately show ?thesis by (simp add: owners_inv_def)
qed

lemma nth_moved: "i < length ts \<Longrightarrow> j < length ts \<Longrightarrow> (ts[i := v] @ new) ! j = (if j = i then v else ts ! j)"
  by (simp add: nth_append)

lemma articles_move:
  assumes inv: "articles_inv s" and i: "i < length (tasks s)"
    and ts: "tasks s' = (tasks s)[i := (tasks s ! i)\<lparr>t_pc := p\<rparr>] @ new"
    and arts: "articles s' = articles s"
    and p: "owner (tasks s ! i) \<Longrightarrow> owner ((tasks s ! i)\<lparr>t_pc := p\<rparr>)" "t_pc (tasks s ! i) \<noteq> Completed"
      "\<And>c k. t_pc (tasks s ! i) = Indexing c k \<Longrightarrow> p = Completed"
  shows "articles_inv s'"
proof -
  let ?from = "\<lambda>k t. owner t \<and> t_item t = articles s ! k \<and> (t_pc t = Completed \<or> (\<exists>c. t_pc t = Indexing c k))"
  have "\<exists>j < length (tasks s'). ?from k (tasks s' ! j)" if k: "k < length (articles s)" for k
  proof -
    obtain j where j: "j < length (tasks s)" "?from k (tasks s ! j)" using inv k unfolding articles_inv_def by blast
    have "?from k (tasks s' ! j)"
    proof (cases "j = i")
      case True
      then have "p = Completed" using j(2) p(2,3) by blast
      then show ?thesis using True j(2) p(1) i by (simp add: ts nth_append)
    next
      case False
      then show ?thesis using j i by (simp add: ts nth_append)
    qed
    then show ?thesis using j(1) by (intro exI [of _ j]) (simp add: ts)
  qed
  then show ?thesis using inv by (simp add: articles_inv_def arts)
qed

text \<open>Two owners of one URL are one task.\<close>

lemma owner_unique:
  "owners_inv s \<Longrightarrow> i < length (tasks s) \<Longrightarrow> j < length (tasks s) \<Longrightarrow> owner (tasks s ! i) \<Longrightarrow> owner (tasks s ! j) \<Longrightarrow>
    link (t_item (tasks s ! i)) = link (t_item (tasks s ! j)) \<Longrightarrow> i = j"
  unfolding owners_inv_def owner_links_def using filter_inj_nth [of "\<lambda>t. link (t_item t)" owner "tasks s" i j] by blast

lemma articles_add:
  assumes inv: "articles_inv s" and own: "owners_inv s" and i: "i < length (tasks s)"
    and t: "t_pc (tasks s ! i) = Adding c" "\<not> t_feed (tasks s ! i)"
    and s': "tasks s' = (tasks s)[i := (tasks s ! i)\<lparr>t_pc := Indexing c (length (articles s))\<rparr>]"
      "articles s' = articles s @ [t_item (tasks s ! i)]"
  shows "articles_inv s'"
proof -
  let ?x = "t_item (tasks s ! i)"
  have me: "owner (tasks s ! i)" using t by (simp add: owner_def)
  have new: "link ?x \<noteq> link (articles s ! k)" if k: "k < length (articles s)" for k
  proof
    assume eq: "link ?x = link (articles s ! k)"
    obtain j where j: "j < length (tasks s)" "owner (tasks s ! j)" "t_item (tasks s ! j) = articles s ! k"
      "t_pc (tasks s ! j) = Completed \<or> (\<exists>c. t_pc (tasks s ! j) = Indexing c k)"
      using inv k unfolding articles_inv_def by blast
    have "i = j" using owner_unique [OF own i j(1) me j(2)] eq j(3) by simp
    then show False using j(4) t(1) by simp
  qed
  then have "link ?x \<notin> link ` set (articles s)" by (metis image_iff in_set_conv_nth)
  moreover have "\<exists>j < length (tasks s'). owner (tasks s' ! j) \<and> t_item (tasks s' ! j) = articles s' ! k \<and>
      (t_pc (tasks s' ! j) = Completed \<or> (\<exists>c. t_pc (tasks s' ! j) = Indexing c k))" if k: "k < length (articles s')" for k
  proof (cases "k < length (articles s)")
    case True
    then obtain j where j: "j < length (tasks s)" "owner (tasks s ! j)" "t_item (tasks s ! j) = articles s ! k"
      "t_pc (tasks s ! j) = Completed \<or> (\<exists>c. t_pc (tasks s ! j) = Indexing c k)"
      using inv unfolding articles_inv_def by blast
    then have "j \<noteq> i" using t(1) by auto
    with j True show ?thesis by (intro exI [of _ j]) (simp add: s' nth_append)
  next
    case False
    then have "k = length (articles s)" using k by (simp add: s')
    then show ?thesis using i t(2) by (intro exI [of _ i]) (simp add: s' nth_append owner_def)
  qed
  ultimately show ?thesis using inv by (simp add: articles_inv_def s')
qed

section \<open>The index\<close>

lemma index_move:
  assumes inv: "index_inv out s" and i: "i < length (tasks s)"
    and ts: "tasks s' = (tasks s)[i := (tasks s ! i)\<lparr>t_pc := p\<rparr>] @ new" and new: "\<forall>t \<in> set new. fresh t"
    and same: "articles s' = articles s" "invertedIndex s' = invertedIndex s"
    and p: "\<And>c k. t_pc (tasks s ! i) \<noteq> Indexing c k" "\<And>c k. p \<noteq> Indexing c k"
  shows "index_inv out s'"
proof -
  have "pending (tasks s') k = pending (tasks s) k" for k
  proof
    assume "pending (tasks s') k"
    then obtain j c where j: "j < length (tasks s')" "t_pc (tasks s' ! j) = Indexing c k" unfolding pending_def by blast
    have "j < length (tasks s)"
    proof (rule ccontr)
      assume "\<not> j < length (tasks s)"
      then have "tasks s' ! j \<in> set new" using j(1) by (simp add: ts nth_append)
      then show False using new j(2) by (auto simp: fresh_def)
    qed
    with j(2) p(2) i show "pending (tasks s) k" unfolding pending_def by (auto simp: ts nth_moved split: if_splits)
  next
    assume "pending (tasks s) k"
    then obtain j c where j: "j < length (tasks s)" "t_pc (tasks s ! j) = Indexing c k" unfolding pending_def by blast
    then have "tasks s' ! j = tasks s ! j" using p(1) i by (auto simp: ts nth_moved)
    with j show "pending (tasks s') k" unfolding pending_def by (intro exI [of _ j]) (simp add: ts)
  qed
  then show ?thesis using inv by (simp add: index_inv_def same)
qed

lemma index_reserve:
  assumes inv: "index_inv out s" and i: "i < length (tasks s)" and t: "t_pc (tasks s ! i) = Adding c"
    and x: "page_tokens out (link x) \<noteq> []"
    and old: "\<And>j c k. j < length (tasks s) \<Longrightarrow> t_pc (tasks s ! j) = Indexing c k \<Longrightarrow> k < length (articles s)"
    and s': "tasks s' = (tasks s)[i := (tasks s ! i)\<lparr>t_pc := Indexing c (length (articles s))\<rparr>]"
      "articles s' = articles s @ [x]" "invertedIndex s' = invertedIndex s"
  shows "index_inv out s'"
proof -
  have here: "pending (tasks s') (length (articles s))"
    using i unfolding pending_def s' by (intro exI [of _ i]) simp
  have "pending (tasks s') k = pending (tasks s) k" if k: "k < length (articles s)" for k
  proof -
    have "t_pc (tasks s' ! j) = Indexing d k \<longleftrightarrow> t_pc (tasks s ! j) = Indexing d k" if "j < length (tasks s)" for j d
      using that i t k by (cases "j = i") (simp_all add: s')
    then show ?thesis unfolding pending_def by (simp add: s' cong: conj_cong)
  qed
  with inv here x show ?thesis by (auto simp: index_inv_def s' nth_append less_Suc_eq)
qed

lemma index_store:
  assumes inv: "index_inv out s" and own: "owners_inv s" and i: "i < length (tasks s)"
    and t: "t_pc (tasks s ! i) = Indexing c k" "\<not> t_feed (tasks s ! i)"
    and ok: "tasks_inv out s"
    and s': "tasks s' = (tasks s)[i := (tasks s ! i)\<lparr>t_pc := Completed\<rparr>]" "articles s' = articles s"
      "invertedIndex s' = add_counts k c (invertedIndex s)"
  shows "index_inv out s'"
proof -
  have art: "d = count_tokens (page_tokens out (link (t_item (tasks s ! j)))) \<and> m < length (articles s) \<and>
      articles s ! m = t_item (tasks s ! j) \<and> owner (tasks s ! j)" if "j < length (tasks s)" "t_pc (tasks s ! j) = Indexing d m" for j d m
  proof -
    have "task_ok out (scheduled False s) (articles s) (tasks s ! j)" using ok that(1) by (simp add: tasks_inv_def)
    with that(2) show ?thesis by (auto simp: task_ok_def feed_ok_def article_ok_def owner_def Let_def split: if_splits)
  qed
  note me = art [OF i t(1)]
  have gone: "\<not> pending (tasks s') k"
  proof
    assume "pending (tasks s') k"
    then obtain j d where j: "j < length (tasks s)" "j \<noteq> i" "t_pc (tasks s ! j) = Indexing d k"
      using i unfolding pending_def s' by (auto simp: nth_list_update split: if_splits)
    have "i = j" by (rule owner_unique [OF own i j(1)]) (use me art [OF j(1,3)] in auto)
    with j(2) show False by simp
  qed
  have other: "pending (tasks s') m = pending (tasks s) m" if m: "m \<noteq> k" for m
  proof -
    have "t_pc (tasks s' ! j) = Indexing d m \<longleftrightarrow> t_pc (tasks s ! j) = Indexing d m" if "j < length (tasks s)" for j d
      using that i t m by (cases "j = i") (simp_all add: s')
    then show ?thesis unfolding pending_def by (simp add: s' cong: conj_cong)
  qed
  have was: "pending (tasks s) k" using i t(1) unfolding pending_def by blast
  have c: "counts_ok c" "\<And>q. count_at c q = count_list (page_tokens out (link (articles s ! k))) q"
    using me count_tokens_ok count_tokens_at by simp_all
  have "distinct (map fst c)" "\<forall>(w, n) \<in> set c. 0 < n" using c(1) by (simp_all add: counts_ok_def strict_sorted_iff)
  then have new_row: "counts_ok (row (invertedIndex s') q) \<and>
      count_at (row (invertedIndex s') q) m = count_at (row (invertedIndex s) q) m + (if m = k then count_at c q else 0)" for q m
    unfolding s' using inv by (intro add_counts_row) (simp_all add: index_inv_def)
  have old_row: "count_at (row (invertedIndex s) q) m =
      (if m < length (articles s) \<and> \<not> pending (tasks s) m then count_list (page_tokens out (link (articles s ! m))) q else 0)" for q m
    using inv by (simp add: index_inv_def)
  have "count_at (row (invertedIndex s') q) m =
      (if m < length (articles s) \<and> \<not> pending (tasks s') m then count_list (page_tokens out (link (articles s ! m))) q else 0)" for q m
  proof (cases "m = k")
    case True
    then show ?thesis using conjunct2 [OF new_row, of q k] old_row [of q k] gone was me c(2) by simp
  next
    case False
    then show ?thesis using conjunct2 [OF new_row, of q m] old_row [of q m] other by simp
  qed
  then show ?thesis using new_row inv unfolding index_inv_def s'(2) by blast
qed

end
