(* ===== verification/Aggregate_Step.thy ===== *)
theory Aggregate_Step
  imports Aggregate_Inv
begin

text \<open>
  Every step of the news aggregator keeps the invariant. The semaphore of a server counts its downloads,
  the thread pools stay drained once \<open>wait\<close> has returned, and the parts of \<open>Aggregate_Inv\<close> are put together
  one program point at a time.
\<close>

section \<open>Semaphores\<close>

lemma connections_update:
  assumes "i < length ts" and "\<forall>t \<in> set new. fresh t"
  shows "connections srv (ts[i := (ts ! i)\<lparr>t_pc := p\<rparr>] @ new) + of_bool (server_of (ts ! i) = srv \<and> holding (t_pc (ts ! i))) =
    connections srv ts + of_bool (server_of (ts ! i) = srv \<and> holding p)"
proof -
  have "filter (\<lambda>t. server_of t = srv \<and> holding (t_pc t)) new = []"
    using assms(2) by (auto simp: filter_empty_conv fresh_def)
  then show ?thesis
    using length_filter_update [OF assms(1), of "\<lambda>t. server_of t = srv \<and> holding (t_pc t)" "(ts ! i)\<lparr>t_pc := p\<rparr>"]
    by (simp add: connections_def)
qed

lemma limits_Some: "limits_inv s \<Longrightarrow> serverLimits s srv = Some n \<Longrightarrow> n + connections srv (tasks s) = kMaxConnectionsPerServer"
  unfolding limits_inv_def by (drule spec [of _ srv]) simp

lemma limits_None: "limits_inv s \<Longrightarrow> serverLimits s srv = None \<Longrightarrow> t \<in> set (tasks s) \<Longrightarrow> server_of t = srv \<Longrightarrow>
    t_pc t \<noteq> Waiting \<and> \<not> holding (t_pc t)"
  unfolding limits_inv_def by (drule spec [of _ srv]) simp

lemma limits_step:
  assumes inv: "limits_inv s" and i: "i < length (tasks s)"
    and ts: "tasks s' = (tasks s)[i := (tasks s ! i)\<lparr>t_pc := p\<rparr>] @ new" and new: "\<forall>t \<in> set new. fresh t"
    and other: "\<And>srv. srv \<noteq> server_of (tasks s ! i) \<Longrightarrow> serverLimits s' srv = serverLimits s srv"
    and here: "case serverLimits s' (server_of (tasks s ! i)) of
        Some n \<Rightarrow> n + connections (server_of (tasks s ! i)) (tasks s) + of_bool (holding p) =
          kMaxConnectionsPerServer + of_bool (holding (t_pc (tasks s ! i)))
      | None \<Rightarrow> serverLimits s (server_of (tasks s ! i)) = None \<and> p \<noteq> Waiting \<and> \<not> holding p"
  shows "limits_inv s'"
proof -
  let ?t = "tasks s ! i"
  have "case serverLimits s' srv of
       Some n \<Rightarrow> n + connections srv (tasks s') = kMaxConnectionsPerServer
     | None \<Rightarrow> (\<forall>t \<in> set (tasks s'). server_of t = srv \<longrightarrow> t_pc t \<noteq> Waiting \<and> \<not> holding (t_pc t))" for srv
  proof (cases "serverLimits s' srv")
    case None
    then have old: "serverLimits s srv = None" and p: "srv = server_of ?t \<Longrightarrow> p \<noteq> Waiting \<and> \<not> holding p"
      using other here by (cases "srv = server_of ?t"; force)+
    have "t_pc t \<noteq> Waiting \<and> \<not> holding (t_pc t)" if t: "t \<in> set (tasks s')" "server_of t = srv" for t
    proof -
      consider "t \<in> set (tasks s)" | "t = ?t\<lparr>t_pc := p\<rparr>" | "t \<in> set new" using moved_cases [OF t(1) [unfolded ts]] by blast
      then show ?thesis
      proof cases
        case 1
        then show ?thesis using limits_None [OF inv old _ t(2)] by blast
      next
        case 2
        then show ?thesis using p t(2) by simp
      next
        case 3
        then show ?thesis using new by (auto simp: fresh_def)
      qed
    qed
    then show ?thesis by (simp add: None)
  next
    case (Some n)
    have "n + connections srv (tasks s') = kMaxConnectionsPerServer"
    proof (cases "srv = server_of ?t")
      case True
      with here Some have "n + connections srv (tasks s) + of_bool (holding p) = kMaxConnectionsPerServer + of_bool (holding (t_pc ?t))"
        by simp
      then show ?thesis using connections_update [OF i new, of srv p] True by (simp add: ts)
    next
      case False
      then have "n + connections srv (tasks s) = kMaxConnectionsPerServer"
        using Some other [OF False] by (intro limits_Some [OF inv]) simp
      then show ?thesis using connections_update [OF i new, of srv p] False by (simp add: ts)
    qed
    then show ?thesis by (simp add: Some)
  qed
  then show ?thesis by (simp add: limits_inv_def)
qed

text \<open>Away from its semaphore a task can go anywhere.\<close>

lemma limits_quiet:
  assumes inv: "limits_inv s" and i: "i < length (tasks s)"
    and ts: "tasks s' = (tasks s)[i := (tasks s ! i)\<lparr>t_pc := p\<rparr>] @ new" and new: "\<forall>t \<in> set new. fresh t"
    and same: "serverLimits s' = serverLimits s" and p: "holding p = holding (t_pc (tasks s ! i))" "p \<noteq> Waiting"
  shows "limits_inv s'"
proof (rule limits_step [OF inv i ts new])
  let ?srv = "server_of (tasks s ! i)"
  show "serverLimits s' srv = serverLimits s srv" for srv by (simp add: same)
  have "\<not> holding (t_pc (tasks s ! i))" if "serverLimits s ?srv = None"
    using limits_None [OF inv that nth_mem [OF i] refl] by blast
  moreover have "n + connections ?srv (tasks s) = kMaxConnectionsPerServer" if "serverLimits s ?srv = Some n" for n
    by (rule limits_Some [OF inv that])
  ultimately show "case serverLimits s' ?srv of
        Some n \<Rightarrow> n + connections ?srv (tasks s) + of_bool (holding p) = kMaxConnectionsPerServer + of_bool (holding (t_pc (tasks s ! i)))
      | None \<Rightarrow> serverLimits s ?srv = None \<and> p \<noteq> Waiting \<and> \<not> holding p"
    using p by (cases "serverLimits s ?srv") (simp_all add: same)
qed

section \<open>The main thread\<close>

lemma main_quiet:
  assumes inv: "main_inv out feeds s" and i: "i < length (tasks s)" and live: "t_pc (tasks s ! i) \<notin> {Completed, Skipped}"
    and ts: "tasks s' = (tasks s)[i := (tasks s ! i)\<lparr>t_pc := p\<rparr>] @ new" and new: "\<forall>t \<in> set new. fresh t"
    and given: "\<And>t. t \<in> set new \<Longrightarrow> t_item t \<in> (\<Union>f \<in> set feeds. set (feed_items out (link f)))"
    and main: "main_pc s' = main_pc s"
  shows "main_inv out feeds s'"
proof -
  let ?t = "tasks s ! i"
  have k: "kinds (tasks s') = kinds (tasks s) \<union> kinds new" using i by (simp add: ts)
  have "kinds new \<subseteq> {False} \<times> (\<Union>f \<in> set feeds. set (feed_items out (link f)))"
    using new given by (auto simp: kinds_def fresh_def)
  then have "scheduled True s' = scheduled True s"
    "scheduled False s' \<subseteq> scheduled False s \<union> (\<Union>f \<in> set feeds. set (feed_items out (link f)))"
    by (auto simp: scheduled_def k)
  moreover have "all_done True s'" if "all_done True s"
  proof -
    have f: "\<not> t_feed ?t" using that i live by (auto simp: all_done_def list_all_length)
    have "t_pc t \<in> {Completed, Skipped}" if t: "t \<in> set (tasks s')" "t_feed t" for t
      using moved_cases [OF t(1) [unfolded ts]] t(2) f new \<open>all_done True s\<close> by (auto simp: all_done_def list_all_iff fresh_def)
    then show ?thesis by (auto simp: all_done_def list_all_iff)
  qed
  moreover have "\<not> (all_done True s \<and> all_done False s)"
    using i live by (cases "t_feed ?t") (auto simp: all_done_def list_all_length)
  ultimately show ?thesis using inv unfolding main_inv_def main by blast
qed

lemma main_pc_update:
  "tasks_inv out (s\<lparr>main_pc := m\<rparr>) = tasks_inv out s" "owners_inv (s\<lparr>main_pc := m\<rparr>) = owners_inv s"
  "articles_inv (s\<lparr>main_pc := m\<rparr>) = articles_inv s" "index_inv out (s\<lparr>main_pc := m\<rparr>) = index_inv out s"
  "limits_inv (s\<lparr>main_pc := m\<rparr>) = limits_inv s"
  by (simp_all add: tasks_inv_def owners_inv_def articles_inv_def index_inv_def limits_inv_def scheduled_def cong: option.case_cong)

lemma main_step_inv:
  assumes inv: "news_inv out feeds s" and step: "main_step s = Some s'"
  shows "news_inv out feeds s'"
proof -
  have quiet: "news_inv out feeds (s\<lparr>main_pc := m\<rparr>)" if "main_inv out feeds (s\<lparr>main_pc := m\<rparr>)" for m
    using inv that by (simp only: news_inv_def main_pc_update)
  have m: "main_inv out feeds s" using inv by (simp add: news_inv_def)
  show ?thesis
  proof (cases "main_pc s")
    case (Main_schedule rest)
    show ?thesis
    proof (cases rest)
      case Nil
      then have "s' = s\<lparr>main_pc := Main_feeds\<rparr>" using step Main_schedule by (simp add: main_step_def)
      moreover have "main_inv out feeds (s\<lparr>main_pc := Main_feeds\<rparr>)"
        using m Main_schedule Nil by (simp add: main_inv_def scheduled_def)
      ultimately show ?thesis using quiet by simp
    next
      case (Cons f fs)
      let ?new = "\<lparr>t_item = f, t_feed = True, t_pc = Queued\<rparr>"
      have s': "s' = s\<lparr>main_pc := Main_schedule fs, tasks := tasks s @ [?new]\<rparr>"
        using step Main_schedule Cons by (simp add: main_step_def)
      have sch: "scheduled True s' = insert f (scheduled True s)" "scheduled False s' = scheduled False s"
        by (auto simp: s' scheduled_def)
      have "tasks_inv out s'" using inv by (auto simp: s' news_inv_def tasks_inv_def task_ok_def feed_ok_def sch [unfolded s'])
      moreover have "owners_inv s'" "index_inv out s'"
        using inv by (auto simp: s' news_inv_def owners_inv_def owner_links_def owner_def index_inv_def pending_def nth_append less_Suc_eq)
      moreover have "articles_inv s'"
      proof -
        have "owner (tasks s' ! i) = owner (tasks s ! i) \<and> t_item (tasks s' ! i) = t_item (tasks s ! i) \<and> t_pc (tasks s' ! i) = t_pc (tasks s ! i)"
          if "i < length (tasks s)" for i using that by (simp add: s' nth_append)
        then show ?thesis using inv unfolding news_inv_def articles_inv_def s' by (simp add: less_Suc_eq) (metis nth_append)
      qed
      moreover have "limits_inv s'"
      proof -
        have "connections srv (tasks s') = connections srv (tasks s)" for srv by (simp add: s' connections_def)
        moreover have lim: "limits_inv s" using inv by (simp add: news_inv_def)
        ultimately have "case serverLimits s srv of
             Some n \<Rightarrow> n + connections srv (tasks s') = kMaxConnectionsPerServer
           | None \<Rightarrow> (\<forall>t \<in> set (tasks s'). server_of t = srv \<longrightarrow> t_pc t \<noteq> Waiting \<and> \<not> holding (t_pc t))" for srv
          using limits_None [OF lim, of srv] limits_Some [OF lim, of srv] by (cases "serverLimits s srv") (auto simp: s')
        then show ?thesis unfolding limits_inv_def by (simp add: s')
      qed
      moreover have "main_inv out feeds s'" using m sch Main_schedule Cons by (auto simp: main_inv_def s')
      ultimately show ?thesis by (simp add: news_inv_def)
    qed
  next
    case Main_feeds
    then have "s' = s\<lparr>main_pc := Main_articles\<rparr>" and d: "all_done True s" using step by (auto simp: main_step_def split: if_splits)
    moreover have "main_inv out feeds (s\<lparr>main_pc := Main_articles\<rparr>)"
      using m Main_feeds d by (simp add: main_inv_def scheduled_def all_done_def)
    ultimately show ?thesis using quiet by simp
  next
    case Main_articles
    then have "s' = s\<lparr>main_pc := Main_done\<rparr>" and d: "all_done False s" using step by (auto simp: main_step_def split: if_splits)
    moreover have "main_inv out feeds (s\<lparr>main_pc := Main_done\<rparr>)"
      using m Main_articles d by (simp add: main_inv_def scheduled_def all_done_def)
    ultimately show ?thesis using quiet by simp
  next
    case Main_done
    then show ?thesis using step by (simp add: main_step_def)
  qed
qed

section \<open>The tasks\<close>

text \<open>A step that changes neither the articles nor the index nor who owns what.\<close>

lemma quiet_step:
  assumes inv: "news_inv out feeds s" and i: "i < length (tasks s)"
    and ts: "tasks s' = (tasks s)[i := (tasks s ! i)\<lparr>t_pc := p\<rparr>] @ new" and new: "\<forall>t \<in> set new. fresh t"
    and given: "\<And>t. t \<in> set new \<Longrightarrow> t_item t \<in> (\<Union>f \<in> set feeds. set (feed_items out (link f)))"
    and same: "main_pc s' = main_pc s" "articles s' = articles s" "invertedIndex s' = invertedIndex s" "seenURLs s' = seenURLs s"
    and ow: "owner ((tasks s ! i)\<lparr>t_pc := p\<rparr>) = owner (tasks s ! i)"
    and src: "t_pc (tasks s ! i) \<notin> {Completed, Skipped}" "\<And>c k. t_pc (tasks s ! i) \<noteq> Indexing c k" "\<And>c k. p \<noteq> Indexing c k"
    and skip: "p = Skipped \<Longrightarrow> link (t_item (tasks s ! i)) \<in> seenURLs s"
    and ok: "task_ok out (scheduled False s') (articles s) ((tasks s ! i)\<lparr>t_pc := p\<rparr>)"
    and lim: "limits_inv s'"
  shows "news_inv out feeds s'"
proof -
  have "tasks_inv out s'" by (rule tasks_move [OF _ i ts new, where rest = "[]"]) (use inv ok same in \<open>simp_all add: news_inv_def\<close>)
  moreover have "owners_inv s'" using owners_move [OF _ i ts new ow same(4) skip] inv by (simp add: news_inv_def)
  moreover have "articles_inv s'"
    using articles_move [OF _ i ts same(2)] inv src ow by (simp add: news_inv_def)
  moreover have "index_inv out s'" using index_move [OF _ i ts new same(2,3) src(2,3)] inv by (simp add: news_inv_def)
  moreover have "main_inv out feeds s'" using main_quiet [OF _ i src(1) ts new given same(1)] inv by (simp add: news_inv_def)
  ultimately show ?thesis using lim by (simp add: news_inv_def)
qed

lemma known_task: "news_inv out feeds s \<Longrightarrow> i < length (tasks s) \<Longrightarrow> task_ok out (scheduled False s) (articles s) (tasks s ! i)"
  by (simp add: news_inv_def tasks_inv_def)

lemma after_fetch_ok:
  assumes "task_ok out given arts t" and "t_pc t = Releasing r"
  shows "task_ok out given' arts' (t\<lparr>t_pc := after_fetch out t r\<rparr>)" "after_fetch out t r \<noteq> Waiting" "\<not> holding (after_fetch out t r)"
    "owner (t\<lparr>t_pc := after_fetch out t r\<rparr>) = owner t" "after_fetch out t r \<noteq> Skipped" "after_fetch out t r \<noteq> Indexing c k"
proof -
  have r: "r = fetchURL (net out) (link (t_item t))"
    using assms by (auto simp: task_ok_def feed_ok_def article_ok_def Let_def split: if_splits)
  show "task_ok out given' arts' (t\<lparr>t_pc := after_fetch out t r\<rparr>)"
  proof (cases r)
    case None
    then show ?thesis using r by (simp add: task_ok_def feed_ok_def article_ok_def after_fetch_def feed_items_def page_tokens_def)
  next
    case (Some body)
    then show ?thesis using r count_tokens_Nil
      by (auto simp: task_ok_def feed_ok_def article_ok_def after_fetch_def feed_items_def page_tokens_def Let_def)
  qed
  show "after_fetch out t r \<noteq> Waiting" "\<not> holding (after_fetch out t r)"
    "owner (t\<lparr>t_pc := after_fetch out t r\<rparr>) = owner t" "after_fetch out t r \<noteq> Skipped" "after_fetch out t r \<noteq> Indexing c k"
    using assms(2) by (simp_all add: after_fetch_def owner_def Let_def split: option.split)
qed

text \<open>The common case: the counter moves and, at most, the semaphores change.\<close>

lemma counter_step:
  assumes inv: "news_inv out feeds s" and i: "i < length (tasks s)"
    and s': "s' = goto i p (s\<lparr>serverLimits := lims\<rparr>)"
    and ow: "owner ((tasks s ! i)\<lparr>t_pc := p\<rparr>) = owner (tasks s ! i)"
    and src: "t_pc (tasks s ! i) \<notin> {Completed, Skipped}" "\<And>c k. t_pc (tasks s ! i) \<noteq> Indexing c k" "\<And>c k. p \<noteq> Indexing c k"
    and skip: "p = Skipped \<Longrightarrow> link (t_item (tasks s ! i)) \<in> seenURLs s"
    and ok: "task_ok out (scheduled False s) (articles s) ((tasks s ! i)\<lparr>t_pc := p\<rparr>)"
    and lim: "limits_inv s'"
  shows "news_inv out feeds s'"
proof (rule quiet_step [OF inv i _ _ _ _ _ _ _ ow src skip _ lim, where new = "[]"])
  have "scheduled False s' = scheduled False s" using i by (simp add: scheduled_def s')
  then show "task_ok out (scheduled False s') (articles s) ((tasks s ! i)\<lparr>t_pc := p\<rparr>)" using ok by simp
qed (simp_all add: s')

lemma same_limits: "goto i p (s\<lparr>serverLimits := serverLimits s\<rparr>) = goto i p s"
  by simp

lemma quiet_limits: "news_inv out feeds s \<Longrightarrow> i < length (tasks s) \<Longrightarrow> holding p = holding (t_pc (tasks s ! i)) \<Longrightarrow> p \<noteq> Waiting \<Longrightarrow>
    limits_inv (goto i p s)"
  by (rule limits_quiet [of s i _ p "[]"]) (simp_all add: news_inv_def)

lemma queued_inv:
  assumes inv: "news_inv out feeds s" and i: "i < length (tasks s)" and t: "t_pc (tasks s ! i) = Queued"
  shows "news_inv out feeds (goto i (if t_feed (tasks s ! i) then Naming else Checking) s)"
  by (rule counter_step [OF inv i same_limits [symmetric]])
    (use t in \<open>auto simp: owner_def task_ok_def feed_ok_def article_ok_def intro!: quiet_limits [OF inv i] split: if_splits\<close>)

lemma checking_inv:
  assumes inv: "news_inv out feeds s" and i: "i < length (tasks s)" and t: "t_pc (tasks s ! i) = Checking"
    and step: "task_step out i s = Some s'"
  shows "news_inv out feeds s'"
proof -
  let ?t = "tasks s ! i"
  have f: "\<not> t_feed ?t" using known_task [OF inv i] t by (auto simp: task_ok_def feed_ok_def split: if_splits)
  show ?thesis
  proof (cases "link (t_item ?t) \<in> seenURLs s")
    case True
    then have s': "s' = goto i Skipped s" using step t by (simp add: task_step_def Let_def)
    show ?thesis unfolding s'
      by (rule counter_step [OF inv i same_limits [symmetric]])
        (use t f True in \<open>auto simp: owner_def task_ok_def article_ok_def intro!: quiet_limits [OF inv i]\<close>)
  next
    case False
    then have s': "s' = goto i Naming (s\<lparr>seenURLs := insert (link (t_item ?t)) (seenURLs s)\<rparr>)"
      using step t by (simp add: task_step_def Let_def)
    have ts: "tasks s' = (tasks s)[i := ?t\<lparr>t_pc := Naming\<rparr>] @ []" by (simp add: s')
    have "owners_inv s'" by (rule owners_enter [OF _ i t f False]) (use inv in \<open>simp_all add: s' news_inv_def\<close>)
    moreover have "tasks_inv out s'"
      by (rule tasks_move [OF _ i ts, where rest = "[]"]) (use inv f in \<open>simp_all add: s' news_inv_def task_ok_def article_ok_def\<close>)
    moreover have "articles_inv s'"
      by (rule articles_move [OF _ i ts]) (use inv f t in \<open>simp_all add: s' news_inv_def owner_def\<close>)
    moreover have "index_inv out s'"
      by (rule index_move [OF _ i ts]) (use inv t in \<open>simp_all add: s' news_inv_def\<close>)
    moreover have "limits_inv s'"
      by (rule limits_quiet [OF _ i ts]) (use inv t in \<open>simp_all add: s' news_inv_def\<close>)
    moreover have "main_inv out feeds s'"
      by (rule main_quiet [OF _ i _ ts]) (use inv t in \<open>simp_all add: s' news_inv_def\<close>)
    ultimately show ?thesis by (simp add: news_inv_def)
  qed
qed

lemma naming_inv:
  assumes inv: "news_inv out feeds s" and i: "i < length (tasks s)" and t: "t_pc (tasks s ! i) = Naming"
  shows "news_inv out feeds (goto i Waiting (serverSemaphore (server_of (tasks s ! i)) s))"
proof -
  let ?srv = "server_of (tasks s ! i)"
  have lim: "limits_inv s" using inv by (simp add: news_inv_def)
  let ?lims = "case serverLimits s ?srv of None \<Rightarrow> (serverLimits s)(?srv \<mapsto> kMaxConnectionsPerServer) | Some n \<Rightarrow> serverLimits s"
  have s': "serverSemaphore ?srv s = s\<lparr>serverLimits := ?lims\<rparr>" by (simp add: serverSemaphore_def split: option.split)
  have "limits_inv (goto i Waiting (s\<lparr>serverLimits := ?lims\<rparr>))"
  proof (rule limits_step [OF lim i, where new = "[]" and p = Waiting])
    have "connections ?srv (tasks s) = 0" if "serverLimits s ?srv = None"
      using limits_None [OF lim that] by (auto simp: connections_def filter_empty_conv)
    moreover have "n + connections ?srv (tasks s) = kMaxConnectionsPerServer" if "serverLimits s ?srv = Some n" for n
      by (rule limits_Some [OF lim that])
    ultimately show "case serverLimits (goto i Waiting (s\<lparr>serverLimits := ?lims\<rparr>)) ?srv of
        Some n \<Rightarrow> n + connections ?srv (tasks s) + of_bool (holding Waiting) = kMaxConnectionsPerServer + of_bool (holding (t_pc (tasks s ! i)))
      | None \<Rightarrow> serverLimits s ?srv = None \<and> Waiting \<noteq> Waiting \<and> \<not> holding Waiting"
      using t by (cases "serverLimits s ?srv") simp_all
  qed (auto split: option.split)
  then show ?thesis unfolding s'
    by (intro counter_step [OF inv i refl]) (use t known_task [OF inv i] in
      \<open>auto simp: owner_def task_ok_def feed_ok_def article_ok_def split: if_splits\<close>)
qed

lemma waiting_inv:
  assumes inv: "news_inv out feeds s" and i: "i < length (tasks s)" and t: "t_pc (tasks s ! i) = Waiting"
    and n: "serverLimits s (server_of (tasks s ! i)) = Some (Suc n)"
  shows "news_inv out feeds (goto i Fetching (s\<lparr>serverLimits := (serverLimits s)(server_of (tasks s ! i) \<mapsto> n)\<rparr>))"
proof -
  let ?srv = "server_of (tasks s ! i)" and ?lims = "(serverLimits s)(server_of (tasks s ! i) \<mapsto> n)"
  have lim: "limits_inv s" using inv by (simp add: news_inv_def)
  have "limits_inv (goto i Fetching (s\<lparr>serverLimits := ?lims\<rparr>))"
    by (rule limits_step [OF lim i, where new = "[]" and p = Fetching]) (use limits_Some [OF lim n] t in simp_all)
  then show ?thesis
    by (intro counter_step [OF inv i refl]) (use t known_task [OF inv i] in
      \<open>auto simp: owner_def task_ok_def feed_ok_def article_ok_def split: if_splits\<close>)
qed

lemma fetching_inv:
  assumes inv: "news_inv out feeds s" and i: "i < length (tasks s)" and t: "t_pc (tasks s ! i) = Fetching"
  shows "news_inv out feeds (goto i (Releasing (fetchURL (net out) (link (t_item (tasks s ! i))))) s)"
  by (rule counter_step [OF inv i same_limits [symmetric]])
    (use t in \<open>auto simp: owner_def task_ok_def feed_ok_def article_ok_def intro!: quiet_limits [OF inv i]\<close>)

lemma releasing_inv:
  assumes inv: "news_inv out feeds s" and i: "i < length (tasks s)" and t: "t_pc (tasks s ! i) = Releasing r"
    and step: "task_step out i s = Some s'"
  shows "news_inv out feeds s'"
proof -
  let ?srv = "server_of (tasks s ! i)"
  have lim: "limits_inv s" using inv by (simp add: news_inv_def)
  obtain n where n: "serverLimits s ?srv = Some n" using limits_None [OF lim _ nth_mem [OF i] refl] t by fastforce
  let ?lims = "(serverLimits s)(?srv \<mapsto> Suc n)"
  have s': "s' = goto i (after_fetch out (tasks s ! i) r) (s\<lparr>serverLimits := ?lims\<rparr>)"
    using step t n by (simp add: task_step_def Let_def)
  note ok = after_fetch_ok [OF known_task [OF inv i] t]
  have "limits_inv s'" unfolding s'
    by (rule limits_step [OF lim i, where new = "[]" and p = "after_fetch out (tasks s ! i) r"])
      (use limits_Some [OF lim n] t ok(3) in simp_all)
  then show ?thesis by (intro counter_step [OF inv i s']) (use t ok in simp_all)
qed

lemma scheduling_inv:
  assumes inv: "news_inv out feeds s" and i: "i < length (tasks s)" and t: "t_pc (tasks s ! i) = Scheduling xs"
    and step: "task_step out i s = Some s'"
  shows "news_inv out feeds s'"
proof -
  let ?t = "tasks s ! i"
  have f: "t_feed ?t" using known_task [OF inv i] t by (auto simp: task_ok_def article_ok_def Let_def split: if_splits)
  then obtain ys where ys: "feed_items out (link (t_item ?t)) = ys @ xs" "set ys \<subseteq> scheduled False s"
    using known_task [OF inv i] t by (auto simp: task_ok_def feed_ok_def)
  have "(t_feed ?t, t_item ?t) \<in> kinds (tasks s)" using i by (simp add: kinds_def)
  then have "t_item ?t \<in> scheduled True s" using f by (simp add: scheduled_def)
  then have mine: "t_item ?t \<in> set feeds" using inv unfolding news_inv_def main_inv_def by blast
  show ?thesis
  proof (cases xs)
    case Nil
    then have s': "s' = goto i Completed s" using step t by (simp add: task_step_def Let_def)
    show ?thesis unfolding s'
      by (rule counter_step [OF inv i same_limits [symmetric]])
        (use t f ys Nil in \<open>auto simp: owner_def task_ok_def feed_ok_def intro!: quiet_limits [OF inv i]\<close>)
  next
    case (Cons z zs)
    let ?new = "\<lparr>t_item = z, t_feed = False, t_pc = Queued\<rparr>"
    have s': "s' = (goto i (Scheduling zs) s)\<lparr>tasks := tasks (goto i (Scheduling zs) s) @ [?new]\<rparr>"
      using step t Cons by (simp add: task_step_def Let_def)
    have ts: "tasks s' = (tasks s)[i := ?t\<lparr>t_pc := Scheduling zs\<rparr>] @ [?new]" by (simp add: s')
    have fr: "\<forall>u \<in> set [?new]. fresh u" by (simp add: fresh_def)
    have "z \<in> set (feed_items out (link (t_item ?t)))" using ys Cons by simp
    then have given: "u \<in> set [?new] \<Longrightarrow> t_item u \<in> (\<Union>f \<in> set feeds. set (feed_items out (link f)))" for u using mine by auto
    have sch: "scheduled False s' = insert z (scheduled False s)" using i by (auto simp: scheduled_def ts)
    have ok: "task_ok out (scheduled False s') (articles s) (?t\<lparr>t_pc := Scheduling zs\<rparr>)"
      using f ys Cons by (auto simp: task_ok_def feed_ok_def sch intro!: exI [of _ "ys @ [z]"])
    have lim: "limits_inv s'" by (rule limits_quiet [OF _ i ts fr]) (use inv t in \<open>simp_all add: s' news_inv_def\<close>)
    show ?thesis
      by (rule quiet_step [OF inv i ts fr given _ _ _ _ _ _ _ _ _ ok lim]) (use t f in \<open>simp_all add: s' owner_def\<close>)
  qed
qed

lemma adding_inv:
  assumes inv: "news_inv out feeds s" and i: "i < length (tasks s)" and t: "t_pc (tasks s ! i) = Adding c"
  shows "news_inv out feeds (goto i (Indexing c (length (articles s))) (s\<lparr>articles := articles s @ [t_item (tasks s ! i)]\<rparr>))"
    (is "news_inv out feeds ?s")
proof -
  let ?t = "tasks s ! i" and ?p = "Indexing c (length (articles s))"
  note ok = known_task [OF inv i]
  have f: "\<not> t_feed ?t" using ok t by (auto simp: task_ok_def feed_ok_def split: if_splits)
  have ts: "tasks ?s = (tasks s)[i := ?t\<lparr>t_pc := ?p\<rparr>] @ []" by simp
  have toks: "page_tokens out (link (t_item ?t)) \<noteq> []" using ok t f by (simp add: task_ok_def article_ok_def Let_def)
  have old: "k < length (articles s)" if "j < length (tasks s)" "t_pc (tasks s ! j) = Indexing d k" for j d k
    using known_task [OF inv that(1)] that(2) by (auto simp: task_ok_def feed_ok_def article_ok_def Let_def split: if_splits)
  have "tasks_inv out ?s"
    by (rule tasks_move [OF _ i ts, where rest = "[t_item ?t]"])
      (use inv ok t f in \<open>simp_all add: news_inv_def task_ok_def article_ok_def Let_def\<close>)
  moreover have "owners_inv ?s"
    by (rule owners_move [OF _ i ts]) (use inv t in \<open>simp_all add: news_inv_def owner_def\<close>)
  moreover have "articles_inv ?s"
    by (rule articles_add [OF _ _ i t f]) (use inv in \<open>simp_all add: news_inv_def\<close>)
  moreover have "index_inv out ?s"
    by (rule index_reserve [OF _ i t toks old]) (use inv in \<open>simp_all add: news_inv_def\<close>)
  moreover have "limits_inv ?s" by (rule limits_quiet [OF _ i ts]) (use inv t in \<open>simp_all add: news_inv_def\<close>)
  moreover have "main_inv out feeds ?s" by (rule main_quiet [OF _ i _ ts]) (use inv t in \<open>simp_all add: news_inv_def\<close>)
  ultimately show ?thesis by (simp add: news_inv_def)
qed

lemma indexing_inv:
  assumes inv: "news_inv out feeds s" and i: "i < length (tasks s)" and t: "t_pc (tasks s ! i) = Indexing c k"
  shows "news_inv out feeds (goto i Completed (s\<lparr>invertedIndex := add_counts k c (invertedIndex s)\<rparr>))"
    (is "news_inv out feeds ?s")
proof -
  let ?t = "tasks s ! i"
  note ok = known_task [OF inv i]
  have f: "\<not> t_feed ?t" using ok t by (auto simp: task_ok_def feed_ok_def split: if_splits)
  have stored: "t_item ?t \<in> set (articles s)"
    using ok t f by (auto simp: task_ok_def article_ok_def Let_def dest: nth_mem)
  have ts: "tasks ?s = (tasks s)[i := ?t\<lparr>t_pc := Completed\<rparr>] @ []" by simp
  have "tasks_inv out ?s"
    by (rule tasks_move [OF _ i ts, where rest = "[]"])
      (use inv f stored in \<open>simp_all add: news_inv_def task_ok_def article_ok_def Let_def\<close>)
  moreover have "owners_inv ?s"
    by (rule owners_move [OF _ i ts]) (use inv t in \<open>simp_all add: news_inv_def owner_def\<close>)
  moreover have "articles_inv ?s"
    by (rule articles_move [OF _ i ts]) (use inv t in \<open>simp_all add: news_inv_def owner_def\<close>)
  moreover have "index_inv out ?s"
    by (rule index_store [OF _ _ i t f]) (use inv in \<open>simp_all add: news_inv_def\<close>)
  moreover have "limits_inv ?s" by (rule limits_quiet [OF _ i ts]) (use inv t in \<open>simp_all add: news_inv_def\<close>)
  moreover have "main_inv out feeds ?s" by (rule main_quiet [OF _ i _ ts]) (use inv t in \<open>simp_all add: news_inv_def\<close>)
  ultimately show ?thesis by (simp add: news_inv_def)
qed

lemma task_step_inv:
  assumes inv: "news_inv out feeds s" and i: "i < length (tasks s)" and step: "task_step out i s = Some s'"
  shows "news_inv out feeds s'"
proof (cases "t_pc (tasks s ! i)")
  case Queued
  then show ?thesis using step queued_inv [OF inv i] by (auto simp: task_step_def Let_def split: if_splits)
next
  case Waiting
  then show ?thesis using step waiting_inv [OF inv i] by (auto simp: task_step_def Let_def split: option.splits nat.splits)
next
  case (Releasing r)
  then show ?thesis using releasing_inv [OF inv i _ step] by blast
next
  case (Scheduling xs)
  then show ?thesis using scheduling_inv [OF inv i _ step] by blast
next
  case Checking
  then show ?thesis using checking_inv [OF inv i _ step] by blast
next
  case Naming
  then show ?thesis using step naming_inv [OF inv i] by (auto simp: task_step_def Let_def)
next
  case Fetching
  then show ?thesis using step fetching_inv [OF inv i] by (auto simp: task_step_def Let_def)
next
  case (Adding c)
  then show ?thesis using step adding_inv [OF inv i] by (auto simp: task_step_def Let_def)
next
  case (Indexing c k)
  then show ?thesis using step indexing_inv [OF inv i] by (auto simp: task_step_def Let_def)
qed (use step in \<open>simp_all add: task_step_def\<close>)

lemma news_step_inv: "news_step out s s' \<Longrightarrow> news_inv out feeds s \<Longrightarrow> news_inv out feeds s'"
  by (elim news_step_cases) (auto intro: main_step_inv task_step_inv)

end
