(* ===== verification/Aggregate_Live.thy ===== *)
theory Aggregate_Live
  imports Aggregate_Step
begin

text \<open>
  The news aggregator comes to its end: every step lowers \<open>news_rank\<close>, which knows how many articles each
  feed still has to schedule, and as long as \<open>main\<close> has not returned some step is possible. A task that
  waits for a server's semaphore waits for a download that goes on.
\<close>

definition later_work :: "outside \<Rightarrow> news_task \<Rightarrow> nat" where
  "later_work out t = (if t_feed t then 1 + 10 * length (feed_items out (link (t_item t))) else 2)"

definition task_rank :: "outside \<Rightarrow> news_task \<Rightarrow> nat" where
  "task_rank out t = (case t_pc t of
       Queued \<Rightarrow> 6 + later_work out t
     | Checking \<Rightarrow> 5 + later_work out t
     | Naming \<Rightarrow> 4 + later_work out t
     | Waiting \<Rightarrow> 3 + later_work out t
     | Fetching \<Rightarrow> 2 + later_work out t
     | Releasing r \<Rightarrow> 1 + later_work out t
     | Scheduling xs \<Rightarrow> 1 + 10 * length xs
     | Adding c \<Rightarrow> 2
     | Indexing c k \<Rightarrow> 1
     | Completed \<Rightarrow> 0
     | Skipped \<Rightarrow> 0)"

definition main_rank :: "outside \<Rightarrow> main_pc \<Rightarrow> nat" where
  "main_rank out m = (case m of
       Main_schedule fs \<Rightarrow> 3 + sum_list (map (\<lambda>f. 8 + 10 * length (feed_items out (link f))) fs)
     | Main_feeds \<Rightarrow> 2
     | Main_articles \<Rightarrow> 1
     | Main_done \<Rightarrow> 0)"

definition news_rank :: "outside \<Rightarrow> news \<Rightarrow> nat" where
  "news_rank out s = main_rank out (main_pc s) + sum_list (map (task_rank out) (tasks s))"

lemma main_step_rank: "main_step s = Some s' \<Longrightarrow> news_rank out s' < news_rank out s"
  by (auto simp: main_step_def news_rank_def main_rank_def task_rank_def later_work_def split: main_pc.splits list.splits if_splits)

lemma goto_rank:
  assumes "i < length (tasks s)" and "tasks s' = tasks (goto i p s) @ new" and "main_pc s' = main_pc s"
    and "task_rank out ((tasks s ! i)\<lparr>t_pc := p\<rparr>) + sum_list (map (task_rank out) new) < task_rank out (tasks s ! i)"
  shows "news_rank out s' < news_rank out s"
  using sum_map_update [OF assms(1), of "task_rank out" "(tasks s ! i)\<lparr>t_pc := p\<rparr>"] assms(2-4)
  by (simp add: news_rank_def)

lemma later_work_pc [simp]: "later_work out (t\<lparr>t_pc := p\<rparr>) = later_work out t"
  by (simp add: later_work_def)

lemma after_fetch_rank:
  assumes "task_ok out given arts t" and "t_pc t = Releasing r"
  shows "task_rank out (t\<lparr>t_pc := after_fetch out t r\<rparr>) < task_rank out t"
proof -
  have "r = fetchURL (net out) (link (t_item t))"
    using assms by (auto simp: task_ok_def feed_ok_def article_ok_def Let_def split: if_splits)
  then show ?thesis using assms(2)
    by (auto simp: task_rank_def later_work_def after_fetch_def feed_items_def Let_def split: option.split)
qed

lemma serverSemaphore_simps [simp]: "tasks (serverSemaphore srv s) = tasks s" "main_pc (serverSemaphore srv s) = main_pc s"
  by (simp_all add: serverSemaphore_def split: option.split)

lemma task_step_rank:
  assumes inv: "news_inv out feeds s" and i: "i < length (tasks s)" and step: "task_step out i s = Some s'"
  shows "news_rank out s' < news_rank out s"
proof -
  note go = goto_rank [OF i, where new = "[]", simplified]
  have pos: "0 < later_work out t" for t by (simp add: later_work_def)
  show ?thesis
  proof (cases "t_pc (tasks s ! i)")
    case (Releasing r)
    note lower = after_fetch_rank [OF known_task [OF inv i] Releasing]
    show ?thesis by (rule go [of _ "after_fetch out (tasks s ! i) r"]) (use step Releasing lower in \<open>auto simp: task_step_def Let_def\<close>)
  next
    case (Scheduling xs)
    then show ?thesis
    proof (cases xs)
      case (Cons z zs)
      show ?thesis
        by (rule goto_rank [OF i, of _ "Scheduling zs" "[\<lparr>t_item = z, t_feed = False, t_pc = Queued\<rparr>]"])
          (use step Scheduling Cons in \<open>auto simp: task_step_def Let_def task_rank_def later_work_def\<close>)
    qed (use step in \<open>auto simp: task_step_def task_rank_def intro: go [of _ Completed]\<close>)
  next
    case Waiting
    then show ?thesis using step
      by (auto simp: task_step_def Let_def task_rank_def split: option.splits nat.splits intro!: go [of _ Fetching])
  next
    case Queued
    show ?thesis by (rule go [of _ "if t_feed (tasks s ! i) then Naming else Checking"])
        (use step Queued in \<open>auto simp: task_step_def Let_def task_rank_def split: if_splits\<close>)
  next
    case Checking
    show ?thesis by (rule go [of _ "if link (t_item (tasks s ! i)) \<in> seenURLs s then Skipped else Naming"])
        (use step Checking in \<open>auto simp: task_step_def Let_def task_rank_def pos split: if_splits\<close>)
  next
    case Naming
    then show ?thesis using step by (auto simp: task_step_def Let_def task_rank_def intro!: go [of _ Waiting])
  next
    case Fetching
    then show ?thesis using step
      by (auto simp: task_step_def Let_def task_rank_def intro!: go [of _ "Releasing (fetchURL (net out) (link (t_item (tasks s ! i))))"])
  next
    case (Adding c)
    then show ?thesis using step
      by (auto simp: task_step_def Let_def task_rank_def intro!: go [of _ "Indexing c (length (articles s))"])
  next
    case (Indexing c k)
    then show ?thesis using step by (auto simp: task_step_def Let_def task_rank_def intro!: go [of _ Completed])
  qed (use step in \<open>simp_all add: task_step_def\<close>)
qed

lemma news_step_rank: "news_step out s s' \<Longrightarrow> news_inv out feeds s \<Longrightarrow> news_rank out s' < news_rank out s"
  by (elim news_step_cases) (auto intro: main_step_rank task_step_rank)

section \<open>Progress\<close>

lemma unblocked:
  assumes "running (t_pc (tasks s ! i))" and "t_pc (tasks s ! i) \<noteq> Waiting"
  shows "\<exists>s'. task_step out i s = Some s'"
proof (cases "t_pc (tasks s ! i)")
  case (Scheduling xs)
  then show ?thesis by (cases xs) (simp_all add: task_step_def Let_def)
qed (use assms in \<open>auto simp: task_step_def running_def Let_def\<close>)

lemma waiting_progress:
  assumes inv: "news_inv out feeds s" and i: "i < length (tasks s)" and t: "t_pc (tasks s ! i) = Waiting"
  shows "\<exists>j s'. j < length (tasks s) \<and> task_step out j s = Some s'"
proof -
  let ?srv = "server_of (tasks s ! i)"
  have lim: "limits_inv s" using inv by (simp add: news_inv_def)
  obtain n where n: "serverLimits s ?srv = Some n" using limits_None [OF lim _ nth_mem [OF i] refl] t by fastforce
  show ?thesis
  proof (cases n)
    case 0
    then have "connections ?srv (tasks s) \<noteq> 0" using limits_Some [OF lim n] by (simp add: kMaxConnectionsPerServer_def)
    then obtain t' where "t' \<in> set (tasks s)" "holding (t_pc t')" by (auto simp: connections_def filter_empty_conv)
    then obtain j where j: "j < length (tasks s)" "holding (t_pc (tasks s ! j))" by (auto simp: in_set_conv_nth)
    have "running (t_pc (tasks s ! j))" "t_pc (tasks s ! j) \<noteq> Waiting" using j(2) by (auto simp: running_def)
    with unblocked j(1) show ?thesis by blast
  next
    case (Suc m)
    then show ?thesis using n t i by (intro exI [of _ i]) (simp add: task_step_def Let_def)
  qed
qed

lemma task_progress:
  assumes inv: "news_inv out feeds s" and i: "i < length (tasks s)" and t: "t_pc (tasks s ! i) \<notin> {Completed, Skipped}"
  shows "\<exists>j s'. j < length (tasks s) \<and> task_step out j s = Some s'"
proof (cases "\<exists>j < length (tasks s). running (t_pc (tasks s ! j))")
  case True
  then show ?thesis using unblocked waiting_progress [OF inv] by blast
next
  case False
  then have "t_pc (tasks s ! i) = Queued" using i t by (auto simp: running_def)
  moreover have "filter (\<lambda>t. t_feed t = b \<and> running (t_pc t)) (tasks s) = []" for b
    using False by (auto simp: filter_empty_conv in_set_conv_nth)
  then have "free_thread b s" for b by (simp add: free_thread_def feed_threads_def article_threads_def)
  ultimately show ?thesis using i by (intro exI [of _ i]) (simp add: task_step_def Let_def)
qed

lemma news_progress:
  assumes inv: "news_inv out feeds s" and m: "main_pc s \<noteq> Main_done"
  shows "\<exists>s'. news_step out s s'"
proof (cases "main_step s")
  case None
  then obtain b where "\<not> all_done b s" using m by (auto simp: main_step_def split: main_pc.splits list.splits if_splits)
  then obtain i where "i < length (tasks s)" "t_pc (tasks s ! i) \<notin> {Completed, Skipped}" by (auto simp: all_done_def list_all_length)
  from task_progress [OF inv this] show ?thesis using news_step.task_moves by blast
next
  case (Some s')
  then show ?thesis using news_step.main_moves by blast
qed

lemma news_steps_inv:
  "(news_step out ^^ k) (news_init feeds) s \<Longrightarrow> news_inv out feeds s \<and> news_rank out s + k \<le> news_rank out (news_init feeds)"
proof -
  let ?I = "\<lambda>w s. news_inv out feeds s \<and> news_rank out s = w"
  assume k: "(news_step out ^^ k) (news_init feeds) s"
  have "\<exists>w'. ?I w' s \<and> w' + k \<le> news_rank out (news_init feeds)"
    by (rule runs_bounded [OF k, where I = ?I]) (use news_init_inv news_step_inv news_step_rank in blast)+
  then show ?thesis by blast
qed

lemma news_runs_on: "news_inv out feeds s \<Longrightarrow> \<exists>k s'. (news_step out ^^ k) s s' \<and> main_pc s' = Main_done"
proof (induction "news_rank out s" arbitrary: s rule: less_induct)
  case less
  show ?case
  proof (cases "main_pc s = Main_done")
    case True
    then show ?thesis by (intro exI [of _ 0] exI [of _ s]) simp
  next
    case False
    then obtain t where t: "news_step out s t" using news_progress less.prems by blast
    then obtain k s' where k: "(news_step out ^^ k) t s'" "main_pc s' = Main_done"
      using less news_step_inv news_step_rank by meson
    then have "(news_step out ^^ Suc k) s s'" using t by (metis relpowp_Suc_I2)
    with k(2) show ?thesis by blast
  qed
qed

end
