(* ===== verification/Aggregate_Props.thy ===== *)
theory Aggregate_Props
  imports Aggregate_Live
begin

text \<open>
  The properties of the news aggregator: the index is exactly what its pages say, no server has more than
  eight downloads at once, and the replies to queries are ranked. At the end, where its tokenizer and its
  queries disagree.
\<close>

section \<open>The finished index\<close>

definition reached :: "outside \<Rightarrow> rss_item list \<Rightarrow> rss_item set" where
  "reached out feeds = (\<Union>f \<in> set feeds. set (feed_items out (link f)))"

lemma finished_tasks:
  assumes inv: "news_inv out feeds s" and m: "main_pc s = Main_done" and t: "t \<in> set (tasks s)"
  shows "t_pc t = Completed \<or> t_pc t = Skipped"
  using inv m t by (cases "t_feed t") (auto simp: news_inv_def main_inv_def all_done_def list_all_iff)

lemma finished_scheduled:
  assumes inv: "news_inv out feeds s" and m: "main_pc s = Main_done"
  shows "scheduled False s = reached out feeds"
proof
  show "scheduled False s \<subseteq> reached out feeds" using inv by (auto simp: news_inv_def main_inv_def reached_def)
  have feeds: "scheduled True s = set feeds" using inv m by (simp add: news_inv_def main_inv_def)
  have "set (feed_items out (link f)) \<subseteq> scheduled False s" if "f \<in> set feeds" for f
  proof -
    have "(True, f) \<in> kinds (tasks s)" using feeds that by (auto simp: scheduled_def)
    then obtain t where t: "t \<in> set (tasks s)" "t_feed t" "t_item t = f" by (auto simp: kinds_def)
    have "feed_ok out (scheduled False s) t" using inv t by (auto simp: news_inv_def tasks_inv_def task_ok_def)
    then show ?thesis using finished_tasks [OF inv m t(1)] t(3) by (auto simp: feed_ok_def)
  qed
  then show "reached out feeds \<subseteq> scheduled False s" by (auto simp: reached_def)
qed

lemma finished_links:
  assumes inv: "news_inv out feeds s" and m: "main_pc s = Main_done"
  shows "link ` set (articles s) = {url \<in> link ` reached out feeds. page_tokens out url \<noteq> []}"
proof (intro equalityI subsetI)
  fix url
  assume "url \<in> link ` set (articles s)"
  then obtain k where k: "k < length (articles s)" "url = link (articles s ! k)" by (auto simp: in_set_conv_nth)
  then obtain i where i: "i < length (tasks s)" "owner (tasks s ! i)" "t_item (tasks s ! i) = articles s ! k"
    using inv unfolding news_inv_def articles_inv_def by blast
  have "(t_feed (tasks s ! i), t_item (tasks s ! i)) \<in> kinds (tasks s)" using i(1) by (simp add: kinds_def)
  then have "articles s ! k \<in> scheduled False s" using i(2,3) by (simp add: scheduled_def owner_def)
  moreover have "page_tokens out url \<noteq> []" using inv k by (auto simp: news_inv_def index_inv_def)
  ultimately show "url \<in> {url \<in> link ` reached out feeds. page_tokens out url \<noteq> []}"
    using k(2) finished_scheduled [OF inv m] by auto
next
  fix url
  assume "url \<in> {url \<in> link ` reached out feeds. page_tokens out url \<noteq> []}"
  then obtain x where x: "x \<in> scheduled False s" "url = link x" "page_tokens out url \<noteq> []"
    using finished_scheduled [OF inv m] by auto
  then obtain t where t: "t \<in> set (tasks s)" "\<not> t_feed t" "t_item t = x" by (auto simp: scheduled_def kinds_def)
  have own: "owners_inv s" using inv by (simp add: news_inv_def)
  have "\<exists>u \<in> set (tasks s). owner u \<and> link (t_item u) = url"
  proof (cases "t_pc t = Skipped")
    case True
    then have "url \<in> set (owner_links (tasks s))" using own t x(2) unfolding owners_inv_def by auto
    then show ?thesis by (auto simp: owner_links_def)
  next
    case False
    then have "owner t" using finished_tasks [OF inv m t(1)] t(2) by (auto simp: owner_def)
    then show ?thesis using t x(2) by auto
  qed
  then obtain u where u: "u \<in> set (tasks s)" "owner u" "link (t_item u) = url" by blast
  then have "t_pc u = Completed" using finished_tasks [OF inv m u(1)] by (auto simp: owner_def)
  moreover have "article_ok out (articles s) u"
    using inv u by (auto simp: news_inv_def tasks_inv_def task_ok_def owner_def)
  ultimately show "url \<in> link ` set (articles s)" using u(3) x(3) by (auto simp: article_ok_def Let_def)
qed

lemma finished_index:
  assumes inv: "news_inv out feeds s" and m: "main_pc s = Main_done"
  shows "counts_ok (row (invertedIndex s) q) \<and> count_at (row (invertedIndex s) q) k =
    (if k < length (articles s) then count_list (page_tokens out (link (articles s ! k))) q else 0)"
proof -
  have "\<not> pending (tasks s) k" for k using finished_tasks [OF inv m] by (fastforce simp: pending_def dest: nth_mem)
  then show ?thesis using inv by (simp add: news_inv_def index_inv_def)
qed

text \<open>
  C33: the index is exact. However the main thread, the feed tasks and the article tasks interleave, the run
  ends within a bound and is never stuck before. At the end the article table has every URL once: those
  that some feed lists, that could be downloaded and whose page has a token. Each article is an item of a
  feed, and the index gives, for every token and article, how often the page has the token.
\<close>

theorem index_exact:
  assumes "(news_step out ^^ k) (news_init feeds) s"
  shows "k \<le> news_rank out (news_init feeds) \<and>
    (if main_pc s = Main_done
     then distinct (map link (articles s)) \<and> set (articles s) \<subseteq> reached out feeds \<and>
       link ` set (articles s) = {url \<in> link ` reached out feeds. page_tokens out url \<noteq> []} \<and>
       (\<forall>q j. count_at (row (invertedIndex s) q) j =
         (if j < length (articles s) then count_list (page_tokens out (link (articles s ! j))) q else 0))
     else \<exists>s'. news_step out s s')"
proof -
  have inv: "news_inv out feeds s" and k: "k \<le> news_rank out (news_init feeds)"
    using news_steps_inv [OF assms] by auto
  have "set (articles s) \<subseteq> reached out feeds"
  proof
    fix x
    assume "x \<in> set (articles s)"
    then obtain j where j: "j < length (articles s)" "x = articles s ! j" by (auto simp: in_set_conv_nth)
    then obtain i where i: "i < length (tasks s)" "owner (tasks s ! i)" "t_item (tasks s ! i) = x"
      using inv unfolding news_inv_def articles_inv_def by blast
    have "(t_feed (tasks s ! i), t_item (tasks s ! i)) \<in> kinds (tasks s)" using i(1) by (simp add: kinds_def)
    then have "x \<in> scheduled False s" using i(2,3) by (simp add: scheduled_def owner_def)
    then show "x \<in> reached out feeds" using inv by (auto simp: news_inv_def main_inv_def reached_def)
  qed
  moreover have "distinct (map link (articles s))" using inv by (simp add: news_inv_def articles_inv_def)
  ultimately show ?thesis
    using k finished_links [OF inv] finished_index [OF inv] news_progress [OF inv] by simp
qed

section \<open>An example\<close>

text \<open>One server with a feed of two items that share a URL and a third whose page is missing.\<close>

definition page_ok :: "string \<Rightarrow> string" where
  "page_ok body = ''HTTP/1.0 200 OK'' @ CRLF @ CRLF @ body"

definition example_answer :: "string \<Rightarrow> string list" where
  "example_answer req =
     (if take 6 req = ''GET /f'' then [page_ok ''feed'']
      else if take 6 req = ''GET /a'' then [take 9 (page_ok ''Red fish, red boat''), drop 9 (page_ok ''Red fish, red boat'')]
      else [''HTTP/1.0 404 Not Found'' @ CRLF @ CRLF])"

definition example_node :: "string \<Rightarrow> xml_node" where
  "example_node l = Element_node ''item'' []
     [Element_node ''Title'' [] [Text_node l], Element_node ''link'' [] [Text_node l]]"

fun example_content :: "xml_node \<Rightarrow> string" where
  "example_content (Element_node n attrs (Text_node l # kids)) = l"
| "example_content _ = []"

definition example_outside :: outside where
  "example_outside = \<lparr>
     net = \<lparr>getaddrinfo = (\<lambda>host port. if host = ''n.org''
       then Some [\<lparr>a_socket = True, a_peer = None\<rparr>, \<lparr>a_socket = True, a_peer = Some \<lparr>p_writes = [3, 10], p_answer = example_answer\<rparr>\<rparr>]
       else None)\<rparr>,
     lib = \<lparr>read_xml = (\<lambda>xml base. [Element_node ''rss'' [] [example_node ''/a'', example_node ''/a'', example_node ''/gone'']]),
       read_html = (\<lambda>html. [Text_node html]), node_content = example_content\<rparr>\<rparr>"

definition example_feeds :: "rss_item list" where
  "example_feeds = [\<lparr>title = ''Feed'', link = ''http://n.org/f''\<rparr>]"

lemma example_items: "map link (feed_items example_outside ''http://n.org/f'') = [''http://n.org:80/a'', ''http://n.org:80/a'', ''http://n.org:80/gone'']"
  by code_simp

lemma example_tokens: "page_tokens example_outside ''http://n.org:80/a'' = [''red'', ''fish'', ''red'', ''boat'']"
  "page_tokens example_outside ''http://n.org:80/gone'' = []"
  by code_simp+

lemma example_reached: "link ` reached example_outside example_feeds = {''http://n.org:80/a'', ''http://n.org:80/gone''}"
proof -
  have "link ` set (feed_items example_outside ''http://n.org/f'') = {''http://n.org:80/a'', ''http://n.org:80/gone''}"
    using arg_cong [OF example_items, of set] by simp
  then show ?thesis by (simp add: reached_def example_feeds_def)
qed

lemma example_pages: "{url \<in> link ` reached example_outside example_feeds. page_tokens example_outside url \<noteq> []} = {''http://n.org:80/a''}"
  unfolding example_reached using example_tokens by auto

lemma example_ends: "\<exists>k s. (news_step example_outside ^^ k) (news_init example_feeds) s \<and> main_pc s = Main_done"
  using news_runs_on [OF news_init_inv] .

lemma index_exact_witness:
  "\<exists>k s. (news_step example_outside ^^ k) (news_init example_feeds) s \<and> map link (articles s) = [''http://n.org:80/a''] \<and>
    (\<forall>q. count_at (row (invertedIndex s) q) 0 = count_list [''red'', ''fish'', ''red'', ''boat''] q)"
proof -
  obtain k s where s: "(news_step example_outside ^^ k) (news_init example_feeds) s" "main_pc s = Main_done"
    using example_ends by blast
  note ix = index_exact [OF s(1), unfolded s(2) if_P [OF refl] example_pages]
  have set: "set (map link (articles s)) = {''http://n.org:80/a''}" and dist: "distinct (map link (articles s))" using ix by simp_all
  then have one: "length (map link (articles s)) = 1" using distinct_card [OF dist] by simp
  then obtain u where u: "map link (articles s) = [u]" by (cases "map link (articles s)") auto
  then have links: "map link (articles s) = [''http://n.org:80/a'']" using set by simp
  then have "link (articles s ! 0) = ''http://n.org:80/a''" by (cases "articles s") simp_all
  moreover have "0 < length (articles s)" using one by simp
  ultimately have "\<forall>q. count_at (row (invertedIndex s) q) 0 = count_list [''red'', ''fish'', ''red'', ''boat''] q"
    using ix example_tokens(1) by simp
  with s(1) links show ?thesis by (intro exI [of _ k] exI [of _ s]) simp
qed

section \<open>The limit per server\<close>

text \<open>
  C34: at every moment of every run no server is being downloaded from more than
  \<open>kMaxConnectionsPerServer\<close> times by the tasks of both pools, and the count of its semaphore is exactly
  the number of downloads it still admits.
\<close>

theorem server_limit:
  assumes "(news_step out ^^ k) (news_init feeds) s"
  shows "connections srv (tasks s) \<le> kMaxConnectionsPerServer \<and>
    (case serverLimits s srv of None \<Rightarrow> connections srv (tasks s) = 0
     | Some n \<Rightarrow> n = kMaxConnectionsPerServer - connections srv (tasks s))"
proof -
  have lim: "limits_inv s" using news_steps_inv [OF assms] by (simp add: news_inv_def)
  show ?thesis
  proof (cases "serverLimits s srv")
    case None
    then have "connections srv (tasks s) = 0" using limits_None [OF lim None] by (auto simp: connections_def filter_empty_conv)
    with None show ?thesis by simp
  next
    case (Some n)
    then show ?thesis using limits_Some [OF lim Some] by simp
  qed
qed

lemma server_limit_witness:
  "\<exists>k s. (news_step example_outside ^^ k) (news_init example_feeds) s \<and> main_pc s = Main_done \<and>
    connections ''n.org:80'' (tasks s) \<le> kMaxConnectionsPerServer \<and>
    (case serverLimits s ''n.org:80'' of None \<Rightarrow> connections ''n.org:80'' (tasks s) = 0
     | Some n \<Rightarrow> n = kMaxConnectionsPerServer - connections ''n.org:80'' (tasks s))"
proof -
  obtain k s where s: "(news_step example_outside ^^ k) (news_init example_feeds) s" "main_pc s = Main_done"
    using example_ends by blast
  show ?thesis by (rule exI [of _ k], rule exI [of _ s], rule conjI, rule s(1), rule conjI, rule s(2), rule server_limit [OF s(1)])
qed

section \<open>Queries\<close>

text \<open>The articles with a token, with their counts, and the order of the replies.\<close>

definition matches :: "outside \<Rightarrow> rss_item list \<Rightarrow> string \<Rightarrow> (nat \<times> rss_item) list" where
  "matches out arts q = map (\<lambda>a. (count_list (page_tokens out (link a)) q, a)) (filter (\<lambda>a. q \<in> set (page_tokens out (link a))) arts)"

definition better :: "nat \<times> rss_item \<Rightarrow> nat \<times> rss_item \<Rightarrow> bool" where
  "better x y \<longleftrightarrow> fst x > fst y \<or> fst x = fst y \<and> title (snd x) < title (snd y)"

lemma hit_before_strict_weak: "strict_weak (hit_before arts)"
  unfolding strict_weak_def hit_before_def by (auto split: if_splits)

lemma finished_row:
  assumes inv: "news_inv out feeds s" and m: "main_pc s = Main_done"
  shows "mset (map (\<lambda>h. (snd h, articles s ! fst h)) (row (invertedIndex s) q)) = mset (matches out (articles s) q)"
proof -
  let ?row = "row (invertedIndex s) q" and ?arts = "articles s"
  let ?cnt = "\<lambda>k. count_list (page_tokens out (link (?arts ! k))) q"
  let ?ks = "filter (\<lambda>k. q \<in> set (page_tokens out (link (?arts ! k)))) [0..<length ?arts]"
  note ix = finished_index [OF inv m, of q]
  have ok: "counts_ok ?row" using ix by blast
  have "(k, n) \<in> set ?row \<longleftrightarrow> (k, n) \<in> set (map (\<lambda>k. (k, ?cnt k)) ?ks)" for k n
    using counts_member [OF ok, of k n] ix [of k] count_list_0_iff [of "page_tokens out (link (?arts ! k))" q]
    by (cases "k < length ?arts") (auto simp: image_iff)
  then have "set ?row = set (map (\<lambda>k. (k, ?cnt k)) ?ks)" by auto
  moreover have "distinct ?row" using ok by (simp add: counts_ok_def strict_sorted_iff distinct_map)
  moreover have "distinct (map (\<lambda>k. (k, ?cnt k)) ?ks)" by (simp add: distinct_map inj_on_def)
  ultimately have "mset ?row = mset (map (\<lambda>k. (k, ?cnt k)) ?ks)" using set_eq_iff_mset_eq_distinct by blast
  then have "mset (map (\<lambda>h. (snd h, ?arts ! fst h)) ?row) = mset (map (\<lambda>h. (snd h, ?arts ! fst h)) (map (\<lambda>k. (k, ?cnt k)) ?ks))"
    by (metis mset_map)
  also have "map (\<lambda>h. (snd h, ?arts ! fst h)) (map (\<lambda>k. (k, ?cnt k)) ?ks) = matches out ?arts q"
  proof -
    have "filter (\<lambda>a. q \<in> set (page_tokens out (link a))) ?arts = map (\<lambda>k. ?arts ! k) ?ks"
      by (subst map_nth [of ?arts, symmetric]) (simp only: filter_map comp_def)
    then show ?thesis by (simp add: matches_def)
  qed
  finally show ?thesis .
qed

text \<open>
  C35: what a query answers. On a finished index, for any \<open>std::sort\<close> that meets its contract: a word is
  refused only if it has no letters or digits or no article contains it; otherwise the reply announces
  the exact number of articles that do, and shows the first ten of a list that has each of them once with
  its count, most frequent first and titles in order among equals.
\<close>

theorem query_ranked:
  assumes "sorts std_sort" and "(news_step out ^^ k) (news_init feeds) s" and "main_pc s = Main_done"
  shows "case query std_sort s word of
      No_matches w \<Rightarrow> w = word \<and> (normalize_word word = [] \<or> matches out (articles s) (normalize_word word) = [])
    | Hits n q shown \<Rightarrow> q = normalize_word word \<and> q \<noteq> [] \<and> n = length (matches out (articles s) q) \<and> 0 < n \<and>
        (\<exists>ranked. mset ranked = mset (matches out (articles s) q) \<and> sorted_wrt (\<lambda>x y. \<not> better y x) ranked \<and> shown = take 10 ranked)"
proof -
  let ?q = "normalize_word word" and ?f = "\<lambda>h. (snd h, articles s ! fst h)"
  have inv: "news_inv out feeds s" using news_steps_inv [OF assms(2)] by blast
  note fr = finished_row [OF inv assms(3), of ?q]
  then have len: "length (row (invertedIndex s) ?q) = length (matches out (articles s) ?q)" by (metis length_map size_mset)
  show ?thesis
  proof (cases "?q = [] \<or> row (invertedIndex s) ?q = []")
    case True
    then have "query std_sort s word = No_matches word" by (auto simp: query_def row_def Let_def split: option.splits)
    then show ?thesis using True len by auto
  next
    case False
    then obtain m where m: "invertedIndex s ?q = Some m" "m \<noteq> []" by (auto simp: row_def split: option.splits)
    let ?hits = "std_sort (hit_before (articles s)) m"
    have sorted: "mset ?hits = mset m" "sorted_wrt (\<lambda>x y. \<not> hit_before (articles s) y x) ?hits"
      using assms(1) hit_before_strict_weak unfolding sorts_def by blast+
    have row: "row (invertedIndex s) ?q = m" by (simp add: row_def m)
    have ans: "query std_sort s word = Hits (length ?hits) ?q (take 10 (map ?f ?hits))"
      using m False by (simp add: query_def Let_def take_map)
    have lh: "length ?hits = length m" using sorted(1) by (metis size_mset)
    have ms: "mset (map ?f ?hits) = mset (matches out (articles s) ?q)" using fr sorted(1) unfolding row by (metis mset_map)
    have "sorted_wrt (\<lambda>x y. \<not> better y x) (map ?f ?hits)"
      unfolding sorted_wrt_map using sorted(2)
      by (rule sorted_wrt_mono_rel [rotated]) (auto simp: better_def hit_before_def split: if_splits)
    with ms have "\<exists>ranked. mset ranked = mset (matches out (articles s) ?q) \<and> sorted_wrt (\<lambda>x y. \<not> better y x) ranked \<and>
        take 10 (map ?f ?hits) = take 10 ranked" by blast
    moreover have "0 < length (matches out (articles s) ?q)" using m(2) len unfolding row by (metis length_greater_0_conv)
    ultimately show ?thesis using False len lh unfolding ans row by simp
  qed
qed

lemma query_ranked_witness:
  "\<exists>k s. (news_step example_outside ^^ k) (news_init example_feeds) s \<and> main_pc s = Main_done \<and>
    (case query insertion_sort s ''Red!'' of
      No_matches w \<Rightarrow> w = ''Red!'' \<and> (normalize_word ''Red!'' = [] \<or> matches example_outside (articles s) (normalize_word ''Red!'') = [])
    | Hits n q shown \<Rightarrow> q = normalize_word ''Red!'' \<and> q \<noteq> [] \<and> n = length (matches example_outside (articles s) q) \<and> 0 < n \<and>
        (\<exists>ranked. mset ranked = mset (matches example_outside (articles s) q) \<and> sorted_wrt (\<lambda>x y. \<not> better y x) ranked \<and> shown = take 10 ranked))"
proof -
  obtain k s where s: "(news_step example_outside ^^ k) (news_init example_feeds) s" "main_pc s = Main_done"
    using example_ends by blast
  show ?thesis
    by (rule exI [of _ k], rule exI [of _ s], rule conjI, rule s(1), rule conjI, rule s(2), rule query_ranked [OF insertion_sort_sorts s])
qed

section \<open>Where queries and pages disagree\<close>

text \<open>
  \<open>normalize_word\<close> deletes what is not alphanumeric while the tokenizer cuts there: a word with an apostrophe or a
  hyphen is looked up under a name that its own page does not have.
\<close>

lemma punctuation_lost: "text_words ''don't'' = [''don'', ''t'']" "normalize_word ''don't'' = ''dont''"
  by code_simp+

lemma page_token_length: "w \<in> set (page_tokens out url) \<Longrightarrow> 2 \<le> length w \<and> length w \<le> 32"
  by (auto simp: page_tokens_def tokenize_words kept_def split: option.splits)

text \<open>Words of one character, or of more than 32, never match.\<close>

lemma odd_lengths_never_match: "length q < 2 \<or> 32 < length q \<Longrightarrow> matches out arts q = []"
  using page_token_length by (fastforce simp: matches_def filter_empty_conv)

end
