(* ===== verification/Spec2Isabelle.thy ===== *)
theory Spec2Isabelle
  imports V6_Path V6_Tests Amazon_Main Proxy_Server Tp_Test Mr_Program Stsh_Signals Subprocess_Tests ThreadPool_Bag Proxy_Props Stsh_Props Subprocess Amazon_Props Spawn MapReduce_Props Farm_Factor Aggregate_Props
begin

text \<open>
  The systems programs of a CS110 course: a reader and builder of Unix v6 file systems, a thread pool and
  its semaphore, an HTTP proxy, a shell with job control, subprocess and pipeline libraries, a farm of
  worker processes, a MapReduce engine, a product-review database and a news aggregator. The programs of
  \<open>src/\<close> are translated into HOL functions and step relations, one theory or small group of theories each.

  \<^bold>\<open>How the parts interact.\<close> The thread pool of \<open>thread-pool.cc\<close> is built on \<open>semaphore.h\<close>; the same files
  serve the proxy, the MapReduce engine and the aggregator. The proxy and the aggregator share \<open>http.h\<close> and
  \<open>http.cc\<close>, byte for byte. The shell and the subprocess libraries work on descriptor tables. The MapReduce
  engine runs its filters through its own \<open>subprocess.cc\<close>. The database builder, the database reader, the
  mapper and the aggregator cut texts into the same words.

  \<^bold>\<open>Conventions.\<close> C and C++ strings are \<open>string\<close>, raw bytes and on-disk integers are words of their width,
  \<open>int\<close> and \<open>size_t\<close> values that the code keeps in range are \<open>int\<close> and \<open>nat\<close>. A failing call is a value of
  an option or sum type; behaviour that C leaves undefined (a buffer overrun, a read outside a mapping) is
  \<open>None\<close>. Threads, processes and signal handlers are interleaved by step relations whose steps are critical
  sections, system calls or statements, as each theory says. Every loop is a recursion with a measure, but
  for the trial division of \<open>factor.py\<close>, a partial function that is shown to return, and
  for the recursive directory walk, which has fuel: depth 5 is shown to be enough for the image that
  \<open>mkfs_v6\<close> builds. A run is bounded by a rank that every step lowers. What is not in the repository (the
  kernel's choices, clients and servers, the name service, the clock, regular expressions, libxml2,
  \<open>std::sort\<close>, \<open>std::hash\<close>) is an argument of the definitions, or a script of the results of its calls.

  \<^bold>\<open>Theories.\<close>

  \<^item> \<open>Prelude\<close>, \<open>Tokens\<close>, \<open>Sorting\<close>: bytes, character classes, the parts of the C and C++ libraries the code
    calls, updates of lists in one place; words of a text; the contract of \<open>std::sort\<close> and counts by key.
  \<^item> \<open>V6_Disk\<close> (\<open>diskimg.c\<close>), \<open>V6_Inode\<close> (\<open>inode.c\<close>, \<open>file.c\<close>), \<open>V6_Directory\<close> (\<open>directory.c\<close>, \<open>pathname.c\<close>),
    \<open>V6_Mkfs\<close> and \<open>V6_Image\<close> (\<open>mkfs_v6.c\<close>), \<open>V6_Tree\<close> (\<open>diskimageaccess.c\<close>), \<open>V6_Tests\<close> (\<open>runtests.c\<close>). The
    short and interrupted transfers of \<open>pread\<close> and \<open>pwrite\<close> refine an atomic block device; \<open>V6_Roundtrip\<close>
    reads back what \<open>make_file\<close> and \<open>make_dir\<close> wrote, up to seven indirect blocks; the demo image is walked
    and tested as a whole; \<open>V6_Path\<close>: a lookup follows the names of a path through the tree on the disk, with directories of any size.
  \<^item> \<open>Semaphore\<close> (\<open>semaphore.h\<close>), \<open>ThreadPool\<close>, \<open>ThreadPool_Inv\<close>, \<open>ThreadPool_Live\<close>, \<open>ThreadPool_Bag\<close> (\<open>thread-pool.cc\<close>),
    \<open>Pool_Client\<close>, \<open>Pool_Tasks\<close>, \<open>Tp_Test\<close> (\<open>tptest.cc\<close>): no lost wake-up; every thunk runs once, \<open>wait\<close> and the
    destructor return, whatever the interleaving of clients, dispatcher and workers; the pool refines a bag of thunks
    of which at most \<open>n\<close> run, which is how the aggregator and the proxy see it. A main thread that makes, uses and
    destroys pools is a labelled step relation; with it the pool's tests, which cannot tell the pool from
    calling each thunk on the spot, and blocks of tasks that take several steps over a shared state.
  \<^item> \<open>Http_Reader\<close>, \<open>Http_Message\<close> (\<open>http.cc\<close>), \<open>Proxy\<close>, \<open>Proxy_Props\<close>, \<open>Proxy_Server\<close> (\<open>proxy.cc\<close>): parsing
    does not depend on how the network cuts the stream; requests and responses survive serialization; the
    cache, the blocklist and the descriptors of a connection; where each reply comes from when sixteen
    workers share the cache.
  \<^item> \<open>Stsh_Parse\<close> (\<open>stsh-parse.cc\<close>), \<open>Stsh_Jobs\<close>, \<open>Stsh_Control\<close>, \<open>Stsh_Reach\<close>, \<open>Stsh_Plumbing\<close>, \<open>Stsh_Props\<close>
    (\<open>stsh.cc\<close>) over \<open>Posix_Fd\<close>: the parser, the job list and its invariant over every reachable state,
    signals that arrive between any two steps, the foreground job and the terminal, and the plumbing of
    a pipeline. The kernel keeps a table of the children that \<open>waitpid\<close> has not reported dead (\<open>unreaped\<close>); \<open>fork\<close> returns no pid of
    one of them, but may return the pid of a child that has been reaped, and \<open>reused\<close> records when the job list still showed
    it. What needs \<open>reused\<close> to be false says so, and \<open>reused_pid_hangs\<close> shows what goes wrong else. \<open>Stsh_Signals\<close> takes the
    sections statement by statement under the real signal masks, with signals delivered in between, and shows that the
    masks make each section one step of \<open>Stsh_Jobs\<close>' relation.
  \<^item> \<open>Subprocess\<close> (\<open>multiprocessing/subprocess.cc\<close>, \<open>pipeline.cc\<close>), \<open>Subprocess_Tests\<close> (their two
    test drivers), \<open>Spawn\<close> (\<open>mapreduce/subprocess.cc\<close>, called by
    many threads at once), \<open>Farm\<close> (\<open>farm.cc\<close>: manager, \<open>SIGCHLD\<close> handler and workers, at the grain of the
    manager's loads and stores; the two races it can lose are ghost fields, \<open>lost\<close> and \<open>missed\<close>), \<open>Factor\<close> (\<open>factor.py\<close>: trial
    division and the self-halting protocol), \<open>Farm_Factor\<close> (the farm with these workers, down to the lines printed).
  \<^item> \<open>Run_Filter\<close>, \<open>MapReduce\<close>, \<open>MapReduce_Props\<close>, \<open>Mr_Program\<close> (\<open>mr.cc\<close>, \<open>mapper.cc\<close>, \<open>reducer.cc\<close>): filters over
    bounded pipes, the shuffle on every schedule of the map tasks, and the whole program on its two thread pools, from
    its arguments to the output files and the word counts in them.
  \<^item> \<open>Amazon_Layout\<close>, \<open>Amazon_Build\<close> (\<open>mkamazondb.cc\<close>), \<open>Amazon\<close> (\<open>amazon.cc\<close>), \<open>Amazon_Db\<close>, \<open>Amazon_Kwi\<close>,
    \<open>Amazon_Search\<close>, \<open>Amazon_Props\<close>, \<open>Amazon_Main\<close> (\<open>amazon_search.cc\<close>, \<open>dbase_test.cc\<close>): both files byte by
    byte, every record and keyword read back, the exact answer of a search and what the programs print.
  \<^item> \<open>Fetch\<close> (\<open>fetch.cc\<close>), \<open>News_Xml\<close> (\<open>xml-utils.cc\<close>), \<open>Aggregate\<close>, \<open>Aggregate_Inv\<close>, \<open>Aggregate_Step\<close>,
    \<open>Aggregate_Live\<close>, \<open>Aggregate_Props\<close> (\<open>aggregate.cc\<close>): the HTTP client, feeds and pages as trees, and the
    concurrent inverted index: complete, free of duplicates, polite to servers, and ranked.

  \<^bold>\<open>Interfaces.\<close> A locale states what a client relies on, and an interpretation in the provider's theory
  shows that the code's model keeps it: \<open>block_device\<close> (the file system readers on \<open>diskimg.c\<close>),
  \<open>counting_semaphore\<close> (the thread pool), \<open>pool_tasks\<close> (what a block on a thread pool asks of its tasks:
  the map tasks and the reduce tasks keep it), \<open>byte_stream\<close> and \<open>header_map\<close> (the HTTP parsers),
  \<open>expiring_cache\<close> (the proxy's connections),
  \<open>descriptor_table\<close> (shell and subprocesses), \<open>keyword_index\<close> (the search), \<open>tally\<close> (the aggregator's counts).

  \<^bold>\<open>Not modelled.\<close> The text that programs print for people where no property needs it; terminal modes;
  allocation failure; signed overflow in counters that
  memory bounds below \<open>INT_MAX\<close>; SIGPIPE in the proxy, the aggregator and the MapReduce engine's own calls, where a failing
  \<open>write\<close> only returns its error; and statements inside a signal handler, where nothing else can run. A download of the aggregator and an \<open>execvp\<close> of a program are taken to end.
\<close>

end
